(* ===== verification/Prelude.thy ===== *)
theory Prelude
  imports Main "HOL-Library.Word" "HOL-Library.Monad_Syntax"
begin

unbundle bit_operations_syntax

text \<open>
  Shared ground of the development: the named collections its proofs draw on, the machine
  types of the runtime (\<open>src/runtime/include/def.h\<close>), the effect of the
  \<open>CHECK\<close>/\<open>assert\<close> macro (\<open>src/runtime/include/syscall.h\<close>), byte memory with 64-bit
  little-endian accesses, and generic facts about lists and words.

  A computation that may end the process has an \<open>option\<close> result: every \<open>quit(-1)\<close>,
  failed \<open>CHECK\<close> and failed \<open>assert\<close> of the C code is \<open>None\<close>, since \<open>quit\<close> is the
  \<open>exit_group\<close> system call and never returns.
\<close>

section \<open>Collections\<close>

named_theorems dict_simps \<open>lookup, keys and well-formedness of dictionaries after each operation\<close>
named_theorems graph_simps \<open>edges and vertices of adjacency graphs after each operation\<close>
named_theorems mem_simps \<open>reads after writes of byte memory\<close>
named_theorems inv_intros \<open>preservation of the components' invariants\<close>

section \<open>Machine types\<close>

type_synonym u8 = "8 word"
type_synonym u16 = "16 word"
type_synonym u32 = "32 word"
type_synonym u64 = "64 word"

text \<open>Sizes and addresses: \<open>def.h\<close>, lines 168--172.\<close>

definition PAGE_SIZE :: u64 where "PAGE_SIZE = 4096"

definition SixtyFourKB :: u64 where "SixtyFourKB = push_bit 16 1"

definition FourGB :: u64 where "FourGB = push_bit 32 1"

lemma PAGE_SIZE_eq [simp]: "PAGE_SIZE = 4096"
  by (simp add: PAGE_SIZE_def)

lemma FourGB_eq: "FourGB = 4294967296"
  by (simp add: FourGB_def)

lemma SixtyFourKB_eq: "SixtyFourKB = 65536"
  by (simp add: SixtyFourKB_def)

section \<open>Checks\<close>

text \<open>\<open>CHECK(cond)\<close> prints and calls \<open>quit(-1)\<close> when the condition is false.\<close>

definition CHECK :: "bool \<Rightarrow> unit option" where
  "CHECK c = (if c then Some () else None)"

lemma CHECK_simps [simp]: "CHECK True = Some ()" "CHECK False = None"
  by (simp_all add: CHECK_def)

lemma CHECK_eq_Some [simp]: "CHECK c = Some u \<longleftrightarrow> c"
  by (simp add: CHECK_def)

lemma bind_CHECK_eq_Some [simp]: "Option.bind (CHECK c) f = Some y \<longleftrightarrow> c \<and> f () = Some y"
  by (simp add: CHECK_def)

text \<open>Folding a step that may quit over a list, as the C \<open>FOREACH\<close> loops do.\<close>

fun foldM :: "('a \<Rightarrow> 's \<Rightarrow> 's option) \<Rightarrow> 'a list \<Rightarrow> 's \<Rightarrow> 's option" where
  "foldM f [] s = Some s"
| "foldM f (x # xs) s = Option.bind (f x s) (foldM f xs)"

lemma foldM_append: "foldM f (xs @ ys) s = Option.bind (foldM f xs s) (foldM f ys)"
  by (induction xs arbitrary: s) (auto split: Option.bind_splits)

lemma foldM_Some: "(\<And>x s. f x s = Some (g x s)) \<Longrightarrow> foldM f xs s = Some (fold g xs s)"
  by (induction xs arbitrary: s) auto

lemma foldM_invariant:
  assumes "foldM f xs s = Some s'" and "P s"
    and "\<And>x s s'. x \<in> set xs \<Longrightarrow> P s \<Longrightarrow> f x s = Some s' \<Longrightarrow> P s'"
  shows "P s'"
  using assms
proof (induction xs arbitrary: s)
  case Nil
  then show ?case by simp
next
  case (Cons x xs)
  then obtain s1 where s1: "f x s = Some s1" and rest: "foldM f xs s1 = Some s'"
    by (auto split: Option.bind_splits)
  have "P s1" using Cons.prems(2,3) s1 by auto
  with Cons.IH [OF rest] Cons.prems(3) show ?case by auto
qed

lemma foldM_total:
  assumes "P s" and "\<And>x s. x \<in> set xs \<Longrightarrow> P s \<Longrightarrow> \<exists>s'. f x s = Some s' \<and> P s'"
  shows "\<exists>s'. foldM f xs s = Some s' \<and> P s'"
  using assms
proof (induction xs arbitrary: s)
  case Nil
  then show ?case by simp
next
  case (Cons x xs)
  then obtain s1 where "f x s = Some s1" "P s1" by (metis list.set_intros(1))
  moreover have "\<exists>s'. foldM f xs s1 = Some s' \<and> P s'"
    using Cons.IH [OF \<open>P s1\<close>] Cons.prems(2) by simp
  ultimately show ?case by simp
qed

section \<open>Lists\<close>

lemma fold_collect:
  "(\<And>x s. Q (f x s) \<longleftrightarrow> Q s \<or> P x) \<Longrightarrow> Q (fold f xs s) \<longleftrightarrow> Q s \<or> (\<exists>x \<in> set xs. P x)"
  by (induction xs arbitrary: s) auto

lemma fold_invariant_set:
  assumes "P s" and "\<And>x s. x \<in> set xs \<Longrightarrow> P s \<Longrightarrow> P (f x s)"
  shows "P (fold f xs s)"
  using assms by (induction xs arbitrary: s) auto

lemma map_fst_filter_ne: "map fst (filter (\<lambda>p. fst p \<noteq> k) d) = filter (\<lambda>x. x \<noteq> k) (map fst d)"
  by (induction d) auto

section \<open>Byte memory\<close>

text \<open>
  The table region, code bytes and the bitmaps are arrays of bytes read and written at byte
  offsets, one, four or eight bytes at a time on a little-endian machine.
\<close>

type_synonym mem = "nat \<Rightarrow> u8"

definition byte_of :: "nat \<Rightarrow> u64 \<Rightarrow> u8" where
  "byte_of i v = ucast (drop_bit (8 * i) v)"

definition write64 :: "mem \<Rightarrow> nat \<Rightarrow> u64 \<Rightarrow> mem" where
  "write64 t a v = (\<lambda>x. if a \<le> x \<and> x < a + 8 then byte_of (x - a) v else t x)"

fun read_le :: "mem \<Rightarrow> nat \<Rightarrow> nat \<Rightarrow> u64" where
  "read_le t a 0 = 0"
| "read_le t a (Suc k) = ucast (t a) OR push_bit 8 (read_le t (Suc a) k)"

definition read64 :: "mem \<Rightarrow> nat \<Rightarrow> u64" where
  "read64 t a = read_le t a 8"

definition write8 :: "mem \<Rightarrow> nat \<Rightarrow> u8 \<Rightarrow> mem" where
  "write8 t a v = t(a := v)"

text \<open>\<open>memset(p, c, n)\<close> of \<open>src/runtime/src/string.c\<close> on such an array.\<close>

definition memset :: "mem \<Rightarrow> nat \<Rightarrow> u8 \<Rightarrow> nat \<Rightarrow> mem" where
  "memset t a c n = (\<lambda>x. if a \<le> x \<and> x < a + n then c else t x)"

lemma bit_byte_of: "bit (byte_of i v) j \<longleftrightarrow> j < 8 \<and> bit v (8 * i + j)"
  by (simp add: byte_of_def bit_simps)

lemma bit_read_le:
  "bit (read_le t a k) n \<longleftrightarrow> n < 64 \<and> n < 8 * k \<and> bit (t (a + n div 8)) (n mod 8)"
proof (induction k arbitrary: a n)
  case 0
  then show ?case by simp
next
  case (Suc k)
  show ?case
  proof (cases "n < 8")
    case True
    then show ?thesis by (auto simp: bit_simps)
  next
    case False
    then obtain m where n: "n = m + 8" by (metis le_Suc_ex add.commute not_less)
    have "bit (ucast (t a) :: u64) n = False"
      using n by (simp add: bit_simps impossible_bit)
    then show ?thesis
      using n div_add_self2 [of 8 m] by (auto simp: bit_simps Suc.IH)
  qed
qed

lemma read64_cong: "(\<And>i. i < 8 \<Longrightarrow> t (a + i) = t' (a + i)) \<Longrightarrow> read64 t a = read64 t' a"
  by (rule bit_eqI) (simp add: read64_def bit_read_le div_less_iff_less_mult)

lemma read64_write64_same [mem_simps, simp]: "read64 (write64 t a v) a = v"
  by (rule bit_eqI)
    (simp add: read64_def bit_read_le write64_def bit_byte_of div_less_iff_less_mult)

lemma read64_write64_other [mem_simps]:
  "b + 8 \<le> a \<or> a + 8 \<le> b \<Longrightarrow> read64 (write64 t a v) b = read64 t b"
  by (rule read64_cong) (auto simp: write64_def)

lemma read64_write8_other [mem_simps]:
  "a < b \<or> b + 8 \<le> a \<Longrightarrow> read64 (write8 t a v) b = read64 t b"
  by (rule read64_cong) (auto simp: write8_def)

lemma read64_memset_other [mem_simps]:
  "b + 8 \<le> a \<or> a + n \<le> b \<Longrightarrow> read64 (memset t a c n) b = read64 t b"
  by (rule read64_cong) (auto simp: memset_def)

end
