(* ===== verification/Kv.thy ===== *)
theory Kv
  imports Prelude
begin

text \<open>
  The dictionaries of \<open>src/runtime/include/cfggen/kv.h\<close>. A \<open>dict\<close> is a uthash table of
  \<open>keyvalue\<close> cells keyed by a pointer; \<open>HASH_ITER\<close> walks the cells in insertion order, and
  the empty table is the null pointer. The model is the list of the cells in that order.
  The interface the rest of the runtime relies on is the locale \<open>keyed_store\<close>, interpreted
  on these operations at the end of the theory.
\<close>

section \<open>Operations\<close>

type_synonym ('k, 'v) dict = "('k \<times> 'v) list"

definition dict_find :: "('k, 'v) dict \<Rightarrow> 'k \<Rightarrow> 'v option" where
  "dict_find d k = map_of d k"

definition dict_in :: "('k, 'v) dict \<Rightarrow> 'k \<Rightarrow> bool" where
  "dict_in d k = (dict_find d k \<noteq> None)"

text \<open>\<open>HASH_ADD_PTR\<close> of a new cell: it becomes the last one in iteration order.\<close>

definition dict_put :: "('k, 'v) dict \<Rightarrow> 'k \<Rightarrow> 'v \<Rightarrow> ('k, 'v) dict" where
  "dict_put d k v = d @ [(k, v)]"

definition dict_add :: "('k, 'v) dict \<Rightarrow> 'k \<Rightarrow> 'v \<Rightarrow> ('k, 'v) dict option" where
  "dict_add d k v = do { CHECK (\<not> dict_in d k); Some (dict_put d k v) }"

fun HASH_DEL :: "'k \<Rightarrow> ('k, 'v) dict \<Rightarrow> ('k, 'v) dict" where
  "HASH_DEL k [] = []"
| "HASH_DEL k ((k', v) # d) = (if k' = k then d else (k', v) # HASH_DEL k d)"

definition dict_del :: "('k, 'v) dict \<Rightarrow> 'k \<Rightarrow> ('k, 'v) dict" where
  "dict_del d k = (case dict_find d k of None \<Rightarrow> d | Some _ \<Rightarrow> HASH_DEL k d)"

text \<open>\<open>HASH_ITER\<close> keeps the next cell before the body runs, so the walk covers every cell of
  the table it started with although the body deletes them.\<close>

definition dict_clear :: "('k, 'v) dict \<Rightarrow> ('k, 'v) dict" where
  "dict_clear d = fold (\<lambda>kv. HASH_DEL (fst kv)) d d"

text \<open>Assigning to \<open>kv->value\<close> of the cell that \<open>dict_find\<close> returned.\<close>

definition dict_set :: "('k, 'v) dict \<Rightarrow> 'k \<Rightarrow> 'v \<Rightarrow> ('k, 'v) dict" where
  "dict_set d k v = map (\<lambda>(k', v'). (k', if k' = k then v else v')) d"

text \<open>\<open>merge_dicts\<close> of \<open>cfggen.h\<close>: the cells of \<open>mc\<close> whose key is new are copied to \<open>d\<close>.\<close>

definition merge_dicts :: "('k, 'v) dict \<Rightarrow> ('k, 'v) dict \<Rightarrow> ('k, 'v) dict option" where
  "merge_dicts d mc =
     foldM (\<lambda>c d. if dict_find d (fst c) = None then dict_add d (fst c) (snd c) else Some d) mc d"

text \<open>\<open>incr_dict_val\<close> of \<open>cfggen.h\<close>: a counter per key.\<close>

definition incr_dict_val :: "('k, u64) dict \<Rightarrow> 'k \<Rightarrow> ('k, u64) dict" where
  "incr_dict_val d k =
     (let d' = (case dict_find d k of None \<Rightarrow> dict_put d k 0 | Some _ \<Rightarrow> d);
          count = (case dict_find d' k of None \<Rightarrow> 0 | Some c \<Rightarrow> c)
      in dict_set d' k (count + 1))"

section \<open>Lookup, keys and well-formedness\<close>

definition keys :: "('k, 'v) dict \<Rightarrow> 'k set" where
  "keys d = fst ` set d"

definition dict_wf :: "('k, 'v) dict \<Rightarrow> bool" where
  "dict_wf d = distinct (map fst d)"

lemma keys_Nil [simp]: "keys [] = {}"
  by (simp add: keys_def)

lemma finite_keys [simp]: "finite (keys d)"
  by (simp add: keys_def)

lemma dict_find_Nil [simp]: "dict_find [] k = None"
  by (simp add: dict_find_def)

lemma dict_wf_Nil [simp]: "dict_wf []"
  by (simp add: dict_wf_def)

lemma dict_in_iff [dict_simps]: "dict_in d k \<longleftrightarrow> k \<in> keys d"
  by (auto simp: dict_in_def dict_find_def keys_def map_of_eq_None_iff)

lemma dict_find_None_iff: "dict_find d k = None \<longleftrightarrow> k \<notin> keys d"
  by (simp add: dict_find_def keys_def map_of_eq_None_iff)

lemma dict_find_absent [simp]: "k \<notin> keys d \<Longrightarrow> dict_find d k = None"
  by (simp add: dict_find_None_iff)

lemma dict_find_SomeD: "dict_find d k = Some v \<Longrightarrow> k \<in> keys d"
  by (metis dict_find_None_iff option.distinct(1))

lemma keys_dict_find: "k \<in> keys d \<Longrightarrow> \<exists>v. dict_find d k = Some v"
  by (metis dict_find_None_iff option.exhaust)

lemma keys_Cons [simp]: "keys (p # d) = insert (fst p) (keys d)"
  by (simp add: keys_def)

lemma dict_find_put [dict_simps]:
  "dict_find (dict_put d k v) k' = (if k' \<in> keys d then dict_find d k' else if k' = k then Some v else None)"
proof (cases "k' \<in> keys d")
  case True
  then obtain w where "map_of d k' = Some w"
    by (auto simp: keys_def dict_find_def map_of_eq_None_iff dest: weak_map_of_SomeI)
  then show ?thesis using True by (simp add: dict_find_def dict_put_def map_add_def)
next
  case False
  then have "map_of d k' = None" by (simp add: keys_def map_of_eq_None_iff)
  then show ?thesis using False by (simp add: dict_find_def dict_put_def map_add_def)
qed

lemma keys_put [dict_simps, simp]: "keys (dict_put d k v) = insert k (keys d)"
  by (auto simp: keys_def dict_put_def)

lemma dict_wf_put [dict_simps]: "dict_wf (dict_put d k v) \<longleftrightarrow> dict_wf d \<and> k \<notin> keys d"
  by (auto simp: dict_wf_def dict_put_def keys_def)

lemma dict_find_add_new:
  "k \<notin> keys d \<Longrightarrow> dict_find (dict_put d k v) = (dict_find d)(k \<mapsto> v)"
proof
  fix x
  assume "k \<notin> keys d"
  then show "dict_find (dict_put d k v) x = ((dict_find d)(k \<mapsto> v)) x"
    by (auto simp: dict_find_put)
qed

lemma dict_add_eq_Some: "dict_add d k v = Some d' \<longleftrightarrow> k \<notin> keys d \<and> d' = dict_put d k v"
  by (auto simp: dict_add_def dict_simps)

lemma keys_set [dict_simps, simp]: "keys (dict_set d k v) = keys d"
  by (force simp: keys_def dict_set_def)

lemma map_fst_set [simp]: "map fst (dict_set d k v) = map fst d"
  by (simp add: dict_set_def case_prod_unfold)

lemma dict_wf_set [dict_simps, simp]: "dict_wf (dict_set d k v) \<longleftrightarrow> dict_wf d"
  by (simp add: dict_wf_def)

lemma dict_find_set [dict_simps]:
  "dict_find (dict_set d k v) k' = (if k' = k \<and> k \<in> keys d then Some v else dict_find d k')"
proof (induction d)
  case Nil
  then show ?case by (simp add: dict_find_def dict_set_def)
next
  case (Cons p d)
  have "dict_set (p # d) k v = (fst p, if fst p = k then v else snd p) # dict_set d k v"
    by (simp add: dict_set_def case_prod_unfold)
  then show ?case using Cons.IH by (auto simp: dict_find_def)
qed

lemma HASH_DEL_filter: "dict_wf d \<Longrightarrow> HASH_DEL k d = filter (\<lambda>p. fst p \<noteq> k) d"
proof (induction d)
  case Nil
  then show ?case by simp
next
  case (Cons p d)
  obtain k' v where p: "p = (k', v)" by force
  have "k' \<notin> keys d" using Cons.prems p by (auto simp: dict_wf_def keys_def)
  then have "filter (\<lambda>p. fst p \<noteq> k') d = d" by (auto simp: filter_id_conv keys_def)
  then show ?case using Cons p by (auto simp: dict_wf_def)
qed

lemma HASH_DEL_absent: "k \<notin> keys d \<Longrightarrow> HASH_DEL k d = d"
  by (induction k d rule: HASH_DEL.induct) auto

lemma dict_del_HASH_DEL: "dict_del d k = HASH_DEL k d"
  by (auto simp: dict_del_def HASH_DEL_absent dict_find_None_iff split: option.splits)

lemma dict_wf_del [dict_simps]: "dict_wf d \<Longrightarrow> dict_wf (dict_del d k)"
  by (auto simp: dict_del_HASH_DEL HASH_DEL_filter dict_wf_def map_fst_filter_ne)

lemma dict_find_del [dict_simps]: "dict_wf d \<Longrightarrow> dict_find (dict_del d k) = (dict_find d)(k := None)"
  unfolding dict_del_HASH_DEL
proof (induction d)
  case Nil
  then show ?case by (simp add: fun_eq_iff)
next
  case (Cons p d)
  obtain k' v where p: "p = (k', v)" by force
  have d: "dict_wf d" and k': "dict_find d k' = None"
    using Cons.prems p by (auto simp: dict_wf_def dict_find_None_iff keys_def)
  show ?case
    using Cons.IH [OF d] k' p by (auto simp: dict_find_def fun_eq_iff)
qed

lemma keys_del [dict_simps]: "dict_wf d \<Longrightarrow> keys (dict_del d k) = keys d - {k}"
  by (auto simp: dict_del_HASH_DEL HASH_DEL_filter keys_def)

lemma dict_clear_walk: "fold (\<lambda>kv. HASH_DEL (fst kv)) d (d @ rest) = rest"
  by (induction d) (auto split: prod.splits)

section \<open>The interface\<close>

text \<open>
  What the clients rely on: an insertion of a new key succeeds and is what a lookup returns
  afterwards, a duplicate insertion ends the process, a deletion removes exactly one key.
\<close>

locale keyed_store =
  fixes find :: "'d \<Rightarrow> 'k \<Rightarrow> 'v option"
    and add :: "'d \<Rightarrow> 'k \<Rightarrow> 'v \<Rightarrow> 'd option"
    and del :: "'d \<Rightarrow> 'k \<Rightarrow> 'd"
    and wf :: "'d \<Rightarrow> bool"
  assumes add_new: "wf d \<Longrightarrow> find d k = None \<Longrightarrow>
      \<exists>d'. add d k v = Some d' \<and> wf d' \<and> find d' = (find d)(k \<mapsto> v)"
    and add_duplicate: "wf d \<Longrightarrow> find d k \<noteq> None \<Longrightarrow> add d k v = None"
    and del_wf: "wf d \<Longrightarrow> wf (del d k)"
    and find_del: "wf d \<Longrightarrow> find (del d k) = (find d)(k := None)"
begin

text \<open>Copying the entries with new keys never fails, and the target's entries win.\<close>

lemma add_absent_all:
  "wf d \<Longrightarrow> \<exists>d'. foldM (\<lambda>c d. if find d (fst c) = None then add d (fst c) (snd c) else Some d) mc d
     = Some d' \<and> wf d' \<and> find d' = map_of mc ++ find d"
proof (induction mc arbitrary: d)
  case Nil
  then show ?case by simp
next
  case (Cons c mc)
  show ?case
  proof (cases "find d (fst c)")
    case None
    obtain d1 where d1: "add d (fst c) (snd c) = Some d1" "wf d1"
      "find d1 = (find d)(fst c \<mapsto> snd c)"
      using add_new [OF Cons.prems None] by blast
    from Cons.IH [OF d1(2)] obtain d' where
      "foldM (\<lambda>c d. if find d (fst c) = None then add d (fst c) (snd c) else Some d) mc d1 = Some d'"
      "wf d'" "find d' = map_of mc ++ find d1" by blast
    moreover have "map_of mc ++ find d1 = map_of (c # mc) ++ find d"
      using None d1(3) by (auto simp: fun_eq_iff map_add_def split: option.splits)
    ultimately show ?thesis using None d1(1) by (intro exI [of _ d']) (simp add: fun_upd_def)
  next
    case (Some v)
    have "map_of (c # mc) ++ find d = map_of mc ++ find d"
      using Some by (auto simp: fun_eq_iff map_add_def split: option.splits)
    with Cons.IH [OF Cons.prems] Some show ?thesis by (simp del: map_of.simps)
  qed
qed

text \<open>Adding, then deleting the same new key is a round trip for every lookup.\<close>

lemma add_del_inverse:
  "wf d \<Longrightarrow> find d k = None \<Longrightarrow> \<exists>d'. add d k v = Some d' \<and> find (del d' k) = find d"
  using add_new [of d k v] find_del by (metis fun_upd_triv fun_upd_upd)

end

interpretation kv: keyed_store dict_find dict_add dict_del dict_wf
  by unfold_locales
    (auto simp: dict_add_def dict_in_def dict_simps dict_find_add_new
      dest: dict_find_None_iff [THEN iffD1])

lemma merge_dicts_Some:
  "dict_wf d \<Longrightarrow> \<exists>d'. merge_dicts d mc = Some d' \<and> dict_wf d' \<and> dict_find d' = map_of mc ++ dict_find d"
  unfolding merge_dicts_def by (rule kv.add_absent_all)

lemma keys_eq_dom: "keys d = dom (dict_find d)"
  by (auto simp: dom_def dict_simps intro: dict_find_SomeD keys_dict_find)

lemma merge_dicts_keys:
  assumes "dict_wf d" and "merge_dicts d mc = Some d'"
  shows "keys d' = keys d \<union> keys mc" and "dict_wf d'"
  using merge_dicts_Some [OF assms(1), of mc] assms(2)
  by (auto simp: keys_eq_dom dict_find_def)

text \<open>From here on key sets are folded, never unfolded.\<close>

lemma image_fst_keys [simp]: "fst ` set d = keys d"
  by (simp add: keys_def)

end
