(* ===== verification/Graph.thy ===== *)
theory Graph
  imports Kv
begin

text \<open>
  The adjacency-list graphs of \<open>src/runtime/include/cfggen/graph.h\<close>: a graph is a
  dictionary from a vertex to the dictionary of its neighbours. The runtime merges indirect
  branches and their targets into equivalence classes by computing connected components of
  such graphs (\<open>g_get_lcc\<close>) and their transitive closures (\<open>g_transitive_closure\<close>); the
  theorems say that these are exactly the classes of reachability.
\<close>

section \<open>Operations\<close>

type_synonym 'k adj = "('k, unit) dict"
type_synonym 'k graph = "('k, 'k adj) dict"

definition g_in :: "('k, 'v) dict \<Rightarrow> 'k \<Rightarrow> bool" where
  "g_in g val = dict_in g val"

definition g_directed_edge_in :: "('a, ('b, 'v) dict) dict \<Rightarrow> 'a \<Rightarrow> 'b \<Rightarrow> bool" where
  "g_directed_edge_in g val1 val2 =
     (case dict_find g val1 of None \<Rightarrow> False | Some adj \<Rightarrow> dict_find adj val2 \<noteq> None)"

text \<open>The new vertex has value 0: the null pointer, an empty neighbourhood. The argument
  \<open>z\<close> is that zero at the type of the values of \<open>g\<close>.\<close>

definition g_add_vertex :: "'v \<Rightarrow> ('k, 'v) dict \<Rightarrow> 'k \<Rightarrow> ('k, 'v) dict" where
  "g_add_vertex z g val = (if \<not> g_in g val then dict_put g val z else g)"

definition g_add_edge_helper ::
  "'v \<Rightarrow> ('a, ('b, 'v) dict) dict \<Rightarrow> 'a \<Rightarrow> 'b \<Rightarrow> ('a, ('b, 'v) dict) dict" where
  "g_add_edge_helper z g val1 val2 =
     (let g' = (case dict_find g val1 of None \<Rightarrow> g_add_vertex [] g val1 | Some _ \<Rightarrow> g)
      in case dict_find g' val1 of
           None \<Rightarrow> g'
         | Some adj \<Rightarrow> dict_set g' val1 (g_add_vertex z adj val2))"

definition g_add_edge :: "'k graph \<Rightarrow> 'k \<Rightarrow> 'k \<Rightarrow> 'k graph" where
  "g_add_edge g val1 val2 = g_add_edge_helper () (g_add_edge_helper () g val1 val2) val2 val1"

definition g_add_directed_edge ::
  "('a, ('b, unit) dict) dict \<Rightarrow> 'a \<Rightarrow> 'b \<Rightarrow> ('a, ('b, unit) dict) dict" where
  "g_add_directed_edge g val1 val2 = g_add_edge_helper () g val1 val2"

text \<open>Two-level graphs: a class name, a method name, and the functions of that name.\<close>

definition g_add_directed_l2_edge ::
  "('a, ('b, ('c, unit) dict) dict) dict \<Rightarrow> 'a \<Rightarrow> 'b \<Rightarrow> 'c
     \<Rightarrow> ('a, ('b, ('c, unit) dict) dict) dict" where
  "g_add_directed_l2_edge g val1 val2 val3 =
     (let g' = g_add_edge_helper [] g val1 val2
      in case dict_find g' val1 of
           None \<Rightarrow> g'
         | Some sub \<Rightarrow> dict_set g' val1 (g_add_edge_helper () sub val2 val3))"

definition g_find_l2_vertex :: "('a, ('b, 'v) dict) dict \<Rightarrow> 'a \<Rightarrow> 'b \<Rightarrow> 'v option" where
  "g_find_l2_vertex g val1 val2 =
     (case dict_find g val1 of None \<Rightarrow> None | Some v1 \<Rightarrow> dict_find v1 val2)"

definition g_del_vertex :: "('k, 'v) dict \<Rightarrow> 'k \<Rightarrow> ('k, 'v) dict" where
  "g_del_vertex g val = (case dict_find g val of None \<Rightarrow> g | Some _ \<Rightarrow> dict_del g val)"

definition g_del_edge_helper :: "'k graph \<Rightarrow> 'k \<Rightarrow> 'k \<Rightarrow> 'k graph" where
  "g_del_edge_helper g val1 val2 =
     (case dict_find g val1 of
        None \<Rightarrow> g
      | Some adj \<Rightarrow>
          (let adj' = dict_del adj val2
           in if adj' = [] then dict_del g val1 else dict_set g val1 adj'))"

definition g_del_edge :: "'k graph \<Rightarrow> 'k \<Rightarrow> 'k \<Rightarrow> 'k graph" where
  "g_del_edge g val1 val2 = g_del_edge_helper (g_del_edge_helper g val1 val2) val2 val1"

definition g_dtor :: "('k, 'v) dict \<Rightarrow> ('k, 'v) dict" where
  "g_dtor g = fold (\<lambda>kv. HASH_DEL (fst kv)) g g"

definition g_size :: "'k graph \<Rightarrow> nat" where
  "g_size g = fold (\<lambda>kv n. n + length (snd kv)) g 0 + length g"

text \<open>\<open>merge_graphs\<close> of \<open>cfggen.h\<close>.\<close>

definition merge_graphs :: "'k graph \<Rightarrow> 'k graph \<Rightarrow> 'k graph" where
  "merge_graphs graphs mg =
     fold (\<lambda>v gs.
        let gs' = g_add_vertex [] gs (fst v)
        in case dict_find gs' (fst v) of
             None \<Rightarrow> gs'
           | Some nv \<Rightarrow> dict_set gs' (fst v) (fold (\<lambda>vv a. g_add_vertex () a (fst vv)) (snd v) nv))
       mg graphs"

section \<open>Breadth-first search\<close>

text \<open>The body of the inner \<open>HASH_ITER\<close>: an unexplored neighbour is queued.\<close>

fun g_bfs_visit :: "'k \<Rightarrow> 'k list \<times> 'k adj \<times> 'k adj \<Rightarrow> 'k list \<times> 'k adj \<times> 'k adj" where
  "g_bfs_visit k (q, rg, explored) =
     (if dict_find explored k = None
      then (q @ [k], g_add_vertex () rg k, g_add_vertex () explored k)
      else (q, rg, explored))"

lemma keys_add_vertex [graph_simps, simp]: "keys (g_add_vertex z g v) = insert v (keys g)"
  by (auto simp: g_add_vertex_def g_in_def dict_simps)

lemma visit_all:
  assumes "fold g_bfs_visit ks (q, rg, ex) = (q', rg', ex')"
  shows "\<exists>new. q' = q @ new \<and> set new = set ks - keys ex \<and> keys ex' = keys ex \<union> set ks
           \<and> keys rg' = keys rg \<union> set new"
  using assms
proof (induction ks arbitrary: q rg ex)
  case Nil
  then show ?case by simp
next
  case (Cons k ks)
  show ?case
  proof (cases "k \<in> keys ex")
    case True
    then have "dict_find ex k \<noteq> None" by (simp add: dict_find_None_iff)
    with Cons.prems have "fold g_bfs_visit ks (q, rg, ex) = (q', rg', ex')" by simp
    from Cons.IH [OF this] True show ?thesis by auto
  next
    case False
    then have "dict_find ex k = None" by (simp add: dict_simps)
    with Cons.prems have
      "fold g_bfs_visit ks (q @ [k], g_add_vertex () rg k, g_add_vertex () ex k) = (q', rg', ex')"
      by simp
    from Cons.IH [OF this] obtain new where
      "q' = (q @ [k]) @ new" "set new = set ks - insert k (keys ex)"
      "keys ex' = insert k (keys ex) \<union> set ks" "keys rg' = insert k (keys rg) \<union> set new" by auto
    then show ?thesis using False by (intro exI [of _ "k # new"]) auto
  qed
qed

definition neighbours :: "'k graph \<Rightarrow> 'k set" where
  "neighbours g = (\<Union>v \<in> set g. keys (snd v))"

lemma finite_neighbours [simp]: "finite (neighbours g)"
  by (simp add: neighbours_def)

lemma dict_find_in_neighbours: "dict_find g v = Some adj \<Longrightarrow> keys adj \<subseteq> neighbours g"
  by (auto simp: dict_find_def neighbours_def dest!: map_of_SomeD)

function g_bfs_loop :: "'k graph \<Rightarrow> 'k list \<Rightarrow> 'k adj \<Rightarrow> 'k adj \<Rightarrow> ('k adj \<times> 'k adj) option" where
  "g_bfs_loop g [] rg explored = Some (rg, explored)"
| "g_bfs_loop g (front # q) rg explored =
     (case dict_find g front of
        None \<Rightarrow> None
      | Some adj \<Rightarrow>
          (case fold g_bfs_visit (map fst adj) (q, rg, explored) of
             (q', rg', explored') \<Rightarrow> g_bfs_loop g q' rg' explored'))"
  by pat_completeness auto

text \<open>Every round takes one vertex off the queue and queues only neighbours that were
  unexplored, so either the unexplored neighbours or the queue shrink.\<close>

termination
proof (relation "measures [\<lambda>(g, q, rg, ex). card (neighbours g - keys ex), \<lambda>(g, q, rg, ex). length q]",
    goal_cases)
  case 1
  show ?case by simp
next
  case (2 g front q rg ex adj q' p rg' ex')
  then have "fold g_bfs_visit (map fst adj) (q, rg, ex) = (q', rg', ex')" by simp
  from visit_all [OF this] obtain new where
    new: "q' = q @ new" "set new = keys adj - keys ex" "keys ex' = keys ex \<union> keys adj" by auto
  have sub: "keys adj \<subseteq> neighbours g" using 2(1) by (rule dict_find_in_neighbours)
  show ?case
  proof (cases "keys adj \<subseteq> keys ex")
    case True
    then have "set new = {}" "keys ex' = keys ex" using new by auto
    then show ?thesis using new(1) by simp
  next
    case False
    then have "neighbours g - keys ex' \<subset> neighbours g - keys ex" using new(3) sub by blast
    then have "card (neighbours g - keys ex') < card (neighbours g - keys ex)"
      by (intro psubset_card_mono) auto
    then show ?thesis by simp
  qed
qed

definition g_bfs :: "'k graph \<Rightarrow> 'k \<Rightarrow> 'k adj \<Rightarrow> ('k adj \<times> 'k adj) option" where
  "g_bfs g val explored =
     g_bfs_loop g [val] (g_add_vertex () [] val) (g_add_vertex () explored val)"

definition g_get_lcc :: "'k graph \<Rightarrow> 'k adj list option" where
  "g_get_lcc g =
     map_option fst
       (foldM (\<lambda>v (lcc, explored).
           if \<not> g_in explored (fst v)
           then map_option (\<lambda>(cc, explored'). (lcc @ [cc], explored')) (g_bfs g (fst v) explored)
           else Some (lcc, explored))
         g ([], []))"

text \<open>Each vertex of a component is mapped to the component itself.\<close>

definition g_transitive_closure :: "'k graph \<Rightarrow> 'k graph option" where
  "g_transitive_closure g =
     map_option
       (\<lambda>lcc. fold (\<lambda>cc rs. fold (\<lambda>v rs. dict_set (g_add_vertex [] rs (fst v)) (fst v) cc) cc rs) lcc [])
       (g_get_lcc g)"

text \<open>Adding the edges of a star from the first element of a class to the others.\<close>

definition g_add_cc_to_g :: "'k graph \<Rightarrow> 'k adj \<Rightarrow> 'k graph" where
  "g_add_cc_to_g g cc =
     (case cc of [] \<Rightarrow> g | first # rest \<Rightarrow> fold (\<lambda>v g. g_add_edge g (fst first) (fst v)) rest g)"

section \<open>Edges, symmetry, reachability\<close>

text \<open>The edge relation of a graph and its reflexive transitive closure.\<close>

definition edge :: "('a, ('b, 'v) dict) dict \<Rightarrow> 'a \<Rightarrow> 'b \<Rightarrow> bool" where
  "edge g a b \<longleftrightarrow> (\<exists>adj. dict_find g a = Some adj \<and> b \<in> keys adj)"

definition reach :: "'k graph \<Rightarrow> 'k \<Rightarrow> 'k set" where
  "reach g a = {b. (edge g)\<^sup>*\<^sup>* a b}"

text \<open>What \<open>g_add_edge\<close> maintains: distinct vertices, and every edge both ways (so every
  neighbour is itself a vertex).\<close>

definition g_sym :: "'k graph \<Rightarrow> bool" where
  "g_sym g \<longleftrightarrow> dict_wf g \<and> (\<forall>a b. edge g a b \<longrightarrow> edge g b a)"

lemma edge_Nil [simp]: "\<not> edge [] a b"
  by (simp add: edge_def)

lemma g_directed_edge_in_iff [graph_simps]: "g_directed_edge_in g a b \<longleftrightarrow> edge g a b"
  by (auto simp: g_directed_edge_in_def edge_def dict_find_None_iff split: option.splits)

lemma edge_source: "edge g a b \<Longrightarrow> a \<in> keys g"
  by (auto simp: edge_def dest: dict_find_SomeD)

lemma dict_find_add_vertex [graph_simps]:
  "dict_find (g_add_vertex z g v) k =
     (if k \<in> keys g then dict_find g k else if k = v then Some z else None)"
  by (auto simp: g_add_vertex_def g_in_def dict_simps)

lemma dict_wf_add_vertex [graph_simps, inv_intros]: "dict_wf g \<Longrightarrow> dict_wf (g_add_vertex z g v)"
  by (simp add: g_add_vertex_def g_in_def dict_simps)

text \<open>The guarded insertion never trips the assertion of \<open>dict_add\<close>.\<close>

lemma g_add_vertex_dict_add: "\<not> g_in g v \<Longrightarrow> dict_add g v z = Some (g_add_vertex z g v)"
  by (simp add: g_add_vertex_def dict_add_def g_in_def)

lemma dict_find_add_edge_helper [graph_simps]:
  "dict_find (g_add_edge_helper z g a b) k =
     (if k = a then Some (g_add_vertex z (case dict_find g a of None \<Rightarrow> [] | Some adj \<Rightarrow> adj) b)
      else dict_find g k)"
proof (cases "dict_find g a")
  case None
  then have "a \<notin> keys g" by (simp add: dict_find_None_iff)
  with None show ?thesis
    by (auto simp: g_add_edge_helper_def graph_simps dict_simps)
next
  case (Some adj)
  then show ?thesis by (auto simp: g_add_edge_helper_def dict_simps dest: dict_find_SomeD)
qed

lemma keys_add_edge_helper [graph_simps, simp]: "keys (g_add_edge_helper z g a b) = insert a (keys g)"
  by (auto simp: keys_eq_dom graph_simps split: if_splits)

lemma dict_wf_add_edge_helper [graph_simps, inv_intros]:
  "dict_wf g \<Longrightarrow> dict_wf (g_add_edge_helper z g a b)"
  by (auto simp: g_add_edge_helper_def Let_def intro: inv_intros split: option.splits)

lemma edge_add_edge_helper [graph_simps]:
  "edge (g_add_edge_helper z g a b) x y \<longleftrightarrow> (x = a \<and> y = b) \<or> edge g x y"
  by (auto simp: edge_def graph_simps split: option.splits)

lemma edge_add_edge [graph_simps]:
  "edge (g_add_edge g a b) x y \<longleftrightarrow> (x = a \<and> y = b) \<or> (x = b \<and> y = a) \<or> edge g x y"
  by (auto simp: g_add_edge_def graph_simps)

lemma keys_add_edge [graph_simps, simp]: "keys (g_add_edge g a b) = insert a (insert b (keys g))"
  by (auto simp: g_add_edge_def)

lemma edge_add_directed_edge [graph_simps]:
  "edge (g_add_directed_edge g a b) x y \<longleftrightarrow> (x = a \<and> y = b) \<or> edge g x y"
  by (simp add: g_add_directed_edge_def graph_simps)

lemma g_sym_Nil [simp]: "g_sym []"
  by (simp add: g_sym_def)

lemma g_sym_add_edge [inv_intros]: "g_sym g \<Longrightarrow> g_sym (g_add_edge g a b)"
  by (auto simp: g_sym_def graph_simps g_add_edge_def intro: inv_intros)

lemma g_sym_add_cc_to_g [inv_intros]: "g_sym g \<Longrightarrow> g_sym (g_add_cc_to_g g cc)"
  by (auto simp: g_add_cc_to_g_def split: list.splits
      intro!: fold_invariant_set [where P = g_sym] inv_intros)

lemma g_sym_closed: "g_sym g \<Longrightarrow> edge g a b \<Longrightarrow> b \<in> keys g"
  by (auto simp: g_sym_def intro: edge_source)

lemma reach_refl [simp, intro]: "a \<in> reach g a"
  by (simp add: reach_def)

lemma reach_edge: "b \<in> reach g a \<Longrightarrow> edge g b c \<Longrightarrow> c \<in> reach g a"
  by (auto simp: reach_def intro: rtranclp.rtrancl_into_rtrancl)

lemma reach_trans: "b \<in> reach g a \<Longrightarrow> c \<in> reach g b \<Longrightarrow> c \<in> reach g a"
  by (auto simp: reach_def)

lemma reach_sym: "g_sym g \<Longrightarrow> b \<in> reach g a \<Longrightarrow> a \<in> reach g b"
proof -
  assume "g_sym g"
  then have "(edge g)\<inverse>\<inverse> = edge g" by (auto simp: g_sym_def fun_eq_iff)
  moreover assume "b \<in> reach g a"
  ultimately show ?thesis using rtranclp_converseI [of "edge g" a b] by (simp add: reach_def)
qed

lemma reach_keys: "g_sym g \<Longrightarrow> a \<in> keys g \<Longrightarrow> reach g a \<subseteq> keys g"
proof
  fix b
  assume "g_sym g" "a \<in> keys g" "b \<in> reach g a"
  from this(3) have "(edge g)\<^sup>*\<^sup>* a b" by (simp add: reach_def)
  then show "b \<in> keys g" using \<open>a \<in> keys g\<close>
    by (induction rule: rtranclp_induct) (auto intro: g_sym_closed [OF \<open>g_sym g\<close>])
qed

lemma reach_eq: "g_sym g \<Longrightarrow> b \<in> reach g a \<Longrightarrow> reach g b = reach g a"
  using reach_trans reach_sym by fast

text \<open>A set that every edge leaves inside itself.\<close>

definition closed_under :: "'k graph \<Rightarrow> 'k set \<Rightarrow> bool" where
  "closed_under g S \<longleftrightarrow> (\<forall>a \<in> S. \<forall>b. edge g a b \<longrightarrow> b \<in> S)"

lemma closed_under_reach: "closed_under g S \<Longrightarrow> a \<in> S \<Longrightarrow> reach g a \<subseteq> S"
proof
  fix b
  assume cl: "closed_under g S" and "a \<in> S" "b \<in> reach g a"
  from this(3) have "(edge g)\<^sup>*\<^sup>* a b" by (simp add: reach_def)
  then show "b \<in> S" using \<open>a \<in> S\<close>
    by (induction rule: rtranclp_induct) (use cl in \<open>auto simp: closed_under_def\<close>)
qed

section \<open>Correctness of the search\<close>

lemma absorb_Un: "A \<subseteq> F \<Longrightarrow> N \<subseteq> F \<Longrightarrow> X \<subseteq> E \<union> A \<union> (Q \<union> N) \<Longrightarrow> X \<subseteq> E \<union> (F \<union> Q)"
  by blast

text \<open>The loop adds to the result exactly the vertices it explores, and it explores
  everything an explored vertex that is no longer queued points to.\<close>

lemma g_bfs_loop_explores:
  assumes "closed_under g (keys g)" and "set q \<subseteq> keys g" and "set q \<subseteq> keys ex"
    and "\<forall>a \<in> keys ex - set q. \<forall>b. edge g a b \<longrightarrow> b \<in> keys ex"
  shows "\<exists>rg' ex'. g_bfs_loop g q rg ex = Some (rg', ex') \<and> keys ex \<subseteq> keys ex'
    \<and> keys ex' \<subseteq> keys ex \<union> (\<Union>v \<in> set q. reach g v)
    \<and> keys rg' = keys rg \<union> (keys ex' - keys ex) \<and> closed_under g (keys ex')"
  using assms
proof (induction g q rg ex rule: g_bfs_loop.induct)
  case (1 g rg ex)
  then show ?case by (auto simp: closed_under_def)
next
  case (2 g front q rg ex)
  obtain adj where adj: "dict_find g front = Some adj"
    using "2.prems"(2) keys_dict_find [of front g] by auto
  obtain q' rg1 ex1 where v: "fold g_bfs_visit (map fst adj) (q, rg, ex) = (q', rg1, ex1)"
    by (metis prod_cases3)
  from visit_all [OF v] obtain new where
    new: "q' = q @ new" "set new = keys adj - keys ex" "keys ex1 = keys ex \<union> keys adj"
      "keys rg1 = keys rg \<union> set new" by auto
  have adj_edge: "b \<in> keys adj \<longleftrightarrow> edge g front b" for b using adj by (auto simp: edge_def)
  have sub: "reach g b \<subseteq> reach g front" if "b \<in> keys adj" for b
    using that adj_edge reach_trans [of b g front] reach_edge [of front g front b] by blast
  have q': "set q' \<subseteq> keys g" "set q' \<subseteq> keys ex1"
    using new "2.prems"(1-3) adj_edge by (auto simp: closed_under_def)
  have cl: "\<forall>a \<in> keys ex1 - set q'. \<forall>b. edge g a b \<longrightarrow> b \<in> keys ex1"
  proof (intro ballI allI impI)
    fix a b
    assume a: "a \<in> keys ex1 - set q'" and e: "edge g a b"
    show "b \<in> keys ex1"
    proof (cases "a = front")
      case True
      then show ?thesis using e adj_edge new(3) by blast
    next
      case False
      then have "a \<in> keys ex - set (front # q)" using a new(1-3) by auto
      then show ?thesis using e "2.prems"(4) new(3) by blast
    qed
  qed
  from "2.IH" [OF adj v [symmetric] refl "2.prems"(1) q' cl]
  obtain rg' ex' where r: "g_bfs_loop g q' rg1 ex1 = Some (rg', ex')" "keys ex1 \<subseteq> keys ex'"
    "keys ex' \<subseteq> keys ex1 \<union> (\<Union>v \<in> set q'. reach g v)" "keys rg' = keys rg1 \<union> (keys ex' - keys ex1)"
    "closed_under g (keys ex')" by blast
  have "keys adj \<subseteq> reach g front" "(\<Union>v \<in> set new. reach g v) \<subseteq> reach g front"
    using sub new(2) by (auto simp: subset_iff)
  then have "keys ex' \<subseteq> keys ex \<union> (reach g front \<union> (\<Union>v \<in> set q. reach g v))"
    using r(3) unfolding new(1,3) set_append UN_Un by (rule absorb_Un)
  then have "keys ex' \<subseteq> keys ex \<union> (\<Union>v \<in> set (front # q). reach g v)" by simp
  moreover have "g_bfs_loop g (front # q) rg ex = Some (rg', ex')" using adj v r(1) by simp
  moreover have "keys rg' = keys rg \<union> (keys ex' - keys ex)" using r(2,4) new by blast
  ultimately show ?case using r(2,5) new(3) by blast
qed

lemma g_bfs_component:
  assumes sym: "g_sym g" and val: "val \<in> keys g" "val \<notin> keys ex" and cl: "closed_under g (keys ex)"
  shows "\<exists>cc ex'. g_bfs g val ex = Some (cc, ex') \<and> keys cc = reach g val
    \<and> keys ex' = keys ex \<union> reach g val"
proof -
  let ?ex = "g_add_vertex () ex val"
  have "\<exists>rg' ex'. g_bfs_loop g [val] (g_add_vertex () [] val) ?ex = Some (rg', ex') \<and> keys ?ex \<subseteq> keys ex'
    \<and> keys ex' \<subseteq> keys ?ex \<union> (\<Union>v \<in> set [val]. reach g v)
    \<and> keys rg' = keys (g_add_vertex () [] val) \<union> (keys ex' - keys ?ex) \<and> closed_under g (keys ex')"
    using val cl g_sym_closed [OF sym] edge_source
    by (intro g_bfs_loop_explores) (auto simp: closed_under_def)
  then obtain cc ex' where r: "g_bfs g val ex = Some (cc, ex')" "insert val (keys ex) \<subseteq> keys ex'"
    "keys ex' \<subseteq> insert val (keys ex) \<union> reach g val" "keys cc = insert val (keys ex' - insert val (keys ex))"
    "closed_under g (keys ex')"
    by (auto simp: g_bfs_def)
  have "reach g val \<subseteq> keys ex'" using closed_under_reach [OF r(5)] r(2) by blast
  moreover have "reach g val \<inter> keys ex = {}"
    using closed_under_reach [OF cl] reach_sym [OF sym] val(2) by blast
  ultimately show ?thesis using r by (intro exI [of _ cc] exI [of _ ex']) auto
qed

section \<open>Components\<close>

text \<open>The list of components built so far, and the set of explored vertices.\<close>

definition lcc_inv :: "'k graph \<Rightarrow> 'k adj list \<times> 'k adj \<Rightarrow> bool" where
  "lcc_inv g s \<longleftrightarrow> closed_under g (keys (snd s)) \<and> keys (snd s) = (\<Union>cc \<in> set (fst s). keys cc)
     \<and> (\<forall>cc \<in> set (fst s). \<exists>v \<in> keys g. keys cc = reach g v)
     \<and> distinct (map keys (fst s))"

lemma closed_under_Un: "closed_under g S \<Longrightarrow> closed_under g T \<Longrightarrow> closed_under g (S \<union> T)"
  by (auto simp: closed_under_def)

lemma closed_under_reach_self: "closed_under g (reach g v)"
  by (auto simp: closed_under_def intro: reach_edge)

lemma lcc_step:
  assumes sym: "g_sym g" and v: "v \<in> keys g" and inv: "lcc_inv g (lcc, ex)"
  shows "\<exists>s'. (if \<not> g_in ex v
           then map_option (\<lambda>(cc, ex'). (lcc @ [cc], ex')) (g_bfs g v ex)
           else Some (lcc, ex)) = Some s' \<and> lcc_inv g s' \<and> insert v (keys ex) \<subseteq> keys (snd s')"
proof (cases "v \<in> keys ex")
  case True
  then show ?thesis using inv by (simp add: g_in_def dict_simps insert_absorb)
next
  case False
  have cl: "closed_under g (keys ex)" using inv unfolding lcc_inv_def by (metis snd_conv)
  from g_bfs_component [OF sym v False cl] obtain cc ex' where
    bfs: "g_bfs g v ex = Some (cc, ex')" "keys cc = reach g v" "keys ex' = keys ex \<union> reach g v" by blast
  have "keys cc \<notin> set (map keys lcc)"
    using inv False bfs(2) by (force simp: lcc_inv_def)
  then have "lcc_inv g (lcc @ [cc], ex')"
    using inv bfs v closed_under_Un [OF cl closed_under_reach_self] by (auto simp: lcc_inv_def)
  then show ?thesis using False bfs by (auto simp: g_in_def dict_simps)
qed

lemma lcc_walk:
  assumes sym: "g_sym g"
  shows "keys vs \<subseteq> keys g \<Longrightarrow> lcc_inv g s \<Longrightarrow>
    \<exists>s'. foldM (\<lambda>v (lcc, explored).
           if \<not> g_in explored (fst v)
           then map_option (\<lambda>(cc, explored'). (lcc @ [cc], explored')) (g_bfs g (fst v) explored)
           else Some (lcc, explored)) vs s = Some s' \<and> lcc_inv g s' \<and> keys vs \<union> keys (snd s) \<subseteq> keys (snd s')"
proof (induction vs arbitrary: s)
  case Nil
  then show ?case by simp
next
  case (Cons v vs)
  obtain lcc ex where s: "s = (lcc, ex)" by force
  from lcc_step [OF sym, of "fst v" lcc ex] Cons.prems s obtain s1 where
    s1: "(if \<not> g_in ex (fst v)
           then map_option (\<lambda>(cc, ex'). (lcc @ [cc], ex')) (g_bfs g (fst v) ex)
           else Some (lcc, ex)) = Some s1" "lcc_inv g s1" "insert (fst v) (keys ex) \<subseteq> keys (snd s1)"
    by auto
  from Cons.IH [OF _ s1(2)] Cons.prems obtain s' where
    "foldM (\<lambda>v (lcc, explored).
           if \<not> g_in explored (fst v)
           then map_option (\<lambda>(cc, explored'). (lcc @ [cc], explored')) (g_bfs g (fst v) explored)
           else Some (lcc, explored)) vs s1 = Some s'" "lcc_inv g s'"
    "keys vs \<union> keys (snd s1) \<subseteq> keys (snd s')" by auto
  then show ?case using s s1 by auto
qed

text \<open>The components are total, cover the graph, and are exactly the classes of
  reachability, each listed once.\<close>

lemma g_get_lcc_classes:
  assumes sym: "g_sym g"
  shows "\<exists>lcc. g_get_lcc g = Some lcc \<and> keys ` set lcc = reach g ` keys g \<and> distinct (map keys lcc)"
proof -
  have "lcc_inv g ([], [])" by (simp add: lcc_inv_def closed_under_def)
  from lcc_walk [OF sym subset_refl this] obtain lcc ex where
    l: "g_get_lcc g = Some lcc" "lcc_inv g (lcc, ex)" "keys g \<subseteq> keys ex"
    by (auto simp: g_get_lcc_def)
  have "reach g v \<in> keys ` set lcc" if v: "v \<in> keys g" for v
  proof -
    from v l obtain cc w where cc: "cc \<in> set lcc" "v \<in> keys cc" "keys cc = reach g w"
      by (fastforce simp: lcc_inv_def)
    then have "keys cc = reach g v" using reach_eq [OF sym] by metis
    then show ?thesis using cc(1) by blast
  qed
  then show ?thesis using l by (auto simp: lcc_inv_def)
qed

text \<open>Components are well-formed dictionaries: no vertex is listed twice.\<close>

lemma visit_wf: "fold g_bfs_visit ks (q, rg, ex) = (q', rg', ex') \<Longrightarrow> dict_wf rg \<Longrightarrow> dict_wf rg'"
  by (induction ks arbitrary: q rg ex) (auto split: if_splits intro: inv_intros)

lemma g_bfs_loop_wf: "g_bfs_loop g q rg ex = Some (rg', ex') \<Longrightarrow> dict_wf rg \<Longrightarrow> dict_wf rg'"
proof (induction g q rg ex rule: g_bfs_loop.induct)
  case (1 g rg ex)
  then show ?case by simp
next
  case (2 g front q rg ex)
  then obtain adj q' rg1 ex1 where
    "dict_find g front = Some adj" "fold g_bfs_visit (map fst adj) (q, rg, ex) = (q', rg1, ex1)"
    "g_bfs_loop g q' rg1 ex1 = Some (rg', ex')"
    by (auto split: option.splits prod.splits)
  then show ?case using "2.IH" "2.prems"(2) visit_wf by (metis prod.inject)
qed

declare g_bfs_loop.simps [simp del]

lemma g_bfs_wf: "g_bfs g v ex = Some (cc, ex') \<Longrightarrow> dict_wf cc"
  unfolding g_bfs_def by (erule g_bfs_loop_wf) (simp add: dict_wf_add_vertex)

lemma g_get_lcc_wf:
  assumes "g_get_lcc g = Some lcc" and "cc \<in> set lcc"
  shows "dict_wf cc"
proof -
  let ?f = "\<lambda>v (lcc, explored).
           if \<not> g_in explored (fst v)
           then map_option (\<lambda>(cc, explored'). (lcc @ [cc], explored')) (g_bfs g (fst v) explored)
           else Some (lcc, explored)"
  obtain ex where run: "foldM ?f g ([], []) = Some (lcc, ex)"
    using assms(1) by (auto simp: g_get_lcc_def)
  have step: "\<forall>c \<in> set (fst s'). dict_wf c"
    if "\<forall>c \<in> set (fst s). dict_wf c" "?f v s = Some s'" for v s s'
    using that by (cases s) (auto split: if_splits dest: g_bfs_wf)
  have "\<forall>c \<in> set (fst (lcc, ex)). dict_wf c"
  proof (rule foldM_invariant [OF run])
    show "\<forall>c \<in> set (fst ([], [])). dict_wf c" by simp
  next
    fix v s s'
    assume "\<forall>c \<in> set (fst s). dict_wf c" "?f v s = Some s'"
    then show "\<forall>c \<in> set (fst s'). dict_wf c" by (rule step)
  qed
  then show ?thesis using assms(2) by simp
qed

section \<open>Transitive closure\<close>

lemma closure_of_component:
  "dict_find (fold (\<lambda>v rs. dict_set (g_add_vertex [] rs (fst v)) (fst v) cc) vs rs) k =
     (if k \<in> keys vs then Some cc else dict_find rs k)"
  by (induction vs arbitrary: rs) (auto simp: dict_simps graph_simps)

lemma closure_of_components:
  "(\<exists>cc \<in> set lcc. k \<in> keys cc \<and>
      dict_find (fold (\<lambda>cc rs. fold (\<lambda>v rs. dict_set (g_add_vertex [] rs (fst v)) (fst v) cc) cc rs) lcc rs) k
        = Some cc) \<or>
   ((\<forall>cc \<in> set lcc. k \<notin> keys cc) \<and>
      dict_find (fold (\<lambda>cc rs. fold (\<lambda>v rs. dict_set (g_add_vertex [] rs (fst v)) (fst v) cc) cc rs) lcc rs) k
        = dict_find rs k)"
proof (induction lcc rule: rev_induct)
  case Nil
  then show ?case by simp
next
  case (snoc cc lcc)
  then show ?case by (cases "k \<in> keys cc") (auto simp: closure_of_component)
qed

lemma g_transitive_closure_reach:
  assumes sym: "g_sym g"
  shows "\<exists>tc. g_transitive_closure g = Some tc \<and> keys tc = keys g
    \<and> (\<forall>v \<in> keys g. \<exists>cc. dict_find tc v = Some cc \<and> keys cc = reach g v)"
proof -
  obtain lcc where l: "g_get_lcc g = Some lcc" "keys ` set lcc = reach g ` keys g"
    using g_get_lcc_classes [OF sym] by blast
  define tc where "tc = fold (\<lambda>cc rs. fold (\<lambda>v rs. dict_set (g_add_vertex [] rs (fst v)) (fst v) cc) cc rs) lcc []"
  have tc: "g_transitive_closure g = Some tc" using l(1) by (simp add: g_transitive_closure_def tc_def)
  have found: "\<exists>cc. dict_find tc v = Some cc \<and> keys cc = reach g v" if v: "v \<in> keys g" for v
  proof -
    have "\<exists>cc \<in> set lcc. v \<in> keys cc" using l(2) v by (metis image_iff reach_refl)
    then obtain cc where cc: "cc \<in> set lcc" "v \<in> keys cc" "dict_find tc v = Some cc"
      using closure_of_components [of lcc v "[]"] by (auto simp: tc_def)
    obtain w where "keys cc = reach g w" using cc(1) l(2) by blast
    then show ?thesis using cc reach_eq [OF sym, of v w] by auto
  qed
  have "v \<in> keys g" if "v \<in> keys tc" for v
  proof -
    have "dict_find tc v \<noteq> None" using that by (simp add: dict_find_None_iff)
    then obtain cc where "cc \<in> set lcc" "v \<in> keys cc"
      using closure_of_components [of lcc v "[]"] unfolding tc_def [symmetric] dict_find_Nil by metis
    moreover obtain w where "w \<in> keys g" "keys cc = reach g w"
      using \<open>cc \<in> set lcc\<close> l(2) by (metis image_iff)
    ultimately show ?thesis using reach_keys [OF sym, of w] by blast
  qed
  moreover have "keys g \<subseteq> keys tc" using found dict_find_SomeD by fast
  ultimately have "keys tc = keys g" by blast
  then show ?thesis using tc found by blast
qed

text \<open>A star of edges connects exactly the members of the added class to each other: no
  vertex outside it gains an edge.\<close>

lemma edge_add_star:
  "edge (fold (\<lambda>v g. g_add_edge g c (fst v)) vs g) x y \<longleftrightarrow>
     edge g x y \<or> (x = c \<and> y \<in> keys vs) \<or> (y = c \<and> x \<in> keys vs)"
  by (induction vs arbitrary: g) (auto simp: graph_simps)

lemma reach_mono: "(\<And>x y. edge g x y \<Longrightarrow> edge g' x y) \<Longrightarrow> reach g a \<subseteq> reach g' a"
  unfolding reach_def using rtranclp_mono [of "edge g" "edge g'"] by (auto simp: le_fun_def)

lemma g_add_cc_to_g_connects:
  assumes "g_sym g" and "a \<in> keys cc" and "b \<in> keys cc"
  shows "b \<in> reach (g_add_cc_to_g g cc) a"
proof (cases cc)
  case Nil
  then show ?thesis using assms by simp
next
  case (Cons c rest)
  let ?g = "g_add_cc_to_g g cc"
  have "v \<in> reach ?g (fst c)" if "v \<in> keys cc" for v
    using that Cons reach_edge [of "fst c" ?g "fst c" v] by (auto simp: g_add_cc_to_g_def edge_add_star)
  moreover have "g_sym ?g" using assms(1) by (rule inv_intros)
  ultimately show ?thesis using assms(2,3) reach_sym reach_trans by metis
qed

lemma reach_add_cc_mono: "reach g a \<subseteq> reach (g_add_cc_to_g g cc) a"
  by (rule reach_mono) (auto simp: g_add_cc_to_g_def edge_add_star split: list.splits)

text \<open>The components of the members stay among themselves.\<close>

lemma add_cc_closed: "closed_under (g_add_cc_to_g g cc) (\<Union>c \<in> keys cc. reach g c)"
proof (cases cc)
  case Nil
  then show ?thesis by (simp add: closed_under_def)
next
  case (Cons c rest)
  have "edge (g_add_cc_to_g g cc) x y \<longleftrightarrow> edge g x y \<or> (x = fst c \<and> y \<in> keys rest) \<or> (y = fst c \<and> x \<in> keys rest)" for x y
    using Cons by (simp add: g_add_cc_to_g_def edge_add_star)
  moreover have "fst c \<in> keys cc" "keys rest \<subseteq> keys cc" using Cons by auto
  ultimately show ?thesis unfolding closed_under_def using reach_edge reach_refl by (metis UN_E UN_I subsetD)
qed

text \<open>Merging two graphs unites their edges.\<close>

lemma keys_fold_add_vertex: "keys (fold (\<lambda>vv a. g_add_vertex () a (fst vv)) vs adj) = keys adj \<union> keys vs"
  by (induction vs arbitrary: adj) auto

lemma edge_add_vertex: "edge (g_add_vertex [] g v) a b \<longleftrightarrow> edge g a b"
  by (auto simp: edge_def graph_simps split: if_splits dest: dict_find_SomeD)

lemma edge_set: "edge (dict_set g v adj) a b \<longleftrightarrow> (if a = v \<and> v \<in> keys g then b \<in> keys adj else edge g a b)"
  by (auto simp: edge_def dict_simps)

lemma merge_vertex_edges:
  "edge (let gs' = g_add_vertex [] gs v
        in case dict_find gs' v of
             None \<Rightarrow> gs'
           | Some nv \<Rightarrow> dict_set gs' v (fold (\<lambda>vv a. g_add_vertex () a (fst vv)) adj nv)) a b
     \<longleftrightarrow> edge gs a b \<or> (a = v \<and> b \<in> keys adj)"
proof -
  obtain nv where nv: "dict_find (g_add_vertex [] gs v) v = Some nv"
    using keys_dict_find [of v "g_add_vertex [] gs v"] by auto
  then have "edge gs v b \<longleftrightarrow> b \<in> keys nv" using edge_add_vertex [of gs v v b] by (simp add: edge_def)
  then show ?thesis by (auto simp: Let_def nv edge_set edge_add_vertex keys_fold_add_vertex)
qed

lemma edge_merge_graphs [graph_simps]:
  "edge (merge_graphs g h) a b \<longleftrightarrow> edge g a b \<or> (\<exists>adj. (a, adj) \<in> set h \<and> b \<in> keys adj)"
proof (induction h arbitrary: g)
  case Nil
  then show ?case by (simp add: merge_graphs_def)
next
  case (Cons v h)
  have "merge_graphs g (v # h) = merge_graphs (let gs' = g_add_vertex [] g (fst v)
        in case dict_find gs' (fst v) of
             None \<Rightarrow> gs'
           | Some nv \<Rightarrow> dict_set gs' (fst v) (fold (\<lambda>vv a. g_add_vertex () a (fst vv)) (snd v) nv)) h"
    by (simp add: merge_graphs_def)
  then have "edge (merge_graphs g (v # h)) a b \<longleftrightarrow>
      (edge g a b \<or> (a = fst v \<and> b \<in> keys (snd v))) \<or> (\<exists>adj. (a, adj) \<in> set h \<and> b \<in> keys adj)"
    by (simp only: Cons.IH merge_vertex_edges)
  then show ?case by (cases v) auto
qed

lemma dict_wf_map_of: "dict_wf d \<Longrightarrow> (k, v) \<in> set d \<longleftrightarrow> dict_find d k = Some v"
  by (auto simp: dict_wf_def dict_find_def)

lemma edge_wf: "dict_wf h \<Longrightarrow> (\<exists>adj. (a, adj) \<in> set h \<and> b \<in> keys adj) \<longleftrightarrow> edge h a b"
  by (auto simp: edge_def dict_wf_map_of)

section \<open>Properties\<close>

text \<open>C6: the connected components are the equivalence classes of reachability. On a graph
  built with \<open>g_add_edge\<close> the search never reads a missing vertex, it terminates, the
  components it lists are exactly the reachability classes of the vertices, each listed once
  and without duplicates in it, and two different components have no common vertex.\<close>

theorem g_get_lcc_partition:
  assumes "g_sym g"
  shows "\<exists>lcc. g_get_lcc g = Some lcc \<and> keys ` set lcc = reach g ` keys g
    \<and> distinct (map keys lcc) \<and> list_all dict_wf lcc
    \<and> (\<forall>i j. i < length lcc \<and> j < length lcc \<and> i \<noteq> j \<longrightarrow> keys (lcc ! i) \<inter> keys (lcc ! j) = {})"
proof -
  obtain lcc where l: "g_get_lcc g = Some lcc" "keys ` set lcc = reach g ` keys g" "distinct (map keys lcc)"
    using g_get_lcc_classes [OF assms] by blast
  have "keys (lcc ! i) \<inter> keys (lcc ! j) = {}" if ij: "i < length lcc" "j < length lcc" "i \<noteq> j" for i j
  proof (rule ccontr)
    have "keys (lcc ! i) \<in> reach g ` keys g" "keys (lcc ! j) \<in> reach g ` keys g"
      using ij unfolding l(2) [symmetric] by auto
    then obtain v w where vw: "keys (lcc ! i) = reach g v" "keys (lcc ! j) = reach g w" by blast
    assume "keys (lcc ! i) \<inter> keys (lcc ! j) \<noteq> {}"
    then obtain x where "x \<in> reach g v" "x \<in> reach g w" using vw by blast
    then have "keys (lcc ! i) = keys (lcc ! j)" using reach_eq [OF assms, of x v] reach_eq [OF assms, of x w] vw by simp
    then show False using l(3) ij by (auto simp: distinct_conv_nth)
  qed
  moreover have "list_all dict_wf lcc" using g_get_lcc_wf [OF l(1)] unfolding list_all_iff by blast
  ultimately show ?thesis using l by blast
qed

text \<open>Two edges that share a vertex and one that is apart give two components.\<close>

theorem g_get_lcc_partition_witness:
  "\<exists>lcc. g_get_lcc (g_add_edge (g_add_edge (g_add_edge [] 1 2) 2 3) 4 (5 :: nat)) = Some lcc
     \<and> distinct (map keys lcc) \<and> list_all dict_wf lcc"
proof -
  have "g_sym (g_add_edge (g_add_edge (g_add_edge [] 1 2) 2 3) 4 (5 :: nat))"
    by (intro inv_intros g_sym_Nil)
  from g_get_lcc_partition [OF this] show ?thesis by blast
qed

text \<open>C20: the transitive closure of a symmetric graph has the same vertices, and it maps
  every vertex to exactly the set of vertices reachable from it.\<close>

theorem g_transitive_closure_correct:
  assumes "g_sym g"
  shows "\<exists>tc. g_transitive_closure g = Some tc \<and> keys tc = keys g
    \<and> (\<forall>a b. a \<in> keys g \<longrightarrow> (g_directed_edge_in tc a b \<longleftrightarrow> b \<in> reach g a))"
proof -
  obtain tc where tc: "g_transitive_closure g = Some tc" "keys tc = keys g"
    and cc: "\<forall>v \<in> keys g. \<exists>cc. dict_find tc v = Some cc \<and> keys cc = reach g v"
    using g_transitive_closure_reach [OF assms] by blast
  have "g_directed_edge_in tc a b \<longleftrightarrow> b \<in> reach g a" if "a \<in> keys g" for a b
    using cc that by (fastforce simp: g_directed_edge_in_iff edge_def)
  then show ?thesis using tc by blast
qed

theorem g_transitive_closure_correct_witness:
  "\<exists>tc. g_transitive_closure (g_add_edge (g_add_edge [] 1 2) 2 (3 :: nat)) = Some tc
     \<and> g_directed_edge_in tc 1 3"
proof -
  let ?g = "g_add_edge (g_add_edge [] 1 2) 2 (3 :: nat)"
  have "g_sym ?g" by (intro inv_intros g_sym_Nil)
  moreover have "(1 :: nat) \<in> keys ?g" by simp
  moreover have "3 \<in> reach ?g 1"
    by (rule reach_edge [OF reach_edge [OF reach_refl]]) (auto simp: graph_simps)
  ultimately show ?thesis using g_transitive_closure_correct [of ?g] by blast
qed

text \<open>C21: adding a class to a graph merges exactly the components that meet the class. Afterwards the component of every
  vertex is what it was, if it contains no member of the class, and otherwise the union of the components of all members: none of
  them loses a vertex, and no other component joins.\<close>

theorem g_add_cc_to_g_merges:
  assumes "g_sym g"
  shows "reach (g_add_cc_to_g g cc) a =
    (if reach g a \<inter> keys cc = {} then reach g a else (\<Union>c \<in> keys cc. reach g c))"
proof (cases "reach g a \<inter> keys cc = {}")
  case True
  then have "edge (g_add_cc_to_g g cc) x y \<longleftrightarrow> edge g x y" if "x \<in> reach g a" for x y
    using that by (cases cc) (auto simp: g_add_cc_to_g_def edge_add_star)
  then have "closed_under (g_add_cc_to_g g cc) (reach g a)"
    by (auto simp: closed_under_def intro: reach_edge)
  then have "reach (g_add_cc_to_g g cc) a \<subseteq> reach g a" by (rule closed_under_reach) (rule reach_refl)
  then show ?thesis using True reach_add_cc_mono [of g a cc] by auto
next
  case False
  let ?g = "g_add_cc_to_g g cc" and ?U = "\<Union>c \<in> keys cc. reach g c"
  obtain c where c: "c \<in> reach g a" "c \<in> keys cc" using False by blast
  have "closed_under ?g ?U" by (rule add_cc_closed)
  moreover have "a \<in> ?U" using c reach_sym [OF assms c(1)] by blast
  ultimately have "reach ?g a \<subseteq> ?U" by (rule closed_under_reach)
  moreover have "reach g d \<subseteq> reach ?g a" if "d \<in> keys cc" for d
  proof -
    have "c \<in> reach ?g a" using c(1) reach_add_cc_mono [of g a cc] by blast
    then have d_in: "d \<in> reach ?g a" using g_add_cc_to_g_connects [OF assms c(2) that] by (rule reach_trans)
    show ?thesis
    proof
      fix x
      assume "x \<in> reach g d"
      then have "x \<in> reach ?g d" using reach_add_cc_mono [of g d cc] by blast
      with d_in show "x \<in> reach ?g a" by (rule reach_trans)
    qed
  qed
  ultimately show ?thesis using False by auto
qed

theorem g_add_cc_to_g_merges_witness:
  "reach (g_add_cc_to_g (g_add_edge (g_add_edge [] 1 2) 3 4) [(2, ()), (4, ())]) (2 :: nat) =
     reach (g_add_edge (g_add_edge [] 1 2) 3 4) 2 \<union> reach (g_add_edge (g_add_edge [] 1 2) 3 4) 4"
proof -
  have "g_sym (g_add_edge (g_add_edge [] 1 2) 3 (4 :: nat))" by (intro inv_intros g_sym_Nil)
  from g_add_cc_to_g_merges [OF this, of "[(2, ()), (4, ())]" 2] show ?thesis
    using reach_refl [of "2 :: nat" "g_add_edge (g_add_edge [] 1 2) 3 4"] by auto
qed

end
