(* ===== verification/Ids.thy ===== *)
theory Ids
  imports Graph
begin

unbundle bit_operations_syntax

text \<open>
  Generation of the CFI identifiers (\<open>_convert_to_mcfi_half_id_format\<close> and \<open>gen_mcfi_id\<close> of
  \<open>src/runtime/include/cfggen/cfggen.h\<close>). An identifier is a 64-bit word: the upper half
  names an equivalence class, the lower half the version of the control-flow graph, and bit 0
  says that the target is active. Every byte of a half has bit 0 clear and avoids the values
  reserved for landing pads, native code and generated code, so that an identifier read at a
  wrong alignment never looks like a valid one.
\<close>

section \<open>Half identifiers\<close>

definition LPV :: u64 where "LPV = 0xFE"

definition NPV :: u64 where "NPV = 0xFC"

definition DCV :: u64 where "DCV = 0xF4"

text \<open>The four 7-bit fields \<open>a\<close>, \<open>b\<close>, \<open>c\<close>, \<open>d\<close> of a number, each shifted left by one.\<close>

definition half_field :: "nat \<Rightarrow> u64 \<Rightarrow> u64" where
  "half_field i number = push_bit 1 (drop_bit (7 * i) number AND 127)"

definition half_ok :: "u64 \<Rightarrow> bool" where
  "half_ok number \<longleftrightarrow>
     (\<forall>i \<in> {0, 1, 2, 3}. half_field i number \<noteq> DCV \<and> half_field i number \<noteq> LPV
        \<and> half_field i number \<noteq> NPV)"

definition half_pack :: "u64 \<Rightarrow> u64" where
  "half_pack number =
     (push_bit 24 (half_field 3 number) OR push_bit 16 (half_field 2 number)
      OR push_bit 8 (half_field 1 number) OR half_field 0 number)"

abbreviation half_modulus :: nat where
  "half_modulus \<equiv> 268435455"

lemma unat_mod_modulus: "unat (number mod 268435455 :: u64) = unat number mod half_modulus"
  by (simp add: unat_mod)

lemma unat_mod_Suc: "unat (number mod 268435455 + 1 :: u64) = Suc (unat number mod half_modulus)"
proof -
  have "unat number mod half_modulus < half_modulus" by simp
  then show ?thesis
    by (simp add: unat_word_ariths unat_mod_modulus)
qed

lemma half_ok_0: "half_ok 0"
  by (simp add: half_ok_def half_field_def DCV_def LPV_def NPV_def)

function convert_to_mcfi_half_id_format :: "u64 \<Rightarrow> u64 \<times> u64" where
  "convert_to_mcfi_half_id_format number =
     (let n = number mod 268435455
      in if half_ok n then (half_pack n, n + 1) else convert_to_mcfi_half_id_format (n + 1))"
  by pat_completeness auto

text \<open>The loop stops: number 0 is acceptable and is reached at the latest when the counter
  wraps around the modulus.\<close>

termination
proof (relation "measure (\<lambda>x :: u64. if half_ok (x mod 268435455) then 0
    else half_modulus - unat x mod half_modulus)", goal_cases)
  case 1
  show ?case by simp
next
  case (2 number n)
  let ?m = "unat number mod half_modulus"
  have m: "?m < half_modulus" by simp
  have n1: "unat (n + 1) = Suc ?m" using 2(1) by (simp add: unat_mod_Suc)
  show ?case
  proof (cases "Suc ?m = half_modulus")
    case True
    then have "unat ((n + 1) mod 268435455) = 0" using n1 by (simp add: unat_mod_modulus)
    then have "half_ok ((n + 1) mod 268435455)" using half_ok_0 by (simp add: unat_eq_0)
    then show ?thesis using 2 m by simp
  next
    case False
    then have "unat (n + 1) mod half_modulus = Suc ?m" using n1 m by simp
    moreover have "half_modulus - Suc ?m < half_modulus - ?m" using m by linarith
    ultimately show ?thesis using 2 by simp
  qed
qed

declare convert_to_mcfi_half_id_format.simps [simp del]

section \<open>The format\<close>

lemma bit_half_field: "bit (half_field i n) j \<longleftrightarrow> 0 < j \<and> j < 8 \<and> bit n (7 * i + j - 1)"
proof -
  have "(127 :: u64) = mask 7" by (simp add: mask_eq_exp_minus_1)
  then have "bit (half_field i n) j \<longleftrightarrow> j < 64 \<and> 0 < j \<and> j - 1 < 7 \<and> bit n (7 * i + (j - 1))"
    unfolding half_field_def \<open>127 = mask 7\<close> take_bit_eq_mask [symmetric] bit_push_bit_iff
    by (auto simp: bit_take_bit_iff bit_drop_bit_eq)
  then show ?thesis by (cases j) auto
qed

lemma byte_of_half_pack:
  assumes "k < 4"
  shows "byte_of k (half_pack n) = ucast (half_field k n)"
proof -
  have "k = 0 \<or> k = 1 \<or> k = 2 \<or> k = 3" using assms by auto
  then show ?thesis
    by (elim disjE) (auto intro!: bit_eqI simp: bit_byte_of half_pack_def bit_half_field bit_simps)
qed

lemma half_pack_high: "drop_bit 32 (half_pack n) = 0"
  by (auto intro!: bit_eqI simp: half_pack_def bit_half_field bit_simps)

lemma bit_half_pack_0: "\<not> bit (half_pack n) 0"
  by (simp add: half_pack_def bit_half_field bit_simps)

lemma bit_half_pack:
  assumes "q < 4" and "r < 7"
  shows "bit (half_pack n) (8 * q + r + 1) = bit n (7 * q + r)"
proof -
  have "q = 0 \<or> q = 1 \<or> q = 2 \<or> q = 3" using assms(1) by auto
  then show ?thesis
    using assms(2) by (elim disjE) (auto simp: half_pack_def bit_half_field bit_simps)
qed

lemma half_pack_inj:
  assumes "unat m < 2 ^ 28" and "unat n < 2 ^ 28" and "half_pack m = half_pack n"
  shows "m = n"
proof (rule bit_eqI)
  fix j
  show "bit m j = bit n j"
  proof (cases "j < 28")
    case True
    then have "j div 7 < 4" "j mod 7 < 7" by auto
    from bit_half_pack [OF this, of m] bit_half_pack [OF this, of n] assms(3)
    show ?thesis by simp
  next
    case False
    have "\<not> bit w j" if "unat w < 2 ^ 28" for w :: u64
    proof -
      have "unat w < 2 ^ j" using that False power_increasing [of 28 j "2 :: nat"] by simp
      then have "drop_bit j (unat w) = 0" by (simp add: drop_bit_eq_div)
      then have "unat (drop_bit j w) = 0" by (simp only: unat_drop_bit_eq)
      then have "\<not> bit (drop_bit j w) 0" by (simp add: unat_eq_0)
      then show ?thesis by (simp add: bit_drop_bit_eq)
    qed
    then show ?thesis using assms by simp
  qed
qed

section \<open>How many half identifiers there are\<close>

text \<open>The same test on natural numbers, field by field.\<close>

definition ok7 :: "nat \<Rightarrow> bool" where
  "ok7 x \<longleftrightarrow> x \<noteq> 122 \<and> x \<noteq> 126 \<and> x \<noteq> 127"

fun ok_fields :: "nat \<Rightarrow> nat \<Rightarrow> bool" where
  "ok_fields 0 m = True"
| "ok_fields (Suc k) m = (ok7 (m mod 128) \<and> ok_fields k (m div 128))"

lemma unat_half_field: "unat (half_field i n) = 2 * (unat n div 2 ^ (7 * i) mod 128)"
proof -
  have "(127 :: u64) = mask 7" by (simp add: mask_eq_exp_minus_1)
  then have "unat (drop_bit (7 * i) n AND 127) = unat (take_bit 7 (drop_bit (7 * i) n))"
    by (simp only: take_bit_eq_mask)
  also have "\<dots> = unat n div 2 ^ (7 * i) mod 128"
    by (simp only: unsigned_take_bit_eq unat_drop_bit_eq) (simp add: take_bit_eq_mod drop_bit_eq_div)
  finally have "unat (drop_bit (7 * i) n AND 127) = unat n div 2 ^ (7 * i) mod 128" .
  moreover have "\<dots> < 128" by simp
  moreover have "half_field i n = 2 * (drop_bit (7 * i) n AND 127)"
    by (simp only: half_field_def push_bit_eq_mult power_one_right mult.commute)
  ultimately show ?thesis by (simp add: unat_word_ariths)
qed

lemma half_field_reserved:
  "half_field i n \<noteq> DCV \<and> half_field i n \<noteq> LPV \<and> half_field i n \<noteq> NPV
     \<longleftrightarrow> ok7 (unat n div 2 ^ (7 * i) mod 128)"
proof -
  have "half_field i n = w \<longleftrightarrow> 2 * (unat n div 2 ^ (7 * i) mod 128) = unat w" for w
    by (simp add: word_unat_eq_iff unat_half_field)
  then show ?thesis by (auto simp: ok7_def DCV_def LPV_def NPV_def)
qed

lemma ok_fields_4:
  "ok_fields 4 m \<longleftrightarrow>
     ok7 (m mod 128) \<and> ok7 (m div 128 mod 128) \<and> ok7 (m div 16384 mod 128) \<and> ok7 (m div 2097152 mod 128)"
proof -
  have "(4 :: nat) = Suc (Suc (Suc (Suc 0)))" by simp
  then have "ok_fields 4 m = ok_fields (Suc (Suc (Suc (Suc 0)))) m" by (simp only:)
  then show ?thesis by (simp add: div_mult2_eq [symmetric])
qed

lemma half_ok_fields: "half_ok n \<longleftrightarrow> ok_fields 4 (unat n)"
  by (simp add: half_ok_def half_field_reserved ok_fields_4)

lemma card_ok7: "card {a. a < 128 \<and> ok7 a} = 125"
proof -
  have "{a. a < 128 \<and> ok7 a} = {..<128} - {122, 126, 127}" by (auto simp: ok7_def)
  then show ?thesis by (simp add: card_Diff_subset)
qed

lemma card_ok_fields: "card {m. m < 128 ^ k \<and> ok_fields k m} = 125 ^ k"
proof (induction k)
  case 0
  then show ?case by simp
next
  case (Suc k)
  let ?f = "\<lambda>(a, b). a + 128 * b :: nat"
  let ?A = "{a. a < 128 \<and> ok7 a}" and ?B = "{m. m < 128 ^ k \<and> ok_fields k m}"
  have inj: "inj_on ?f (?A \<times> ?B)"
  proof (rule inj_onI)
    fix p p' :: "nat \<times> nat"
    assume p: "p \<in> ?A \<times> ?B" "p' \<in> ?A \<times> ?B" "?f p = ?f p'"
    have "snd p = ?f p div 128" "snd p' = ?f p' div 128" "fst p = ?f p mod 128" "fst p' = ?f p' mod 128"
      using p(1,2) by auto
    then show "p = p'" using p(3) by (simp add: prod_eq_iff)
  qed
  have "{m. m < 128 ^ Suc k \<and> ok_fields (Suc k) m} = ?f ` (?A \<times> ?B)"
  proof (intro set_eqI iffI)
    fix m
    assume "m \<in> {m. m < 128 ^ Suc k \<and> ok_fields (Suc k) m}"
    then have "(m mod 128, m div 128) \<in> ?A \<times> ?B" by (auto simp: less_mult_imp_div_less mult.commute)
    then have "?f (m mod 128, m div 128) \<in> ?f ` (?A \<times> ?B)" by (rule imageI)
    then show "m \<in> ?f ` (?A \<times> ?B)" by simp
  next
    fix m
    assume "m \<in> ?f ` (?A \<times> ?B)"
    then show "m \<in> {m. m < 128 ^ Suc k \<and> ok_fields (Suc k) m}" by auto
  qed
  then have "card {m. m < 128 ^ Suc k \<and> ok_fields (Suc k) m} = card (?A \<times> ?B)"
    by (simp only: card_image [OF inj])
  then show ?case using Suc.IH card_ok7 by (simp add: card_cartesian_product)
qed

text \<open>The acceptable numbers below a bound, and all of them.\<close>

definition ok_below :: "nat \<Rightarrow> nat set" where
  "ok_below n = {m. m < n \<and> ok_fields 4 m}"

lemma finite_ok_below [simp]: "finite (ok_below n)"
  by (simp add: ok_below_def)

lemma ok_below_mono: "m \<le> n \<Longrightarrow> ok_below m \<subseteq> ok_below n"
  by (auto simp: ok_below_def)

lemma ok_below_Suc: "ok_below (Suc n) = (if ok_fields 4 n then insert n (ok_below n) else ok_below n)"
  by (auto simp: ok_below_def less_Suc_eq)

lemma card_ok_below: "card (ok_below half_modulus) = 125 ^ 4"
proof -
  have "\<not> ok_fields 4 half_modulus" by (simp add: ok_fields_4 ok7_def)
  moreover have "m < 128 ^ 4 \<longleftrightarrow> m < half_modulus \<or> m = half_modulus" for m :: nat by auto
  ultimately have "ok_below half_modulus = {m. m < 128 ^ 4 \<and> ok_fields 4 m}"
    unfolding ok_below_def by blast
  then show ?thesis by (simp only: card_ok_fields)
qed

section \<open>A supply of identifiers\<close>

text \<open>
  The interface that the generator of identifiers relies on: as long as fewer than \<open>cap\<close>
  identifiers have been handed out, the next one is new. The first \<open>k\<close> draws are then
  pairwise distinct.
\<close>

fun draws :: "('s \<Rightarrow> 'i \<times> 's) \<Rightarrow> nat \<Rightarrow> 's \<Rightarrow> 'i list \<times> 's" where
  "draws draw 0 s = ([], s)"
| "draws draw (Suc k) s =
     (case draw s of (i, s1) \<Rightarrow> (case draws draw k s1 of (is, s2) \<Rightarrow> (i # is, s2)))"

lemma length_draws: "draws draw k s = (is, s') \<Longrightarrow> length is = k"
  by (induction k arbitrary: s "is") (auto split: prod.splits)

lemma draws_add:
  "draws draw (j + k) s =
     (case draws draw j s of (is, s1) \<Rightarrow> (case draws draw k s1 of (js, s2) \<Rightarrow> (is @ js, s2)))"
  by (induction j arbitrary: s) (auto split: prod.splits)

locale id_supply =
  fixes draw :: "'s \<Rightarrow> 'i \<times> 's"
    and used :: "'s \<Rightarrow> 'i set"
    and valid :: "'s \<Rightarrow> bool"
    and cap :: nat
  assumes used_finite: "finite (used s)"
    and draw_fresh: "valid s \<Longrightarrow> card (used s) < cap \<Longrightarrow> draw s = (i, s') \<Longrightarrow> i \<notin> used s"
    and draw_used: "valid s \<Longrightarrow> card (used s) < cap \<Longrightarrow> draw s = (i, s') \<Longrightarrow> used s' = insert i (used s)"
    and draw_valid: "valid s \<Longrightarrow> card (used s) < cap \<Longrightarrow> draw s = (i, s') \<Longrightarrow> valid s'"
begin

lemma draws_distinct:
  "valid s \<Longrightarrow> card (used s) + k \<le> cap \<Longrightarrow> draws draw k s = (is, s') \<Longrightarrow>
     distinct is \<and> set is \<inter> used s = {} \<and> used s' = set is \<union> used s"
proof (induction k arbitrary: s "is")
  case 0
  then show ?case by simp
next
  case (Suc k)
  obtain i s1 is1 where d: "draw s = (i, s1)" "draws draw k s1 = (is1, s')" "is = i # is1"
    using Suc.prems(3) by (auto split: prod.splits)
  have c: "card (used s) < cap" using Suc.prems(2) by simp
  note fresh = draw_fresh [OF Suc.prems(1) c d(1)] draw_used [OF Suc.prems(1) c d(1)]
  have "card (used s1) + k \<le> cap" using Suc.prems(2) fresh used_finite by simp
  from Suc.IH [OF draw_valid [OF Suc.prems(1) c d(1)] this d(2)] fresh d(3) show ?case by auto
qed

end

text \<open>For the runtime's counter, the identifiers handed out are those of the acceptable
  numbers below it.\<close>

definition half_ids_used :: "u64 \<Rightarrow> u64 set" where
  "half_ids_used number = (\<lambda>m. half_pack (of_nat m)) ` ok_below (unat number)"

lemma half_pack_of_nat_inj: "inj_on (\<lambda>m. half_pack (of_nat m)) {m. m < 2 ^ 28}"
proof (rule inj_onI)
  fix m n :: nat
  assume mn: "m \<in> {m. m < 2 ^ 28}" "n \<in> {m. m < 2 ^ 28}"
    and eq: "half_pack (of_nat m) = half_pack (of_nat n)"
  have "m < 2 ^ LENGTH(64)" "n < 2 ^ LENGTH(64)"
    using mn power_strict_increasing [of 28 64 "2 :: nat"] by auto
  then have u: "unat (of_nat m :: u64) = m" "unat (of_nat n :: u64) = n"
    by (simp_all only: unat_of_nat mod_less)
  have "(of_nat m :: u64) = of_nat n"
    using mn eq u by (auto intro: half_pack_inj [of "of_nat m" "of_nat n"])
  then show "m = n" using u by metis
qed

text \<open>The search stops at the first acceptable number at or after the counter.\<close>

lemma convert_next:
  assumes "ok_fields 4 m" and "m < half_modulus" and "unat number \<le> m"
    and "\<forall>j. unat number \<le> j \<and> j < m \<longrightarrow> \<not> ok_fields 4 j"
  shows "convert_to_mcfi_half_id_format number = (half_pack (of_nat m), of_nat (Suc m))"
  using assms
proof (induction number rule: convert_to_mcfi_half_id_format.induct)
  case (1 number)
  have lt: "unat number < half_modulus" using "1.prems" by simp
  have n: "number mod 268435455 = number" using lt by (simp add: word_unat_eq_iff unat_mod_modulus)
  show ?case
  proof (cases "half_ok number")
    case True
    then have "unat number = m" using "1.prems" by (metis half_ok_fields le_neq_implies_less order_refl)
    then have m: "of_nat m = number" by auto
    show ?thesis
      using True n unfolding of_nat_Suc m by (subst convert_to_mcfi_half_id_format.simps) (simp add: add.commute)
  next
    case False
    then have "unat number \<noteq> m" using "1.prems"(1) by (auto simp: half_ok_fields)
    then have "unat (number + 1) \<le> m" "unat (number + 1) = Suc (unat number)"
      using "1.prems"(3) lt unat_mod_Suc [of number] n by auto
    then have "convert_to_mcfi_half_id_format (number + 1) = (half_pack (of_nat m), of_nat (Suc m))"
      using False "1.prems" n by (intro "1.IH" [OF n [symmetric]]) auto
    then show ?thesis using False n by (subst convert_to_mcfi_half_id_format.simps) simp
  qed
qed

lemma convert_draw:
  assumes "card (half_ids_used number) < 125 ^ 4" and "unat number \<le> half_modulus"
  obtains m where "ok_fields 4 m" "m < half_modulus" "unat number \<le> m"
    "ok_below (Suc m) = insert m (ok_below (unat number))" "m \<notin> ok_below (unat number)"
    "convert_to_mcfi_half_id_format number = (half_pack (of_nat m), of_nat (Suc m))"
proof -
  have "card (half_ids_used number) = card (ok_below (unat number))"
    unfolding half_ids_used_def
    using assms(2) by (intro card_image inj_on_subset [OF half_pack_of_nat_inj]) (auto simp: ok_below_def)
  then have "ok_below (unat number) \<noteq> ok_below half_modulus"
    using assms(1) card_ok_below by auto
  then obtain m0 where "m0 \<in> ok_below half_modulus - ok_below (unat number)"
    using ok_below_mono [OF assms(2)] by blast
  then have m0: "ok_fields 4 m0 \<and> m0 < half_modulus \<and> unat number \<le> m0"
    by (auto simp: ok_below_def)
  define m where "m = (LEAST m. ok_fields 4 m \<and> m < half_modulus \<and> unat number \<le> m)"
  have m: "ok_fields 4 m \<and> m < half_modulus \<and> unat number \<le> m"
    unfolding m_def by (rule LeastI, rule m0)
  have least: "\<forall>j. unat number \<le> j \<and> j < m \<longrightarrow> \<not> ok_fields 4 j"
    using m not_less_Least unfolding m_def by (metis (no_types, lifting) order_less_trans)
  have "ok_below (Suc m) = insert m (ok_below (unat number))"
    using m least by (auto simp: ok_below_def less_Suc_eq) (metis not_le)
  moreover have "m \<notin> ok_below (unat number)" using m by (simp add: ok_below_def)
  ultimately show thesis using that m convert_next [OF _ _ _ least] by blast
qed

lemma convert_supply:
  assumes "card (half_ids_used number) < 125 ^ 4" and "unat number \<le> half_modulus"
    and "convert_to_mcfi_half_id_format number = (i, number')"
  shows "i \<notin> half_ids_used number" and "half_ids_used number' = insert i (half_ids_used number)"
    and "unat number' \<le> half_modulus"
proof -
  obtain m where m: "m < half_modulus" "ok_below (Suc m) = insert m (ok_below (unat number))"
    "m \<notin> ok_below (unat number)"
    "convert_to_mcfi_half_id_format number = (half_pack (of_nat m), of_nat (Suc m))"
    using convert_draw [OF assms(1,2)] by metis
  have i: "i = half_pack (of_nat m)" "number' = of_nat (Suc m)" using m(4) assms(3) by auto
  have n': "unat number' = Suc m" using m(1) i(2) by (simp only: unat_of_nat) simp
  then show "unat number' \<le> half_modulus" using m(1) by simp
  show "half_ids_used number' = insert i (half_ids_used number)"
    unfolding half_ids_used_def n' m(2) i(1) by simp
  have "m' < 2 ^ 28" if "m' \<in> insert m (ok_below (unat number))" for m'
    using that m(1) assms(2) by (auto simp: ok_below_def)
  then have "inj_on (\<lambda>m. half_pack (of_nat m)) (insert m (ok_below (unat number)))"
    by (intro inj_on_subset [OF half_pack_of_nat_inj]) auto
  then show "i \<notin> half_ids_used number"
    unfolding half_ids_used_def i using m(3) by (auto dest: inj_onD)
qed

interpretation half_ids: id_supply convert_to_mcfi_half_id_format half_ids_used
  "\<lambda>number. unat number \<le> half_modulus" "125 ^ 4"
proof (unfold_locales, goal_cases)
  case (1 s)
  show ?case by (simp add: half_ids_used_def)
next
  case (2 s i s')
  then show ?case using convert_supply(1) by blast
next
  case (3 s i s')
  then show ?case using convert_supply(2) by blast
next
  case (4 s i s')
  then show ?case using convert_supply(3) by blast
qed

section \<open>Generating the identifiers of all classes\<close>

text \<open>The macro \<open>GEN_IDS\<close>: one identifier per class, stored for each of its members.
  \<open>compat_mode\<close> is \<open>COMPAT_MODE\<close>, set when an uninstrumented module is loaded.\<close>

definition mk_id :: "u64 \<Rightarrow> u64 \<Rightarrow> u64" where
  "mk_id mcfi_version h = (push_bit 32 h OR mcfi_version OR 1)"

definition GEN_IDS ::
  "bool \<Rightarrow> u64 \<Rightarrow> u64 \<Rightarrow> 'k adj list \<Rightarrow> u64 \<Rightarrow> (u64 \<times> ('k, u64) dict) option" where
  "GEN_IDS compat_mode mcfi_version dv lcc eqc_number =
     foldM (\<lambda>cc (eqc, ids).
         let (h, eqc') = (if compat_mode then (dv, eqc) else convert_to_mcfi_half_id_format eqc)
         in map_option (\<lambda>ids'. (eqc', ids'))
              (foldM (\<lambda>v ids. dict_add ids (fst v) (mk_id mcfi_version h)) cc ids))
       lcc (eqc_number, [])"

text \<open>Returns the new version counter, the identifier of the branches without targets, and
  the identifiers of the call graph and of the return graph.\<close>

definition gen_mcfi_id ::
  "bool \<Rightarrow> 'k adj list \<Rightarrow> 'k adj list \<Rightarrow> u64
     \<Rightarrow> (u64 \<times> u64 \<times> ('k, u64) dict \<times> ('k, u64) dict) option" where
  "gen_mcfi_id compat_mode lcg lrt version =
     (let (mcfi_version, version') = convert_to_mcfi_half_id_format version
      in do {
        (eqc1, callids) \<leftarrow> GEN_IDS compat_mode mcfi_version 1 lcg 0;
        (eqc2, retids) \<leftarrow> GEN_IDS compat_mode mcfi_version 2 lrt eqc1;
        Some (version',
              (if compat_mode then NPV else mk_id mcfi_version (fst (convert_to_mcfi_half_id_format eqc2))),
              callids, retids)
      })"

text \<open>Halves fit in 32 bits, so an identifier determines its class half.\<close>

definition is_half :: "u64 \<Rightarrow> bool" where
  "is_half h \<longleftrightarrow> (\<forall>j. bit h j \<longrightarrow> 0 < j \<and> j < 32)"

lemma is_half_pack: "is_half (half_pack n)"
  by (auto simp: is_half_def half_pack_def bit_half_field bit_simps)

lemma convert_half_pack: "\<exists>n. fst (convert_to_mcfi_half_id_format number) = half_pack n \<and> half_ok n"
proof (induction number rule: convert_to_mcfi_half_id_format.induct)
  case (1 number)
  show ?case
  proof (cases "half_ok (number mod 268435455)")
    case True
    then show ?thesis by (subst convert_to_mcfi_half_id_format.simps) (auto simp: Let_def)
  next
    case False
    then show ?thesis
      using "1" by (subst convert_to_mcfi_half_id_format.simps) simp
  qed
qed

lemma convert_ok_below:
  "\<exists>m \<in> ok_below half_modulus. fst (convert_to_mcfi_half_id_format number) = half_pack (of_nat m)"
proof (induction number rule: convert_to_mcfi_half_id_format.induct)
  case (1 number)
  show ?case
  proof (cases "half_ok (number mod 268435455)")
    case True
    then have "unat (number mod 268435455) \<in> ok_below half_modulus"
      by (simp add: ok_below_def half_ok_fields unat_mod_modulus)
    moreover have "fst (convert_to_mcfi_half_id_format number) = half_pack (number mod 268435455)"
      using True by (subst convert_to_mcfi_half_id_format.simps) (simp add: Let_def)
    ultimately show ?thesis by (intro bexI [of _ "unat (number mod 268435455)"]) simp_all
  next
    case False
    then show ?thesis using "1" by (subst convert_to_mcfi_half_id_format.simps) simp
  qed
qed

lemma is_half_convert: "is_half (fst (convert_to_mcfi_half_id_format number))"
  using convert_half_pack [of number] is_half_pack by auto

lemma mk_id_high: "is_half v \<Longrightarrow> is_half h \<Longrightarrow> drop_bit 32 (mk_id v h) = h"
  by (rule bit_eqI) (auto simp: mk_id_def is_half_def bit_simps)

lemma mk_id_inj: "is_half v \<Longrightarrow> is_half h \<Longrightarrow> is_half h' \<Longrightarrow> mk_id v h = mk_id v h' \<Longrightarrow> h = h'"
  by (metis mk_id_high)

lemma bit_mk_id_0 [simp]: "bit (mk_id v h) 0"
  by (simp add: mk_id_def bit_simps)

lemma is_half_draws:
  "draws convert_to_mcfi_half_id_format k n = (is, n') \<Longrightarrow> \<forall>h \<in> set is. is_half h"
proof (induction k arbitrary: n "is")
  case 0
  then show ?case by simp
next
  case (Suc k)
  then show ?case using is_half_convert [of n] by (fastforce split: prod.splits)
qed

text \<open>The classes given to the generator: well-formed and pairwise disjoint, as
  \<open>g_get_lcc\<close> returns them.\<close>

definition classes_ok :: "'k adj list \<Rightarrow> bool" where
  "classes_ok lcc \<longleftrightarrow> (\<forall>cc \<in> set lcc. dict_wf cc) \<and>
     (\<forall>i j. i < length lcc \<longrightarrow> j < length lcc \<longrightarrow> i \<noteq> j \<longrightarrow> keys (lcc ! i) \<inter> keys (lcc ! j) = {})"

text \<open>Members of classes paired with the identifier of their class.\<close>

fun assigned :: "(u64 \<Rightarrow> u64) \<Rightarrow> 'k adj list \<Rightarrow> u64 list \<Rightarrow> ('k, u64) dict" where
  "assigned f (cc # lcc) (h # hs) = map (\<lambda>v. (fst v, f h)) cc @ assigned f lcc hs"
| "assigned f _ _ = []"

lemma keys_append [simp]: "keys (d @ e) = keys d \<union> keys e"
  by (auto simp: keys_def simp del: image_fst_keys)

lemma keys_map_pair [simp]: "keys (map (\<lambda>v. (fst v, x)) cc) = keys cc"
  by (force simp: keys_def simp del: image_fst_keys)

lemma add_class:
  "dict_wf cc \<Longrightarrow> keys cc \<inter> keys ids = {} \<Longrightarrow>
     foldM (\<lambda>v ids. dict_add ids (fst v) x) cc ids = Some (ids @ map (\<lambda>v. (fst v, x)) cc)"
proof (induction cc arbitrary: ids)
  case Nil
  then show ?case by simp
next
  case (Cons v cc)
  have wf: "dict_wf cc" "fst v \<notin> keys cc" using Cons.prems(1) by (auto simp: dict_wf_def)
  have "dict_add ids (fst v) x = Some (ids @ [(fst v, x)])"
    using Cons.prems(2) by (auto simp: dict_add_eq_Some dict_put_def)
  moreover have "keys cc \<inter> keys (ids @ [(fst v, x)]) = {}" using Cons.prems(2) wf(2) by auto
  ultimately show ?case using Cons.IH [OF wf(1)] by simp
qed

lemma classes_ok_Nil [simp]: "classes_ok []"
  by (simp add: classes_ok_def)

lemma classes_ok_Cons:
  "classes_ok (cc # lcc) \<longleftrightarrow> dict_wf cc \<and> classes_ok lcc \<and> (\<forall>c \<in> set lcc. keys cc \<inter> keys c = {})"
proof
  assume ok: "classes_ok (cc # lcc)"
  have "keys cc \<inter> keys (lcc ! j) = {}" if "j < length lcc" for j
    using ok that unfolding classes_ok_def by (elim conjE allE [of _ 0] allE [of _ "Suc j"]) auto
  moreover have "keys (lcc ! i) \<inter> keys (lcc ! j) = {}" if "i < length lcc" "j < length lcc" "i \<noteq> j" for i j
    using ok that unfolding classes_ok_def by (elim conjE allE [of _ "Suc i"] allE [of _ "Suc j"]) auto
  ultimately show "dict_wf cc \<and> classes_ok lcc \<and> (\<forall>c \<in> set lcc. keys cc \<inter> keys c = {})"
    using ok unfolding classes_ok_def by (metis in_set_conv_nth list.set_intros)
next
  assume "dict_wf cc \<and> classes_ok lcc \<and> (\<forall>c \<in> set lcc. keys cc \<inter> keys c = {})"
  then show "classes_ok (cc # lcc)"
    by (auto simp: classes_ok_def nth_Cons Int_commute split: nat.splits)
qed

lemma GEN_IDS_walk:
  assumes "classes_ok lcc" and "\<forall>cc \<in> set lcc. keys cc \<inter> keys ids = {}"
    and "draws convert_to_mcfi_half_id_format (length lcc) eqc = (hs, eqc')"
  shows "foldM (\<lambda>cc (eqc, ids).
         let (h, eqc') = (if False then (dv, eqc) else convert_to_mcfi_half_id_format eqc)
         in map_option (\<lambda>ids'. (eqc', ids'))
              (foldM (\<lambda>v ids. dict_add ids (fst v) (mk_id ver h)) cc ids))
       lcc (eqc, ids) = Some (eqc', ids @ assigned (mk_id ver) lcc hs)"
  using assms
proof (induction lcc arbitrary: eqc ids hs)
  case Nil
  then show ?case by simp
next
  case (Cons cc lcc)
  obtain h eqc1 hs1 where d: "convert_to_mcfi_half_id_format eqc = (h, eqc1)"
    "draws convert_to_mcfi_half_id_format (length lcc) eqc1 = (hs1, eqc')" "hs = h # hs1"
    using Cons.prems(3) by (auto split: prod.splits)
  let ?ids = "ids @ map (\<lambda>v. (fst v, mk_id ver h)) cc"
  have ok: "dict_wf cc" "classes_ok lcc" "\<forall>c \<in> set lcc. keys cc \<inter> keys c = {}"
    using Cons.prems(1) by (auto simp: classes_ok_Cons)
  have "foldM (\<lambda>v ids. dict_add ids (fst v) (mk_id ver h)) cc ids = Some ?ids"
    using Cons.prems(2) ok(1) by (intro add_class) auto
  moreover have "\<forall>c \<in> set lcc. keys c \<inter> keys ?ids = {}" using Cons.prems(2) ok(3) by auto
  ultimately show ?case using Cons.IH [OF ok(2) _ d(2)] d by simp
qed

lemma GEN_IDS_Some:
  assumes "classes_ok lcc" and "draws convert_to_mcfi_half_id_format (length lcc) eqc = (hs, eqc')"
  shows "GEN_IDS False ver dv lcc eqc = Some (eqc', assigned (mk_id ver) lcc hs)"
  using GEN_IDS_walk [OF assms(1) _ assms(2), of "[]" dv ver] by (simp add: GEN_IDS_def)

lemma dict_find_assigned:
  assumes "classes_ok lcc" and "length hs = length lcc"
  shows "dict_find (assigned f lcc hs) k = Some x \<longleftrightarrow>
    (\<exists>i < length lcc. k \<in> keys (lcc ! i) \<and> x = f (hs ! i))"
  using assms(2,1)
proof (induction hs lcc rule: list_induct2)
  case Nil
  then show ?case by simp
next
  case (Cons h hs cc lcc)
  have ok: "classes_ok lcc" "\<forall>c \<in> set lcc. keys cc \<inter> keys c = {}"
    using Cons.prems by (auto simp: classes_ok_Cons)
  have one: "map_of (map (\<lambda>v. (fst v, f h)) cc) k = (if k \<in> keys cc then Some (f h) else None)"
    by (induction cc) auto
  have ex: "(\<exists>i < length (cc # lcc). P i) \<longleftrightarrow> P 0 \<or> (\<exists>i < length lcc. P (Suc i))" for P
    by (auto simp: less_Suc_eq_0_disj)
  show ?case
  proof (cases "k \<in> keys cc")
    case True
    then have "\<forall>i < length lcc. k \<notin> keys (lcc ! i)" using ok(2) by (auto dest: nth_mem)
    then show ?thesis using True one unfolding ex by (auto simp: dict_find_def map_add_def
      split: option.splits) 
  next
    case False
    then show ?thesis using Cons.IH [OF ok(1)] one unfolding ex
      by (simp add: dict_find_def map_add_def split: option.splits)
  qed
qed

definition same_class :: "'k adj list \<Rightarrow> 'k \<Rightarrow> 'k \<Rightarrow> bool" where
  "same_class lcc a b \<longleftrightarrow> (\<exists>cc \<in> set lcc. a \<in> keys cc \<and> b \<in> keys cc)"

lemma assigned_same_iff:
  assumes ok: "classes_ok lcc" and len: "length hs = length lcc" and d: "distinct hs"
    and f: "inj_on f (set hs)"
    and x: "dict_find (assigned f lcc hs) a = Some x" and y: "dict_find (assigned f lcc hs) b = Some y"
  shows "x = y \<longleftrightarrow> same_class lcc a b"
proof -
  obtain i j where i: "i < length lcc" "a \<in> keys (lcc ! i)" "x = f (hs ! i)"
    and j: "j < length lcc" "b \<in> keys (lcc ! j)" "y = f (hs ! j)"
    using x y dict_find_assigned [OF ok len] by metis
  have "x = y \<longleftrightarrow> i = j"
    using i j d len f by (auto simp: nth_eq_iff_index_eq inj_on_eq_iff)
  moreover have "same_class lcc a b \<longleftrightarrow> i = j"
  proof
    assume "same_class lcc a b"
    then obtain k where k: "k < length lcc" "a \<in> keys (lcc ! k)" "b \<in> keys (lcc ! k)"
      by (auto simp: same_class_def in_set_conv_nth)
    then show "i = j" using i(1,2) j(1,2) ok unfolding classes_ok_def by (metis disjoint_iff)
  next
    assume "i = j"
    then show "same_class lcc a b" using i j by (auto simp: same_class_def)
  qed
  ultimately show ?thesis by simp
qed

lemma keys_assigned:
  assumes "classes_ok lcc" and "length hs = length lcc"
  shows "keys (assigned f lcc hs) = (\<Union>cc \<in> set lcc. keys cc)"
proof (intro set_eqI iffI)
  fix k
  assume "k \<in> keys (assigned f lcc hs)"
  then obtain x where "dict_find (assigned f lcc hs) k = Some x" using keys_dict_find by fast
  then show "k \<in> (\<Union>cc \<in> set lcc. keys cc)" using dict_find_assigned [OF assms] by (metis UN_iff nth_mem)
next
  fix k
  assume "k \<in> (\<Union>cc \<in> set lcc. keys cc)"
  then obtain i where "i < length lcc" "k \<in> keys (lcc ! i)" by (metis UN_iff in_set_conv_nth)
  then have "dict_find (assigned f lcc hs) k = Some (f (hs ! i))" using dict_find_assigned [OF assms] by blast
  then show "k \<in> keys (assigned f lcc hs)" by (rule dict_find_SomeD)
qed

lemma assigned_value: "dict_find (assigned f lcc hs) k = Some x \<Longrightarrow> x \<in> f ` set hs"
  by (induction f lcc hs rule: assigned.induct)
    (auto simp: dict_find_def map_add_def split: option.splits dest!: map_of_SomeD)

text \<open>The whole generation succeeds and draws pairwise distinct halves for the classes of
  the call graph, those of the return graph, and the branches without targets.\<close>

lemma gen_mcfi_id_draws:
  assumes "classes_ok lcg" and "classes_ok lrt" and "length lcg + length lrt < 125 ^ 4"
  obtains ver version' hs js h0 where
    "gen_mcfi_id False lcg lrt version =
       Some (version', mk_id ver h0, assigned (mk_id ver) lcg hs, assigned (mk_id ver) lrt js)"
    "length hs = length lcg" "length js = length lrt" "distinct (hs @ js @ [h0])"
    "inj_on (mk_id ver) (set (hs @ js @ [h0]))"
proof -
  let ?c = convert_to_mcfi_half_id_format
  obtain hs e1 where hs: "draws ?c (length lcg) 0 = (hs, e1)" by force
  obtain js e2 where js: "draws ?c (length lrt) e1 = (js, e2)" by force
  obtain h0 e3 where h0: "?c e2 = (h0, e3)" by force
  obtain ver v' where ver: "?c version = (ver, v')" by force
  have one: "draws ?c 1 e2 = ([h0], e3)" using h0 by simp
  have all: "draws ?c (length lcg + (length lrt + 1)) 0 = (hs @ js @ [h0], e3)"
    by (simp only: draws_add hs js one prod.case)
  have "card (half_ids_used 0) + (length lcg + (length lrt + 1)) \<le> 125 ^ 4"
    using assms(3) by (simp add: half_ids_used_def ok_below_def)
  then have "distinct (hs @ js @ [h0])" using half_ids.draws_distinct [OF _ _ all] by simp
  moreover have "inj_on (mk_id ver) (set (hs @ js @ [h0]))"
    using is_half_draws [OF all] is_half_convert [of version] ver
    by (auto intro!: inj_onI dest: mk_id_inj)
  moreover have "gen_mcfi_id False lcg lrt version =
      Some (v', mk_id ver h0, assigned (mk_id ver) lcg hs, assigned (mk_id ver) lrt js)"
    using ver h0 GEN_IDS_Some [OF assms(1) hs] GEN_IDS_Some [OF assms(2) js]
    by (simp add: gen_mcfi_id_def)
  ultimately show thesis using that length_draws [OF hs] length_draws [OF js] by blast
qed

section \<open>Marked pointers\<close>

text \<open>The graphs hold functions, indirect calls and jumps, returns and return addresses as
  the pointer to their interned name with a tag in the upper bits.\<close>

definition mark_func :: "u64 \<Rightarrow> u64" where
  "mark_func ptr = ptr"

definition mark_icj :: "u64 \<Rightarrow> u64" where
  "mark_icj ptr = ptr OR 0x8000000000000000"

definition is_marked_icj :: "u64 \<Rightarrow> bool" where
  "is_marked_icj ptr = (ptr AND 0x8000000000000000 \<noteq> 0)"

definition mark_ret :: "u64 \<Rightarrow> u64" where
  "mark_ret ptr = ptr OR 0x4000000000000000"

definition is_marked_ret :: "u64 \<Rightarrow> bool" where
  "is_marked_ret ptr = (ptr AND 0x4000000000000000 \<noteq> 0)"

definition mark_ra_dc :: "u64 \<Rightarrow> u64" where
  "mark_ra_dc ptr = ptr OR 0x2000000000000000"

definition is_marked_ra_dc :: "u64 \<Rightarrow> bool" where
  "is_marked_ra_dc ptr = (ptr AND 0x2000000000000000 \<noteq> 0)"

definition mark_ra_ic :: "u64 \<Rightarrow> u64" where
  "mark_ra_ic ptr = ptr OR 0x1000000000000000"

definition is_marked_ra_ic :: "u64 \<Rightarrow> bool" where
  "is_marked_ra_ic ptr = (ptr AND 0x1000000000000000 \<noteq> 0)"

definition unmark_ptr :: "u64 \<Rightarrow> u64" where
  "unmark_ptr ptr = ptr AND 0x7FFFFFFFFFFF"

text \<open>Addresses of the user half of the address space have their upper 17 bits clear.\<close>

definition user_ptr :: "u64 \<Rightarrow> bool" where
  "user_ptr p \<longleftrightarrow> take_bit 47 p = p"

lemma user_ptr_bit: "user_ptr p \<Longrightarrow> 47 \<le> j \<Longrightarrow> \<not> bit p j"
  by (metis bit_take_bit_iff not_le user_ptr_def)

lemma mark_bits:
  "bit (mark_icj p) j \<longleftrightarrow> bit p j \<or> j = 63"
  "bit (mark_ret p) j \<longleftrightarrow> bit p j \<or> j = 62"
  "bit (mark_ra_dc p) j \<longleftrightarrow> bit p j \<or> j = 61"
  "bit (mark_ra_ic p) j \<longleftrightarrow> bit p j \<or> j = 60"
  "bit (mark_func p) j \<longleftrightarrow> bit p j"
proof -
  have "(0x8000000000000000 :: u64) = 2 ^ 63" "(0x4000000000000000 :: u64) = 2 ^ 62"
    "(0x2000000000000000 :: u64) = 2 ^ 61" "(0x1000000000000000 :: u64) = 2 ^ 60" by simp_all
  note e = this
  show "bit (mark_icj p) j \<longleftrightarrow> bit p j \<or> j = 63" "bit (mark_ret p) j \<longleftrightarrow> bit p j \<or> j = 62"
    "bit (mark_ra_dc p) j \<longleftrightarrow> bit p j \<or> j = 61" "bit (mark_ra_ic p) j \<longleftrightarrow> bit p j \<or> j = 60"
    "bit (mark_func p) j \<longleftrightarrow> bit p j"
    unfolding mark_icj_def mark_ret_def mark_ra_dc_def mark_ra_ic_def mark_func_def e bit_or_iff
      bit_exp_iff by auto
qed

lemma unmark_ptr_take_bit: "unmark_ptr p = take_bit 47 p"
proof -
  have "(0x7FFFFFFFFFFF :: u64) = mask 47" by (simp add: mask_eq_exp_minus_1)
  then show ?thesis by (simp only: unmark_ptr_def take_bit_eq_mask)
qed

lemma unmark_eqI: "user_ptr p \<Longrightarrow> (\<And>j. j < 47 \<Longrightarrow> bit q j = bit p j) \<Longrightarrow> unmark_ptr q = p"
proof -
  assume p: "user_ptr p" and eq: "\<And>j. j < 47 \<Longrightarrow> bit q j = bit p j"
  have "take_bit 47 q = take_bit 47 p" by (rule bit_eqI) (auto simp: bit_take_bit_iff eq)
  then show ?thesis using p by (simp add: unmark_ptr_take_bit user_ptr_def)
qed

lemma unmark_mark:
  assumes "user_ptr p"
  shows "unmark_ptr (mark_icj p) = p" "unmark_ptr (mark_ret p) = p" "unmark_ptr (mark_ra_dc p) = p"
    "unmark_ptr (mark_ra_ic p) = p" "unmark_ptr (mark_func p) = p"
  by (auto intro!: unmark_eqI [OF assms] simp: mark_bits)

text \<open>The tags keep the kinds of vertices apart, and each mark is injective on names.\<close>

lemma mark_neq:
  assumes "user_ptr p" and "user_ptr q"
  shows "mark_icj p \<noteq> mark_func q" "mark_ret p \<noteq> mark_func q" "mark_ra_dc p \<noteq> mark_func q"
    "mark_ra_ic p \<noteq> mark_func q" "mark_icj p \<noteq> mark_ret q" "mark_icj p \<noteq> mark_ra_dc q"
    "mark_icj p \<noteq> mark_ra_ic q" "mark_ret p \<noteq> mark_ra_dc q" "mark_ret p \<noteq> mark_ra_ic q"
    "mark_ra_dc p \<noteq> mark_ra_ic q"
proof -
  have nb: "\<not> bit w j" if "47 \<le> j" "w = p \<or> w = q" for w j using assms that user_ptr_bit by blast
  have diff: "x \<noteq> y" if "bit x j \<noteq> bit y j" for x y :: u64 and j using that by auto
  show "mark_icj p \<noteq> mark_func q" "mark_icj p \<noteq> mark_ret q" "mark_icj p \<noteq> mark_ra_dc q" "mark_icj p \<noteq> mark_ra_ic q"
    by (rule diff [of _ 63], simp add: mark_bits nb)+
  show "mark_ret p \<noteq> mark_func q" "mark_ret p \<noteq> mark_ra_dc q" "mark_ret p \<noteq> mark_ra_ic q"
    by (rule diff [of _ 62], simp add: mark_bits nb)+
  show "mark_ra_dc p \<noteq> mark_func q" "mark_ra_dc p \<noteq> mark_ra_ic q"
    by (rule diff [of _ 61], simp add: mark_bits nb)+
  show "mark_ra_ic p \<noteq> mark_func q" by (rule diff [of _ 60], simp add: mark_bits nb)
qed

text \<open>What the generation guarantees, in terms of the classes.\<close>

lemma gen_mcfi_id_classes:
  assumes "classes_ok lcg" and "classes_ok lrt" and "length lcg + length lrt < 125 ^ 4"
  shows "\<exists>version' other callids retids.
    gen_mcfi_id False lcg lrt version = Some (version', other, callids, retids) \<and>
    keys callids = (\<Union>cc \<in> set lcg. keys cc) \<and> keys retids = (\<Union>cc \<in> set lrt. keys cc) \<and>
    (\<forall>a b x y. dict_find callids a = Some x \<and> dict_find callids b = Some y \<longrightarrow>
       (x = y \<longleftrightarrow> same_class lcg a b)) \<and>
    (\<forall>a b x y. dict_find retids a = Some x \<and> dict_find retids b = Some y \<longrightarrow>
       (x = y \<longleftrightarrow> same_class lrt a b)) \<and>
    (\<forall>a b x y. dict_find callids a = Some x \<and> dict_find retids b = Some y \<longrightarrow> x \<noteq> y) \<and>
    (\<forall>a x. dict_find callids a = Some x \<or> dict_find retids a = Some x \<longrightarrow> x \<noteq> other \<and> bit x 0) \<and>
    bit other 0"
proof -
  from gen_mcfi_id_draws [OF assms, of version] obtain ver version' hs js h0 where
    g: "gen_mcfi_id False lcg lrt version =
       Some (version', mk_id ver h0, assigned (mk_id ver) lcg hs, assigned (mk_id ver) lrt js)"
    and len: "length hs = length lcg" "length js = length lrt"
    and d: "distinct (hs @ js @ [h0])" and inj: "inj_on (mk_id ver) (set (hs @ js @ [h0]))" by metis
  have inj2: "inj_on (mk_id ver) (set hs)" "inj_on (mk_id ver) (set js)"
    using inj by (auto intro: inj_on_subset)
  have dd: "distinct hs" "distinct js" using d by auto
  have cross: "x \<noteq> y" if "dict_find (assigned (mk_id ver) lcg hs) a = Some x"
      "dict_find (assigned (mk_id ver) lrt js) b = Some y" for a b x y
    using assigned_value [OF that(1)] assigned_value [OF that(2)] d inj by (auto simp: inj_on_def)
  have other: "x \<noteq> mk_id ver h0 \<and> bit x 0" if "dict_find (assigned (mk_id ver) lcg hs) a = Some x
      \<or> dict_find (assigned (mk_id ver) lrt js) a = Some x" for a x
    using that d inj by (auto simp: inj_on_def dest!: assigned_value)
  show ?thesis
  proof (intro exI conjI)
    show "gen_mcfi_id False lcg lrt version =
       Some (version', mk_id ver h0, assigned (mk_id ver) lcg hs, assigned (mk_id ver) lrt js)" by (rule g)
    show "keys (assigned (mk_id ver) lcg hs) = (\<Union>cc \<in> set lcg. keys cc)"
      by (rule keys_assigned [OF assms(1) len(1)])
    show "keys (assigned (mk_id ver) lrt js) = (\<Union>cc \<in> set lrt. keys cc)"
      by (rule keys_assigned [OF assms(2) len(2)])
    show "\<forall>a b x y. dict_find (assigned (mk_id ver) lcg hs) a = Some x \<and>
        dict_find (assigned (mk_id ver) lcg hs) b = Some y \<longrightarrow> (x = y \<longleftrightarrow> same_class lcg a b)"
      using assigned_same_iff [OF assms(1) len(1) dd(1) inj2(1)] by blast
    show "\<forall>a b x y. dict_find (assigned (mk_id ver) lrt js) a = Some x \<and>
        dict_find (assigned (mk_id ver) lrt js) b = Some y \<longrightarrow> (x = y \<longleftrightarrow> same_class lrt a b)"
      using assigned_same_iff [OF assms(2) len(2) dd(2) inj2(2)] by blast
    show "\<forall>a b x y. dict_find (assigned (mk_id ver) lcg hs) a = Some x \<and>
        dict_find (assigned (mk_id ver) lrt js) b = Some y \<longrightarrow> x \<noteq> y" using cross by blast
    show "\<forall>a x. dict_find (assigned (mk_id ver) lcg hs) a = Some x \<or>
        dict_find (assigned (mk_id ver) lrt js) a = Some x \<longrightarrow> x \<noteq> mk_id ver h0 \<and> bit x 0"
      using other by blast
    show "bit (mk_id ver h0) 0" by simp
  qed
qed

section \<open>Properties\<close>

text \<open>C19: every half identifier is in the documented format. For any counter value the
  conversion terminates, the result fits in 32 bits, each of its four bytes has bit 0 clear,
  and no byte is one of the reserved values LPV (0xFE), NPV (0xFC) and DCV (0xF4), so that a
  table word read across two entries can never be mistaken for an active identifier.\<close>

theorem convert_half_id_format:
  "drop_bit 32 (fst (convert_to_mcfi_half_id_format number)) = 0 \<and>
   (\<forall>k. k < 4 \<longrightarrow> \<not> bit (byte_of k (fst (convert_to_mcfi_half_id_format number))) 0 \<and>
      byte_of k (fst (convert_to_mcfi_half_id_format number)) \<notin> {0xFE, 0xFC, 0xF4})"
proof -
  obtain n where n: "fst (convert_to_mcfi_half_id_format number) = half_pack n" "half_ok n"
    using convert_half_pack by blast
  have "\<not> bit (byte_of k (half_pack n)) 0 \<and> byte_of k (half_pack n) \<notin> {0xFE, 0xFC, 0xF4}"
    if k: "k < 4" for k
  proof -
    have b: "byte_of k (half_pack n) = ucast (half_field k n)" using k by (rule byte_of_half_pack)
    have "k \<in> {0, 1, 2, 3}" using k by auto
    then have "half_field k n \<noteq> 0xF4 \<and> half_field k n \<noteq> 0xFE \<and> half_field k n \<noteq> 0xFC"
      using n(2) unfolding half_ok_def DCV_def LPV_def NPV_def by blast
    moreover have "half_field k n = ucast (ucast (half_field k n) :: u8)"
      by (rule bit_eqI) (auto simp: bit_simps bit_half_field)
    ultimately have "(ucast (half_field k n) :: u8) \<notin> {0xFE, 0xFC, 0xF4}" by auto
    then show ?thesis by (simp add: b bit_half_field bit_simps)
  qed
  then show ?thesis using n half_pack_high by simp
qed

theorem convert_half_id_format_witness:
  "(1 :: nat) < 4 \<and> byte_of 1 (fst (convert_to_mcfi_half_id_format 15700)) \<notin> {0xFE, 0xFC, 0xF4}"
  using convert_half_id_format [of 15700] by simp

text \<open>C7: the identifiers separate the equivalence classes. Outside compatibility mode,
  for classes that are well-formed and disjoint (what the component search returns) and fewer
  than 125^4 of them, the generation never trips an assertion; two members of call-graph
  classes get the same identifier exactly when they are in the same class, likewise for the
  return graph; no identifier is shared between the two graphs or with the branches that have
  no target; every member has one; and every identifier is active (bit 0 set).\<close>

theorem gen_mcfi_id_separates_classes:
  assumes "classes_ok lcg" and "classes_ok lrt" and "length lcg + length lrt < 125 ^ 4"
  shows "\<exists>version' other callids retids.
    gen_mcfi_id False lcg lrt version = Some (version', other, callids, retids) \<and>
    keys callids = (\<Union>cc \<in> set lcg. keys cc) \<and> keys retids = (\<Union>cc \<in> set lrt. keys cc) \<and>
    (\<forall>a b x y. dict_find callids a = Some x \<and> dict_find callids b = Some y \<longrightarrow>
       (x = y \<longleftrightarrow> same_class lcg a b)) \<and>
    (\<forall>a b x y. dict_find retids a = Some x \<and> dict_find retids b = Some y \<longrightarrow>
       (x = y \<longleftrightarrow> same_class lrt a b)) \<and>
    (\<forall>a b x y. dict_find callids a = Some x \<and> dict_find retids b = Some y \<longrightarrow> x \<noteq> y) \<and>
    (\<forall>a x. dict_find callids a = Some x \<or> dict_find retids a = Some x \<longrightarrow> x \<noteq> other \<and> bit x 0) \<and>
    bit other 0"
  using assms by (rule gen_mcfi_id_classes)

text \<open>Two call-graph classes and one return-graph class.\<close>

theorem gen_mcfi_id_separates_classes_witness:
  "\<exists>version' other callids retids.
    gen_mcfi_id False [[(1 :: u64, ()), (2, ())], [(3, ())]] [[(4, ())]] 1 = Some (version', other, callids, retids) \<and>
    keys callids = {1, 2, 3} \<and> keys retids = {4}"
proof -
  have "classes_ok [[(1 :: u64, ()), (2, ())], [(3, ())]]" "classes_ok [[(4 :: u64, ())]]"
    by (simp_all add: classes_ok_Cons classes_ok_Nil dict_wf_def)
  from gen_mcfi_id_separates_classes [OF this, of 1] show ?thesis by (auto simp: insert_commute)
qed

text \<open>C22: there are exactly 125^4 = 244140625 half identifiers, fewer than the bound of
  252047376 that the runtime assumes for the number of versions (\<open>VERSION_SPACE_MAX\<close>): the
  comment there excludes two byte values, the code excludes three.\<close>

theorem half_id_space:
  "card (range (\<lambda>number. fst (convert_to_mcfi_half_id_format number))) = 125 ^ 4"
proof -
  let ?h = "\<lambda>m :: nat. half_pack (of_nat m)"
  have "range (\<lambda>number. fst (convert_to_mcfi_half_id_format number)) = ?h ` ok_below half_modulus"
  proof (intro set_eqI iffI)
    fix w
    assume "w \<in> range (\<lambda>number. fst (convert_to_mcfi_half_id_format number))"
    then show "w \<in> ?h ` ok_below half_modulus" using convert_ok_below by auto
  next
    fix w
    assume "w \<in> ?h ` ok_below half_modulus"
    then obtain m where m: "m < half_modulus" "ok_fields 4 m" "w = ?h m" by (auto simp: ok_below_def)
    then have "unat (of_nat m :: u64) = m" by (simp add: unat_of_nat)
    then have "convert_to_mcfi_half_id_format (of_nat m) = (half_pack (of_nat m), of_nat (Suc m))"
      using m by (intro convert_next) auto
    then have "fst (convert_to_mcfi_half_id_format (of_nat m)) = w" using m(3) by simp
    then show "w \<in> range (\<lambda>number. fst (convert_to_mcfi_half_id_format number))" by blast
  qed
  moreover have "inj_on ?h (ok_below half_modulus)"
    by (rule inj_on_subset [OF half_pack_of_nat_inj]) (auto simp: ok_below_def)
  ultimately show ?thesis using card_ok_below by (simp only: card_image)
qed

end
