(* ===== verification/Module.thy ===== *)
theory Module
  imports Ids
begin

unbundle bit_operations_syntax

text \<open>
  The data model of loaded code (\<open>src/runtime/include/cfggen/cfggen.h\<close>): indirect
  control-flow instructions, functions, symbols, the verifier tables and the code module with
  every field the runtime reads or writes. Names are interned strings: the model identifies a
  name with its pointer, 0 being the null pointer. The list links of a C list element are the
  Isabelle list itself.
\<close>

section \<open>Indirect control flow, functions, symbols\<close>

type_synonym name = u64

datatype ICF_Type = VirtualMethodCall | PointerToMethodCall | NormalCall

definition CONSTANT :: u8 where "CONSTANT = 1"

definition VOLATILE :: u8 where "VOLATILE = 2"

definition STATIC :: u8 where "STATIC = 4"

definition VIRTUAL :: u8 where "VIRTUAL = 8"

definition is_constant :: "u8 \<Rightarrow> bool" where "is_constant attrs \<longleftrightarrow> attrs AND CONSTANT \<noteq> 0"

definition is_volatile :: "u8 \<Rightarrow> bool" where "is_volatile attrs \<longleftrightarrow> attrs AND VOLATILE \<noteq> 0"

definition is_static :: "u8 \<Rightarrow> bool" where "is_static attrs \<longleftrightarrow> attrs AND STATIC \<noteq> 0"

definition is_virtual :: "u8 \<Rightarrow> bool" where "is_virtual attrs \<longleftrightarrow> attrs AND VIRTUAL \<noteq> 0"

record icf =
  icf_id :: name
  ity :: ICF_Type
  icf_type :: name
  icf_attrs :: u8
  icf_class_name :: name
  icf_method_name :: name

record func =
  f_name :: name
  f_class_name :: name
  f_method_name :: name
  f_type :: name
  f_offset :: u64
  f_returns :: "name list"
  f_dtails :: "name list"
  f_itails :: "name list"

record symbol =
  s_name :: name
  s_offset :: u64

section \<open>Verifier tables\<close>

record verifier =
  dfa :: "nat \<Rightarrow> u16"
  states :: int
  v_start :: u16
  v_dcall :: u16
  v_icall :: u16
  v_ijmp :: u16
  v_jmp_rel1 :: u16
  v_jmp_rel4 :: u16
  v_jcc_rel1 :: u16
  v_jcc_rel4 :: u16
  v_mcficall :: u16
  v_mcficheck :: u16
  v_mcfiret :: u16
  v_terminator :: u16
  max_accept :: u16

section \<open>Code modules\<close>

type_synonym classes = "(name, (name, u8) dict) dict"

record codemodule =
  base_addr :: u64
  osb_base_addr :: u64
  is_exe :: bool
  m_sz :: u64
  m_icfs :: "icf list"
  m_functions :: "func list"
  m_classes :: classes
  m_cha :: "name graph"
  m_aliases :: "name graph"
  m_rai :: "symbol list"
  m_rad :: "symbol list"
  m_lp :: "symbol list"
  m_flp :: "u64 graph"
  m_funcsyms :: "symbol list"
  m_icfsyms :: "symbol list"
  m_fats :: "name adj"
  m_fats_in_code :: "(name, u64 adj) dict"
  m_fats_in_data :: "name adj"
  ra_orig :: "(u64, u64) dict"
  at_func :: "(u64, name) dict"
  func_orig :: "(u64, u64) dict"
  m_ctor :: "(u64, name) dict"
  m_vtable :: "(name, name list) dict"
  m_defined_ctors :: "name adj"
  dynfuncs :: "name graph"
  weakfuncs :: "name graph"
  gotplt :: u64
  osb_gotplt :: u64
  gotpltsz :: u64
  gpfuncs :: "(u64, name) dict"
  cfggened :: bool
  deleted :: bool
  activated :: bool
  code_heap :: bool
  code_data_bitmap :: mem
  internal_dbt_bitmap :: mem
  forward_reference :: "u64 graph"
  backward_reference :: "u64 graph"
  bid_slot_in_codeheap :: "(u64, u64) dict"
  m_verifier :: "verifier option"
  instrumented :: bool

text \<open>\<open>alloc_code_module\<close>: a zeroed module.\<close>

definition alloc_code_module :: codemodule where
  "alloc_code_module = \<lparr> base_addr = 0, osb_base_addr = 0, is_exe = False, m_sz = 0, m_icfs = [],
     m_functions = [], m_classes = [], m_cha = [], m_aliases = [], m_rai = [], m_rad = [], m_lp = [],
     m_flp = [], m_funcsyms = [], m_icfsyms = [], m_fats = [], m_fats_in_code = [], m_fats_in_data = [],
     ra_orig = [], at_func = [], func_orig = [], m_ctor = [], m_vtable = [], m_defined_ctors = [],
     dynfuncs = [], weakfuncs = [], gotplt = 0, osb_gotplt = 0, gotpltsz = 0, gpfuncs = [],
     cfggened = False, deleted = False, activated = False, code_heap = False,
     code_data_bitmap = (\<lambda>_. 0), internal_dbt_bitmap = (\<lambda>_. 0), forward_reference = [],
     backward_reference = [], bid_slot_in_codeheap = [], m_verifier = None, instrumented = False \<rparr>"

end
