(* ===== verification/Callgraph.thy ===== *)
theory Callgraph
  imports Module
begin

unbundle bit_operations_syntax

text \<open>
  Construction of the call graph and of the return graph (\<open>src/runtime/include/cfggen/cfggen.h\<close>,
  from \<open>_is_instance_method\<close> to \<open>build_retgraph\<close>): the metadata of all modules is merged,
  functions are grouped by type and by class and method, every indirect branch is connected
  to the functions it may call, and every function to its returns, its tail calls and the
  return addresses of its callers. A pointer to a merged function is its position in the
  merged list.
\<close>

section \<open>Merging the metadata of the modules\<close>

definition merge_icfs :: "icf list \<Rightarrow> icf list \<Rightarrow> icf list" where
  "merge_icfs icfs mic = fold (\<lambda>ic icfs. icfs @ [ic]) mic icfs"

definition merge_functions :: "func list \<Rightarrow> func list \<Rightarrow> func list" where
  "merge_functions fs mf = fold (\<lambda>f fs. fs @ [f]) mf fs"

record metainfo =
  mi_icfs :: "icf list"
  mi_functions :: "func list"
  mi_classes :: classes
  mi_cha :: "name graph"
  mi_fats :: "name adj"
  mi_fats_in_data :: "name adj"
  mi_fats_in_code :: "(name, u64 adj) dict"
  mi_aliases :: "name graph"
  mi_defined_ctors :: "name adj"

definition merge_module :: "codemodule \<Rightarrow> metainfo \<Rightarrow> metainfo option" where
  "merge_module m mi = do {
     cls \<leftarrow> merge_dicts (mi_classes mi) (m_classes m);
     fats \<leftarrow> merge_dicts (mi_fats mi) (m_fats m);
     fid \<leftarrow> merge_dicts (mi_fats_in_data mi) (m_fats_in_data m);
     fic \<leftarrow> merge_dicts (mi_fats_in_code mi) (m_fats_in_code m);
     ctors \<leftarrow> merge_dicts (mi_defined_ctors mi) (m_defined_ctors m);
     Some \<lparr> mi_icfs = merge_icfs (mi_icfs mi) (m_icfs m),
            mi_functions = merge_functions (mi_functions mi) (m_functions m),
            mi_classes = cls,
            mi_cha = merge_graphs (mi_cha mi) (m_cha m),
            mi_fats = fats, mi_fats_in_data = fid, mi_fats_in_code = fic,
            mi_aliases = merge_graphs (mi_aliases mi) (m_aliases m),
            mi_defined_ctors = ctors \<rparr> }"

definition merge_mcfi_metainfo :: "codemodule list \<Rightarrow> metainfo \<Rightarrow> metainfo option" where
  "merge_mcfi_metainfo modules mi = foldM merge_module modules mi"

section \<open>Grouping the functions\<close>

text \<open>The result and the out-parameter \<open>attrs\<close>, which keeps its value when the method is not
  found.\<close>

definition is_instance_method :: "func \<Rightarrow> classes \<Rightarrow> u8 \<Rightarrow> bool \<times> u8" where
  "is_instance_method f classes attrs =
     (if classes \<noteq> [] \<and> f_class_name f \<noteq> 0 \<and> f_method_name f \<noteq> 0 then
        (case dict_find classes (f_class_name f) of
           None \<Rightarrow> (False, attrs)
         | Some methods \<Rightarrow>
             (case dict_find methods (f_method_name f) of
                None \<Rightarrow> (False, attrs)
              | Some a \<Rightarrow> (\<not> is_static a, a)))
      else (False, attrs))"

definition func_or_alias_addr_taken :: "name adj \<Rightarrow> name \<Rightarrow> name graph \<Rightarrow> bool" where
  "func_or_alias_addr_taken fats name aliases_tc =
     (if dict_find fats name \<noteq> None then True
      else case dict_find aliases_tc name of
        None \<Rightarrow> False
      | Some as \<Rightarrow> list_ex (\<lambda>kv. fst kv \<noteq> name \<and> dict_in fats (fst kv)) as)"

type_synonym virtuals = "(name, (name, (name, unit) dict) dict) dict"
type_synonym by_name = "(name, (nat, unit) dict) dict"

record groups =
  by_cls_mtd :: virtuals
  global_by_type :: "name graph"
  inst_by_type :: "name graph"
  inst_by_const :: "name graph"
  inst_by_volatile :: "name graph"
  inst_by_const_volatile :: "name graph"
  all_funcs_grouped_by_name :: by_name
  g_attrs :: u8

text \<open>The members of an alias class, in iteration order.\<close>

definition alias_list :: "name graph \<Rightarrow> name \<Rightarrow> name list" where
  "alias_list aliases_tc n = (case dict_find aliases_tc n of None \<Rightarrow> [] | Some as \<Rightarrow> map fst as)"

text \<open>The body of the loop over the functions; \<open>i\<close> is the pointer to \<open>f\<close>.\<close>

definition group_function ::
  "classes \<Rightarrow> name adj \<Rightarrow> name graph \<Rightarrow> nat \<times> func \<Rightarrow> groups \<Rightarrow> groups" where
  "group_function classes fats aliases_tc p g =
     (let i = fst p; f = snd p;
          byn = g_add_directed_edge (all_funcs_grouped_by_name g) (f_name f) i;
          byn = fold (\<lambda>v d. if v \<noteq> f_name f then g_add_directed_edge d v i else d)
                  (alias_list aliases_tc (f_name f)) byn;
          (inst, attrs) = is_instance_method f classes (g_attrs g);
          virt = (if is_virtual attrs
                  then fold (\<lambda>v d. g_add_directed_l2_edge d (f_class_name f) (f_method_name f) v)
                         (f_name f # alias_list aliases_tc (f_name f)) (by_cls_mtd g)
                  else by_cls_mtd g);
          g = g\<lparr> all_funcs_grouped_by_name := byn, by_cls_mtd := virt, g_attrs := attrs \<rparr>
      in if func_or_alias_addr_taken fats (f_name f) aliases_tc \<and> f_type f \<noteq> 0 then
           (if \<not> inst then
              g\<lparr> global_by_type := g_add_directed_edge (global_by_type g) (f_type f) (f_name f) \<rparr>
            else if \<not> is_constant attrs \<and> \<not> is_volatile attrs then
              g\<lparr> inst_by_type := fold (\<lambda>v d. g_add_directed_edge d (f_type f) v)
                    (f_name f # alias_list aliases_tc (f_name f)) (inst_by_type g) \<rparr>
            else if is_constant attrs \<and> \<not> is_volatile attrs then
              g\<lparr> inst_by_const := g_add_directed_edge (inst_by_const g) (f_type f) (f_name f) \<rparr>
            else if \<not> is_constant attrs \<and> is_volatile attrs then
              g\<lparr> inst_by_volatile := g_add_directed_edge (inst_by_volatile g) (f_type f) (f_name f) \<rparr>
            else
              g\<lparr> inst_by_const_volatile :=
                   g_add_directed_edge (inst_by_const_volatile g) (f_type f) (f_name f) \<rparr>)
         else g)"

section \<open>Class hierarchy\<close>

text \<open>One class of an inheritance group: its virtual methods named \<open>mtd\<close> join the class.\<close>

definition cha_visit ::
  "classes \<Rightarrow> virtuals \<Rightarrow> name \<Rightarrow> name \<times> unit \<Rightarrow> name adj \<times> name graph \<Rightarrow> (name adj \<times> name graph) option" where
  "cha_visit classes virt mtd vc s =
     (let (eqc, explored) = s in
      case dict_find classes (fst vc) of
        None \<Rightarrow> Some s
      | Some methods \<Rightarrow>
          (case dict_find methods mtd of
             None \<Rightarrow> Some s
           | Some a \<Rightarrow>
               if is_virtual a \<and> \<not> g_directed_edge_in explored (fst vc) mtd then
                 (let explored' = g_add_directed_edge explored (fst vc) mtd
                  in case g_find_l2_vertex virt (fst vc) mtd of
                       None \<Rightarrow> Some (eqc, explored')
                     | Some fns \<Rightarrow>
                         map_option (\<lambda>eqc'. (eqc', explored'))
                           (foldM (\<lambda>n eqc. dict_add eqc (fst n) ()) fns eqc))
               else Some s))"

definition cha_method ::
  "classes \<Rightarrow> virtuals \<Rightarrow> name adj \<Rightarrow> name \<Rightarrow> name \<times> u8 \<Rightarrow> name graph \<times> name graph
     \<Rightarrow> (name graph \<times> name graph) option" where
  "cha_method classes virt cc cls me s =
     (let (callgraph, explored) = s in
      if is_virtual (snd me) \<and> \<not> g_directed_edge_in explored cls (fst me) then
        map_option (\<lambda>(eqc, explored'). (g_add_cc_to_g callgraph eqc, explored'))
          (foldM (cha_visit classes virt (fst me)) cc ([], explored))
      else Some s)"

definition cha_class ::
  "classes \<Rightarrow> virtuals \<Rightarrow> name adj \<Rightarrow> name \<times> unit \<Rightarrow> name graph \<times> name graph
     \<Rightarrow> (name graph \<times> name graph) option" where
  "cha_class classes virt cc v s =
     (case dict_find classes (fst v) of
        None \<Rightarrow> Some s
      | Some methods \<Rightarrow> foldM (cha_method classes virt cc (fst v)) methods s)"

definition build_cha_relations ::
  "name graph \<Rightarrow> classes \<Rightarrow> name graph \<Rightarrow> virtuals \<Rightarrow> name graph option" where
  "build_cha_relations callgraph classes cha virt = do {
     cha_lcc \<leftarrow> g_get_lcc cha;
     s \<leftarrow> foldM (\<lambda>cc. foldM (cha_class classes virt cc) cc) cha_lcc (callgraph, []);
     Some (fst s) }"

section \<open>The call graph\<close>

text \<open>The first class of the inheritance group that has the method.\<close>

fun inherited_entry :: "virtuals \<Rightarrow> name \<Rightarrow> name list \<Rightarrow> name list" where
  "inherited_entry virt mtd [] = []"
| "inherited_entry virt mtd (k # ks) =
     (case g_find_l2_vertex virt k mtd of
        Some fns \<Rightarrow> map fst fns
      | None \<Rightarrow> inherited_entry virt mtd ks)"

text \<open>The functions an indirect branch is connected to, in the order of the edges.\<close>

definition icf_targets :: "groups \<Rightarrow> name graph \<Rightarrow> icf \<Rightarrow> name list" where
  "icf_targets g chacc ic =
     (case ity ic of
        VirtualMethodCall \<Rightarrow>
          (case g_find_l2_vertex (by_cls_mtd g) (icf_class_name ic) (icf_method_name ic) of
             Some fns \<Rightarrow> map fst fns
           | None \<Rightarrow>
               (case dict_find chacc (icf_class_name ic) of
                  None \<Rightarrow> []
                | Some grp \<Rightarrow> inherited_entry (by_cls_mtd g) (icf_method_name ic) (map fst grp)))
      | PointerToMethodCall \<Rightarrow>
          (let tbl = (if \<not> is_constant (icf_attrs ic) \<and> \<not> is_volatile (icf_attrs ic) then inst_by_type g
                      else if is_constant (icf_attrs ic) \<and> \<not> is_volatile (icf_attrs ic) then inst_by_const g
                      else if \<not> is_constant (icf_attrs ic) \<and> is_volatile (icf_attrs ic) then inst_by_volatile g
                      else inst_by_const_volatile g)
           in case dict_find tbl (icf_type ic) of None \<Rightarrow> [] | Some ms \<Rightarrow> map fst ms)
      | NormalCall \<Rightarrow>
          (case dict_find (global_by_type g) (icf_type ic) of None \<Rightarrow> [] | Some fs \<Rightarrow> map fst fs))"

definition connect_icf :: "groups \<Rightarrow> name graph \<Rightarrow> icf \<Rightarrow> name graph \<Rightarrow> name graph" where
  "connect_icf g chacc ic callgraph =
     fold (\<lambda>n cg. g_add_edge cg (mark_icj (icf_id ic)) n) (icf_targets g chacc ic) callgraph"

text \<open>\<open>attrs\<close> is the initial (indeterminate) value of the local variable of that name.\<close>

definition build_callgraph ::
  "u8 \<Rightarrow> icf list \<Rightarrow> func list \<Rightarrow> classes \<Rightarrow> name graph \<Rightarrow> name adj \<Rightarrow> name graph \<Rightarrow> by_name
     \<Rightarrow> (name graph \<times> by_name) option" where
  "build_callgraph attrs icfs functions classes cha fats aliases byn = do {
     aliases_tc \<leftarrow> g_transitive_closure aliases;
     let g = fold (group_function classes fats aliases_tc) (enumerate 0 functions)
               \<lparr> by_cls_mtd = [], global_by_type = [], inst_by_type = [], inst_by_const = [],
                 inst_by_volatile = [], inst_by_const_volatile = [],
                 all_funcs_grouped_by_name = byn, g_attrs = attrs \<rparr>;
     chacc \<leftarrow> g_transitive_closure cha;
     callgraph \<leftarrow> build_cha_relations [] classes cha (by_cls_mtd g);
     Some (fold (connect_icf g chacc) icfs callgraph, all_funcs_grouped_by_name g) }"

section \<open>The return graph\<close>

definition ret_function :: "func list \<Rightarrow> name \<Rightarrow> nat \<Rightarrow> name graph \<Rightarrow> name graph" where
  "ret_function functions k i callgraph =
     (let f = functions ! i;
          cg = (if k \<noteq> f_name f then g_add_edge callgraph k (f_name f) else callgraph);
          cg = fold (\<lambda>n cg. g_add_edge cg (f_name f) (mark_ret n)) (f_returns f) cg;
          cg = fold (\<lambda>n cg. if f_name f \<noteq> n then g_add_edge cg (f_name f) n else cg) (f_dtails f) cg
      in fold (\<lambda>n cg. g_add_edge cg (f_name f) (mark_icj n)) (f_itails f) cg)"

definition ret_module :: "codemodule \<Rightarrow> name graph \<Rightarrow> name graph" where
  "ret_module m callgraph =
     fold (\<lambda>s cg. g_add_edge cg (mark_ra_ic (s_name s)) (mark_icj (s_name s))) (m_rai m)
       (fold (\<lambda>s cg. g_add_edge cg (mark_ra_dc (s_name s)) (s_name s)) (m_rad m) callgraph)"

definition build_retgraph :: "func list \<Rightarrow> name graph \<Rightarrow> by_name \<Rightarrow> codemodule list \<Rightarrow> name graph" where
  "build_retgraph functions callgraph byn modules =
     fold ret_module modules
       (fold (\<lambda>kv cg. fold (\<lambda>fe. ret_function functions (fst kv) (fst fe)) (snd kv) cg) byn callgraph)"

section \<open>Shape of the graphs\<close>

lemma g_sym_fold_edges [inv_intros]:
  "g_sym g \<Longrightarrow> g_sym (fold (\<lambda>n cg. g_add_edge cg (a n) (b n)) ns g)"
  by (rule fold_invariant_set) (auto intro: inv_intros)

lemma edge_fold_edges [graph_simps]:
  "edge (fold (\<lambda>n cg. g_add_edge cg (a n) (b n)) ns g) x y \<longleftrightarrow>
     edge g x y \<or> (\<exists>n \<in> set ns. (x = a n \<and> y = b n) \<or> (x = b n \<and> y = a n))"
  by (induction ns arbitrary: g) (auto simp: graph_simps)

lemma edge_add_cc:
  "edge (g_add_cc_to_g g cc) a b \<Longrightarrow> edge g a b \<or> (a \<in> keys cc \<and> b \<in> keys cc)"
  by (cases cc) (auto simp: g_add_cc_to_g_def edge_add_star)

lemma edge_add_cc_mono: "edge g a b \<Longrightarrow> edge (g_add_cc_to_g g cc) a b"
  by (cases cc) (auto simp: g_add_cc_to_g_def edge_add_star)

text \<open>The function names recorded for a class and a method, and the virtual methods of the
  metadata.\<close>

definition virt_at :: "virtuals \<Rightarrow> name \<Rightarrow> name \<Rightarrow> name set" where
  "virt_at virt c m = (case g_find_l2_vertex virt c m of None \<Rightarrow> {} | Some fns \<Rightarrow> keys fns)"

definition virtual_method :: "classes \<Rightarrow> name \<Rightarrow> name \<Rightarrow> bool" where
  "virtual_method classes c m \<longleftrightarrow>
     (\<exists>ms a. dict_find classes c = Some ms \<and> dict_find ms m = Some a \<and> is_virtual a)"

lemma add_names_keys:
  "foldM (\<lambda>n eqc. dict_add eqc (fst n) ()) fns eqc = Some eqc' \<Longrightarrow> keys eqc' = keys eqc \<union> keys fns"
  by (induction fns arbitrary: eqc)
    (auto simp: dict_add_eq_Some split: Option.bind_splits)

lemma cha_visit_step:
  assumes "cha_visit classes virt mtd vc (eqc, ex) = Some (eqc', ex')"
  shows "keys eqc' = keys eqc \<union>
      (if virtual_method classes (fst vc) mtd \<and> \<not> edge ex (fst vc) mtd then virt_at virt (fst vc) mtd else {})"
    and "edge ex' c m \<longleftrightarrow> edge ex c m \<or> (m = mtd \<and> c = fst vc \<and> virtual_method classes (fst vc) mtd)"
  using assms
  by (auto simp: cha_visit_def virtual_method_def virt_at_def graph_simps Let_def
      dest!: add_names_keys split: option.splits if_splits)

lemma cha_visit_walk:
  assumes "foldM (cha_visit classes virt mtd) vs (eqc, ex) = Some (eqc', ex')"
  shows "keys eqc' = keys eqc \<union>
      (\<Union>c \<in> {c \<in> keys vs. virtual_method classes c mtd \<and> \<not> edge ex c mtd}. virt_at virt c mtd)"
    and "edge ex' c m \<longleftrightarrow> edge ex c m \<or> (m = mtd \<and> c \<in> keys vs \<and> virtual_method classes c mtd)"
proof -
  have "keys eqc' = keys eqc \<union>
      (\<Union>c \<in> {c \<in> keys vs. virtual_method classes c mtd \<and> \<not> edge ex c mtd}. virt_at virt c mtd) \<and>
    (\<forall>c m. edge ex' c m \<longleftrightarrow> edge ex c m \<or> (m = mtd \<and> c \<in> keys vs \<and> virtual_method classes c mtd))"
    using assms
  proof (induction vs arbitrary: eqc ex)
    case Nil
    then show ?case by simp
  next
    case (Cons v vs)
    then obtain eqc1 ex1 where
      s1: "cha_visit classes virt mtd v (eqc, ex) = Some (eqc1, ex1)"
      and r: "foldM (cha_visit classes virt mtd) vs (eqc1, ex1) = Some (eqc', ex')"
      by (auto split: Option.bind_splits)
    note IH = Cons.IH [OF r] and step = cha_visit_step [OF s1]
    have "\<forall>c m. edge ex' c m \<longleftrightarrow> edge ex c m \<or> (m = mtd \<and> c \<in> keys (v # vs) \<and> virtual_method classes c mtd)"
      using IH step(2) by auto
    moreover have "keys eqc' = keys eqc \<union>
      (\<Union>c \<in> {c \<in> keys (v # vs). virtual_method classes c mtd \<and> \<not> edge ex c mtd}. virt_at virt c mtd)"
      using IH step by (auto split: if_splits)
    ultimately show ?case by blast
  qed
  then show "keys eqc' = keys eqc \<union>
      (\<Union>c \<in> {c \<in> keys vs. virtual_method classes c mtd \<and> \<not> edge ex c mtd}. virt_at virt c mtd)"
    and "edge ex' c m \<longleftrightarrow> edge ex c m \<or> (m = mtd \<and> c \<in> keys vs \<and> virtual_method classes c mtd)"
    by blast+
qed

text \<open>The invariant of the walk over the class hierarchy. Methods are explored for a whole
  inheritance group at once; explored methods of one name in one group are connected; and
  only such methods are.\<close>

definition cha_inv :: "classes \<Rightarrow> name graph \<Rightarrow> virtuals \<Rightarrow> name graph \<times> name graph \<Rightarrow> bool" where
  "cha_inv classes cha virt s \<longleftrightarrow> g_sym (fst s)
     \<and> (\<forall>c m c'. edge (snd s) c m \<and> c' \<in> reach cha c \<and> virtual_method classes c' m \<longrightarrow> edge (snd s) c' m)
     \<and> (\<forall>c c' m n n'. edge (snd s) c m \<and> edge (snd s) c' m \<and> c' \<in> reach cha c
          \<and> n \<in> virt_at virt c m \<and> n' \<in> virt_at virt c' m \<longrightarrow> n' \<in> reach (fst s) n)
     \<and> (\<forall>n n'. edge (fst s) n n' \<longrightarrow> (\<exists>c c' m. n \<in> virt_at virt c m \<and> n' \<in> virt_at virt c' m \<and> c' \<in> reach cha c))"

definition classes_wf :: "classes \<Rightarrow> bool" where
  "classes_wf classes \<longleftrightarrow> (\<forall>c ms. dict_find classes c = Some ms \<longrightarrow> dict_wf ms)"

lemma cha_method_step:
  assumes sym: "g_sym cha" and cc: "keys cc = reach cha cls"
    and virt: "virtual_method classes cls mtd"
    and inv: "cha_inv classes cha virt (cg, ex)"
    and run: "cha_method classes virt cc cls (mtd, a) (cg, ex) = Some s'" and a: "is_virtual a"
  shows "cha_inv classes cha virt s' \<and> edge (snd s') cls mtd \<and> (\<forall>c m. edge ex c m \<longrightarrow> edge (snd s') c m)"
proof (cases "edge ex cls mtd")
  case True
  then have "s' = (cg, ex)" using run by (auto simp: cha_method_def graph_simps)
  then show ?thesis using True inv by simp
next
  case False
  then obtain eqc ex' where s': "s' = (g_add_cc_to_g cg eqc, ex')"
    and w: "foldM (cha_visit classes virt mtd) cc ([], ex) = Some (eqc, ex')"
    using run a by (auto simp: cha_method_def graph_simps)
  have g: "g_sym cg" using inv by (simp add: cha_inv_def)
  have none: "\<not> edge ex c mtd" if "c \<in> keys cc" for c
    using inv virt False that reach_sym [OF sym, of c cls] unfolding cc cha_inv_def by auto
  have eqc: "keys eqc = (\<Union>c \<in> {c \<in> keys cc. virtual_method classes c mtd}. virt_at virt c mtd)"
    using cha_visit_walk(1) [OF w] none by auto
  note ex' = cha_visit_walk(2) [OF w]
  have group: "c' \<in> keys cc" if "c \<in> keys cc" "c' \<in> reach cha c \<or> c \<in> reach cha c'" for c c'
    using that cc reach_trans [of c cha cls c'] reach_sym [OF sym] by blast
  have mono: "reach cg x \<subseteq> reach (g_add_cc_to_g cg eqc) x" for x
    by (rule reach_mono) (rule edge_add_cc_mono)
  have i1: "edge ex' c' m" if "edge ex' c m" "c' \<in> reach cha c" "virtual_method classes c' m" for c c' m
  proof -
    have "edge ex c' m \<or> (m = mtd \<and> c \<in> keys cc)" using inv that ex' by (auto simp: cha_inv_def)
    then show ?thesis using ex' that group by blast
  qed
  have i2: "n' \<in> reach (g_add_cc_to_g cg eqc) n" if h: "edge ex' c m" "edge ex' c' m" "c' \<in> reach cha c"
      "n \<in> virt_at virt c m" "n' \<in> virt_at virt c' m" for c c' m n n'
  proof (cases "m = mtd \<and> (c \<in> keys cc \<or> c' \<in> keys cc)")
    case True
    then have "c \<in> keys cc" "c' \<in> keys cc" using group h(3) by auto
    then have "n \<in> keys eqc" "n' \<in> keys eqc" using True h none ex' eqc by auto
    then show ?thesis using g_add_cc_to_g_connects [OF g] by blast
  next
    case False
    then have "edge ex c m" "edge ex c' m" using h ex' by auto
    then have "n' \<in> reach cg n" using inv h(3-5) unfolding cha_inv_def by auto
    then show ?thesis using mono by blast
  qed
  have i3: "\<exists>c c' m. n \<in> virt_at virt c m \<and> n' \<in> virt_at virt c' m \<and> c' \<in> reach cha c"
    if "edge (g_add_cc_to_g cg eqc) n n'" for n n'
  proof (cases "edge cg n n'")
    case True
    then show ?thesis using inv by (simp add: cha_inv_def)
  next
    case False
    then have "n \<in> keys eqc" "n' \<in> keys eqc" using edge_add_cc [OF that] by simp_all
    then obtain c c' where "c \<in> keys cc" "n \<in> virt_at virt c mtd" "c' \<in> keys cc" "n' \<in> virt_at virt c' mtd"
      using eqc by auto
    moreover have "c' \<in> reach cha c" if "c \<in> keys cc" "c' \<in> keys cc"
      using that cc reach_eq [OF sym, of c cls] by simp
    ultimately show ?thesis by blast
  qed
  have "cha_inv classes cha virt s'"
    unfolding cha_inv_def s' fst_conv snd_conv
  proof (intro conjI allI impI)
    show "g_sym (g_add_cc_to_g cg eqc)" using g by (rule inv_intros)
  qed (use i1 in blast, use i2 in blast, use i3 in blast)
  moreover have "edge (snd s') cls mtd" using ex' s' virt cc by auto
  ultimately show ?thesis using ex' s' by auto
qed

lemma cha_method_skip: "\<not> is_virtual (snd me) \<Longrightarrow> cha_method classes virt cc cls me s = Some s"
  by (simp add: cha_method_def split: prod.splits)

text \<open>All methods of a class, then all classes of a group, then all groups.\<close>

lemma cha_methods_walk:
  assumes sym: "g_sym cha" and cc: "keys cc = reach cha cls"
    and cls: "dict_find classes cls = Some ms" "dict_wf ms"
  shows "foldM (cha_method classes virt cc cls) mes s = Some s' \<Longrightarrow> set mes \<subseteq> set ms \<Longrightarrow>
    cha_inv classes cha virt s \<Longrightarrow>
    cha_inv classes cha virt s' \<and> (\<forall>c m. edge (snd s) c m \<longrightarrow> edge (snd s') c m)
     \<and> (\<forall>m a. (m, a) \<in> set mes \<and> is_virtual a \<longrightarrow> edge (snd s') cls m)"
proof (induction mes arbitrary: s)
  case Nil
  then show ?case by simp
next
  case (Cons me mes)
  obtain m a where me: "me = (m, a)" by force
  obtain s1 where s1: "cha_method classes virt cc cls (m, a) s = Some s1"
    and r: "foldM (cha_method classes virt cc cls) mes s1 = Some s'"
    using Cons.prems(1) me by (auto split: Option.bind_splits)
  have step: "cha_inv classes cha virt s1 \<and> (is_virtual a \<longrightarrow> edge (snd s1) cls m)
     \<and> (\<forall>c m. edge (snd s) c m \<longrightarrow> edge (snd s1) c m)"
  proof (cases "is_virtual a")
    case True
    have "virtual_method classes cls m"
      using cls Cons.prems(2) me True by (auto simp: virtual_method_def dict_wf_map_of)
    moreover obtain cg ex where s: "s = (cg, ex)" by force
    ultimately have "cha_inv classes cha virt s1 \<and> edge (snd s1) cls m \<and> (\<forall>c m. edge ex c m \<longrightarrow> edge (snd s1) c m)"
      using cha_method_step [OF sym cc _ _ _ True, of classes m virt cg ex s1] Cons.prems(3) s1 by simp
    then show ?thesis using s by simp
  next
    case False
    then have "s1 = s" using s1 cha_method_skip by simp
    then show ?thesis using Cons.prems(3) False by simp
  qed
  have sub: "set mes \<subseteq> set ms" using Cons.prems(2) by simp
  have "cha_inv classes cha virt s' \<and> (\<forall>c m. edge (snd s1) c m \<longrightarrow> edge (snd s') c m)
     \<and> (\<forall>m a. (m, a) \<in> set mes \<and> is_virtual a \<longrightarrow> edge (snd s') cls m)"
    using Cons.IH [OF r sub] step by blast
  then show ?case using step me by auto
qed

lemma cha_class_step:
  assumes "g_sym cha" and "classes_wf classes" and "keys cc = reach cha (fst v)"
    and "cha_class classes virt cc v s = Some s'" and "cha_inv classes cha virt s"
  shows "cha_inv classes cha virt s' \<and> (\<forall>c m. edge (snd s) c m \<longrightarrow> edge (snd s') c m)
     \<and> (\<forall>m. virtual_method classes (fst v) m \<longrightarrow> edge (snd s') (fst v) m)"
proof (cases "dict_find classes (fst v)")
  case None
  then show ?thesis using assms by (auto simp: cha_class_def virtual_method_def)
next
  case (Some ms)
  have wf: "dict_wf ms" using assms(2) Some by (auto simp: classes_wf_def)
  have "foldM (cha_method classes virt cc (fst v)) ms s = Some s'" using assms(4) Some by (simp add: cha_class_def)
  from cha_methods_walk [OF assms(1,3) Some wf this subset_refl assms(5)] show ?thesis
    using Some wf by (auto simp: virtual_method_def dict_wf_map_of)
qed

lemma cha_group_walk:
  assumes "g_sym cha" and "classes_wf classes"
  shows "foldM (cha_class classes virt cc) vs s = Some s' \<Longrightarrow> \<forall>v \<in> set vs. keys cc = reach cha (fst v) \<Longrightarrow>
    cha_inv classes cha virt s \<Longrightarrow>
    cha_inv classes cha virt s' \<and> (\<forall>c m. edge (snd s) c m \<longrightarrow> edge (snd s') c m)
     \<and> (\<forall>c m. c \<in> keys vs \<and> virtual_method classes c m \<longrightarrow> edge (snd s') c m)"
proof (induction vs arbitrary: s)
  case Nil
  then show ?case by simp
next
  case (Cons v vs)
  then obtain s1 where s1: "cha_class classes virt cc v s = Some s1"
    and r: "foldM (cha_class classes virt cc) vs s1 = Some s'" by (auto split: Option.bind_splits)
  have cc: "keys cc = reach cha (fst v)" using Cons.prems(2) by simp
  note step = cha_class_step [OF assms cc s1 Cons.prems(3)]
  have "cha_inv classes cha virt s' \<and> (\<forall>c m. edge (snd s1) c m \<longrightarrow> edge (snd s') c m)
     \<and> (\<forall>c m. c \<in> keys vs \<and> virtual_method classes c m \<longrightarrow> edge (snd s') c m)"
    using Cons.IH [OF r] Cons.prems(2) step by simp
  then show ?case using step by (metis insertE keys_Cons)
qed

lemma cha_groups_walk:
  assumes "g_sym cha" and "classes_wf classes"
  shows "foldM (\<lambda>cc. foldM (cha_class classes virt cc) cc) lcc s = Some s' \<Longrightarrow>
    \<forall>cc \<in> set lcc. \<forall>v \<in> set cc. keys cc = reach cha (fst v) \<Longrightarrow> cha_inv classes cha virt s \<Longrightarrow>
    cha_inv classes cha virt s' \<and> (\<forall>c m. edge (snd s) c m \<longrightarrow> edge (snd s') c m)
     \<and> (\<forall>cc c m. cc \<in> set lcc \<and> c \<in> keys cc \<and> virtual_method classes c m \<longrightarrow> edge (snd s') c m)"
proof (induction lcc arbitrary: s)
  case Nil
  then show ?case by simp
next
  case (Cons cc lcc)
  then obtain s1 where s1: "foldM (cha_class classes virt cc) cc s = Some s1"
    and r: "foldM (\<lambda>cc. foldM (cha_class classes virt cc) cc) lcc s1 = Some s'"
    by (auto split: Option.bind_splits)
  have cc: "\<forall>v \<in> set cc. keys cc = reach cha (fst v)" using Cons.prems(2) by simp
  note step = cha_group_walk [OF assms s1 cc Cons.prems(3)]
  have "cha_inv classes cha virt s' \<and> (\<forall>c m. edge (snd s1) c m \<longrightarrow> edge (snd s') c m)
     \<and> (\<forall>cc c m. cc \<in> set lcc \<and> c \<in> keys cc \<and> virtual_method classes c m \<longrightarrow> edge (snd s') c m)"
  proof (rule Cons.IH [OF r])
    show "\<forall>cc \<in> set lcc. \<forall>v \<in> set cc. keys cc = reach cha (fst v)" using Cons.prems(2) by simp
  qed (use step in blast)
  then show ?case using step by (metis set_ConsD)
qed

lemma lcc_member_reach:
  assumes "g_sym g" and "g_get_lcc g = Some lcc" and "cc \<in> set lcc" and "c \<in> keys cc"
  shows "keys cc = reach g c"
proof -
  have "keys ` set lcc = reach g ` keys g" using g_get_lcc_classes [OF assms(1)] assms(2) by auto
  then obtain w where "keys cc = reach g w" using assms(3) by blast
  then show ?thesis using reach_eq [OF assms(1), of c w] assms(4) by simp
qed

lemma lcc_covers:
  assumes "g_sym g" and "g_get_lcc g = Some lcc" and "c \<in> keys g"
  shows "\<exists>cc \<in> set lcc. c \<in> keys cc"
proof -
  have "keys ` set lcc = reach g ` keys g" using g_get_lcc_classes [OF assms(1)] assms(2) by auto
  then have "reach g c \<in> keys ` set lcc" using assms(3) by blast
  then obtain cc where "cc \<in> set lcc" "keys cc = reach g c" by (metis imageE)
  then show ?thesis by auto
qed

lemma build_cha_relations_inv:
  assumes sym: "g_sym cha" and wf: "classes_wf classes"
    and run: "build_cha_relations [] classes cha virt = Some cg"
  shows "\<exists>ex. cha_inv classes cha virt (cg, ex)
    \<and> (\<forall>c m. c \<in> keys cha \<and> virtual_method classes c m \<longrightarrow> edge ex c m)"
proof -
  obtain lcc ex where lcc: "g_get_lcc cha = Some lcc"
    and w: "foldM (\<lambda>cc. foldM (cha_class classes virt cc) cc) lcc ([], []) = Some (cg, ex)"
    using run by (auto simp: build_cha_relations_def split: Option.bind_splits)
  have "\<forall>cc \<in> set lcc. \<forall>v \<in> set cc. keys cc = reach cha (fst v)"
  proof (intro ballI)
    fix cc v
    assume "cc \<in> set lcc" "v \<in> set cc"
    then show "keys cc = reach cha (fst v)" by (intro lcc_member_reach [OF sym lcc]) (auto simp flip: image_fst_keys)
  qed
  moreover have "cha_inv classes cha virt ([], [])" by (simp add: cha_inv_def)
  ultimately have "cha_inv classes cha virt (cg, ex) \<and>
    (\<forall>cc c m. cc \<in> set lcc \<and> c \<in> keys cc \<and> virtual_method classes c m \<longrightarrow> edge ex c m)"
    using cha_groups_walk [OF sym wf w] unfolding snd_conv by blast
  then show ?thesis using lcc_covers [OF sym lcc] by blast
qed

text \<open>The only assertion on this path is that of \<open>dict_add\<close>: it cannot fail when no function
  name is recorded for two classes under the same method.\<close>

definition virt_ok :: "virtuals \<Rightarrow> bool" where
  "virt_ok virt \<longleftrightarrow> (\<forall>c m fns. g_find_l2_vertex virt c m = Some fns \<longrightarrow> dict_wf fns)
     \<and> (\<forall>c c' m. c \<noteq> c' \<longrightarrow> virt_at virt c m \<inter> virt_at virt c' m = {})"

lemma cha_visit_total:
  assumes ok: "virt_ok virt" and s: "keys (fst s) \<subseteq> (\<Union>c \<in> {c. edge (snd s) c mtd}. virt_at virt c mtd)"
  shows "\<exists>s'. cha_visit classes virt mtd vc s = Some s' \<and>
    keys (fst s') \<subseteq> (\<Union>c \<in> {c. edge (snd s') c mtd}. virt_at virt c mtd)"
proof -
  obtain eqc ex where s_eq: "s = (eqc, ex)" by force
  have "\<exists>s'. cha_visit classes virt mtd vc s = Some s'"
  proof (cases "edge ex (fst vc) mtd")
    case True
    then show ?thesis using s_eq by (auto simp: cha_visit_def graph_simps split: option.splits)
  next
    case False
    have "\<exists>e. foldM (\<lambda>n eqc. dict_add eqc (fst n) ()) fns eqc = Some e"
      if fns: "g_find_l2_vertex virt (fst vc) mtd = Some fns" for fns
    proof -
      have "keys fns = virt_at virt (fst vc) mtd" using fns by (simp add: virt_at_def)
      moreover have "virt_at virt (fst vc) mtd \<inter> virt_at virt c mtd = {}" if "edge ex c mtd" for c
        using ok that False unfolding virt_ok_def by metis
      ultimately have "keys fns \<inter> keys eqc = {}"
        using s unfolding s_eq fst_conv snd_conv by blast
      moreover have "dict_wf fns" using ok fns by (auto simp: virt_ok_def)
      ultimately show ?thesis using add_class [of fns eqc "()"] by blast
    qed
    then show ?thesis using s_eq by (fastforce simp: cha_visit_def Let_def split: option.splits)
  qed
  then obtain eqc' ex' where r: "cha_visit classes virt mtd vc (eqc, ex) = Some (eqc', ex')"
    using s_eq by force
  note step = cha_visit_step [OF r]
  have "keys eqc' \<subseteq> (\<Union>c \<in> {c. edge ex' c mtd}. virt_at virt c mtd)"
    using s s_eq step by (auto split: if_splits)
  then show ?thesis using r s_eq by auto
qed

lemma cha_method_total: "virt_ok virt \<Longrightarrow> \<exists>s'. cha_method classes virt cc cls me s = Some s'"
proof -
  assume ok: "virt_ok virt"
  obtain cg ex where s: "s = (cg, ex)" by force
  have "\<exists>s'. foldM (cha_visit classes virt (fst me)) cc ([], ex) = Some s' \<and>
      keys (fst s') \<subseteq> (\<Union>c \<in> {c. edge (snd s') c (fst me)}. virt_at virt c (fst me))"
  proof (rule foldM_total)
    show "keys (fst ([], ex)) \<subseteq> (\<Union>c \<in> {c. edge (snd ([], ex)) c (fst me)}. virt_at virt c (fst me))" by simp
  qed (rule cha_visit_total [OF ok])
  then show ?thesis using s by (auto simp: cha_method_def)
qed

lemma cha_class_total: "virt_ok virt \<Longrightarrow> \<exists>s'. cha_class classes virt cc v s = Some s'"
  using foldM_total [of "\<lambda>_. True" s _ "cha_method classes virt cc (fst v)"] cha_method_total
  by (auto simp: cha_class_def split: option.splits)

lemma build_cha_relations_total:
  assumes sym: "g_sym cha" and ok: "virt_ok virt"
  shows "\<exists>cg. build_cha_relations g classes cha virt = Some cg"
proof -
  obtain lcc where "g_get_lcc cha = Some lcc" using g_get_lcc_classes [OF sym] by blast
  moreover have "\<exists>s'. foldM (cha_class classes virt cc) cc s = Some s'" for cc s
    using foldM_total [of "\<lambda>_. True" s cc "cha_class classes virt cc"] cha_class_total [OF ok] by blast
  then have "\<exists>s'. foldM (\<lambda>cc. foldM (cha_class classes virt cc) cc) lcc (g, []) = Some s'"
    using foldM_total [of "\<lambda>_. True" "(g, [])" lcc "\<lambda>cc. foldM (cha_class classes virt cc) cc"] by blast
  ultimately show ?thesis by (auto simp: build_cha_relations_def)
qed

section \<open>The groups\<close>

text \<open>The attributes of a function's method, and the names a function is known under.\<close>

definition method_attr :: "classes \<Rightarrow> func \<Rightarrow> u8 option" where
  "method_attr classes f =
     (if f_class_name f \<noteq> 0 \<and> f_method_name f \<noteq> 0
      then do { ms \<leftarrow> dict_find classes (f_class_name f); dict_find ms (f_method_name f) } else None)"

definition instance_method :: "classes \<Rightarrow> func \<Rightarrow> bool" where
  "instance_method classes f \<longleftrightarrow> (\<exists>a. method_attr classes f = Some a \<and> \<not> is_static a)"

definition labels :: "name graph \<Rightarrow> func \<Rightarrow> name set" where
  "labels aliases_tc f = insert (f_name f) (set (alias_list aliases_tc (f_name f)))"

definition taken :: "name adj \<Rightarrow> name graph \<Rightarrow> func \<Rightarrow> bool" where
  "taken fats aliases_tc f \<longleftrightarrow> func_or_alias_addr_taken fats (f_name f) aliases_tc \<and> f_type f \<noteq> 0"

lemma is_instance_method_attr:
  "is_instance_method f classes a =
     (case method_attr classes f of None \<Rightarrow> (False, a) | Some b \<Rightarrow> (\<not> is_static b, b))"
  by (auto simp: is_instance_method_def method_attr_def split: option.splits)

lemma virt_at_add:
  "virt_at (g_add_directed_l2_edge d c0 m0 v) c m = virt_at d c m \<union> (if c = c0 \<and> m = m0 then {v} else {})"
proof -
  obtain sub where sub: "dict_find (g_add_edge_helper [] d c0 m0) c0 = Some sub"
    by (simp add: graph_simps)
  have old: "(case dict_find sub m of None \<Rightarrow> {} | Some fns \<Rightarrow> keys fns) = virt_at d c0 m" for m
    using sub by (auto simp: graph_simps virt_at_def g_find_l2_vertex_def split: option.splits if_splits
        dest: dict_find_SomeD)
  show ?thesis
  proof (cases "c = c0")
    case True
    have "g_find_l2_vertex (g_add_directed_l2_edge d c0 m0 v) c0 m = dict_find (g_add_edge_helper () sub m0 v) m"
      using sub by (simp add: g_add_directed_l2_edge_def g_find_l2_vertex_def dict_simps graph_simps)
    then show ?thesis using True old [of m] by (auto simp: virt_at_def graph_simps split: option.splits)
  next
    case False
    then show ?thesis using sub
      by (simp add: g_add_directed_l2_edge_def g_find_l2_vertex_def virt_at_def dict_simps graph_simps)
  qed
qed

lemma virt_at_fold:
  "virt_at (fold (\<lambda>v d. g_add_directed_l2_edge d c0 m0 v) vs d) c m =
     virt_at d c m \<union> (if c = c0 \<and> m = m0 then set vs else {})"
  by (induction vs arbitrary: d) (auto simp: virt_at_add)

lemma edge_fold_directed:
  "edge (fold (\<lambda>v d. g_add_directed_edge d t v) vs g) x y \<longleftrightarrow> edge g x y \<or> (x = t \<and> y \<in> set vs)"
  by (induction vs arbitrary: g) (auto simp: graph_simps)

text \<open>What one function adds to each group. Only the virtual table reads \<open>attrs\<close> when the
  method is unknown, so the other groups do not depend on its initial value.\<close>

lemmas group_simps = group_function_def Let_def is_instance_method_attr taken_def instance_method_def

lemma group_global:
  "edge (global_by_type (group_function classes fats tc p g)) t n \<longleftrightarrow> edge (global_by_type g) t n \<or>
     (t = f_type (snd p) \<and> n = f_name (snd p) \<and> taken fats tc (snd p) \<and> \<not> instance_method classes (snd p))"
  by (auto simp: group_simps graph_simps split: option.splits)

lemma group_inst:
  "edge (inst_by_type (group_function classes fats tc p g)) t n \<longleftrightarrow> edge (inst_by_type g) t n \<or>
     (t = f_type (snd p) \<and> n \<in> labels tc (snd p) \<and> taken fats tc (snd p) \<and>
        (\<exists>a. method_attr classes (snd p) = Some a \<and> \<not> is_static a \<and> \<not> is_constant a \<and> \<not> is_volatile a))"
  by (auto simp: group_simps graph_simps edge_fold_directed labels_def split: option.splits)

lemma group_const:
  "edge (inst_by_const (group_function classes fats tc p g)) t n \<longleftrightarrow> edge (inst_by_const g) t n \<or>
     (t = f_type (snd p) \<and> n = f_name (snd p) \<and> taken fats tc (snd p) \<and>
        (\<exists>a. method_attr classes (snd p) = Some a \<and> \<not> is_static a \<and> is_constant a \<and> \<not> is_volatile a))"
  by (auto simp: group_simps graph_simps split: option.splits)

lemma group_volatile:
  "edge (inst_by_volatile (group_function classes fats tc p g)) t n \<longleftrightarrow> edge (inst_by_volatile g) t n \<or>
     (t = f_type (snd p) \<and> n = f_name (snd p) \<and> taken fats tc (snd p) \<and>
        (\<exists>a. method_attr classes (snd p) = Some a \<and> \<not> is_static a \<and> \<not> is_constant a \<and> is_volatile a))"
  by (auto simp: group_simps graph_simps split: option.splits)

lemma group_const_volatile:
  "edge (inst_by_const_volatile (group_function classes fats tc p g)) t n \<longleftrightarrow> edge (inst_by_const_volatile g) t n \<or>
     (t = f_type (snd p) \<and> n = f_name (snd p) \<and> taken fats tc (snd p) \<and>
        (\<exists>a. method_attr classes (snd p) = Some a \<and> \<not> is_static a \<and> is_constant a \<and> is_volatile a))"
  by (auto simp: group_simps graph_simps split: option.splits)

lemma group_virtual_sub:
  "n \<in> virt_at (by_cls_mtd (group_function classes fats tc p g)) c m \<Longrightarrow> n \<in> virt_at (by_cls_mtd g) c m \<or>
     (c = f_class_name (snd p) \<and> m = f_method_name (snd p) \<and> n \<in> labels tc (snd p))"
  by (auto simp: group_simps virt_at_fold virt_at_add labels_def split: option.splits if_splits)

lemma group_virtual_super:
  "n \<in> virt_at (by_cls_mtd g) c m \<or>
     (c = f_class_name (snd p) \<and> m = f_method_name (snd p) \<and> n \<in> labels tc (snd p) \<and>
       (\<exists>a. method_attr classes (snd p) = Some a \<and> is_virtual a)) \<Longrightarrow>
   n \<in> virt_at (by_cls_mtd (group_function classes fats tc p g)) c m"
  by (auto simp: group_simps virt_at_fold virt_at_add labels_def split: option.splits if_splits)

lemma by_name_fold:
  "edge (fold (\<lambda>v d. if v \<noteq> k then g_add_directed_edge d v i else d) vs g) x y \<longleftrightarrow>
     edge g x y \<or> (x \<in> set vs \<and> x \<noteq> k \<and> y = i)"
  by (induction vs arbitrary: g) (auto simp: graph_simps)

lemma group_by_name:
  "edge (all_funcs_grouped_by_name (group_function classes fats tc p g)) n i \<longleftrightarrow>
     edge (all_funcs_grouped_by_name g) n i \<or> (n \<in> labels tc (snd p) \<and> i = fst p)"
  by (auto simp: group_simps by_name_fold graph_simps labels_def split: option.splits)

text \<open>The groups after the loop.\<close>

lemma groups_global:
  "edge (global_by_type (fold (group_function classes fats tc) ps g)) t n \<longleftrightarrow> edge (global_by_type g) t n \<or>
     (\<exists>p \<in> set ps. t = f_type (snd p) \<and> n = f_name (snd p) \<and> taken fats tc (snd p)
        \<and> \<not> instance_method classes (snd p))"
  by (rule fold_collect) (rule group_global)

lemma groups_inst:
  "edge (inst_by_type (fold (group_function classes fats tc) ps g)) t n \<longleftrightarrow> edge (inst_by_type g) t n \<or>
     (\<exists>p \<in> set ps. t = f_type (snd p) \<and> n \<in> labels tc (snd p) \<and> taken fats tc (snd p) \<and>
        (\<exists>a. method_attr classes (snd p) = Some a \<and> \<not> is_static a \<and> \<not> is_constant a \<and> \<not> is_volatile a))"
  by (rule fold_collect) (rule group_inst)

lemma groups_by_name:
  "edge (all_funcs_grouped_by_name (fold (group_function classes fats tc) ps g)) n i \<longleftrightarrow>
     edge (all_funcs_grouped_by_name g) n i \<or> (\<exists>p \<in> set ps. n \<in> labels tc (snd p) \<and> i = fst p)"
  by (rule fold_collect) (rule group_by_name)

lemma groups_virtual_sub:
  "n \<in> virt_at (by_cls_mtd (fold (group_function classes fats tc) ps g)) c m \<Longrightarrow>
     n \<in> virt_at (by_cls_mtd g) c m \<or>
     (\<exists>p \<in> set ps. c = f_class_name (snd p) \<and> m = f_method_name (snd p) \<and> n \<in> labels tc (snd p))"
proof (induction ps arbitrary: g)
  case Nil
  then show ?case by simp
next
  case (Cons p ps)
  from Cons.IH [of "group_function classes fats tc p g"] Cons.prems
  have "n \<in> virt_at (by_cls_mtd (group_function classes fats tc p g)) c m \<or>
     (\<exists>p \<in> set ps. c = f_class_name (snd p) \<and> m = f_method_name (snd p) \<and> n \<in> labels tc (snd p))" by simp
  then show ?case using group_virtual_sub [of n classes fats tc p g c m] by auto
qed

lemma groups_virtual_super:
  "n \<in> virt_at (by_cls_mtd g) c m \<or>
     (\<exists>p \<in> set ps. c = f_class_name (snd p) \<and> m = f_method_name (snd p) \<and> n \<in> labels tc (snd p) \<and>
       (\<exists>a. method_attr classes (snd p) = Some a \<and> is_virtual a)) \<Longrightarrow>
   n \<in> virt_at (by_cls_mtd (fold (group_function classes fats tc) ps g)) c m"
proof (induction ps arbitrary: g)
  case Nil
  then show ?case by simp
next
  case (Cons p ps)
  have "n \<in> virt_at (by_cls_mtd (group_function classes fats tc p g)) c m \<or>
     (\<exists>p \<in> set ps. c = f_class_name (snd p) \<and> m = f_method_name (snd p) \<and> n \<in> labels tc (snd p) \<and>
       (\<exists>a. method_attr classes (snd p) = Some a \<and> is_virtual a))"
    using Cons.prems group_virtual_super [of n g c m p tc classes fats] by auto
  then show ?case using Cons.IH by simp
qed

section \<open>Aliases\<close>

text \<open>With a symmetric alias graph the names of a function are its reachability class, and an
  address is taken when that of any alias is.\<close>

lemma reach_isolated: "a \<notin> keys g \<Longrightarrow> reach g a = {a}"
  using edge_source [of g a] by (auto simp: reach_def elim: converse_rtranclpE)

lemma alias_list_reach:
  assumes "g_sym aliases" and "g_transitive_closure aliases = Some tc"
  shows "insert n (set (alias_list tc n)) = reach aliases n"
proof (cases "n \<in> keys aliases")
  case True
  then obtain cc where "dict_find tc n = Some cc" "keys cc = reach aliases n"
    using g_transitive_closure_reach [OF assms(1)] assms(2) by auto
  then show ?thesis by (simp add: alias_list_def insert_absorb)
next
  case False
  then have "n \<notin> keys tc" using g_transitive_closure_reach [OF assms(1)] assms(2) by auto
  then show ?thesis using False by (simp add: alias_list_def reach_isolated)
qed

lemma labels_reach:
  "g_sym aliases \<Longrightarrow> g_transitive_closure aliases = Some tc \<Longrightarrow> labels tc f = reach aliases (f_name f)"
  by (simp add: labels_def alias_list_reach)

lemma func_or_alias_addr_taken_labels:
  "func_or_alias_addr_taken fats n tc \<longleftrightarrow> insert n (set (alias_list tc n)) \<inter> keys fats \<noteq> {}"
proof (cases "n \<in> keys fats")
  case True
  then show ?thesis by (auto simp: func_or_alias_addr_taken_def dict_find_None_iff)
next
  case False
  then show ?thesis
    by (auto simp: func_or_alias_addr_taken_def alias_list_def list_ex_iff dict_simps
        simp flip: image_fst_keys split: option.splits)
qed

lemma taken_reach:
  "g_sym aliases \<Longrightarrow> g_transitive_closure aliases = Some tc \<Longrightarrow>
    taken fats tc f \<longleftrightarrow> reach aliases (f_name f) \<inter> keys fats \<noteq> {} \<and> f_type f \<noteq> 0"
  by (simp add: taken_def func_or_alias_addr_taken_labels alias_list_reach)

section \<open>The call graph\<close>

lemma edge_connect_icfs:
  "edge (fold (connect_icf g chacc) icfs cg) x y \<longleftrightarrow> edge cg x y \<or>
     (\<exists>ic \<in> set icfs. \<exists>n \<in> set (icf_targets g chacc ic).
        (x = mark_icj (icf_id ic) \<and> y = n) \<or> (x = n \<and> y = mark_icj (icf_id ic)))"
  by (rule fold_collect) (auto simp: connect_icf_def graph_simps)

lemma g_sym_connect_icfs [inv_intros]: "g_sym cg \<Longrightarrow> g_sym (fold (connect_icf g chacc) icfs cg)"
  by (rule fold_invariant_set) (auto simp: connect_icf_def intro!: inv_intros)

text \<open>Every name an indirect branch is connected to comes from one of the groups.\<close>

lemma inherited_entry_virt:
  "n \<in> set (inherited_entry virt mtd ks) \<Longrightarrow> \<exists>k \<in> set ks. n \<in> virt_at virt k mtd"
  by (induction ks) (auto simp: virt_at_def split: option.splits)

lemma in_adj_edge: "n \<in> set (case dict_find g t of None \<Rightarrow> [] | Some fs \<Rightarrow> map fst fs) \<longleftrightarrow> edge g t n"
  by (cases "dict_find g t") (auto simp: edge_def)

lemma normal_targets:
  "ity ic = NormalCall \<Longrightarrow> n \<in> set (icf_targets g chacc ic) \<longleftrightarrow> edge (global_by_type g) (icf_type ic) n"
  by (simp only: icf_targets_def ICF_Type.case in_adj_edge)

lemma virtual_targets:
  assumes "ity ic = VirtualMethodCall" and "n \<in> set (icf_targets g chacc ic)"
  shows "n \<in> virt_at (by_cls_mtd g) (icf_class_name ic) (icf_method_name ic) \<or>
    (\<exists>c. edge chacc (icf_class_name ic) c \<and> n \<in> virt_at (by_cls_mtd g) c (icf_method_name ic))"
proof (cases "g_find_l2_vertex (by_cls_mtd g) (icf_class_name ic) (icf_method_name ic)")
  case None
  then obtain grp where grp: "dict_find chacc (icf_class_name ic) = Some grp"
    "n \<in> set (inherited_entry (by_cls_mtd g) (icf_method_name ic) (map fst grp))"
    using assms by (cases "dict_find chacc (icf_class_name ic)") (auto simp: icf_targets_def)
  from inherited_entry_virt [OF grp(2)] show ?thesis using grp(1) by (auto simp: edge_def)
next
  case (Some fns)
  then show ?thesis using assms by (auto simp: icf_targets_def virt_at_def)
qed

definition method_table :: "groups \<Rightarrow> u8 \<Rightarrow> name graph" where
  "method_table g attrs =
     (if is_constant attrs then if is_volatile attrs then inst_by_const_volatile g else inst_by_const g
      else if is_volatile attrs then inst_by_volatile g else inst_by_type g)"

lemma method_targets:
  "ity ic = PointerToMethodCall \<Longrightarrow>
     n \<in> set (icf_targets g chacc ic) \<longleftrightarrow> edge (method_table g (icf_attrs ic)) (icf_type ic) n"
  by (simp only: icf_targets_def ICF_Type.case Let_def in_adj_edge method_table_def) auto

text \<open>The table of a qualifier holds the member functions with these qualifiers; only the
  unqualified table also holds the aliases.\<close>

definition method_group :: "classes \<Rightarrow> name adj \<Rightarrow> name graph \<Rightarrow> u8 \<Rightarrow> name \<Rightarrow> name \<Rightarrow> func \<Rightarrow> bool" where
  "method_group classes fats tc attrs t n f \<longleftrightarrow> t = f_type f \<and> taken fats tc f
     \<and> (n = f_name f \<or> (n \<in> labels tc f \<and> \<not> is_constant attrs \<and> \<not> is_volatile attrs))
     \<and> (\<exists>a. method_attr classes f = Some a \<and> \<not> is_static a \<and> is_constant a = is_constant attrs
          \<and> is_volatile a = is_volatile attrs)"

lemma groups_method_table:
  "edge (method_table (fold (group_function classes fats tc) ps g) attrs) t n \<longleftrightarrow>
     edge (method_table g attrs) t n \<or> (\<exists>p \<in> set ps. method_group classes fats tc attrs t n (snd p))"
  by (rule fold_collect)
    (auto simp: method_group_def method_table_def group_inst group_const group_volatile group_const_volatile labels_def)

text \<open>The pieces of a successful construction.\<close>

definition empty_groups :: "by_name \<Rightarrow> u8 \<Rightarrow> groups" where
  "empty_groups byn attrs = \<lparr> by_cls_mtd = [], global_by_type = [], inst_by_type = [], inst_by_const = [],
     inst_by_volatile = [], inst_by_const_volatile = [], all_funcs_grouped_by_name = byn, g_attrs = attrs \<rparr>"

lemma build_callgraph_pieces:
  assumes "build_callgraph attrs icfs functions classes cha fats aliases byn = Some (cg, byn')"
  obtains tc g chacc cg0 where "g_transitive_closure aliases = Some tc"
    "g = fold (group_function classes fats tc) (enumerate 0 functions) (empty_groups byn attrs)"
    "g_transitive_closure cha = Some chacc"
    "build_cha_relations [] classes cha (by_cls_mtd g) = Some cg0"
    "cg = fold (connect_icf g chacc) icfs cg0" "byn' = all_funcs_grouped_by_name g"
  using assms by (auto simp: build_callgraph_def empty_groups_def Let_def split: Option.bind_splits)

lemma virt_at_empty [simp]: "virt_at [] c m = {}"
  by (simp add: virt_at_def g_find_l2_vertex_def)

lemma empty_groups_sel [simp]:
  "by_cls_mtd (empty_groups byn attrs) = []" "global_by_type (empty_groups byn attrs) = []"
  "all_funcs_grouped_by_name (empty_groups byn attrs) = byn" "method_table (empty_groups byn attrs) a = []"
  "inst_by_type (empty_groups byn attrs) = []"
  by (simp_all add: empty_groups_def method_table_def)

lemma ex_enumerate: "(\<exists>p \<in> set (enumerate n xs). P (snd p)) \<longleftrightarrow> (\<exists>x \<in> set xs. P x)"
proof -
  have "snd ` set (enumerate n xs) = set xs" by (metis map_snd_enumerate set_map)
  then show ?thesis by (metis (no_types, lifting) image_iff)
qed

text \<open>Well-formed input: the hierarchy and the aliases are symmetric graphs, and the names
  and branch identifiers are user-space pointers.\<close>

definition cg_input_ok :: "icf list \<Rightarrow> func list \<Rightarrow> classes \<Rightarrow> name graph \<Rightarrow> name graph \<Rightarrow> bool" where
  "cg_input_ok icfs functions classes cha aliases \<longleftrightarrow> g_sym cha \<and> g_sym aliases \<and> classes_wf classes
     \<and> (\<forall>f \<in> set functions. user_ptr (f_name f)) \<and> (\<forall>a \<in> keys aliases. user_ptr a)
     \<and> (\<forall>ic \<in> set icfs. user_ptr (icf_id ic))"

lemma labels_user_ptr:
  assumes "cg_input_ok icfs functions classes cha aliases" and "f \<in> set functions"
    and "n \<in> reach aliases (f_name f)"
  shows "user_ptr n"
proof (cases "f_name f \<in> keys aliases")
  case True
  then show ?thesis using assms reach_keys [of aliases "f_name f"] by (auto simp: cg_input_ok_def)
next
  case False
  then show ?thesis using assms by (simp add: reach_isolated cg_input_ok_def)
qed

lemma mark_icj_inj: "user_ptr p \<Longrightarrow> user_ptr q \<Longrightarrow> mark_icj p = mark_icj q \<Longrightarrow> p = q"
  by (metis unmark_mark(1))

lemma mark_icj_not_user: "user_ptr p \<Longrightarrow> user_ptr q \<Longrightarrow> mark_icj p \<noteq> q"
  using mark_neq(1) [of p q] by (simp add: mark_func_def)

lemma groups_names:
  assumes ok: "cg_input_ok icfs functions classes cha aliases" and tc: "g_transitive_closure aliases = Some tc"
    and g: "g = fold (group_function classes fats tc) (enumerate 0 functions) (empty_groups byn attrs)"
  shows "n \<in> virt_at (by_cls_mtd g) c m \<Longrightarrow>
      \<exists>f \<in> set functions. c = f_class_name f \<and> m = f_method_name f \<and> n \<in> reach aliases (f_name f)"
    and "edge (global_by_type g) t n \<longleftrightarrow> (\<exists>f \<in> set functions. t = f_type f \<and> n = f_name f \<and> f_type f \<noteq> 0
        \<and> reach aliases (f_name f) \<inter> keys fats \<noteq> {} \<and> \<not> instance_method classes f)"
    and "edge (method_table g a) t n \<longleftrightarrow> (\<exists>f \<in> set functions. t = f_type f \<and> f_type f \<noteq> 0
        \<and> reach aliases (f_name f) \<inter> keys fats \<noteq> {}
        \<and> (n = f_name f \<or> (n \<in> reach aliases (f_name f) \<and> \<not> is_constant a \<and> \<not> is_volatile a))
        \<and> (\<exists>b. method_attr classes f = Some b \<and> \<not> is_static b \<and> is_constant b = is_constant a
           \<and> is_volatile b = is_volatile a))"
proof -
  have sym: "g_sym aliases" using ok by (simp add: cg_input_ok_def)
  note ref = labels_reach [OF sym tc] taken_reach [OF sym tc]
  show "\<exists>f \<in> set functions. c = f_class_name f \<and> m = f_method_name f \<and> n \<in> reach aliases (f_name f)"
    if "n \<in> virt_at (by_cls_mtd g) c m"
    using groups_virtual_sub [OF that [unfolded g]]
    by (simp add: ref ex_enumerate [where P = "\<lambda>f. c = f_class_name f \<and> m = f_method_name f \<and> n \<in> reach aliases (f_name f)"])
  show "edge (global_by_type g) t n \<longleftrightarrow> (\<exists>f \<in> set functions. t = f_type f \<and> n = f_name f \<and> f_type f \<noteq> 0
        \<and> reach aliases (f_name f) \<inter> keys fats \<noteq> {} \<and> \<not> instance_method classes f)"
    unfolding g groups_global ref
    by (subst ex_enumerate [where P = "\<lambda>f. t = f_type f \<and> n = f_name f \<and> (reach aliases (f_name f) \<inter> keys fats \<noteq> {}
          \<and> f_type f \<noteq> 0) \<and> \<not> instance_method classes f"]) auto
  show "edge (method_table g a) t n \<longleftrightarrow> (\<exists>f \<in> set functions. t = f_type f \<and> f_type f \<noteq> 0
        \<and> reach aliases (f_name f) \<inter> keys fats \<noteq> {}
        \<and> (n = f_name f \<or> (n \<in> reach aliases (f_name f) \<and> \<not> is_constant a \<and> \<not> is_volatile a))
        \<and> (\<exists>b. method_attr classes f = Some b \<and> \<not> is_static b \<and> is_constant b = is_constant a
           \<and> is_volatile b = is_volatile a))"
    unfolding g groups_method_table
    by (subst ex_enumerate) (auto simp: method_group_def ref)
qed

text \<open>The edges of a branch are exactly its targets, because no function name and no other
  branch is marked like it.\<close>

lemma icj_edges:
  assumes ok: "cg_input_ok icfs functions classes cha aliases" and tc: "g_transitive_closure aliases = Some tc"
    and g: "g = fold (group_function classes fats tc) (enumerate 0 functions) (empty_groups byn attrs)"
    and chacc: "g_transitive_closure cha = Some chacc"
    and cg0: "build_cha_relations [] classes cha (by_cls_mtd g) = Some cg0" and p: "user_ptr p"
  shows "edge (fold (connect_icf g chacc) icfs cg0) (mark_icj p) n \<longleftrightarrow>
    (\<exists>ic \<in> set icfs. icf_id ic = p \<and> n \<in> set (icf_targets g chacc ic))"
proof -
  note names = groups_names [OF ok tc g]
  have sym: "g_sym cha" "classes_wf classes" using ok by (auto simp: cg_input_ok_def)
  have fu: "user_ptr x" if "f \<in> set functions" "x \<in> reach aliases (f_name f)" for f x
    using labels_user_ptr [OF ok that] .
  have vu: "user_ptr x" if "x \<in> virt_at (by_cls_mtd g) c m" for x c m using names(1) [OF that] fu by blast
  have tu: "user_ptr x" if "x \<in> set (icf_targets g chacc ic)" for x ic
  proof (cases "ity ic")
    case VirtualMethodCall
    then show ?thesis using virtual_targets [OF _ that] vu by blast
  next
    case PointerToMethodCall
    then have "edge (method_table g (icf_attrs ic)) (icf_type ic) x" using that method_targets by simp
    then obtain f where "f \<in> set functions" "x \<in> reach aliases (f_name f)" unfolding names(3) by auto
    then show ?thesis by (rule fu)
  next
    case NormalCall
    then have "edge (global_by_type g) (icf_type ic) x" using that normal_targets by simp
    then obtain f where "f \<in> set functions" "x = f_name f" unfolding names(2) by blast
    then show ?thesis using fu reach_refl by simp
  qed
  obtain ex where "cha_inv classes cha (by_cls_mtd g) (cg0, ex)"
    using build_cha_relations_inv [OF sym cg0] by blast
  then have "\<not> edge cg0 (mark_icj p) n" using vu mark_icj_not_user [OF p] unfolding cha_inv_def fst_conv by blast
  moreover have "mark_icj p \<notin> set (icf_targets g chacc ic)" for ic using tu mark_icj_not_user [OF p] by blast
  moreover have "mark_icj p = mark_icj (icf_id ic) \<longleftrightarrow> icf_id ic = p" if "ic \<in> set icfs" for ic
    using that ok p mark_icj_inj unfolding cg_input_ok_def by metis
  ultimately show ?thesis unfolding edge_connect_icfs by metis
qed

lemma edge_chacc_reach:
  assumes "g_sym cha" and "g_transitive_closure cha = Some chacc" and "edge chacc a b"
  shows "b \<in> reach cha a"
proof -
  have "a \<in> keys chacc" using assms(3) by (rule edge_source)
  then have "a \<in> keys cha" using g_transitive_closure_reach [OF assms(1)] assms(2) by auto
  then obtain cc where "dict_find chacc a = Some cc" "keys cc = reach cha a"
    using g_transitive_closure_reach [OF assms(1)] assms(2) by auto
  then show ?thesis using assms(3) by (auto simp: edge_def)
qed

lemma build_callgraph_sym:
  assumes "cg_input_ok icfs functions classes cha aliases"
    and "build_callgraph attrs icfs functions classes cha fats aliases byn = Some (cg, byn')"
  shows "g_sym cg"
  using assms(2)
proof (rule build_callgraph_pieces)
  fix tc g chacc cg0
  assume cg0: "build_cha_relations [] classes cha (by_cls_mtd g) = Some cg0"
    and cg: "cg = fold (connect_icf g chacc) icfs cg0"
  have "g_sym cha" "classes_wf classes" using assms(1) by (auto simp: cg_input_ok_def)
  then have "g_sym cg0" using build_cha_relations_inv [OF _ _ cg0] by (auto simp: cha_inv_def)
  then show "g_sym cg" unfolding cg by (rule inv_intros)
qed

text \<open>The name sets recorded for methods have no duplicates.\<close>

definition virt_wf :: "virtuals \<Rightarrow> bool" where
  "virt_wf virt \<longleftrightarrow> (\<forall>c m fns. g_find_l2_vertex virt c m = Some fns \<longrightarrow> dict_wf fns)"

lemma virt_wf_add:
  assumes "virt_wf d"
  shows "virt_wf (g_add_directed_l2_edge d c0 m0 v)"
proof -
  obtain sub where sub: "dict_find (g_add_edge_helper [] d c0 m0) c0 = Some sub"
    by (simp add: graph_simps)
  have old: "dict_wf fns" if "dict_find sub m = Some fns" for m fns
    using sub that assms by (auto simp: graph_simps virt_wf_def g_find_l2_vertex_def split: option.splits if_splits)
  have "dict_wf fns" if "dict_find (g_add_edge_helper () sub m0 v) m = Some fns" for m fns
    using that old by (auto simp: graph_simps intro: inv_intros split: if_splits option.splits)
  then show ?thesis using sub assms
    by (auto simp: virt_wf_def g_add_directed_l2_edge_def g_find_l2_vertex_def dict_simps graph_simps
        split: option.splits if_splits)
qed

lemma virt_wf_group: "virt_wf (by_cls_mtd g) \<Longrightarrow> virt_wf (by_cls_mtd (group_function classes fats tc p g))"
proof -
  assume wf: "virt_wf (by_cls_mtd g)"
  have "virt_wf (fold (\<lambda>v d. g_add_directed_l2_edge d c m v) vs (by_cls_mtd g))" for c m vs
    by (rule fold_invariant_set [where P = virt_wf, OF wf]) (rule virt_wf_add)
  from this [of "f_class_name (snd p)" "f_method_name (snd p)" "f_name (snd p) # alias_list tc (f_name (snd p))"]
  show ?thesis using wf by (auto simp: group_function_def Let_def split: prod.splits)
qed

lemma groups_virt_ok:
  assumes ok: "cg_input_ok icfs functions classes cha aliases" and tc: "g_transitive_closure aliases = Some tc"
    and one: "\<forall>f \<in> set functions. \<forall>f' \<in> set functions.
       f_method_name f = f_method_name f' \<and> reach aliases (f_name f) \<inter> reach aliases (f_name f') \<noteq> {}
         \<longrightarrow> f_class_name f = f_class_name f'"
  shows "virt_ok (by_cls_mtd (fold (group_function classes fats tc) (enumerate 0 functions) (empty_groups byn attrs)))"
    (is "virt_ok (by_cls_mtd ?g)")
proof -
  have "virt_wf (by_cls_mtd ?g)"
  proof (rule fold_invariant_set [where P = "\<lambda>g. virt_wf (by_cls_mtd g)"])
    show "virt_wf (by_cls_mtd (empty_groups byn attrs))" by (simp add: virt_wf_def g_find_l2_vertex_def)
  qed (rule virt_wf_group)
  moreover have "virt_at (by_cls_mtd ?g) c m \<inter> virt_at (by_cls_mtd ?g) c' m = {}" if ne: "c \<noteq> c'" for c c' m
  proof (rule ccontr)
    assume "virt_at (by_cls_mtd ?g) c m \<inter> virt_at (by_cls_mtd ?g) c' m \<noteq> {}"
    then obtain n where "n \<in> virt_at (by_cls_mtd ?g) c m" "n \<in> virt_at (by_cls_mtd ?g) c' m" by blast
    from this [THEN groups_names(1) [OF ok tc refl]] show False using one ne by blast
  qed
  ultimately show ?thesis by (auto simp: virt_ok_def virt_wf_def)
qed

section \<open>The return graph\<close>

lemma g_sym_ret_function [inv_intros]: "g_sym cg \<Longrightarrow> g_sym (ret_function functions k i cg)"
  unfolding ret_function_def Let_def
  by (intro inv_intros fold_invariant_set [where P = g_sym]) (auto intro: inv_intros)

lemma g_sym_ret_module [inv_intros]: "g_sym cg \<Longrightarrow> g_sym (ret_module m cg)"
  unfolding ret_module_def by (intro inv_intros)

lemma g_sym_build_retgraph [inv_intros]: "g_sym cg \<Longrightarrow> g_sym (build_retgraph functions cg byn modules)"
  unfolding build_retgraph_def
  by (intro fold_invariant_set [where P = g_sym]) (auto intro: inv_intros)

definition ret_edge :: "func list \<Rightarrow> name \<Rightarrow> nat \<Rightarrow> name \<Rightarrow> name \<Rightarrow> bool" where
  "ret_edge functions k i x y \<longleftrightarrow> (let f = functions ! i in
     (x = k \<and> y = f_name f \<and> k \<noteq> f_name f) \<or> (x = f_name f \<and>
       (y \<in> mark_ret ` set (f_returns f) \<or> (y \<in> set (f_dtails f) \<and> y \<noteq> f_name f) \<or> y \<in> mark_icj ` set (f_itails f))))"

lemma edge_fold_tails:
  "edge (fold (\<lambda>n cg. if a \<noteq> n then g_add_edge cg a n else cg) ns g) x y \<longleftrightarrow>
     edge g x y \<or> (\<exists>n \<in> set ns. n \<noteq> a \<and> ((x = a \<and> y = n) \<or> (x = n \<and> y = a)))"
  by (rule fold_collect) (auto simp: graph_simps)

lemma edge_ret_function:
  "edge (ret_function functions k i cg) x y \<longleftrightarrow>
     edge cg x y \<or> ret_edge functions k i x y \<or> ret_edge functions k i y x"
  by (auto simp: ret_function_def ret_edge_def Let_def graph_simps edge_fold_tails)

definition module_edge :: "codemodule \<Rightarrow> name \<Rightarrow> name \<Rightarrow> bool" where
  "module_edge m x y \<longleftrightarrow>
     (\<exists>s \<in> set (m_rad m). x = mark_ra_dc (s_name s) \<and> y = s_name s) \<or>
     (\<exists>s \<in> set (m_rai m). x = mark_ra_ic (s_name s) \<and> y = mark_icj (s_name s))"

lemma edge_ret_module:
  "edge (ret_module m cg) x y \<longleftrightarrow> edge cg x y \<or> module_edge m x y \<or> module_edge m y x"
  by (auto simp: ret_module_def module_edge_def graph_simps)

text \<open>The edges of the return graph: those of the call graph, those of the functions listed
  under each name, and those of the return addresses of each module.\<close>

lemma edge_build_retgraph:
  "edge (build_retgraph functions cg byn modules) x y \<longleftrightarrow> edge cg x y \<or>
     (\<exists>kv \<in> set byn. \<exists>i \<in> keys (snd kv). ret_edge functions (fst kv) i x y \<or> ret_edge functions (fst kv) i y x) \<or>
     (\<exists>m \<in> set modules. module_edge m x y \<or> module_edge m y x)"
proof -
  have one: "edge (fold (\<lambda>fe. ret_function functions k (fst fe)) fes cg) x y \<longleftrightarrow> edge cg x y \<or>
      (\<exists>fe \<in> set fes. ret_edge functions k (fst fe) x y \<or> ret_edge functions k (fst fe) y x)" for k fes cg
    by (rule fold_collect) (simp add: edge_ret_function)
  have "edge (fold (\<lambda>kv cg. fold (\<lambda>fe. ret_function functions (fst kv) (fst fe)) (snd kv) cg) byn cg) x y \<longleftrightarrow>
     edge cg x y \<or> (\<exists>kv \<in> set byn. \<exists>fe \<in> set (snd kv).
        ret_edge functions (fst kv) (fst fe) x y \<or> ret_edge functions (fst kv) (fst fe) y x)"
    by (rule fold_collect) (rule one)
  moreover have "edge (fold ret_module modules cg) x y \<longleftrightarrow> edge cg x y \<or>
      (\<exists>m \<in> set modules. module_edge m x y \<or> module_edge m y x)" for cg
    by (rule fold_collect) (rule edge_ret_module)
  ultimately show ?thesis by (simp add: build_retgraph_def flip: image_fst_keys)
qed

text \<open>Every name of a function is connected to the function, to its returns and to its tail
  calls.\<close>

lemma retgraph_function:
  assumes ok: "cg_input_ok icfs functions classes cha aliases"
    and run: "build_callgraph attrs icfs functions classes cha fats aliases [] = Some (cg, byn)"
    and f: "f \<in> set functions" and rg: "rg = build_retgraph functions cg byn modules"
  shows "n \<in> reach aliases (f_name f) \<Longrightarrow> f_name f \<in> reach rg n"
    and "r \<in> set (f_returns f) \<Longrightarrow> mark_ret r \<in> reach rg (f_name f)"
    and "h \<in> set (f_dtails f) \<Longrightarrow> h \<in> reach rg (f_name f)"
    and "h \<in> set (f_itails f) \<Longrightarrow> mark_icj h \<in> reach rg (f_name f)"
proof -
  have sym: "g_sym aliases" using ok by (simp add: cg_input_ok_def)
  obtain i where i: "i < length functions" "functions ! i = f" using f by (metis in_set_conv_nth)
  have entry: "\<exists>kv \<in> set byn. fst kv = n \<and> i \<in> keys (snd kv)" if "n \<in> reach aliases (f_name f)" for n
    using run
  proof (rule build_callgraph_pieces)
    fix tc g
    assume tc: "g_transitive_closure aliases = Some tc" and byn: "byn = all_funcs_grouped_by_name g"
      and g: "g = fold (group_function classes fats tc) (enumerate 0 functions) (empty_groups [] attrs)"
    have "(i, f) \<in> set (enumerate 0 functions)" using i by (auto simp: in_set_enumerate_eq)
    then have "edge byn n i" using that unfolding byn g groups_by_name labels_reach [OF sym tc] by force
    then show ?thesis by (auto simp: edge_def dict_find_def dest!: map_of_SomeD) force
  qed
  have e: "edge rg x y" if "n \<in> reach aliases (f_name f)" "ret_edge functions n i x y" for n x y
    using entry [OF that(1)] that(2) unfolding rg edge_build_retgraph by metis
  have r1: "y \<in> reach rg x" if "edge rg x y" for x y using reach_edge [OF reach_refl that] .
  show "f_name f \<in> reach rg n" if n: "n \<in> reach aliases (f_name f)"
  proof (cases "n = f_name f")
    case False
    then show ?thesis using n i by (intro r1 e [OF n]) (simp add: ret_edge_def)
  qed simp
  show "r \<in> set (f_returns f) \<Longrightarrow> mark_ret r \<in> reach rg (f_name f)"
    using i by (intro r1 e [OF reach_refl]) (simp add: ret_edge_def)
  show "h \<in> set (f_dtails f) \<Longrightarrow> h \<in> reach rg (f_name f)"
    using i r1 [OF e [OF reach_refl]] by (cases "h = f_name f") (auto simp: ret_edge_def)
  show "h \<in> set (f_itails f) \<Longrightarrow> mark_icj h \<in> reach rg (f_name f)"
    using i by (intro r1 e [OF reach_refl]) (simp add: ret_edge_def)
qed

text \<open>The construction is total on such metadata.\<close>

lemma build_callgraph_total:
  assumes ok: "cg_input_ok icfs functions classes cha aliases"
    and one: "\<forall>f \<in> set functions. \<forall>f' \<in> set functions.
       f_method_name f = f_method_name f' \<and> reach aliases (f_name f) \<inter> reach aliases (f_name f') \<noteq> {}
         \<longrightarrow> f_class_name f = f_class_name f'"
  shows "\<exists>cg byn'. build_callgraph attrs icfs functions classes cha fats aliases byn = Some (cg, byn')"
proof -
  have sym: "g_sym cha" "g_sym aliases" using ok by (auto simp: cg_input_ok_def)
  obtain tc where tc: "g_transitive_closure aliases = Some tc" using g_transitive_closure_reach [OF sym(2)] by blast
  obtain chacc where chacc: "g_transitive_closure cha = Some chacc" using g_transitive_closure_reach [OF sym(1)] by blast
  let ?g = "fold (group_function classes fats tc) (enumerate 0 functions) (empty_groups byn attrs)"
  obtain cg0 where "build_cha_relations [] classes cha (by_cls_mtd ?g) = Some cg0"
    using build_cha_relations_total [OF sym(1) groups_virt_ok [OF ok tc one]] by blast
  then show ?thesis using tc chacc by (simp add: build_callgraph_def empty_groups_def Let_def)
qed

text \<open>A small program: a global function, two virtual methods of related classes, an indirect
  call of each kind.\<close>

definition ex_func :: "name \<Rightarrow> name \<Rightarrow> name \<Rightarrow> name \<Rightarrow> name list \<Rightarrow> func" where
  "ex_func n c m t rets = \<lparr> f_name = n, f_class_name = c, f_method_name = m, f_type = t, f_offset = 0,
     f_returns = rets, f_dtails = [], f_itails = [] \<rparr>"

definition ex_functions :: "func list" where
  "ex_functions = [ex_func 0x1000 0 0 0x2000 [0x3000], ex_func 0x1100 0x10 0x20 0x2100 [],
     ex_func 0x1200 0x11 0x20 0x2100 []]"

definition ex_icfs :: "icf list" where
  "ex_icfs = [\<lparr> icf_id = 0x4000, ity = NormalCall, icf_type = 0x2000, icf_attrs = 0, icf_class_name = 0, icf_method_name = 0 \<rparr>,
     \<lparr> icf_id = 0x4100, ity = VirtualMethodCall, icf_type = 0, icf_attrs = 0, icf_class_name = 0x10, icf_method_name = 0x20 \<rparr>,
     \<lparr> icf_id = 0x4200, ity = PointerToMethodCall, icf_type = 0x2100, icf_attrs = 0, icf_class_name = 0x10, icf_method_name = 0 \<rparr>]"

definition ex_classes :: classes where
  "ex_classes = [(0x10, [(0x20, 8)]), (0x11, [(0x20, 8)])]"

definition ex_cha :: "name graph" where
  "ex_cha = g_add_edge [] 0x10 0x11"

definition ex_fats :: "name adj" where
  "ex_fats = [(0x1000, ()), (0x1100, ())]"

lemma ex_input_ok: "cg_input_ok ex_icfs ex_functions ex_classes ex_cha []"
  by (auto simp: cg_input_ok_def ex_icfs_def ex_functions_def ex_func_def ex_classes_def ex_cha_def classes_wf_def
      dict_wf_def user_ptr_def dict_find_def split: if_splits intro: inv_intros)

lemma ex_one_class:
  "\<forall>f \<in> set ex_functions. \<forall>f' \<in> set ex_functions.
       f_method_name f = f_method_name f' \<and> reach [] (f_name f) \<inter> reach [] (f_name f') \<noteq> {}
         \<longrightarrow> f_class_name f = f_class_name f'"
  by (simp add: ex_functions_def ex_func_def reach_isolated)

lemma ex_callgraph:
  obtains cg byn where "build_callgraph 0 ex_icfs ex_functions ex_classes ex_cha ex_fats [] [] = Some (cg, byn)"
  using build_callgraph_total [OF ex_input_ok ex_one_class] by blast

section \<open>Properties\<close>

text \<open>C5: type-matching of ordinary indirect calls. In the call graph an indirect call that is
  not a C++ method call is connected to exactly the functions that have its type, that are
  global or static member functions, and whose address, or that of one of their aliases, is
  taken; the graph is symmetric.\<close>

theorem build_callgraph_normal_calls:
  assumes ok: "cg_input_ok icfs functions classes cha aliases"
    and run: "build_callgraph attrs icfs functions classes cha fats aliases [] = Some (cg, byn)"
    and p: "user_ptr p" "\<forall>ic \<in> set icfs. icf_id ic = p \<longrightarrow> ity ic = NormalCall"
  shows "g_sym cg \<and> (edge cg (mark_icj p) n \<longleftrightarrow>
    (\<exists>ic \<in> set icfs. \<exists>f \<in> set functions. icf_id ic = p \<and> f_type f = icf_type ic \<and> f_type f \<noteq> 0
       \<and> n = f_name f \<and> reach aliases (f_name f) \<inter> keys fats \<noteq> {} \<and> \<not> instance_method classes f))"
  using run
proof (rule build_callgraph_pieces)
  fix tc g chacc cg0
  assume tc: "g_transitive_closure aliases = Some tc"
    and g: "g = fold (group_function classes fats tc) (enumerate 0 functions) (empty_groups [] attrs)"
    and chacc: "g_transitive_closure cha = Some chacc"
    and cg0: "build_cha_relations [] classes cha (by_cls_mtd g) = Some cg0"
    and cg: "cg = fold (connect_icf g chacc) icfs cg0"
  have "edge cg (mark_icj p) n \<longleftrightarrow>
      (\<exists>ic \<in> set icfs. icf_id ic = p \<and> edge (global_by_type g) (icf_type ic) n)"
    unfolding cg icj_edges [OF ok tc g chacc cg0 p(1)] using p(2) normal_targets by blast
  then show ?thesis unfolding groups_names(2) [OF ok tc g]
    using build_callgraph_sym [OF ok run] by (auto 4 4)
qed

theorem build_callgraph_normal_calls_witness:
  "\<exists>cg byn. build_callgraph 0 ex_icfs ex_functions ex_classes ex_cha ex_fats [] [] = Some (cg, byn)
     \<and> edge cg (mark_icj 0x4000) 0x1000 \<and> \<not> edge cg (mark_icj 0x4000) 0x1100"
proof -
  obtain cg byn where run: "build_callgraph 0 ex_icfs ex_functions ex_classes ex_cha ex_fats [] [] = Some (cg, byn)"
    by (rule ex_callgraph)
  have "user_ptr 0x4000" "\<forall>ic \<in> set ex_icfs. icf_id ic = 0x4000 \<longrightarrow> ity ic = NormalCall"
    by (simp_all add: user_ptr_def ex_icfs_def)
  from build_callgraph_normal_calls [OF ex_input_ok run this] show ?thesis
    using run by (auto simp: ex_icfs_def ex_functions_def ex_func_def ex_fats_def reach_isolated
        instance_method_def method_attr_def)
qed

text \<open>C10: virtual calls stay inside the class hierarchy. A virtual call is only connected to
  functions of the called method's name whose class is related to the static class of the
  call by inheritance, or to aliases of such functions; and virtual functions of the same
  name in related classes are always in the same class of targets, so that a virtual call
  that may call one of them may call all of them.\<close>

theorem build_callgraph_virtual_calls:
  assumes ok: "cg_input_ok icfs functions classes cha aliases"
    and run: "build_callgraph attrs icfs functions classes cha fats aliases [] = Some (cg, byn)"
    and p: "user_ptr p" "\<forall>ic \<in> set icfs. icf_id ic = p \<longrightarrow> ity ic = VirtualMethodCall"
  shows "(edge cg (mark_icj p) n \<longrightarrow>
      (\<exists>ic \<in> set icfs. \<exists>f \<in> set functions. icf_id ic = p \<and> f_method_name f = icf_method_name ic
         \<and> f_class_name f \<in> reach cha (icf_class_name ic) \<and> n \<in> reach aliases (f_name f)))
    \<and> (\<forall>f \<in> set functions. \<forall>f' \<in> set functions.
         f_method_name f = f_method_name f' \<and> f_class_name f \<in> keys cha
         \<and> f_class_name f' \<in> reach cha (f_class_name f)
         \<and> (\<exists>a. method_attr classes f = Some a \<and> is_virtual a) \<and> (\<exists>a. method_attr classes f' = Some a \<and> is_virtual a)
         \<longrightarrow> f_name f' \<in> reach cg (f_name f))"
  using run
proof (rule build_callgraph_pieces)
  fix tc g chacc cg0
  assume tc: "g_transitive_closure aliases = Some tc"
    and g: "g = fold (group_function classes fats tc) (enumerate 0 functions) (empty_groups [] attrs)"
    and chacc: "g_transitive_closure cha = Some chacc"
    and cg0: "build_cha_relations [] classes cha (by_cls_mtd g) = Some cg0"
    and cg: "cg = fold (connect_icf g chacc) icfs cg0"
  have sym: "g_sym cha" "classes_wf classes" "g_sym aliases" using ok by (auto simp: cg_input_ok_def)
  obtain ex where inv: "cha_inv classes cha (by_cls_mtd g) (cg0, ex)"
    and all: "\<forall>c m. c \<in> keys cha \<and> virtual_method classes c m \<longrightarrow> edge ex c m"
    using build_cha_relations_inv [OF sym(1,2) cg0] by blast
  have sound: "\<exists>ic \<in> set icfs. \<exists>f \<in> set functions. icf_id ic = p \<and> f_method_name f = icf_method_name ic
         \<and> f_class_name f \<in> reach cha (icf_class_name ic) \<and> n \<in> reach aliases (f_name f)"
    if e: "edge cg (mark_icj p) n"
  proof -
    obtain ic where ic: "ic \<in> set icfs" "icf_id ic = p" "n \<in> set (icf_targets g chacc ic)"
      using e unfolding cg icj_edges [OF ok tc g chacc cg0 p(1)] by blast
    then have "ity ic = VirtualMethodCall" using p(2) by blast
    from virtual_targets [OF this ic(3)] obtain c where
      c: "n \<in> virt_at (by_cls_mtd g) c (icf_method_name ic)" "c \<in> reach cha (icf_class_name ic)"
      using edge_chacc_reach [OF sym(1) chacc] by blast
    from groups_names(1) [OF ok tc g c(1)] show ?thesis using ic(1,2) c(2) by metis
  qed
  have complete: "f_name f' \<in> reach cg (f_name f)"
    if h: "f \<in> set functions" "f' \<in> set functions" "f_method_name f = f_method_name f'" "f_class_name f \<in> keys cha"
      "f_class_name f' \<in> reach cha (f_class_name f)"
      "\<exists>a. method_attr classes f = Some a \<and> is_virtual a" "\<exists>a. method_attr classes f' = Some a \<and> is_virtual a" for f f'
  proof -
    have vm: "virtual_method classes (f_class_name x) (f_method_name x)"
      if "\<exists>a. method_attr classes x = Some a \<and> is_virtual a" for x
      using that by (auto simp: method_attr_def virtual_method_def split: Option.bind_splits if_splits)
    have at: "f_name x \<in> virt_at (by_cls_mtd g) (f_class_name x) (f_method_name x)"
      if "x \<in> set functions" "\<exists>a. method_attr classes x = Some a \<and> is_virtual a" for x
      unfolding g by (rule groups_virtual_super, rule disjI2,
          subst ex_enumerate [where P = "\<lambda>y. f_class_name x = f_class_name y \<and> f_method_name x = f_method_name y
            \<and> f_name x \<in> labels tc y \<and> (\<exists>a. method_attr classes y = Some a \<and> is_virtual a)"])
        (use that in \<open>auto simp: labels_def\<close>)
    have "edge ex (f_class_name f) (f_method_name f)" using all h(4) vm [OF h(6)] by blast
    moreover from this have "edge ex (f_class_name f') (f_method_name f)"
      using inv h(3,5) vm [OF h(7)] unfolding cha_inv_def snd_conv by metis
    ultimately have "f_name f' \<in> reach cg0 (f_name f)"
      using inv at [OF h(1,6)] at [OF h(2,7)] h(3,5) unfolding cha_inv_def fst_conv snd_conv by metis
    then show ?thesis using reach_mono [of cg0 cg] edge_connect_icfs [of g chacc icfs cg0] unfolding cg by blast
  qed
  show ?thesis using sound complete by blast
qed

theorem build_callgraph_virtual_calls_witness:
  "\<exists>cg byn. build_callgraph 0 ex_icfs ex_functions ex_classes ex_cha ex_fats [] [] = Some (cg, byn)
     \<and> \<not> edge cg (mark_icj 0x4100) 0x1000 \<and> 0x1200 \<in> reach cg 0x1100"
proof -
  obtain cg byn where run: "build_callgraph 0 ex_icfs ex_functions ex_classes ex_cha ex_fats [] [] = Some (cg, byn)"
    by (rule ex_callgraph)
  have h: "user_ptr 0x4100" "\<forall>ic \<in> set ex_icfs. icf_id ic = 0x4100 \<longrightarrow> ity ic = VirtualMethodCall"
    by (simp_all add: user_ptr_def ex_icfs_def)
  note v = build_callgraph_virtual_calls [OF ex_input_ok run h]
  have "\<not> edge cg (mark_icj 0x4100) 0x1000"
    using v [of "0x1000"] by (auto simp: ex_icfs_def ex_functions_def ex_func_def reach_isolated)
  moreover have "(0x11 :: u64) \<in> reach ex_cha 0x10"
    by (rule reach_edge [OF reach_refl]) (simp add: ex_cha_def graph_simps)
  then have "0x1200 \<in> reach cg 0x1100"
    using v [THEN conjunct2, THEN bspec [of _ _ "ex_func 0x1100 0x10 0x20 0x2100 []"],
        THEN bspec [of _ _ "ex_func 0x1200 0x11 0x20 0x2100 []"]]
    by (simp add: ex_functions_def ex_func_def ex_cha_def ex_classes_def method_attr_def is_virtual_def VIRTUAL_def
        dict_find_def)
  ultimately show ?thesis using run by blast
qed

text \<open>C9: returns go back to their callers. In the return graph the return instructions of a
  function are in one class with the return addresses of all direct calls to the function
  under any of its names, with the return addresses of all indirect calls that may call it,
  and with the functions it tail-calls.\<close>

theorem build_retgraph_callers:
  assumes ok: "cg_input_ok icfs functions classes cha aliases"
    and run: "build_callgraph attrs icfs functions classes cha fats aliases [] = Some (cg, byn)"
    and f: "f \<in> set functions" "r \<in> set (f_returns f)"
    and m: "m \<in> set modules" and rg: "rg = build_retgraph functions cg byn modules"
  shows "g_sym rg
    \<and> (\<forall>s \<in> set (m_rad m). s_name s \<in> reach aliases (f_name f) \<longrightarrow> mark_ra_dc (s_name s) \<in> reach rg (mark_ret r))
    \<and> (\<forall>s \<in> set (m_rai m). \<forall>n. edge cg (mark_icj (s_name s)) n \<and> n \<in> reach aliases (f_name f)
         \<longrightarrow> mark_ra_ic (s_name s) \<in> reach rg (mark_ret r))
    \<and> (\<forall>h \<in> set (f_dtails f). h \<in> reach rg (mark_ret r))
    \<and> (\<forall>h \<in> set (f_itails f). mark_icj h \<in> reach rg (mark_ret r))"
proof -
  note fun_rg = retgraph_function [OF ok run f(1) rg]
  have sym: "g_sym rg" unfolding rg by (intro inv_intros build_callgraph_sym [OF ok run])
  have home: "f_name f \<in> reach rg (mark_ret r)" using reach_sym [OF sym fun_rg(2) [OF f(2)]] .
  have names: "n \<in> reach rg (mark_ret r)" if "n \<in> reach aliases (f_name f)" for n
    using reach_trans [OF home reach_sym [OF sym fun_rg(1) [OF that]]] .
  have me: "edge rg y x" if "module_edge m x y" for x y
    using that m unfolding rg edge_build_retgraph by blast
  have cge: "edge rg y x" if "edge cg x y" for x y
    using that sym unfolding rg g_sym_def edge_build_retgraph by blast
  have rad: "mark_ra_dc (s_name s) \<in> reach rg (mark_ret r)"
    if "s \<in> set (m_rad m)" "s_name s \<in> reach aliases (f_name f)" for s
    using reach_edge [OF names [OF that(2)] me] that(1) by (auto simp: module_edge_def)
  have rai: "mark_ra_ic (s_name s) \<in> reach rg (mark_ret r)"
    if "s \<in> set (m_rai m)" "edge cg (mark_icj (s_name s)) n" "n \<in> reach aliases (f_name f)" for s n
    using reach_edge [OF reach_edge [OF names [OF that(3)] cge [OF that(2)]] me] that(1)
    by (auto simp: module_edge_def)
  show ?thesis
    using sym rad rai reach_trans [OF home fun_rg(3)] reach_trans [OF home fun_rg(4)] by blast
qed

theorem build_retgraph_callers_witness:
  "\<exists>cg byn m. build_callgraph 0 ex_icfs ex_functions ex_classes ex_cha ex_fats [] [] = Some (cg, byn)
     \<and> m_rad m = [\<lparr> s_name = 0x1000, s_offset = 8 \<rparr>]
     \<and> mark_ra_dc 0x1000 \<in> reach (build_retgraph ex_functions cg byn [m]) (mark_ret 0x3000)"
proof -
  obtain cg byn where run: "build_callgraph 0 ex_icfs ex_functions ex_classes ex_cha ex_fats [] [] = Some (cg, byn)"
    by (rule ex_callgraph)
  obtain m :: codemodule where m: "m_rad m = [\<lparr> s_name = 0x1000, s_offset = 8 \<rparr>]"
    by (metis codemodule.select_convs(11))
  have f: "ex_func 0x1000 0 0 0x2000 [0x3000] \<in> set ex_functions"
    "0x3000 \<in> set (f_returns (ex_func 0x1000 0 0 0x2000 [0x3000]))"
    by (simp_all add: ex_functions_def ex_func_def)
  have "m \<in> set [m]" by simp
  from build_retgraph_callers [OF ex_input_ok run f this refl] show ?thesis
    using run m by (auto simp: ex_func_def reach_isolated)
qed

text \<open>C17: the call graph is always built. On well-formed metadata, when no name stands for
  same-named methods of two classes, none of the assertions of the construction fails and all
  its searches terminate.\<close>

theorem build_callgraph_returns:
  assumes ok: "cg_input_ok icfs functions classes cha aliases"
    and one: "\<forall>f \<in> set functions. \<forall>f' \<in> set functions.
       f_method_name f = f_method_name f' \<and> reach aliases (f_name f) \<inter> reach aliases (f_name f') \<noteq> {}
         \<longrightarrow> f_class_name f = f_class_name f'"
  shows "\<exists>cg byn'. build_callgraph attrs icfs functions classes cha fats aliases byn = Some (cg, byn')"
  using assms by (rule build_callgraph_total)

theorem build_callgraph_returns_witness:
  "\<exists>cg byn'. build_callgraph 0 ex_icfs ex_functions ex_classes ex_cha ex_fats [] [] = Some (cg, byn')"
  by (rule build_callgraph_returns [OF ex_input_ok ex_one_class])

text \<open>C16: pointers to member functions. A call through a pointer to a member function is
  connected to exactly the non-static member functions that have its type and the same
  \<open>const\<close> and \<open>volatile\<close> qualifiers and whose address is taken, and, when it has no
  qualifier, to the aliases of these.\<close>

theorem build_callgraph_method_pointers:
  assumes ok: "cg_input_ok icfs functions classes cha aliases"
    and run: "build_callgraph attrs icfs functions classes cha fats aliases [] = Some (cg, byn)"
    and p: "user_ptr p" "\<forall>ic \<in> set icfs. icf_id ic = p \<longrightarrow> ity ic = PointerToMethodCall"
  shows "edge cg (mark_icj p) n \<longleftrightarrow>
    (\<exists>ic \<in> set icfs. \<exists>f \<in> set functions. icf_id ic = p \<and> f_type f = icf_type ic \<and> f_type f \<noteq> 0
       \<and> reach aliases (f_name f) \<inter> keys fats \<noteq> {}
       \<and> (n = f_name f \<or> (n \<in> reach aliases (f_name f) \<and> \<not> is_constant (icf_attrs ic) \<and> \<not> is_volatile (icf_attrs ic)))
       \<and> (\<exists>a. method_attr classes f = Some a \<and> \<not> is_static a \<and> is_constant a = is_constant (icf_attrs ic)
            \<and> is_volatile a = is_volatile (icf_attrs ic)))"
  using run
proof (rule build_callgraph_pieces)
  fix tc g chacc cg0
  assume tc: "g_transitive_closure aliases = Some tc"
    and g: "g = fold (group_function classes fats tc) (enumerate 0 functions) (empty_groups [] attrs)"
    and chacc: "g_transitive_closure cha = Some chacc"
    and cg0: "build_cha_relations [] classes cha (by_cls_mtd g) = Some cg0"
    and cg: "cg = fold (connect_icf g chacc) icfs cg0"
  have "edge cg (mark_icj p) n \<longleftrightarrow>
      (\<exists>ic \<in> set icfs. icf_id ic = p \<and> edge (method_table g (icf_attrs ic)) (icf_type ic) n)"
    unfolding cg icj_edges [OF ok tc g chacc cg0 p(1)] using p(2) method_targets by blast
  then show ?thesis unfolding groups_names(3) [OF ok tc g] by (metis (no_types, lifting))
qed

theorem build_callgraph_method_pointers_witness:
  "\<exists>cg byn. build_callgraph 0 ex_icfs ex_functions ex_classes ex_cha ex_fats [] [] = Some (cg, byn)
     \<and> edge cg (mark_icj 0x4200) 0x1100 \<and> \<not> edge cg (mark_icj 0x4200) 0x1000"
proof -
  obtain cg byn where run: "build_callgraph 0 ex_icfs ex_functions ex_classes ex_cha ex_fats [] [] = Some (cg, byn)"
    by (rule ex_callgraph)
  have h: "user_ptr 0x4200" "\<forall>ic \<in> set ex_icfs. icf_id ic = 0x4200 \<longrightarrow> ity ic = PointerToMethodCall"
    by (simp_all add: user_ptr_def ex_icfs_def)
  have "edge cg (mark_icj 0x4200) n \<longleftrightarrow> n = 0x1100" for n
    unfolding build_callgraph_method_pointers [OF ex_input_ok run h]
    by (auto simp: ex_icfs_def ex_functions_def ex_func_def ex_fats_def ex_classes_def reach_isolated method_attr_def
        dict_find_def is_static_def is_constant_def is_volatile_def STATIC_def CONSTANT_def VOLATILE_def)
  then show ?thesis using run by simp
qed

end
