(* ===== verification/Tables.thy ===== *)
theory Tables
  imports Callgraph
begin

unbundle bit_operations_syntax

text \<open>
  The identifier tables (\<open>src/runtime/include/cfggen/cfggen.h\<close>, \<open>populate_tary_for_func_addr\<close>
  to \<open>populate_landingpads\<close>). One region holds both tables: the word at the address of an
  indirect branch target is its target identifier (tary), the word at the slot of an indirect
  branch is its branch identifier (bary). The region is byte memory indexed by the sandbox
  address. The flag \<open>no_online_patching\<close> is the build option of that name: without it
  targets start inactive, with bit 0 of their identifier clear, until they are patched.
\<close>

section \<open>Operations\<close>

definition tary_addr :: "codemodule \<Rightarrow> symbol \<Rightarrow> nat" where
  "tary_addr m smb = unat (base_addr m + s_offset smb)"

type_synonym addr_sets = "(name, u64 adj) dict"

text \<open>One symbol: the table, the functions whose address is taken in code only, and the
  virtual methods; the latter two record the addresses still to be activated.\<close>

definition populate_func_sym ::
  "codemodule \<Rightarrow> (name, u64) dict \<Rightarrow> (name \<Rightarrow> name) \<Rightarrow> bool \<Rightarrow> symbol
     \<Rightarrow> mem \<times> addr_sets \<times> addr_sets \<Rightarrow> mem \<times> addr_sets \<times> addr_sets" where
  "populate_func_sym m ids mark act smb s =
     (let (t, fats_in_code, vmtd) = s in
      case dict_find ids (mark (s_name smb)) of
        None \<Rightarrow> s
      | Some i \<Rightarrow>
          (let p = tary_addr m smb;
               (mask, fats_in_code, vmtd) =
                 (if \<not> act \<and> read64 t p AND 1 = 0 then
                    (if dict_find fats_in_code (unmark_ptr (s_name smb)) \<noteq> None then
                       (- 2, g_add_directed_edge fats_in_code (unmark_ptr (s_name smb)) (base_addr m + s_offset smb), vmtd)
                     else if dict_find vmtd (unmark_ptr (s_name smb)) \<noteq> None then
                       (- 2, fats_in_code, g_add_directed_edge vmtd (unmark_ptr (s_name smb)) (base_addr m + s_offset smb))
                     else (- 1, fats_in_code, vmtd))
                  else (- 1, fats_in_code, vmtd))
           in (write64 t p (i AND mask), fats_in_code, vmtd)))"

definition populate_tary_for_func_addr ::
  "codemodule \<Rightarrow> (name, u64) dict \<Rightarrow> symbol list \<Rightarrow> (name \<Rightarrow> name) \<Rightarrow> bool
     \<Rightarrow> mem \<times> addr_sets \<times> addr_sets \<Rightarrow> mem \<times> addr_sets \<times> addr_sets" where
  "populate_tary_for_func_addr m ids syms mark act s =
     fold (populate_func_sym m ids mark act) syms s"

definition populate_ret_sym ::
  "codemodule \<Rightarrow> (name, u64) dict \<Rightarrow> (name \<Rightarrow> name) \<Rightarrow> bool \<Rightarrow> symbol \<Rightarrow> mem \<Rightarrow> mem" where
  "populate_ret_sym m ids mark act smb t =
     (case dict_find ids (mark (s_name smb)) of
        None \<Rightarrow> t
      | Some i \<Rightarrow>
          (let p = tary_addr m smb;
               mask = (if \<not> act \<and> read64 t p AND 1 = 0 then - 2 else - 1)
           in write64 t p (i AND mask)))"

definition populate_tary_for_return_addr ::
  "codemodule \<Rightarrow> (name, u64) dict \<Rightarrow> symbol list \<Rightarrow> (name \<Rightarrow> name) \<Rightarrow> bool \<Rightarrow> mem \<Rightarrow> mem" where
  "populate_tary_for_return_addr m ids syms mark act t =
     fold (populate_ret_sym m ids mark act) syms t"

definition gen_tary ::
  "bool \<Rightarrow> codemodule \<Rightarrow> (name, u64) dict \<Rightarrow> (name, u64) dict
     \<Rightarrow> mem \<times> addr_sets \<times> addr_sets \<Rightarrow> mem \<times> addr_sets \<times> addr_sets" where
  "gen_tary no_online_patching m callids retids s =
     (if \<not> instrumented m then
        (memset (fst s) (unat (base_addr m)) (ucast NPV) (unat (m_sz m)), snd s)
      else if \<not> no_online_patching then
        (let (t, fats_in_code, vmtd) = populate_tary_for_func_addr m callids (m_funcsyms m) mark_func False s;
             t = populate_tary_for_return_addr m retids (m_rad m) mark_ra_dc (activated m) t;
             t = populate_tary_for_return_addr m retids (m_rai m) mark_ra_ic (activated m) t
         in (t, fats_in_code, vmtd))
      else
        (let (t, e) = populate_tary_for_func_addr m callids (m_funcsyms m) mark_func True (fst s, [], []);
             t = populate_tary_for_return_addr m retids (m_rad m) mark_ra_dc True t;
             t = populate_tary_for_return_addr m retids (m_rai m) mark_ra_ic True t
         in (t, snd s)))"

definition bary_id :: "(name, u64) dict \<Rightarrow> (name, u64) dict \<Rightarrow> u64 \<Rightarrow> symbol \<Rightarrow> u64" where
  "bary_id callids retids id_for_other_icfs icfsym =
     (case dict_find callids (mark_icj (s_name icfsym)) of
        Some i \<Rightarrow> i
      | None \<Rightarrow>
          (case dict_find retids (mark_ret (s_name icfsym)) of
             Some i \<Rightarrow> i
           | None \<Rightarrow> id_for_other_icfs))"

definition gen_bary ::
  "codemodule \<Rightarrow> (name, u64) dict \<Rightarrow> (name, u64) dict \<Rightarrow> u64 \<Rightarrow> mem \<Rightarrow> mem" where
  "gen_bary m callids retids id_for_other_icfs t =
     fold (\<lambda>icfsym t. write64 t (unat (s_offset icfsym)) (bary_id callids retids id_for_other_icfs icfsym))
       (m_icfsyms m) t"

definition populate_landingpads :: "codemodule \<Rightarrow> mem \<Rightarrow> mem" where
  "populate_landingpads m t = fold (\<lambda>lp t. write8 t (tary_addr m lp) (ucast LPV)) (m_lp m) t"

definition BID_SLOT_START :: u64 where "BID_SLOT_START = 0x11000"

section \<open>The three phases of a table update\<close>

text \<open>The loops over the modules in \<open>gen_cfg\<close>: new modules get both tables, then the target
  tables of the running modules are rewritten, then their branch tables.\<close>

definition phase_new ::
  "bool \<Rightarrow> (name, u64) dict \<Rightarrow> (name, u64) dict \<Rightarrow> u64 \<Rightarrow> codemodule
     \<Rightarrow> mem \<times> addr_sets \<times> addr_sets \<Rightarrow> mem \<times> addr_sets \<times> addr_sets" where
  "phase_new nop callids retids others m s =
     (if \<not> cfggened m then
        (let (t, fv) = gen_tary nop m callids retids s;
             t = gen_bary m callids retids others t;
             t = (if nop then populate_landingpads m t else t)
         in (t, fv))
      else s)"

definition phase_tary ::
  "bool \<Rightarrow> (name, u64) dict \<Rightarrow> (name, u64) dict \<Rightarrow> codemodule
     \<Rightarrow> mem \<times> addr_sets \<times> addr_sets \<Rightarrow> mem \<times> addr_sets \<times> addr_sets" where
  "phase_tary nop callids retids m s = (if cfggened m then gen_tary nop m callids retids s else s)"

definition phase_bary ::
  "(name, u64) dict \<Rightarrow> (name, u64) dict \<Rightarrow> u64 \<Rightarrow> codemodule \<Rightarrow> mem \<Rightarrow> mem" where
  "phase_bary callids retids others m t = (if cfggened m then gen_bary m callids retids others t else t)"

definition update_tables ::
  "bool \<Rightarrow> codemodule list \<Rightarrow> (name, u64) dict \<Rightarrow> (name, u64) dict \<Rightarrow> u64
     \<Rightarrow> mem \<times> addr_sets \<times> addr_sets \<Rightarrow> codemodule list \<times> mem \<times> addr_sets \<times> addr_sets" where
  "update_tables nop modules callids retids others s =
     (let s = fold (phase_new nop callids retids others) modules s;
          (t, fv) = fold (phase_tary nop callids retids) modules s;
          t = fold (phase_bary callids retids others) modules t
      in (map (\<lambda>m. m\<lparr> cfggened := True \<rparr>) modules, t, fv))"

section \<open>Memory as an array of words\<close>

text \<open>
  What the table code relies on: a read returns the last word written there, and a write
  leaves the words apart from it alone. The client lemmas are about a sequence of updates,
  each replacing the word at one address by a function of its old value, and about every
  prefix of the sequence, which is what a concurrently running thread may see.
\<close>

locale word_store =
  fixes rd :: "'m \<Rightarrow> 'a \<Rightarrow> 'w"
    and wr :: "'m \<Rightarrow> 'a \<Rightarrow> 'w \<Rightarrow> 'm"
    and apart :: "'a \<Rightarrow> 'a \<Rightarrow> bool"
  assumes rd_wr_same: "rd (wr t a v) a = v"
    and rd_wr_apart: "apart a b \<Longrightarrow> rd (wr t a v) b = rd t b"
    and apart_sym: "apart a b \<Longrightarrow> apart b a"
begin

fun exec :: "'a \<times> ('w \<Rightarrow> 'w) \<Rightarrow> 'm \<Rightarrow> 'm" where
  "exec (a, f) t = wr t a (f (rd t a))"

lemma rd_exec_all_apart:
  "\<forall>q \<in> set ops. apart (fst q) b \<Longrightarrow> rd (fold exec ops t) b = rd t b"
  by (induction ops arbitrary: t) (auto simp: rd_wr_apart)

text \<open>After \<open>n\<close> of the updates exactly the first \<open>n\<close> addresses hold their new word.\<close>

lemma rd_exec_prefix:
  assumes "sorted_wrt (\<lambda>p q. apart (fst p) (fst q)) ops" and "i < length ops"
  shows "rd (fold exec (take n ops) t) (fst (ops ! i)) =
    (if i < n then snd (ops ! i) (rd t (fst (ops ! i))) else rd t (fst (ops ! i)))"
  using assms
proof (induction ops arbitrary: t i n)
  case Nil
  then show ?case by simp
next
  case (Cons p ops)
  obtain a f where p: "p = (a, f)" by force
  have ap: "\<forall>q \<in> set ops. apart a (fst q)" using Cons.prems(1) p by simp
  show ?case
  proof (cases n)
    case 0
    then show ?thesis by simp
  next
    case (Suc k)
    show ?thesis
    proof (cases i)
      case 0
      have "rd (fold exec (take k ops) (wr t a (f (rd t a)))) a = f (rd t a)"
        using ap apart_sym by (subst rd_exec_all_apart) (auto dest: in_set_takeD simp: rd_wr_same)
      then show ?thesis using 0 Suc p by simp
    next
      case (Suc j)
      have "rd (fold exec (take k ops) (wr t a (f (rd t a)))) (fst (ops ! j)) =
        (if j < k then snd (ops ! j) (rd (wr t a (f (rd t a))) (fst (ops ! j)))
         else rd (wr t a (f (rd t a))) (fst (ops ! j)))"
        using Cons.IH Cons.prems Suc by simp
      moreover have "rd (wr t a (f (rd t a))) (fst (ops ! j)) = rd t (fst (ops ! j))"
        using ap Cons.prems(2) Suc by (simp add: rd_wr_apart)
      ultimately show ?thesis using Suc \<open>n = Suc k\<close> p by simp
    qed
  qed
qed

lemma rd_exec_all:
  assumes "sorted_wrt (\<lambda>p q. apart (fst p) (fst q)) ops" and "(a, f) \<in> set ops"
  shows "rd (fold exec ops t) a = f (rd t a)"
proof -
  obtain i where i: "i < length ops" "ops ! i = (a, f)" using assms(2) by (metis in_set_conv_nth)
  from rd_exec_prefix [OF assms(1) i(1), of "length ops" t] i show ?thesis by simp
qed

end

definition words_apart :: "nat \<Rightarrow> nat \<Rightarrow> bool" where
  "words_apart a b \<longleftrightarrow> a + 8 \<le> b \<or> b + 8 \<le> a"

interpretation tbl: word_store read64 write64 words_apart
  by unfold_locales (auto simp: words_apart_def read64_write64_other)

section \<open>The update as a sequence of word updates\<close>

type_synonym op = "nat \<times> (u64 \<Rightarrow> u64)"

definition func_ops :: "bool \<Rightarrow> name set \<Rightarrow> (name, u64) dict \<Rightarrow> codemodule \<Rightarrow> op list" where
  "func_ops nop K callids m = List.map_filter (\<lambda>smb. map_option
     (\<lambda>i. (tary_addr m smb, \<lambda>w. i AND (if \<not> nop \<and> w AND 1 = 0 \<and> unmark_ptr (s_name smb) \<in> K then - 2 else - 1)))
     (dict_find callids (mark_func (s_name smb)))) (m_funcsyms m)"

definition ret_ops :: "bool \<Rightarrow> (name, u64) dict \<Rightarrow> (name \<Rightarrow> name) \<Rightarrow> codemodule \<Rightarrow> symbol list \<Rightarrow> op list" where
  "ret_ops nop retids mark m syms = List.map_filter (\<lambda>smb. map_option
     (\<lambda>i. (tary_addr m smb, \<lambda>w. i AND (if \<not> nop \<and> \<not> activated m \<and> w AND 1 = 0 then - 2 else - 1)))
     (dict_find retids (mark (s_name smb)))) syms"

definition tary_ops :: "bool \<Rightarrow> name set \<Rightarrow> (name, u64) dict \<Rightarrow> (name, u64) dict \<Rightarrow> codemodule \<Rightarrow> op list" where
  "tary_ops nop K callids retids m =
     func_ops nop K callids m @ ret_ops nop retids mark_ra_dc m (m_rad m) @ ret_ops nop retids mark_ra_ic m (m_rai m)"

definition bary_ops :: "(name, u64) dict \<Rightarrow> (name, u64) dict \<Rightarrow> u64 \<Rightarrow> codemodule \<Rightarrow> op list" where
  "bary_ops callids retids others m =
     map (\<lambda>smb. (unat (s_offset smb), \<lambda>_. bary_id callids retids others smb)) (m_icfsyms m)"

definition update_ops ::
  "bool \<Rightarrow> name set \<Rightarrow> (name, u64) dict \<Rightarrow> (name, u64) dict \<Rightarrow> u64 \<Rightarrow> codemodule list \<Rightarrow> op list" where
  "update_ops nop K callids retids others modules =
     concat (map (\<lambda>m. tary_ops nop K callids retids m @ bary_ops callids retids others m)
       (filter (\<lambda>m. \<not> cfggened m) modules)) @
     concat (map (tary_ops nop K callids retids) (filter cfggened modules)) @
     concat (map (bary_ops callids retids others) (filter cfggened modules))"

lemma map_filter_Cons:
  "List.map_filter f (x # xs) = (case f x of None \<Rightarrow> [] | Some y \<Rightarrow> [y]) @ List.map_filter f xs"
  by (simp add: map_filter_simps split: option.splits)

lemma populate_func_ops:
  assumes "nop \<longleftrightarrow> act" and "nop \<or> K = keys fic \<union> keys vm"
  shows "\<exists>fic' vm'. fold (populate_func_sym m ids mark_func act) syms (t, fic, vm) =
      (fold tbl.exec (func_ops nop K ids (m\<lparr> m_funcsyms := syms \<rparr>)) t, fic', vm')
    \<and> keys fic' = keys fic \<and> keys vm' = keys vm"
  using assms(2)
proof (induction syms arbitrary: t fic vm)
  case Nil
  then show ?case by (simp add: func_ops_def)
next
  case (Cons x syms)
  obtain t1 fic1 vm1 where step: "populate_func_sym m ids mark_func act x (t, fic, vm) = (t1, fic1, vm1)"
    by (metis prod_cases3)
  have k: "keys fic1 = keys fic" "keys vm1 = keys vm"
    using step by (auto simp: populate_func_sym_def Let_def g_add_directed_edge_def dict_find_None_iff insert_absorb
        split: option.splits if_splits)
  have t1: "t1 = fold tbl.exec (func_ops nop K ids (m\<lparr> m_funcsyms := [x] \<rparr>)) t"
    using step assms(1) Cons.prems
    by (auto simp: populate_func_sym_def Let_def func_ops_def map_filter_Cons map_filter_simps dict_find_None_iff
        tary_addr_def split: option.splits if_splits)
  have split: "func_ops nop K ids (m\<lparr> m_funcsyms := x # syms \<rparr>) =
      func_ops nop K ids (m\<lparr> m_funcsyms := [x] \<rparr>) @ func_ops nop K ids (m\<lparr> m_funcsyms := syms \<rparr>)"
    by (simp add: func_ops_def map_filter_Cons map_filter_simps tary_addr_def split: option.splits)
  from Cons.IH [of fic1 vm1 t1] Cons.prems k show ?case by (auto simp: step split t1)
qed

lemma populate_ret_ops:
  assumes "act \<longleftrightarrow> nop \<or> activated m"
  shows "fold (populate_ret_sym m ids mark act) syms t = fold tbl.exec (ret_ops nop ids mark m syms) t"
  using assms
  by (induction syms arbitrary: t)
    (auto simp: populate_ret_sym_def ret_ops_def map_filter_Cons map_filter_simps Let_def split: option.splits)

text \<open>A module's target table and branch table are such sequences; the sets that drive the
  activation keep their keys.\<close>

lemma gen_tary_ops:
  assumes "instrumented m" and "K = keys fic \<union> keys vm"
  shows "\<exists>fic' vm'. gen_tary False m callids retids (t, fic, vm) =
      (fold tbl.exec (tary_ops False K callids retids m) t, fic', vm')
    \<and> keys fic' = keys fic \<and> keys vm' = keys vm"
proof -
  obtain fic' vm' where f: "populate_tary_for_func_addr m callids (m_funcsyms m) mark_func False (t, fic, vm) =
      (fold tbl.exec (func_ops False K callids m) t, fic', vm')" "keys fic' = keys fic" "keys vm' = keys vm"
    using populate_func_ops [of False False K fic vm m callids "m_funcsyms m" t] assms(2)
    by (auto simp: populate_tary_for_func_addr_def)
  have r: "populate_tary_for_return_addr m ids syms mark (activated m) t = fold tbl.exec (ret_ops False ids mark m syms) t"
    for ids syms mark t
    using populate_ret_ops [of "activated m" False m] by (simp add: populate_tary_for_return_addr_def)
  show ?thesis using f assms(1) by (auto simp: gen_tary_def Let_def r tary_ops_def)
qed

lemma gen_bary_ops: "gen_bary m callids retids others t = fold tbl.exec (bary_ops callids retids others m) t"
proof -
  have "fold (\<lambda>x t. write64 t (unat (s_offset x)) (v x)) xs t =
      fold tbl.exec (map (\<lambda>x. (unat (s_offset x), \<lambda>_. v x)) xs) t" for xs :: "symbol list" and v
    by (induction xs arbitrary: t) auto
  then show ?thesis by (simp add: gen_bary_def bary_ops_def)
qed

lemma phase_new_ops:
  assumes "\<forall>m \<in> set ms. instrumented m" and "K = keys fic \<union> keys vm"
  shows "\<exists>fic' vm'. fold (phase_new False callids retids others) ms (t, fic, vm) =
      (fold tbl.exec (concat (map (\<lambda>m. tary_ops False K callids retids m @ bary_ops callids retids others m)
         (filter (\<lambda>m. \<not> cfggened m) ms))) t, fic', vm') \<and> keys fic' = keys fic \<and> keys vm' = keys vm"
  using assms
proof (induction ms arbitrary: t fic vm)
  case Nil
  then show ?case by simp
next
  case (Cons m ms)
  show ?case
  proof (cases "cfggened m")
    case True
    then show ?thesis using Cons by (simp add: phase_new_def)
  next
    case False
    obtain fic1 vm1 where s1: "gen_tary False m callids retids (t, fic, vm) =
      (fold tbl.exec (tary_ops False K callids retids m) t, fic1, vm1)" "keys fic1 = keys fic" "keys vm1 = keys vm"
      using gen_tary_ops [of m K fic vm callids retids t] Cons.prems by auto
    then show ?thesis
      using Cons.IH [of fic1 vm1 "fold tbl.exec (tary_ops False K callids retids m @ bary_ops callids retids others m) t"]
        Cons.prems False by (auto simp: phase_new_def gen_bary_ops)
  qed
qed

lemma phase_tary_ops:
  assumes "\<forall>m \<in> set ms. instrumented m" and "K = keys fic \<union> keys vm"
  shows "\<exists>fic' vm'. fold (phase_tary False callids retids) ms (t, fic, vm) =
      (fold tbl.exec (concat (map (tary_ops False K callids retids) (filter cfggened ms))) t, fic', vm')
      \<and> keys fic' = keys fic \<and> keys vm' = keys vm"
  using assms
proof (induction ms arbitrary: t fic vm)
  case Nil
  then show ?case by simp
next
  case (Cons m ms)
  show ?case
  proof (cases "cfggened m")
    case False
    then show ?thesis using Cons by (simp add: phase_tary_def)
  next
    case True
    obtain fic1 vm1 where s1: "gen_tary False m callids retids (t, fic, vm) =
      (fold tbl.exec (tary_ops False K callids retids m) t, fic1, vm1)" "keys fic1 = keys fic" "keys vm1 = keys vm"
      using gen_tary_ops [of m K fic vm callids retids t] Cons.prems by auto
    then show ?thesis
      using Cons.IH [of fic1 vm1 "fold tbl.exec (tary_ops False K callids retids m) t"] Cons.prems True
      by (auto simp: phase_tary_def)
  qed
qed

lemma phase_bary_ops:
  "fold (phase_bary callids retids others) ms t =
     fold tbl.exec (concat (map (bary_ops callids retids others) (filter cfggened ms))) t"
  by (induction ms arbitrary: t) (auto simp: phase_bary_def gen_bary_ops)

lemma update_tables_ops:
  assumes "\<forall>m \<in> set modules. instrumented m"
  shows "\<exists>fic' vm'. update_tables False modules callids retids others (t, fic, vm) =
    (map (\<lambda>m. m\<lparr> cfggened := True \<rparr>) modules,
     fold tbl.exec (update_ops False (keys fic \<union> keys vm) callids retids others modules) t, fic', vm')
    \<and> keys fic' = keys fic \<and> keys vm' = keys vm"
proof -
  obtain fic1 vm1 where a: "fold (phase_new False callids retids others) modules (t, fic, vm) =
      (fold tbl.exec (concat (map (\<lambda>m. tary_ops False (keys fic \<union> keys vm) callids retids m @ bary_ops callids retids others m)
         (filter (\<lambda>m. \<not> cfggened m) modules))) t, fic1, vm1)" "keys fic1 = keys fic" "keys vm1 = keys vm"
    using phase_new_ops [OF assms, of "keys fic \<union> keys vm" fic vm callids retids others t] by auto
  obtain fic2 vm2 where b: "fold (phase_tary False callids retids) modules (fst (fold (phase_new False callids retids others) modules (t, fic, vm)), fic1, vm1) =
      (fold tbl.exec (concat (map (tary_ops False (keys fic \<union> keys vm) callids retids) (filter cfggened modules)))
        (fst (fold (phase_new False callids retids others) modules (t, fic, vm))), fic2, vm2)"
      "keys fic2 = keys fic" "keys vm2 = keys vm"
    using phase_tary_ops [OF assms, of "keys fic \<union> keys vm" fic1 vm1 callids retids] a by fastforce
  show ?thesis using a b by (auto simp: update_tables_def update_ops_def Let_def phase_bary_ops)
qed

text \<open>Where the targets and slots are: every word that the update touches is apart from the
  others.\<close>

definition layout_ok :: "bool \<Rightarrow> name set \<Rightarrow> (name, u64) dict \<Rightarrow> (name, u64) dict \<Rightarrow> u64 \<Rightarrow> codemodule list \<Rightarrow> bool" where
  "layout_ok nop K callids retids others modules \<longleftrightarrow> (\<forall>m \<in> set modules. instrumented m) \<and>
     sorted_wrt (\<lambda>p q. words_apart (fst p) (fst q)) (update_ops nop K callids retids others modules)"

text \<open>The check of an indirect branch: the word in its slot equals the word at the target.\<close>

definition cfi_allows :: "mem \<Rightarrow> nat \<Rightarrow> nat \<Rightarrow> bool" where
  "cfi_allows t slot target \<longleftrightarrow> read64 t target = read64 t slot"

lemma tary_op_in_update: "m \<in> set modules \<Longrightarrow> q \<in> set (tary_ops nop K callids retids m) \<Longrightarrow>
    q \<in> set (update_ops nop K callids retids others modules)"
  by (cases "cfggened m") (auto simp: update_ops_def)

lemma bary_op_in_update: "m \<in> set modules \<Longrightarrow> q \<in> set (bary_ops callids retids others m) \<Longrightarrow>
    q \<in> set (update_ops nop K callids retids others modules)"
  by (cases "cfggened m") (auto simp: update_ops_def)

lemma set_map_filter: "y \<in> set (List.map_filter f xs) \<longleftrightarrow> (\<exists>x \<in> set xs. f x = Some y)"
  by (induction xs) (auto simp: map_filter_Cons map_filter_simps split: option.splits)

lemma mask_bit0: "bit i 0 \<Longrightarrow> (i :: u64) = j AND (if c then - 2 else - 1) \<longleftrightarrow> i = j \<and> \<not> c"
proof -
  assume i: "bit i 0"
  have "\<not> bit (j AND - 2) 0" by (simp add: bit_simps)
  then show ?thesis using i by (auto simp: and.comm_neutral)
qed

text \<open>The identifiers of a generation are active.\<close>

definition ids_active :: "(name, u64) dict \<Rightarrow> (name, u64) dict \<Rightarrow> u64 \<Rightarrow> bool" where
  "ids_active callids retids others \<longleftrightarrow> bit others 0 \<and>
     (\<forall>k i. dict_find callids k = Some i \<or> dict_find retids k = Some i \<longrightarrow> bit i 0)"

lemma bit_bary_id: "ids_active callids retids others \<Longrightarrow> bit (bary_id callids retids others b) 0"
  unfolding ids_active_def bary_id_def by (auto split: option.splits)

lemma update_target_word:
  assumes lay: "layout_ok False (keys fic \<union> keys vm) callids retids others modules"
    and run: "update_tables False modules callids retids others (t, fic, vm) = (modules', t', fv)"
    and q: "(a, f) \<in> set (update_ops False (keys fic \<union> keys vm) callids retids others modules)"
  shows "read64 t' a = f (read64 t a)"
proof -
  have "t' = fold tbl.exec (update_ops False (keys fic \<union> keys vm) callids retids others modules) t"
    using update_tables_ops [of modules callids retids others t fic vm] lay run by (auto simp: layout_ok_def)
  then show ?thesis using tbl.rd_exec_all [OF _ q, of t] lay by (simp add: layout_ok_def)
qed

lemma update_bary_word:
  assumes "layout_ok False (keys fic \<union> keys vm) callids retids others modules"
    and "update_tables False modules callids retids others (t, fic, vm) = (modules', t', fv)"
    and "m \<in> set modules" and "b \<in> set (m_icfsyms m)"
  shows "read64 t' (unat (s_offset b)) = bary_id callids retids others b"
proof -
  have "(unat (s_offset b), \<lambda>_. bary_id callids retids others b) \<in> set (bary_ops callids retids others m)"
    using assms(4) by (auto simp: bary_ops_def)
  from update_target_word [OF assms(1,2) bary_op_in_update [OF assms(3) this]] show ?thesis by simp
qed

lemma update_allows:
  assumes lay: "layout_ok False (keys fic \<union> keys vm) callids retids others modules"
    and run: "update_tables False modules callids retids others (t, fic, vm) = (modules', t', fv)"
    and act: "ids_active callids retids others"
    and m: "m \<in> set modules" "b \<in> set (m_icfsyms m)" "m' \<in> set modules"
    and q: "(a, \<lambda>w. i AND (if P w then - 2 else - 1)) \<in> set (tary_ops False (keys fic \<union> keys vm) callids retids m')"
  shows "cfi_allows t' (unat (s_offset b)) a \<longleftrightarrow> bary_id callids retids others b = i \<and> \<not> P (read64 t a)"
proof -
  have "read64 t' a = i AND (if P (read64 t a) then - 2 else - 1)"
    using update_target_word [OF lay run tary_op_in_update [OF m(3) q]] by simp
  moreover have "read64 t' (unat (s_offset b)) = bary_id callids retids others b"
    by (rule update_bary_word [OF lay run m(1,2)])
  moreover note mask_bit0 [OF bit_bary_id [OF act], of b i "P (read64 t a)"]
  ultimately show ?thesis unfolding cfi_allows_def by metis
qed

text \<open>The decision of a check after the update, for each kind of target.\<close>

lemma update_tables_targets:
  assumes lay: "layout_ok False (keys fic \<union> keys vm) callids retids others modules"
    and run: "update_tables False modules callids retids others (t, fic, vm) = (modules', t', fv)"
    and act: "ids_active callids retids others"
    and m: "m \<in> set modules" "b \<in> set (m_icfsyms m)" "m' \<in> set modules"
  shows "(\<forall>s \<in> set (m_funcsyms m'). \<forall>i. dict_find callids (mark_func (s_name s)) = Some i \<longrightarrow>
      (cfi_allows t' (unat (s_offset b)) (tary_addr m' s) \<longleftrightarrow> bary_id callids retids others b = i \<and>
         (bit (read64 t (tary_addr m' s)) 0 \<or> unmark_ptr (s_name s) \<notin> keys fic \<union> keys vm)))
    \<and> (\<forall>s \<in> set (m_rad m'). \<forall>i. dict_find retids (mark_ra_dc (s_name s)) = Some i \<longrightarrow>
      (cfi_allows t' (unat (s_offset b)) (tary_addr m' s) \<longleftrightarrow> bary_id callids retids others b = i \<and>
         (bit (read64 t (tary_addr m' s)) 0 \<or> activated m')))
    \<and> (\<forall>s \<in> set (m_rai m'). \<forall>i. dict_find retids (mark_ra_ic (s_name s)) = Some i \<longrightarrow>
      (cfi_allows t' (unat (s_offset b)) (tary_addr m' s) \<longleftrightarrow> bary_id callids retids others b = i \<and>
         (bit (read64 t (tary_addr m' s)) 0 \<or> activated m')))"
proof (intro conjI ballI allI impI)
  note allows = update_allows [OF lay run act m]
  have b0: "w AND 1 = 0 \<longleftrightarrow> \<not> bit w 0" for w :: u64 by (simp add: and_one_eq odd_iff_mod_2_eq_one bit_0)
  {
    fix s i
    assume "s \<in> set (m_funcsyms m')" "dict_find callids (mark_func (s_name s)) = Some i"
    then have "(tary_addr m' s, \<lambda>w. i AND (if \<not> False \<and> w AND 1 = 0 \<and> unmark_ptr (s_name s) \<in> keys fic \<union> keys vm then - 2 else - 1))
        \<in> set (tary_ops False (keys fic \<union> keys vm) callids retids m')"
      by (force simp: tary_ops_def func_ops_def set_map_filter)
    from allows [OF this] show "cfi_allows t' (unat (s_offset b)) (tary_addr m' s) \<longleftrightarrow> bary_id callids retids others b = i \<and>
         (bit (read64 t (tary_addr m' s)) 0 \<or> unmark_ptr (s_name s) \<notin> keys fic \<union> keys vm)"
      unfolding b0 by blast
  }
  {
    fix s i
    assume "s \<in> set (m_rad m')" "dict_find retids (mark_ra_dc (s_name s)) = Some i"
    then have "(tary_addr m' s, \<lambda>w. i AND (if \<not> False \<and> \<not> activated m' \<and> w AND 1 = 0 then - 2 else - 1))
        \<in> set (tary_ops False (keys fic \<union> keys vm) callids retids m')"
      by (force simp: tary_ops_def ret_ops_def set_map_filter)
    from allows [OF this] show "cfi_allows t' (unat (s_offset b)) (tary_addr m' s) \<longleftrightarrow> bary_id callids retids others b = i \<and>
         (bit (read64 t (tary_addr m' s)) 0 \<or> activated m')" unfolding b0 by blast
  }
  fix s i
  assume "s \<in> set (m_rai m')" "dict_find retids (mark_ra_ic (s_name s)) = Some i"
  then have "(tary_addr m' s, \<lambda>w. i AND (if \<not> False \<and> \<not> activated m' \<and> w AND 1 = 0 then - 2 else - 1))
      \<in> set (tary_ops False (keys fic \<union> keys vm) callids retids m')"
    by (force simp: tary_ops_def ret_ops_def set_map_filter)
  from allows [OF this] show "cfi_allows t' (unat (s_offset b)) (tary_addr m' s) \<longleftrightarrow> bary_id callids retids others b = i \<and>
         (bit (read64 t (tary_addr m' s)) 0 \<or> activated m')" unfolding b0 by blast
qed

section \<open>What running threads see\<close>

text \<open>The writes one by one, and the version an identifier carries (its lower half, whatever
  the activation bit).\<close>

definition apply_ops :: "op list \<Rightarrow> mem \<Rightarrow> mem" where
  "apply_ops ops t = fold (\<lambda>q t. write64 t (fst q) (snd q (read64 t (fst q)))) ops t"

definition id_version :: "u64 \<Rightarrow> u64" where
  "id_version w = take_bit 32 (w OR 1)"

definition ids_version :: "(name, u64) dict \<Rightarrow> (name, u64) dict \<Rightarrow> u64 \<Rightarrow> u64 \<Rightarrow> bool" where
  "ids_version callids retids others v \<longleftrightarrow> id_version others = v \<and>
     (\<forall>k i. dict_find callids k = Some i \<or> dict_find retids k = Some i \<longrightarrow> id_version i = v)"

lemma apply_ops_exec: "apply_ops ops t = fold tbl.exec ops t"
proof -
  have "(\<lambda>q t. write64 t (fst q) (snd q (read64 t (fst q)))) = tbl.exec" by (auto simp: fun_eq_iff)
  then show ?thesis by (simp add: apply_ops_def)
qed

lemma id_version_mask: "id_version (i AND (if c then - 2 else - 1)) = id_version i"
proof -
  have "(i AND - 2) OR 1 = i OR 1" for i :: u64
    by (rule bit_eqI) (auto simp: bit_simps bit_1_iff bit_minus_2_iff)
  then show ?thesis unfolding id_version_def by (cases c) (simp_all only: if_True if_False and.right_neutral)
qed

lemma tary_op_version:
  assumes "ids_version callids retids others v" and "(a, f) \<in> set (tary_ops nop K callids retids m)"
  shows "id_version (f w) = v"
proof -
  obtain i P where "f = (\<lambda>w. i AND (if P w then - 2 else - 1))" "id_version i = v"
    using assms by (fastforce simp: tary_ops_def func_ops_def ret_ops_def set_map_filter ids_version_def)
  then show ?thesis by (simp add: id_version_mask)
qed

lemma bary_id_version: "ids_version callids retids others v \<Longrightarrow> id_version (bary_id callids retids others b) = v"
  unfolding ids_version_def bary_id_def by (auto split: option.splits)

text \<open>All target words are written before the branch words of the running modules.\<close>

lemma append_order:
  assumes "q \<in> set A" and "p \<in> set C"
  shows "\<exists>i j. i < j \<and> j < length (A @ C) \<and> (A @ C) ! i = q \<and> (A @ C) ! j = p"
proof -
  obtain i where "i < length A" "A ! i = q" using assms(1) by (metis in_set_conv_nth)
  moreover obtain j where "j < length C" "C ! j = p" using assms(2) by (metis in_set_conv_nth)
  ultimately show ?thesis by (intro exI [of _ i] exI [of _ "length A + j"]) (simp add: nth_append)
qed

lemma tary_before_bary:
  assumes "q \<in> set (tary_ops nop K callids retids m')" "m' \<in> set modules"
    and "p \<in> set (bary_ops callids retids others m)" "m \<in> set modules" "cfggened m"
  shows "\<exists>i j. i < j \<and> j < length (update_ops nop K callids retids others modules) \<and>
    update_ops nop K callids retids others modules ! i = q \<and> update_ops nop K callids retids others modules ! j = p"
proof -
  let ?N = "concat (map (\<lambda>m. tary_ops nop K callids retids m @ bary_ops callids retids others m)
       (filter (\<lambda>m. \<not> cfggened m) modules))"
  let ?T = "concat (map (tary_ops nop K callids retids) (filter cfggened modules))"
  let ?C = "concat (map (bary_ops callids retids others) (filter cfggened modules))"
  have u: "update_ops nop K callids retids others modules = (?N @ ?T) @ ?C" by (simp add: update_ops_def)
  have "q \<in> set (?N @ ?T)" using assms(1,2) by (cases "cfggened m'") auto
  moreover have "p \<in> set ?C" using assms(3-5) by auto
  ultimately show ?thesis unfolding u by (rule append_order)
qed

text \<open>A running module with one branch and one function.\<close>

definition ex_module :: codemodule where
  "ex_module = alloc_code_module\<lparr> base_addr := 0x20000, m_sz := 0x1000, cfggened := True, instrumented := True,
     m_funcsyms := [\<lparr> s_name = 0x1000, s_offset = 8 \<rparr>], m_icfsyms := [\<lparr> s_name = 0x4000, s_offset = 0x11000 \<rparr>] \<rparr>"

definition ex_callids :: "(name, u64) dict" where
  "ex_callids = [(mark_func 0x1000, 0x200000003), (mark_icj 0x4000, 0x200000003)]"

lemma ex_ops:
  "update_ops False {} ex_callids [] 5 [ex_module] =
     [(0x20008, \<lambda>w. 0x200000003), (0x11000, \<lambda>_. 0x200000003)]"
  by (simp add: update_ops_def tary_ops_def func_ops_def ret_ops_def bary_ops_def ex_module_def alloc_code_module_def
      ex_callids_def map_filter_simps dict_find_def mark_func_def mark_icj_def tary_addr_def bary_id_def)

lemma ex_layout: "layout_ok False (keys [] \<union> keys []) ex_callids [] 5 [ex_module]"
  by (simp add: layout_ok_def ex_ops words_apart_def) (simp add: ex_module_def)

lemma ex_update:
  obtains modules' t' fv where
    "update_tables False [ex_module] ex_callids [] 5 (\<lambda>_. 0, [], []) = (modules', t', fv)"
  by (metis prod_cases3)

section \<open>Properties\<close>

text \<open>C12: the tables enforce the graph. After an update, for every indirect branch and every
  function, return address of a direct call or return address of an indirect call of any
  module, the check of the branch admits the target exactly when the two have the same
  identifier and the target is active: a function is inactive only while its address is taken
  in code alone (or it is a method that has to be activated) and it has not been activated
  before; a return address is inactive only until the call before it runs, unless its module
  is activated by default.\<close>

theorem update_tables_policy:
  assumes lay: "layout_ok False (keys fic \<union> keys vm) callids retids others modules"
    and run: "update_tables False modules callids retids others (t, fic, vm) = (modules', t', fv)"
    and act: "ids_active callids retids others"
    and m: "m \<in> set modules" "b \<in> set (m_icfsyms m)" "m' \<in> set modules"
  shows "(\<forall>s \<in> set (m_funcsyms m'). \<forall>i. dict_find callids (mark_func (s_name s)) = Some i \<longrightarrow>
      (cfi_allows t' (unat (s_offset b)) (tary_addr m' s) \<longleftrightarrow> bary_id callids retids others b = i \<and>
         (bit (read64 t (tary_addr m' s)) 0 \<or> unmark_ptr (s_name s) \<notin> keys fic \<union> keys vm)))
    \<and> (\<forall>s \<in> set (m_rad m'). \<forall>i. dict_find retids (mark_ra_dc (s_name s)) = Some i \<longrightarrow>
      (cfi_allows t' (unat (s_offset b)) (tary_addr m' s) \<longleftrightarrow> bary_id callids retids others b = i \<and>
         (bit (read64 t (tary_addr m' s)) 0 \<or> activated m')))
    \<and> (\<forall>s \<in> set (m_rai m'). \<forall>i. dict_find retids (mark_ra_ic (s_name s)) = Some i \<longrightarrow>
      (cfi_allows t' (unat (s_offset b)) (tary_addr m' s) \<longleftrightarrow> bary_id callids retids others b = i \<and>
         (bit (read64 t (tary_addr m' s)) 0 \<or> activated m')))"
  using assms by (rule update_tables_targets)

theorem update_tables_policy_witness:
  "\<exists>modules' t' fv. update_tables False [ex_module] ex_callids [] 5 (\<lambda>_. 0, [], []) = (modules', t', fv)
     \<and> cfi_allows t' 0x11000 0x20008"
proof -
  obtain modules' t' fv where
    run: "update_tables False [ex_module] ex_callids [] 5 (\<lambda>_. 0, [], []) = (modules', t', fv)" by (rule ex_update)
  have act: "ids_active ex_callids [] 5"
    by (auto simp: ids_active_def ex_callids_def dict_find_def split: if_splits)
  have m: "ex_module \<in> set [ex_module]" "\<lparr> s_name = 0x4000, s_offset = 0x11000 \<rparr> \<in> set (m_icfsyms ex_module)"
    by (simp_all add: ex_module_def)
  from update_tables_policy [OF ex_layout run act m m(1)] have "cfi_allows t' 0x11000 0x20008"
    by (simp add: ex_module_def alloc_code_module_def ex_callids_def dict_find_def mark_func_def mark_icj_def
        tary_addr_def bary_id_def)
  then show ?thesis using run by blast
qed

text \<open>C18: the update of the tables is a sequence of single word writes, in the order new
  modules, target words of the running modules, branch words of the running modules; and every
  module is marked as generated. This is the abstract view on which the concurrency argument
  rests.\<close>

theorem update_tables_refines_writes:
  assumes "\<forall>m \<in> set modules. instrumented m"
  shows "\<exists>fic' vm'. update_tables False modules callids retids others (t, fic, vm) =
    (map (\<lambda>m. m\<lparr> cfggened := True \<rparr>) modules,
     apply_ops (update_ops False (keys fic \<union> keys vm) callids retids others modules) t, fic', vm')
    \<and> keys fic' = keys fic \<and> keys vm' = keys vm"
  unfolding apply_ops_exec using assms by (rule update_tables_ops)

theorem update_tables_refines_writes_witness:
  "\<exists>fic' vm'. update_tables False [ex_module] ex_callids [] 5 (\<lambda>_. 0, [], []) =
    ([ex_module\<lparr> cfggened := True \<rparr>], apply_ops [(0x20008, \<lambda>w. 0x200000003), (0x11000, \<lambda>_. 0x200000003)] (\<lambda>_. 0), fic', vm')"
proof -
  have "\<forall>m \<in> set [ex_module]. instrumented m" by (simp add: ex_module_def)
  from update_tables_refines_writes [OF this, of ex_callids "[]" 5 "\<lambda>_. 0" "[]" "[]"] show ?thesis
    by (auto simp: ex_ops)
qed

text \<open>After any number of writes, a target word and the word of a running branch are old or final, and
  the target is final as soon as the branch is.\<close>

lemma update_words_prefix:
  assumes lay: "layout_ok False (keys fic \<union> keys vm) callids retids others modules"
    and run: "update_tables False modules callids retids others (t, fic, vm) = (modules', t', fv)"
    and m: "m \<in> set modules" "cfggened m" "b \<in> set (m_icfsyms m)" "m' \<in> set modules"
    and q: "(a, f) \<in> set (tary_ops False (keys fic \<union> keys vm) callids retids m')"
  shows "\<exists>i j. i < j \<and> (\<forall>n. let tn = apply_ops (take n (update_ops False (keys fic \<union> keys vm) callids retids others modules)) t
    in read64 tn a = read64 (if i < n then t' else t) a \<and>
       read64 tn (unat (s_offset b)) = read64 (if j < n then t' else t) (unat (s_offset b)))"
proof -
  let ?ops = "update_ops False (keys fic \<union> keys vm) callids retids others modules"
  let ?b = "unat (s_offset b)" and ?i = "bary_id callids retids others b"
  have sorted: "sorted_wrt (\<lambda>p q. words_apart (fst p) (fst q)) ?ops" using lay by (simp add: layout_ok_def)
  have p: "(?b, \<lambda>_. ?i) \<in> set (bary_ops callids retids others m)" using m(3) by (auto simp: bary_ops_def)
  obtain i j where ij: "i < j" "j < length ?ops" "?ops ! i = (a, f)" "?ops ! j = (?b, \<lambda>_. ?i)"
    using tary_before_bary [OF q m(4) p m(1,2)] by blast
  have final: "read64 t' a = f (read64 t a)" "read64 t' ?b = ?i"
    using update_target_word [OF lay run tary_op_in_update [OF m(4) q]] update_bary_word [OF lay run m(1,3)] by auto
  have "read64 (apply_ops (take n ?ops) t) a = read64 (if i < n then t' else t) a" for n
    using tbl.rd_exec_prefix [OF sorted, of i n t] ij final by (simp add: apply_ops_exec)
  moreover have "read64 (apply_ops (take n ?ops) t) ?b = read64 (if j < n then t' else t) ?b" for n
    using tbl.rd_exec_prefix [OF sorted ij(2), of n t] ij(4) final by (simp add: apply_ops_exec)
  ultimately show ?thesis using ij(1) unfolding Let_def by blast
qed

lemma update_target_version:
  assumes lay: "layout_ok False (keys fic \<union> keys vm) callids retids others modules"
    and run: "update_tables False modules callids retids others (t, fic, vm) = (modules', t', fv)"
    and ver: "ids_version callids retids others v"
    and m: "m \<in> set modules" "b \<in> set (m_icfsyms m)" "m' \<in> set modules"
    and q: "(a, f) \<in> set (tary_ops False (keys fic \<union> keys vm) callids retids m')"
  shows "id_version (read64 t' a) = v" and "id_version (read64 t' (unat (s_offset b))) = v"
  using update_target_word [OF lay run tary_op_in_update [OF m(3) q]] update_bary_word [OF lay run m(1,2)]
    tary_op_version [OF ver q] bary_id_version [OF ver] by auto

text \<open>C4: an update never opens the policy. At every moment of an update (after any number of
  its writes) a branch of a running module is admitted to a target only if the graph before
  the update or the graph after it admits the pair, because the two generations have different
  versions; and as soon as the branch word is of the new generation, the target word is final,
  because target words are written first.\<close>

theorem update_tables_atomic:
  assumes lay: "layout_ok False (keys fic \<union> keys vm) callids retids others modules"
    and run: "update_tables False modules callids retids others (t, fic, vm) = (modules', t', fv)"
    and ver: "ids_version callids retids others v"
    and m: "m \<in> set modules" "cfggened m" "b \<in> set (m_icfsyms m)" "m' \<in> set modules"
    and q: "(a, f) \<in> set (tary_ops False (keys fic \<union> keys vm) callids retids m')"
    and old: "id_version (read64 t (unat (s_offset b))) \<noteq> v" "id_version (read64 t a) \<noteq> v"
    and tn: "tn = apply_ops (take n (update_ops False (keys fic \<union> keys vm) callids retids others modules)) t"
  shows "(cfi_allows tn (unat (s_offset b)) a \<longrightarrow>
            cfi_allows t (unat (s_offset b)) a \<or> cfi_allows t' (unat (s_offset b)) a)
    \<and> (id_version (read64 tn (unat (s_offset b))) = v \<longrightarrow> read64 tn a = read64 t' a)"
proof -
  obtain i j where ij: "i < j" "read64 tn a = read64 (if i < n then t' else t) a"
      "read64 tn (unat (s_offset b)) = read64 (if j < n then t' else t) (unat (s_offset b))"
    using update_words_prefix [OF lay run m q] unfolding tn Let_def by blast
  then show ?thesis using update_target_version [OF lay run ver m(1,3,4) q] old by (auto simp: cfi_allows_def split: if_splits)
qed

text \<open>Both words are still zero, of another version, when the update starts.\<close>

theorem update_tables_atomic_witness:
  "\<exists>modules' t' fv. update_tables False [ex_module] ex_callids [] 0x200000003 (\<lambda>_. 0, [], []) = (modules', t', fv)
     \<and> read64 (apply_ops [(0x20008, \<lambda>w. 0x200000003), (0x11000, \<lambda>_. 0x200000003)] (\<lambda>_. 0)) 0x20008 = read64 t' 0x20008"
proof -
  obtain modules' t' fv where
    run: "update_tables False [ex_module] ex_callids [] 0x200000003 (\<lambda>_. 0, [], []) = (modules', t', fv)"
    by (metis prod_cases3)
  have ops: "update_ops False {} ex_callids [] 0x200000003 [ex_module] =
     [(0x20008, \<lambda>w. 0x200000003), (0x11000, \<lambda>_. 0x200000003)]"
    by (simp add: update_ops_def tary_ops_def func_ops_def ret_ops_def bary_ops_def ex_module_def alloc_code_module_def
        ex_callids_def map_filter_simps dict_find_def mark_func_def mark_icj_def tary_addr_def bary_id_def)
  then have lay: "layout_ok False (keys [] \<union> keys []) ex_callids [] 0x200000003 [ex_module]"
    by (simp add: layout_ok_def words_apart_def) (simp add: ex_module_def)
  have ver: "ids_version ex_callids [] 0x200000003 3"
    by (auto simp: ids_version_def id_version_def ex_callids_def dict_find_def split: if_splits)
  have m: "ex_module \<in> set [ex_module]" "cfggened ex_module"
    "\<lparr> s_name = 0x4000, s_offset = 0x11000 \<rparr> \<in> set (m_icfsyms ex_module)" by (simp_all add: ex_module_def)
  have q: "(0x20008, \<lambda>w. 0x200000003) \<in> set (tary_ops False (keys [] \<union> keys []) ex_callids [] ex_module)"
    by (simp add: tary_ops_def func_ops_def ret_ops_def ex_module_def alloc_code_module_def
        ex_callids_def map_filter_simps dict_find_def mark_func_def tary_addr_def)
  have zero: "read64 (\<lambda>_. 0) a = 0" for a by (simp add: read64_def eval_nat_numeral)
  have old: "id_version (read64 (\<lambda>_. 0) (unat (s_offset \<lparr> s_name = 0x4000, s_offset = 0x11000 \<rparr>))) \<noteq> 3"
    "id_version (read64 (\<lambda>_. 0) 0x20008) \<noteq> 3" by (simp_all add: zero id_version_def)
  have two: "apply_ops [(0x20008, \<lambda>w. 0x200000003), (0x11000, \<lambda>_. 0x200000003)] (\<lambda>_. 0) =
      apply_ops (take 2 (update_ops False (keys [] \<union> keys []) ex_callids [] 0x200000003 [ex_module])) (\<lambda>_. 0)"
    by (simp add: ops)
  have "id_version (read64 (apply_ops [(0x20008, \<lambda>w. 0x200000003), (0x11000, \<lambda>_. 0x200000003)] (\<lambda>_. 0)) 0x11000) = 3"
    by (simp add: apply_ops_def id_version_def)
  then show ?thesis using update_tables_atomic [OF lay run ver m m(1) q old two] run by simp
qed

end
