(* ===== verification/Runtime.thy ===== *)
theory Runtime
  imports Tables
begin

unbundle bit_operations_syntax

text \<open>
  The runtime proper (\<open>src/runtime/src/runtime.c\<close>, first half): thread control blocks, online
  patching of call sites, address-taking sites and function entries, and the generation of the
  control-flow graph. The state is one record; the table region is indexed by sandbox address,
  the writable alias of the code by its own (out-of-sandbox) address.
\<close>

section \<open>State\<close>

text \<open>\<open>TCB\<close> of \<open>tcb.h\<close>, without the saved registers; the list links are the list itself.\<close>

record tcb =
  tcb_self :: u64
  tcb_inside_sandbox :: u64
  sandbox_escape :: u64
  insyscall :: u64
  continuation :: u64
  tcb_remove :: bool

record runtime =
  tcb_list :: "tcb list"
  thread_escape_map :: "(u64, u64) dict"
  rt_modules :: "codemodule list"
  rt_cfggened :: bool
  fats_in_code :: addr_sets
  vmtd :: addr_sets
  patch_compensate :: "u64 adj"
  patched_ra :: "u64 adj"
  rt_table :: mem
  osb :: mem
  rt_version :: u64
  version_space :: u32
  vtabletaken :: "name adj"

section \<open>Threads\<close>

text \<open>\<open>alloc_tcb\<close>: a zeroed block at the address that \<open>mmap\<close> returned.\<close>

definition alloc_tcb :: "u64 \<Rightarrow> tcb" where
  "alloc_tcb p = \<lparr> tcb_self = p, tcb_inside_sandbox = 0, sandbox_escape = 0, insyscall = 0,
     continuation = 0, tcb_remove = False \<rparr>"

text \<open>\<open>self\<close> is the block of the calling main thread, which is in no list yet.\<close>

definition set_tcb :: "tcb \<Rightarrow> u64 \<Rightarrow> runtime \<Rightarrow> runtime option" where
  "set_tcb self sb_tcb rt =
     (if sb_tcb > FourGB then None
      else do {
        m \<leftarrow> dict_add (thread_escape_map rt) (tcb_self self) 0;
        Some (rt\<lparr> tcb_list := [self\<lparr> tcb_inside_sandbox := sb_tcb \<rparr>], thread_escape_map := m \<rparr>) })"

text \<open>\<open>p\<close> is the result of \<open>mmap\<close> in \<open>alloc_tcb\<close>, \<open>None\<close> when it fails.\<close>

definition allocset_tcb :: "u64 option \<Rightarrow> u64 \<Rightarrow> runtime \<Rightarrow> (u64 \<times> runtime) option" where
  "allocset_tcb p sb_tcb rt = do {
     a \<leftarrow> p;
     CHECK (\<not> sb_tcb > FourGB);
     m \<leftarrow> dict_add (thread_escape_map rt) a 0;
     Some (a, rt\<lparr> tcb_list := (alloc_tcb a)\<lparr> tcb_inside_sandbox := sb_tcb \<rparr> # tcb_list rt,
                   thread_escape_map := m \<rparr>) }"

fun unlink_marked :: "tcb list \<Rightarrow> tcb list" where
  "unlink_marked [] = []"
| "unlink_marked (p # ps) = (if tcb_remove p then unlink_marked ps else p # unlink_marked ps)"

text \<open>The list is dereferenced before it is tested: an empty list is a null-pointer access.\<close>

definition remove_tcb_marked :: "tcb list \<Rightarrow> tcb list option" where
  "remove_tcb_marked l =
     (case l of
        [] \<Rightarrow> None
      | h # t \<Rightarrow> Some (if tcb_remove h then unlink_marked t else h # unlink_marked t))"

text \<open>Marking the first block of the user thread, and the block that was marked.\<close>

fun mark_tcb :: "u64 \<Rightarrow> tcb list \<Rightarrow> tcb list \<times> u64 option" where
  "mark_tcb user_tcb [] = ([], None)"
| "mark_tcb user_tcb (t # ts) =
     (if tcb_inside_sandbox t = user_tcb then (t\<lparr> tcb_remove := True \<rparr> # ts, Some (tcb_self t))
      else (case mark_tcb user_tcb ts of (ts', r) \<Rightarrow> (t # ts', r)))"

definition free_tcb :: "u64 \<Rightarrow> runtime \<Rightarrow> runtime option" where
  "free_tcb user_tcb rt = do {
     l \<leftarrow> remove_tcb_marked (tcb_list rt);
     CHECK (l \<noteq> []);
     CHECK (\<not> user_tcb > FourGB);
     let (l', r) = mark_tcb user_tcb l;
     Some (rt\<lparr> tcb_list := l',
               thread_escape_map := (case r of None \<Rightarrow> thread_escape_map rt
                                     | Some p \<Rightarrow> dict_del (thread_escape_map rt) p) \<rparr>) }"

definition update_thesc :: "tcb list \<Rightarrow> (u64, u64) dict \<Rightarrow> (u64, u64) dict option" where
  "update_thesc l m =
     foldM (\<lambda>t m. if \<not> tcb_remove t
                  then do { CHECK (dict_find m (tcb_self t) \<noteq> None); Some (dict_set m (tcb_self t) (sandbox_escape t)) }
                  else Some m) l m"

fun safe :: "(u64, u64) dict \<Rightarrow> tcb list \<Rightarrow> bool option" where
  "safe m [] = Some True"
| "safe m (t # ts) =
     (if \<not> tcb_remove t then
        (case dict_find m (tcb_self t) of
           None \<Rightarrow> None
         | Some v \<Rightarrow> if insyscall t = 0 \<and> sandbox_escape t = v then Some False else safe m ts)
      else safe m ts)"

section \<open>Online patching\<close>

definition find_module :: "u64 \<Rightarrow> codemodule list \<Rightarrow> nat option" where
  "find_module pc ms =
     (if list_ex (\<lambda>m. base_addr m \<le> pc \<and> pc < base_addr m + m_sz m) ms
      then Some (length (takeWhile (\<lambda>m. \<not> (base_addr m \<le> pc \<and> pc < base_addr m + m_sz m)) ms))
      else None)"

text \<open>\<open>*ptid |= 1\<close> when the bit is clear.\<close>

definition activate :: "u64 \<Rightarrow> mem \<Rightarrow> mem" where
  "activate a t = (if read64 t (unat a) AND 1 = 0 then write64 t (unat a) (read64 t (unat a) OR 1) else t)"

text \<open>The eight bytes before the patch point keep their first three bytes; the call is
  replaced by a five-byte nop in one store.\<close>

definition patch_nop :: "u64 \<Rightarrow> mem \<Rightarrow> mem" where
  "patch_nop p o' =
     write64 o' (unat p)
       (take_bit 24 (read64 o' (unat p)) OR push_bit 24 0x0000441f0f)"

definition patch_at :: "bool \<Rightarrow> u64 \<Rightarrow> runtime \<Rightarrow> runtime option" where
  "patch_at nop patchpoint rt = do {
     i \<leftarrow> find_module patchpoint (rt_modules rt);
     CHECK (patchpoint mod 8 = 0);
     let m = rt_modules rt ! i;
     let pp = patchpoint - base_addr m;
     fname \<leftarrow> dict_find (at_func m) pp;
     rt' \<leftarrow> (if nop then Some rt else
              case dict_find (fats_in_code rt) fname of
                None \<Rightarrow> Some rt
              | Some sites \<Rightarrow> do {
                  t \<leftarrow> foldM (\<lambda>a t. do { CHECK (rt_cfggened rt); Some (activate (fst a) t) }) sites (rt_table rt);
                  Some (rt\<lparr> rt_table := t, fats_in_code := g_del_vertex (fats_in_code rt) fname \<rparr>) });
     Some (rt'\<lparr> osb := patch_nop (osb_base_addr m + pp - 8) (osb rt') \<rparr>) }"

definition activate_methods :: "addr_sets \<Rightarrow> name list \<Rightarrow> mem \<Rightarrow> mem" where
  "activate_methods vm ns t =
     fold (\<lambda>n t. case dict_find vm n of None \<Rightarrow> t | Some as \<Rightarrow> fold (\<lambda>a. activate (fst a)) as t) ns t"

definition patch_entry :: "bool \<Rightarrow> u64 \<Rightarrow> runtime \<Rightarrow> runtime option" where
  "patch_entry nop patchpoint rt =
     (if nop then Some rt else do {
        i \<leftarrow> find_module patchpoint (rt_modules rt);
        CHECK (patchpoint mod 8 = 0);
        let m = rt_modules rt ! i;
        let pp = patchpoint - base_addr m;
        CHECK (rt_cfggened rt);
        let (t, vt) = (case dict_find (m_ctor m) pp of
                         None \<Rightarrow> (rt_table rt, m_vtable m)
                       | Some ctor \<Rightarrow>
                           (case dict_find (m_vtable m) ctor of
                              None \<Rightarrow> (rt_table rt, m_vtable m)
                            | Some ns \<Rightarrow> (activate_methods (vmtd rt) ns (rt_table rt), dict_del (m_vtable m) ctor)));
        let (t, flp) = (case dict_find (m_flp m) pp of
                          None \<Rightarrow> (t, m_flp m)
                        | Some lps \<Rightarrow>
                            (fold (\<lambda>v t. write8 t (unat (base_addr m + fst v)) (ucast LPV)) lps t,
                             g_del_vertex (m_flp m) pp));
        orig \<leftarrow> dict_find (func_orig m) pp;
        Some (rt\<lparr> rt_table := t, rt_modules := (rt_modules rt)[i := m\<lparr> m_vtable := vt, m_flp := flp \<rparr>],
                  osb := write64 (osb rt) (unat (osb_base_addr m + pp)) orig \<rparr>) })"

definition patch_call :: "bool \<Rightarrow> u64 \<Rightarrow> runtime \<Rightarrow> runtime option" where
  "patch_call nop patchpoint rt =
     (if nop then Some rt else do {
        i \<leftarrow> find_module patchpoint (rt_modules rt);
        CHECK (patchpoint mod 8 = 0 \<or> (patchpoint + 3) mod 8 = 0 \<or> (patchpoint + 2) mod 8 = 0);
        if dict_find (patched_ra rt) patchpoint \<noteq> None then Some rt
        else do {
          ra \<leftarrow> dict_add (patched_ra rt) patchpoint ();
          let m = rt_modules rt ! i;
          let key = (patchpoint + 7) div 8 * 8 - base_addr m;
          orig \<leftarrow> dict_find (ra_orig m) key;
          let a = base_addr m + key;
          rt' \<leftarrow> (if rt_cfggened rt
                  then Some (rt\<lparr> rt_table := write64 (rt_table rt) (unat a) (read64 (rt_table rt) (unat a) OR 1) \<rparr>)
                  else do { pc \<leftarrow> dict_add (patch_compensate rt) a (); Some (rt\<lparr> patch_compensate := pc \<rparr>) });
          Some (rt'\<lparr> patched_ra := ra,
                      osb := write64 (osb rt') (unat (osb_base_addr m + key - 8)) orig \<rparr>) } })"

section \<open>Generating the control-flow graph\<close>

text \<open>The macro \<open>ADD\<close>; \<open>z\<close> is the null value at the type of the dictionary.\<close>

definition ADD :: "'v \<Rightarrow> name \<times> name adj \<Rightarrow> (name, 'v) dict \<Rightarrow> (name, 'v) dict option" where
  "ADD z v fats =
     (if dict_find fats (fst v) \<noteq> None then foldM (\<lambda>a fats. dict_add fats (fst a) z) (snd v) fats else Some fats)"

definition compute_fic ::
  "addr_sets \<Rightarrow> name adj \<Rightarrow> name graph \<Rightarrow> (addr_sets \<times> name adj) option" where
  "compute_fic fic fid aliases_tc = do {
     s \<leftarrow> foldM (\<lambda>v s. do { fic \<leftarrow> ADD [] v (fst s); fid \<leftarrow> ADD () v (snd s); Some (fic, fid) }) aliases_tc (fic, fid);
     Some (fold (\<lambda>v fic. if dict_find (snd s) (fst v) \<noteq> None then HASH_DEL (fst v) fic else fic) (fst s) (fst s), snd s) }"

definition get_all_vmtd ::
  "name adj \<Rightarrow> (name, name list) dict \<Rightarrow> name adj \<Rightarrow> addr_sets option" where
  "get_all_vmtd vtaken vtable ctors =
     foldM (\<lambda>kv all. if dict_find vtaken (fst kv) = None \<and> dict_find ctors (fst kv) \<noteq> None
                      then foldM (\<lambda>n all. if dict_find all n = None then dict_add all n [] else Some all) (snd kv) all
                      else Some all) vtable []"

definition compute_tc_vmtd ::
  "codemodule list \<Rightarrow> name adj \<Rightarrow> addr_sets \<Rightarrow> name adj \<Rightarrow> name graph \<Rightarrow> addr_sets option" where
  "compute_tc_vmtd ms vtaken vm ctors aliases_tc = do {
     vm \<leftarrow> foldM (\<lambda>m vm. do { a \<leftarrow> get_all_vmtd vtaken (m_vtable m) ctors; merge_dicts vm a }) ms vm;
     foldM (\<lambda>v vm. if dict_find vm (fst v) \<noteq> None then foldM (\<lambda>a vm. dict_add vm (fst a) []) (snd v) vm
                   else Some vm) aliases_tc vm }"

definition VERSION_SPACE_MAX :: u32 where "VERSION_SPACE_MAX = 252047376"

text \<open>The busy wait: \<open>obs\<close> are the thread lists that successive polls see; the wait ends at
  the first safe one.\<close>

fun wait_safe :: "(u64, u64) dict \<Rightarrow> tcb list list \<Rightarrow> tcb list option" where
  "wait_safe m [] = None"
| "wait_safe m (l # ls) =
     (case safe m l of None \<Rightarrow> None | Some True \<Rightarrow> Some l | Some False \<Rightarrow> wait_safe m ls)"

definition next_version_space :: "tcb list list \<Rightarrow> runtime \<Rightarrow> runtime option" where
  "next_version_space obs rt =
     (let vs = version_space rt + 1 in
      if vs < VERSION_SPACE_MAX
      then do { s \<leftarrow> safe (thread_escape_map rt) (tcb_list rt); Some (rt\<lparr> version_space := (if s then 0 else vs) \<rparr>) }
      else do { l \<leftarrow> wait_safe (thread_escape_map rt) obs; Some (rt\<lparr> tcb_list := l, version_space := 0 \<rparr>) })"

definition empty_metainfo :: metainfo where
  "empty_metainfo = \<lparr> mi_icfs = [], mi_functions = [], mi_classes = [], mi_cha = [], mi_fats = [],
     mi_fats_in_data = [], mi_fats_in_code = [], mi_aliases = [], mi_defined_ctors = [] \<rparr>"

definition gen_cfg :: "bool \<Rightarrow> bool \<Rightarrow> u8 \<Rightarrow> tcb list list \<Rightarrow> runtime \<Rightarrow> runtime option" where
  "gen_cfg nop compat_mode attrs obs rt = do {
     mi \<leftarrow> merge_mcfi_metainfo (rt_modules rt) empty_metainfo;
     (callgraph, byn) \<leftarrow> build_callgraph attrs (mi_icfs mi) (mi_functions mi) (mi_classes mi) (mi_cha mi)
                           (mi_fats mi) (mi_aliases mi) [];
     aliases_tc \<leftarrow> g_transitive_closure (g_dtor (mi_aliases mi));
     (fic, fid) \<leftarrow> compute_fic (mi_fats_in_code mi) (mi_fats_in_data mi) aliases_tc;
     vm \<leftarrow> compute_tc_vmtd (rt_modules rt) (vtabletaken rt) [] (mi_defined_ctors mi) aliases_tc;
     lcg \<leftarrow> g_get_lcc callgraph;
     let retgraph = build_retgraph (mi_functions mi) callgraph byn (rt_modules rt);
     lrt \<leftarrow> g_get_lcc retgraph;
     (version, id_for_others, callids, retids) \<leftarrow> gen_mcfi_id compat_mode lcg lrt (rt_version rt);
     rt \<leftarrow> next_version_space obs (rt\<lparr> rt_version := version \<rparr>);
     let (ms, t, fic, vm) = update_tables nop (rt_modules rt) callids retids id_for_others (rt_table rt, fic, vm);
     let rt = rt\<lparr> rt_modules := ms, rt_table := t, fats_in_code := fic, vmtd := vm \<rparr>;
     let rt = (if \<not> rt_cfggened rt
               then rt\<lparr> rt_cfggened := True,
                        rt_table := fold (\<lambda>kv t. write64 t (unat (fst kv)) (read64 t (unat (fst kv)) OR 1))
                                      (patch_compensate rt) (rt_table rt),
                        patch_compensate := dict_clear (patch_compensate rt) \<rparr>
               else rt);
     m \<leftarrow> update_thesc (tcb_list rt) (thread_escape_map rt);
     Some (rt\<lparr> thread_escape_map := m \<rparr>) }"

definition find_dynfunc :: "u64 \<Rightarrow> codemodule list \<Rightarrow> (nat \<times> name adj) option" where
  "find_dynfunc func_addr ms =
     fst (fold (\<lambda>(i, m) (r, a).
        if r \<noteq> None then (r, a)
        else if base_addr m \<le> a \<and> a < base_addr m + m_sz m
        then (let a' = a - base_addr m
              in (map_option (\<lambda>fnl. (i, fnl)) (dict_find (dynfuncs m) a'), a'))
        else (r, a)) (enumerate 0 ms) (None, func_addr))"

definition take_addr_and_gen_cfg :: "bool \<Rightarrow> bool \<Rightarrow> u8 \<Rightarrow> tcb list list \<Rightarrow> u64 \<Rightarrow> runtime \<Rightarrow> runtime option" where
  "take_addr_and_gen_cfg nop compat_mode attrs obs func_addr rt = do {
     (i, fnl) \<leftarrow> find_dynfunc func_addr (rt_modules rt);
     let m = rt_modules rt ! i;
     fats \<leftarrow> foldM (\<lambda>fn fats. dict_add fats (fst fn) ()) fnl (m_fats m);
     gen_cfg nop compat_mode attrs obs (rt\<lparr> rt_modules := (rt_modules rt)[i := m\<lparr> m_fats := fats \<rparr>] \<rparr>) }"

section \<open>The thread list\<close>

text \<open>Every live thread has exactly one entry in the escape map, and nothing else has.\<close>

definition tcb_inv :: "runtime \<Rightarrow> bool" where
  "tcb_inv rt \<longleftrightarrow> distinct (map tcb_self (tcb_list rt)) \<and> dict_wf (thread_escape_map rt)
     \<and> keys (thread_escape_map rt) = tcb_self ` {t \<in> set (tcb_list rt). \<not> tcb_remove t}"

lemma unlink_marked_filter: "unlink_marked l = filter (\<lambda>t. \<not> tcb_remove t) l"
  by (induction l) auto

lemma remove_tcb_marked_filter:
  "remove_tcb_marked l = Some l' \<longleftrightarrow> l \<noteq> [] \<and> l' = filter (\<lambda>t. \<not> tcb_remove t) l"
  by (auto simp: remove_tcb_marked_def unlink_marked_filter split: list.splits)

lemma mark_tcb_spec:
  assumes "mark_tcb u l = (l', r)" and "distinct (map tcb_self l)" and "\<forall>t \<in> set l. \<not> tcb_remove t"
  shows "map tcb_self l' = map tcb_self l \<and>
    tcb_self ` {t \<in> set l'. \<not> tcb_remove t} = tcb_self ` set l - set_option r"
  using assms
proof (induction l arbitrary: l' r)
  case Nil
  then show ?case by simp
next
  case (Cons t l)
  show ?case
  proof (cases "tcb_inside_sandbox t = u")
    case True
    then have l': "l' = t\<lparr> tcb_remove := True \<rparr> # l" "r = Some (tcb_self t)" using Cons.prems(1) by auto
    have "{x \<in> set l'. \<not> tcb_remove x} = set l" using l' Cons.prems(3) by auto
    then show ?thesis using l' Cons.prems(2) by auto
  next
    case False
    then obtain l1 where l1: "mark_tcb u l = (l1, r)" "l' = t # l1"
      using Cons.prems(1) by (auto split: prod.splits)
    have IH: "map tcb_self l1 = map tcb_self l"
      "tcb_self ` {t \<in> set l1. \<not> tcb_remove t} = tcb_self ` set l - set_option r"
      using Cons.IH [OF l1(1)] Cons.prems(2,3) by auto
    have r: "set_option r \<subseteq> tcb_self ` set l" using l1(1)
      by (induction l arbitrary: l1) (auto split: prod.splits if_splits)
    have split: "{x \<in> set l'. \<not> tcb_remove x} = insert t {x \<in> set l1. \<not> tcb_remove x}"
      using l1(2) Cons.prems(3) by auto
    have "tcb_self t \<notin> set_option r" using r Cons.prems(2) by auto
    then show ?thesis using IH l1(2) unfolding split by auto
  qed
qed

lemma live_Cons:
  "tcb_self ` {x \<in> set (t # l). \<not> tcb_remove x} =
     (if tcb_remove t then {} else {tcb_self t}) \<union> tcb_self ` {x \<in> set l. \<not> tcb_remove x}"
  by auto

lemma tcb_inv_allocset:
  assumes "tcb_inv rt" and "p \<notin> tcb_self ` set (tcb_list rt)" and "allocset_tcb (Some p) sb rt = Some (a, rt')"
  shows "tcb_inv rt'"
proof -
  let ?t = "(alloc_tcb p)\<lparr> tcb_inside_sandbox := sb \<rparr>"
  have rt': "rt' = rt\<lparr> tcb_list := ?t # tcb_list rt, thread_escape_map := dict_put (thread_escape_map rt) p 0 \<rparr>"
    "p \<notin> keys (thread_escape_map rt)"
    using assms(3) by (auto simp: allocset_tcb_def bind_eq_Some_conv dict_add_eq_Some)
  have t: "tcb_self ?t = p" "\<not> tcb_remove ?t" by (simp_all add: alloc_tcb_def)
  have "keys (thread_escape_map rt') = tcb_self ` {x \<in> set (?t # tcb_list rt). \<not> tcb_remove x}"
    unfolding live_Cons using assms(1) t rt'(1) by (simp add: tcb_inv_def)
  moreover have "dict_wf (thread_escape_map rt')" using assms(1) rt' by (simp add: tcb_inv_def dict_simps)
  ultimately show ?thesis using assms(1,2) t rt' unfolding tcb_inv_def by simp
qed

lemma tcb_inv_free:
  assumes "tcb_inv rt" and "free_tcb u rt = Some rt'"
  shows "tcb_inv rt'"
proof -
  let ?l = "filter (\<lambda>t. \<not> tcb_remove t) (tcb_list rt)"
  obtain l' r where m: "mark_tcb u ?l = (l', r)"
    and rt': "rt' = rt\<lparr> tcb_list := l', thread_escape_map :=
      (case r of None \<Rightarrow> thread_escape_map rt | Some p \<Rightarrow> dict_del (thread_escape_map rt) p) \<rparr>"
    using assms(2) by (auto simp: free_tcb_def remove_tcb_marked_filter bind_eq_Some_conv split: prod.splits)
  have inv: "distinct (map tcb_self (tcb_list rt))" "dict_wf (thread_escape_map rt)"
    "keys (thread_escape_map rt) = tcb_self ` set ?l" using assms(1) by (auto simp: tcb_inv_def)
  have "distinct (map tcb_self ?l)" using inv(1) by (simp add: distinct_map_filter)
  from mark_tcb_spec [OF m this] have sp: "map tcb_self l' = map tcb_self ?l"
    "tcb_self ` {t \<in> set l'. \<not> tcb_remove t} = tcb_self ` set ?l - set_option r" by auto
  have "distinct (map tcb_self l')" using sp(1) \<open>distinct (map tcb_self ?l)\<close> by simp
  moreover have "dict_wf (thread_escape_map rt') \<and>
      keys (thread_escape_map rt') = tcb_self ` set ?l - set_option r"
    using rt' inv(2,3) by (cases r) (simp_all add: dict_simps)
  ultimately show ?thesis using rt' sp(2) by (simp add: tcb_inv_def)
qed

lemma update_thesc_Some:
  assumes "tcb_self ` {t \<in> set l. \<not> tcb_remove t} \<subseteq> keys m" and "distinct (map tcb_self l)"
  shows "\<exists>m'. update_thesc l m = Some m' \<and> keys m' = keys m \<and> (dict_wf m \<longrightarrow> dict_wf m') \<and>
    (\<forall>t \<in> set l. \<not> tcb_remove t \<longrightarrow> dict_find m' (tcb_self t) = Some (sandbox_escape t)) \<and>
    (\<forall>k. k \<notin> tcb_self ` set l \<longrightarrow> dict_find m' k = dict_find m k)"
  using assms
proof (induction l arbitrary: m)
  case Nil
  then show ?case by (simp add: update_thesc_def)
next
  case (Cons t l)
  let ?m = "if tcb_remove t then m else dict_set m (tcb_self t) (sandbox_escape t)"
  have "tcb_remove t \<or> tcb_self t \<in> keys m" using Cons.prems(1) by auto
  then have step: "update_thesc (t # l) m = update_thesc l ?m"
    by (auto simp: update_thesc_def dict_find_None_iff)
  have sub: "tcb_self ` {t \<in> set l. \<not> tcb_remove t} \<subseteq> keys ?m" using Cons.prems(1) by auto
  obtain m' where m': "update_thesc l ?m = Some m'" "keys m' = keys ?m" "dict_wf ?m \<longrightarrow> dict_wf m'"
    "\<forall>t \<in> set l. \<not> tcb_remove t \<longrightarrow> dict_find m' (tcb_self t) = Some (sandbox_escape t)"
    "\<forall>k. k \<notin> tcb_self ` set l \<longrightarrow> dict_find m' k = dict_find ?m k"
    using Cons.IH [OF sub] Cons.prems(2) by auto
  have "tcb_self t \<notin> tcb_self ` set l" using Cons.prems(2) by simp
  then have "\<not> tcb_remove t \<longrightarrow> dict_find m' (tcb_self t) = Some (sandbox_escape t)"
    using m'(5) \<open>tcb_remove t \<or> tcb_self t \<in> keys m\<close> by (auto simp: dict_simps)
  then show ?case using m' by (auto simp: step dict_simps)
qed

lemma safe_Some:
  assumes "tcb_self ` {t \<in> set l. \<not> tcb_remove t} \<subseteq> keys m"
  shows "safe m l = Some (\<forall>t \<in> set l. \<not> tcb_remove t \<longrightarrow> insyscall t \<noteq> 0 \<or> dict_find m (tcb_self t) \<noteq> Some (sandbox_escape t))"
  using assms
proof (induction l)
  case Nil
  then show ?case by simp
next
  case (Cons t l)
  have "tcb_self ` {t \<in> set l. \<not> tcb_remove t} \<subseteq> keys m" using Cons.prems by auto
  note IH = Cons.IH [OF this]
  show ?case
  proof (cases "tcb_remove t")
    case True
    then show ?thesis using IH by simp
  next
    case False
    then have "tcb_self t \<in> keys m" using Cons.prems by auto
    then obtain v where "dict_find m (tcb_self t) = Some v" using keys_dict_find by fast
    then show ?thesis using IH False by auto
  qed
qed

text \<open>The ways the thread state evolves: a thread is created at an address that is not in use,
  a thread is freed, a thread runs (it escapes the sandbox, enters or leaves a system call),
  the counters are recorded.\<close>

inductive tcb_step :: "runtime \<Rightarrow> runtime \<Rightarrow> bool" where
  create: "p \<notin> tcb_self ` set (tcb_list rt) \<Longrightarrow> allocset_tcb (Some p) sb rt = Some (a, rt') \<Longrightarrow> tcb_step rt rt'"
| free: "free_tcb u rt = Some rt' \<Longrightarrow> tcb_step rt rt'"
| run: "i < length (tcb_list rt) \<Longrightarrow>
    tcb_step rt (rt\<lparr> tcb_list := (tcb_list rt)[i := (tcb_list rt ! i)\<lparr> sandbox_escape := e, insyscall := c \<rparr>] \<rparr>)"
| snapshot: "update_thesc (tcb_list rt) (thread_escape_map rt) = Some m \<Longrightarrow>
    tcb_step rt (rt\<lparr> thread_escape_map := m \<rparr>)"

lemma live_update:
  assumes "i < length l" and "tcb_self t = tcb_self (l ! i)" and "tcb_remove t = tcb_remove (l ! i)"
  shows "map tcb_self (l[i := t]) = map tcb_self l"
    and "tcb_self ` {x \<in> set (l[i := t]). \<not> tcb_remove x} = tcb_self ` {x \<in> set l. \<not> tcb_remove x}"
proof -
  have f: "map tcb_self (filter (\<lambda>x. \<not> tcb_remove x) (l[i := t])) = map tcb_self (filter (\<lambda>x. \<not> tcb_remove x) l)"
    using assms by (induction l arbitrary: i) (auto split: nat.splits)
  show "map tcb_self (l[i := t]) = map tcb_self l"
    using assms by (metis list_update_id map_update)
  show "tcb_self ` {x \<in> set (l[i := t]). \<not> tcb_remove x} = tcb_self ` {x \<in> set l. \<not> tcb_remove x}"
    using arg_cong [OF f, of set] by simp
qed

lemma tcb_inv_step: "tcb_step rt rt' \<Longrightarrow> tcb_inv rt \<Longrightarrow> tcb_inv rt'"
proof (induction rule: tcb_step.induct)
  case (create p rt sb a rt')
  then show ?case using tcb_inv_allocset by blast
next
  case (free u rt rt')
  then show ?case using tcb_inv_free by blast
next
  case (run i rt c e)
  then show ?case using live_update [of i "tcb_list rt" "(tcb_list rt ! i)\<lparr> sandbox_escape := e, insyscall := c \<rparr>"]
    by (simp add: tcb_inv_def)
next
  case (snapshot rt m)
  then show ?case using update_thesc_Some [of "tcb_list rt" "thread_escape_map rt"] by (auto simp: tcb_inv_def)
qed

section \<open>Activation\<close>

lemma and_1_bit: "w AND 1 = 0 \<longleftrightarrow> \<not> bit w 0" for w :: u64
  by (simp add: and_one_eq odd_iff_mod_2_eq_one bit_0)

lemma activate_or: "read64 (activate a t) (unat a) = read64 t (unat a) OR 1"
proof (cases "bit (read64 t (unat a)) 0")
  case True
  then have "read64 t (unat a) OR 1 = read64 t (unat a)"
    by (intro bit_eqI) (auto simp: bit_simps bit_1_iff)
  then show ?thesis using True by (simp add: activate_def and_1_bit)
next
  case False
  then show ?thesis by (simp add: activate_def and_1_bit)
qed

lemma activate_apart: "words_apart (unat a) b \<Longrightarrow> read64 (activate a t) b = read64 t b"
  by (auto simp: activate_def words_apart_def read64_write64_other)

text \<open>Activating a list of addresses whose words do not partly overlap.\<close>

definition aligned_apart :: "u64 set \<Rightarrow> bool" where
  "aligned_apart A \<longleftrightarrow> (\<forall>a \<in> A. \<forall>b \<in> A. a = b \<or> words_apart (unat a) (unat b))"

lemma or_1_idem: "(w OR 1) OR 1 = w OR (1 :: u64)"
  by (simp add: or.assoc)

lemma activate_all:
  "aligned_apart (keys as) \<Longrightarrow>
    (\<forall>a \<in> keys as. read64 (fold (\<lambda>a. activate (fst a)) as t) (unat a) = read64 t (unat a) OR 1) \<and>
    (\<forall>b. (\<forall>a \<in> keys as. words_apart (unat a) b) \<longrightarrow> read64 (fold (\<lambda>a. activate (fst a)) as t) b = read64 t b)"
proof (induction as arbitrary: t)
  case Nil
  then show ?case by simp
next
  case (Cons x as)
  let ?t = "activate (fst x) t"
  have IH: "\<forall>a \<in> keys as. read64 (fold (\<lambda>a. activate (fst a)) as ?t) (unat a) = read64 ?t (unat a) OR 1"
    "\<forall>b. (\<forall>a \<in> keys as. words_apart (unat a) b) \<longrightarrow> read64 (fold (\<lambda>a. activate (fst a)) as ?t) b = read64 ?t b"
    using Cons.IH [of ?t] Cons.prems by (auto simp: aligned_apart_def)
  have ap: "a = fst x \<or> words_apart (unat (fst x)) (unat a)" if "a \<in> keys as" for a
    using Cons.prems that by (auto simp: aligned_apart_def)
  have new: "read64 (fold (\<lambda>a. activate (fst a)) as ?t) (unat (fst x)) = read64 t (unat (fst x)) OR 1"
  proof (cases "fst x \<in> keys as")
    case True
    then show ?thesis using IH(1) by (simp add: activate_or or_1_idem)
  next
    case False
    then have "\<forall>a \<in> keys as. words_apart (unat a) (unat (fst x))" using ap tbl.apart_sym by blast
    then show ?thesis using IH(2) by (simp add: activate_or)
  qed
  have "read64 ?t (unat a) OR 1 = read64 t (unat a) OR 1" if "a \<in> keys as" for a
    using ap [OF that] by (auto simp: activate_or or_1_idem activate_apart)
  then show ?case using IH new by (auto simp: activate_apart)
qed

lemma patch_at_activation:
  "foldM (\<lambda>a t. do { CHECK c; Some (activate (fst a) t) }) as t = Some t' \<Longrightarrow>
    t' = fold (\<lambda>a. activate (fst a)) as t"
  by (induction as arbitrary: t) (auto simp: bind_eq_Some_conv)

lemma dict_del_absent: "dict_wf d \<Longrightarrow> dict_find (g_del_vertex d k) k = None"
  by (simp add: g_del_vertex_def dict_simps split: option.splits)

text \<open>Bytes of the nop patch.\<close>

lemma write64_byte: "i < 8 \<Longrightarrow> write64 t a v (a + i) = byte_of i v"
  by (simp add: write64_def)

lemma write64_outside: "x < a \<or> a + 8 \<le> x \<Longrightarrow> write64 t a v x = t x"
  by (auto simp: write64_def)

lemma byte_of_read64: "i < 8 \<Longrightarrow> byte_of i (read64 t a) = t (a + i)"
  by (rule bit_eqI) (auto simp: bit_byte_of read64_def bit_read_le add_mult_distrib2)

lemma byte_of_merge:
  "i < 3 \<Longrightarrow> byte_of i (take_bit 24 w OR push_bit 24 v) = byte_of i w"
  "3 \<le> i \<Longrightarrow> byte_of i (take_bit 24 w OR push_bit 24 v) = byte_of i (push_bit 24 v)"
  by (rule bit_eqI, auto simp: bit_byte_of bit_simps)+

lemma patch_nop_head:
  assumes "i < 3"
  shows "patch_nop p t (unat p + i) = t (unat p + i)"
proof -
  have "i < 8" using assms by simp
  then show ?thesis by (simp only: patch_nop_def write64_byte byte_of_merge(1) [OF assms] byte_of_read64)
qed

lemma patch_nop_tail:
  "map (\<lambda>i. patch_nop p t (unat p + i)) [3, 4, 5, 6, 7] = [0x0f, 0x1f, 0x44, 0x00, 0x00]"
proof -
  have "patch_nop p t (unat p + i) = byte_of i (push_bit 24 0x0000441f0f)" if "3 \<le> i" "i < 8" for i
    using that by (simp only: patch_nop_def write64_byte byte_of_merge(2))
  then show ?thesis by (simp add: byte_of_def)
qed

lemma patch_nop_outside: "x < unat p \<or> unat p + 8 \<le> x \<Longrightarrow> patch_nop p t x = t x"
  by (simp add: patch_nop_def write64_outside)

section \<open>Properties\<close>

text \<open>C14: the thread bookkeeping never goes wrong. In every state reachable from a consistent
  one by creating, freeing and running threads and recording their counters, the escape map
  has exactly one entry for each live thread; hence the assertions of \<open>safe\<close> and
  \<open>update_thesc\<close> cannot fail, and \<open>safe\<close> answers yes exactly when every live thread is in a
  system call or has left the sandbox since its counter was recorded.\<close>

theorem threads_invariant:
  assumes "tcb_step\<^sup>*\<^sup>* rt0 rt" and "tcb_inv rt0"
  shows "tcb_inv rt \<and> (\<exists>m. update_thesc (tcb_list rt) (thread_escape_map rt) = Some m) \<and>
    safe (thread_escape_map rt) (tcb_list rt) =
      Some (\<forall>t \<in> set (tcb_list rt). \<not> tcb_remove t \<longrightarrow>
        insyscall t \<noteq> 0 \<or> dict_find (thread_escape_map rt) (tcb_self t) \<noteq> Some (sandbox_escape t))"
proof -
  have inv: "tcb_inv rt" using assms by (induction rule: rtranclp_induct) (auto intro: tcb_inv_step)
  then have "tcb_self ` {t \<in> set (tcb_list rt). \<not> tcb_remove t} \<subseteq> keys (thread_escape_map rt)"
    "distinct (map tcb_self (tcb_list rt))" by (simp_all add: tcb_inv_def)
  from update_thesc_Some [OF this] safe_Some [OF this(1)] inv show ?thesis by blast
qed

text \<open>Two threads, the second of which was created after the first.\<close>

definition ex_runtime :: runtime where
  "ex_runtime = \<lparr> tcb_list = [alloc_tcb 0x7000], thread_escape_map = [(0x7000, 0)], rt_modules = [],
     rt_cfggened = True, fats_in_code = [], vmtd = [], patch_compensate = [], patched_ra = [],
     rt_table = (\<lambda>_. 0), osb = (\<lambda>_. 0), rt_version = 1, version_space = 0, vtabletaken = [] \<rparr>"

theorem threads_invariant_witness:
  "\<exists>rt. allocset_tcb (Some 0x8000) 0x1000 ex_runtime = Some (0x8000, rt)
     \<and> safe (thread_escape_map rt) (tcb_list rt) = Some False"
proof -
  have inv: "tcb_inv ex_runtime"
    unfolding tcb_inv_def ex_runtime_def runtime.simps live_Cons by (simp add: dict_wf_def alloc_tcb_def)
  obtain rt where rt: "allocset_tcb (Some 0x8000) 0x1000 ex_runtime = Some (0x8000, rt)"
    by (simp add: allocset_tcb_def ex_runtime_def dict_add_def dict_in_def dict_find_def FourGB_eq)
  have "tcb_step\<^sup>*\<^sup>* ex_runtime rt"
    by (rule r_into_rtranclp, rule tcb_step.create [OF _ rt]) (simp add: ex_runtime_def alloc_tcb_def)
  from threads_invariant [OF this inv] have "safe (thread_escape_map rt) (tcb_list rt) = Some False"
    using rt by (auto simp: allocset_tcb_def ex_runtime_def dict_add_def dict_in_def dict_find_def FourGB_eq
        alloc_tcb_def dict_put_def)
  then show ?thesis using rt by blast
qed

text \<open>C13: taking a function's address in code activates exactly that function. When the call
  at an address-taking site runs, every target word recorded for the function the site belongs
  to gets its activation bit and keeps the rest, no other word of the table changes, the
  function is no longer waiting for activation, and the site is overwritten: the three bytes
  before the call stay, the call becomes a five-byte nop, and no other byte of code changes.\<close>

theorem patch_at_activates:
  assumes run: "patch_at False pp rt = Some rt'"
    and wf: "dict_wf (fats_in_code rt)"
    and f: "find_module pp (rt_modules rt) = Some i" "m = rt_modules rt ! i"
      "dict_find (at_func m) (pp - base_addr m) = Some fname"
    and sites: "dict_find (fats_in_code rt) fname = Some sites" "aligned_apart (keys sites)"
    and p: "p = osb_base_addr m + (pp - base_addr m) - 8"
  shows "(\<forall>a \<in> keys sites. read64 (rt_table rt') (unat a) = read64 (rt_table rt) (unat a) OR 1)
    \<and> (\<forall>b. (\<forall>a \<in> keys sites. words_apart (unat a) b) \<longrightarrow> read64 (rt_table rt') b = read64 (rt_table rt) b)
    \<and> dict_find (fats_in_code rt') fname = None
    \<and> map (\<lambda>i. osb rt' (unat p + i)) [3, 4, 5, 6, 7] = [0x0f, 0x1f, 0x44, 0x00, 0x00]
    \<and> (\<forall>x. x < unat p + 3 \<or> unat p + 8 \<le> x \<longrightarrow> osb rt' x = osb rt x)"
proof -
  obtain t where t: "foldM (\<lambda>a t. do { CHECK (rt_cfggened rt); Some (activate (fst a) t) }) sites (rt_table rt) = Some t"
    and rt': "rt' = rt\<lparr> rt_table := t, fats_in_code := g_del_vertex (fats_in_code rt) fname, osb := patch_nop p (osb rt) \<rparr>"
    using run f sites(1) p by (auto simp: patch_at_def bind_eq_Some_conv Let_def)
  have t': "t = fold (\<lambda>a. activate (fst a)) sites (rt_table rt)" using t by (rule patch_at_activation)
  have "osb rt' x = osb rt x" if "x < unat p + 3 \<or> unat p + 8 \<le> x" for x
  proof (cases "unat p \<le> x \<and> x < unat p + 3")
    case True
    then have "x - unat p < 3" "unat p + (x - unat p) = x" by auto
    then show ?thesis using patch_nop_head [of "x - unat p" p "osb rt"] rt' by simp
  next
    case False
    then show ?thesis using that patch_nop_outside [of x p "osb rt"] rt' by auto
  qed
  moreover have "map (\<lambda>i. osb rt' (unat p + i)) [3, 4, 5, 6, 7] = [0x0f, 0x1f, 0x44, 0x00, 0x00]"
    using patch_nop_tail [of p "osb rt"] rt' by simp
  ultimately show ?thesis using activate_all [OF sites(2), of "rt_table rt"] rt' t' dict_del_absent [OF wf, of fname] by simp
qed

text \<open>A function taken at the site whose return address is 0x20010.\<close>

definition ex_site_module :: codemodule where
  "ex_site_module = alloc_code_module\<lparr> base_addr := 0x20000, m_sz := 0x1000, osb_base_addr := 0x90000,
     at_func := [(0x10, 0x1000)], ra_orig := [(0x20, 0x1122334455667788)] \<rparr>"

definition ex_site_runtime :: runtime where
  "ex_site_runtime = ex_runtime\<lparr> rt_modules := [ex_site_module], fats_in_code := [(0x1000, [(0x20100, ())])] \<rparr>"

lemma ex_site_module_sel [simp]:
  "base_addr ex_site_module = 0x20000" "m_sz ex_site_module = 0x1000" "osb_base_addr ex_site_module = 0x90000"
  "at_func ex_site_module = [(0x10, 0x1000)]" "ra_orig ex_site_module = [(0x20, 0x1122334455667788)]"
  by (simp_all add: ex_site_module_def)

lemma ex_site_runtime_sel [simp]:
  "rt_modules ex_site_runtime = [ex_site_module]" "fats_in_code ex_site_runtime = [(0x1000, [(0x20100, ())])]"
  "rt_cfggened ex_site_runtime" "patched_ra ex_site_runtime = []" "rt_table ex_site_runtime = (\<lambda>_. 0)"
  by (simp_all add: ex_site_runtime_def ex_runtime_def)

theorem patch_at_activates_witness:
  "\<exists>rt'. patch_at False 0x20010 ex_site_runtime = Some rt'
     \<and> read64 (rt_table rt') 0x20100 = read64 (\<lambda>_. 0) 0x20100 OR 1
     \<and> dict_find (fats_in_code rt') 0x1000 = None \<and> osb rt' 0x9000b = 0x0f"
proof -
  obtain rt' where run: "patch_at False 0x20010 ex_site_runtime = Some rt'"
    by (simp add: patch_at_def find_module_def dict_find_def)
  have "dict_wf (fats_in_code ex_site_runtime)"
    "find_module 0x20010 (rt_modules ex_site_runtime) = Some 0" "ex_site_module = rt_modules ex_site_runtime ! 0"
    "dict_find (at_func ex_site_module) (0x20010 - base_addr ex_site_module) = Some 0x1000"
    "dict_find (fats_in_code ex_site_runtime) 0x1000 = Some [(0x20100, ())]" "aligned_apart (keys [(0x20100 :: u64, ())])"
    "0x90008 = osb_base_addr ex_site_module + (0x20010 - base_addr ex_site_module) - 8"
    by (simp_all add: find_module_def dict_find_def dict_wf_def aligned_apart_def)
  from patch_at_activates [OF run this] show ?thesis using run by simp
qed

text \<open>C15: a call site is patched once. When the call before a return address runs for the first
  time, its target word is activated (or, before the first graph is generated, recorded for
  activation), the original call is put back, and running the patch again, as another core may
  do, changes nothing.\<close>

theorem patch_call_once:
  assumes run: "patch_call False pp rt = Some rt'" and new: "dict_find (patched_ra rt) pp = None"
    and m: "find_module pp (rt_modules rt) = Some i" "m = rt_modules rt ! i"
    and key: "key = (pp + 7) div 8 * 8 - base_addr m"
  shows "patch_call False pp rt' = Some rt'
    \<and> (\<exists>orig. dict_find (ra_orig m) key = Some orig \<and> read64 (osb rt') (unat (osb_base_addr m + key - 8)) = orig)
    \<and> (if rt_cfggened rt then read64 (rt_table rt') (unat (base_addr m + key)) =
          read64 (rt_table rt) (unat (base_addr m + key)) OR 1
       else dict_in (patch_compensate rt') (base_addr m + key) \<and> rt_table rt' = rt_table rt)"
proof -
  obtain orig rt1 where orig: "dict_find (ra_orig m) key = Some orig"
    and rt1: "(if rt_cfggened rt
        then Some (rt\<lparr> rt_table := write64 (rt_table rt) (unat (base_addr m + key)) (read64 (rt_table rt) (unat (base_addr m + key)) OR 1) \<rparr>)
        else do { pc \<leftarrow> dict_add (patch_compensate rt) (base_addr m + key) (); Some (rt\<lparr> patch_compensate := pc \<rparr>) }) = Some rt1"
    and rt': "rt' = rt1\<lparr> patched_ra := dict_put (patched_ra rt) pp (),
        osb := write64 (osb rt1) (unat (osb_base_addr m + key - 8)) orig \<rparr>"
    and al: "pp mod 8 = 0 \<or> (pp + 3) mod 8 = 0 \<or> (pp + 2) mod 8 = 0"
    using run m new key by (auto simp: patch_call_def bind_eq_Some_conv Let_def dict_add_eq_Some split: if_splits)
  have same: "rt_modules rt' = rt_modules rt" using rt1 rt' by (auto simp: bind_eq_Some_conv split: if_splits)
  have "pp \<in> keys (patched_ra rt')" using rt' by simp
  then have "patch_call False pp rt' = Some rt'"
    using same m(1) al by (simp add: patch_call_def dict_find_None_iff)
  moreover have "if rt_cfggened rt then read64 (rt_table rt') (unat (base_addr m + key)) =
          read64 (rt_table rt) (unat (base_addr m + key)) OR 1
       else dict_in (patch_compensate rt') (base_addr m + key) \<and> rt_table rt' = rt_table rt"
    using rt1 rt' by (auto simp: bind_eq_Some_conv dict_add_eq_Some dict_simps split: if_splits)
  ultimately show ?thesis using orig rt' by simp
qed

theorem patch_call_once_witness:
  "\<exists>rt'. patch_call False 0x20020 ex_site_runtime = Some rt' \<and> patch_call False 0x20020 rt' = Some rt'
     \<and> read64 (osb rt') 0x90018 = 0x1122334455667788"
proof -
  obtain rt' where run: "patch_call False 0x20020 ex_site_runtime = Some rt'"
    by (simp add: patch_call_def find_module_def dict_find_def dict_add_def dict_in_def)
  have "dict_find (patched_ra ex_site_runtime) 0x20020 = None"
    "find_module 0x20020 (rt_modules ex_site_runtime) = Some 0" "ex_site_module = rt_modules ex_site_runtime ! 0"
    "0x20 = (0x20020 + 7) div 8 * 8 - base_addr ex_site_module"
    by (simp_all add: find_module_def)
  from patch_call_once [OF run this] show ?thesis using run by (simp add: dict_find_def)
qed

end
