(* ===== verification/Gencfg.thy ===== *)
theory Gencfg
  imports Runtime "HOL-Library.Multiset"
begin

unbundle bit_operations_syntax

text \<open>
  End-to-end properties of \<open>gen_cfg\<close> (\<open>src/runtime/src/runtime.c\<close>): the metadata of the
  modules is merged into well-formed input of the graph construction, the identifiers encode
  exactly the classes of the call graph and of the return graph, and the tables enforce them.
\<close>

section \<open>Merging well-formed metadata\<close>

lemma dict_wf_fold_add_vertex: "dict_wf d \<Longrightarrow> dict_wf (fold (\<lambda>v a. g_add_vertex () a (fst v)) vs d)"
  by (rule fold_invariant_set) (auto intro: inv_intros)

lemma dict_wf_merge_graphs [inv_intros]: "dict_wf g \<Longrightarrow> dict_wf (merge_graphs g h)"
  unfolding merge_graphs_def
  by (rule fold_invariant_set) (auto simp: Let_def intro: inv_intros split: option.splits)

lemma keys_merge_graphs [simp]: "keys (merge_graphs g h) = keys g \<union> keys h"
proof (induction h arbitrary: g)
  case Nil
  then show ?case by (simp add: merge_graphs_def)
next
  case (Cons v h)
  let ?g = "let gs' = g_add_vertex [] g (fst v)
        in case dict_find gs' (fst v) of
             None \<Rightarrow> gs'
           | Some nv \<Rightarrow> dict_set gs' (fst v) (fold (\<lambda>vv a. g_add_vertex () a (fst vv)) (snd v) nv)"
  have "merge_graphs g (v # h) = merge_graphs ?g h" by (simp add: merge_graphs_def)
  moreover have "keys ?g = insert (fst v) (keys g)" by (simp add: Let_def split: option.splits)
  ultimately show ?case using Cons.IH by simp
qed

lemma g_sym_merge_graphs [inv_intros]: "g_sym g \<Longrightarrow> g_sym h \<Longrightarrow> g_sym (merge_graphs g h)"
  unfolding g_sym_def edge_merge_graphs using edge_wf [of h] by (auto intro: inv_intros)

lemma merge_icfs_append: "merge_icfs xs ys = xs @ ys"
  by (induction ys arbitrary: xs) (auto simp: merge_icfs_def)

lemma merge_functions_append: "merge_functions xs ys = xs @ ys"
  by (induction ys arbitrary: xs) (auto simp: merge_functions_def)

text \<open>Well-formed metadata of one module, and of what has been merged so far.\<close>

definition module_ok :: "codemodule \<Rightarrow> bool" where
  "module_ok m \<longleftrightarrow> cg_input_ok (m_icfs m) (m_functions m) (m_classes m) (m_cha m) (m_aliases m)"

definition metainfo_ok :: "metainfo \<Rightarrow> bool" where
  "metainfo_ok mi \<longleftrightarrow>
     cg_input_ok (mi_icfs mi) (mi_functions mi) (mi_classes mi) (mi_cha mi) (mi_aliases mi)
     \<and> dict_wf (mi_classes mi) \<and> dict_wf (mi_fats mi) \<and> dict_wf (mi_fats_in_data mi)
     \<and> dict_wf (mi_fats_in_code mi) \<and> dict_wf (mi_defined_ctors mi)"

lemma merge_module_ok:
  assumes "metainfo_ok mi" and "module_ok m"
  shows "\<exists>mi'. merge_module m mi = Some mi' \<and> metainfo_ok mi' \<and>
    mi_icfs mi' = mi_icfs mi @ m_icfs m \<and> mi_functions mi' = mi_functions mi @ m_functions m"
proof -
  have wf: "dict_wf (mi_classes mi)" "dict_wf (mi_fats mi)" "dict_wf (mi_fats_in_data mi)"
    "dict_wf (mi_fats_in_code mi)" "dict_wf (mi_defined_ctors mi)"
    and ok: "cg_input_ok (mi_icfs mi) (mi_functions mi) (mi_classes mi) (mi_cha mi) (mi_aliases mi)"
    using assms(1) by (auto simp: metainfo_ok_def)
  obtain cls where c: "merge_dicts (mi_classes mi) (m_classes m) = Some cls" "dict_wf cls"
    "dict_find cls = map_of (m_classes m) ++ dict_find (mi_classes mi)" using merge_dicts_Some [OF wf(1)] by blast
  obtain fats where f: "merge_dicts (mi_fats mi) (m_fats m) = Some fats" "dict_wf fats"
    using merge_dicts_Some [OF wf(2)] by blast
  obtain fid where d: "merge_dicts (mi_fats_in_data mi) (m_fats_in_data m) = Some fid" "dict_wf fid"
    using merge_dicts_Some [OF wf(3)] by blast
  obtain fic where i: "merge_dicts (mi_fats_in_code mi) (m_fats_in_code m) = Some fic" "dict_wf fic"
    using merge_dicts_Some [OF wf(4)] by blast
  obtain ct where t: "merge_dicts (mi_defined_ctors mi) (m_defined_ctors m) = Some ct" "dict_wf ct"
    using merge_dicts_Some [OF wf(5)] by blast
  have "classes_wf cls"
    unfolding classes_wf_def c(3)
    using ok assms(2) by (auto simp: module_ok_def cg_input_ok_def classes_wf_def dict_find_def map_add_Some_iff)
  then have "cg_input_ok (mi_icfs mi @ m_icfs m) (mi_functions mi @ m_functions m) cls
      (merge_graphs (mi_cha mi) (m_cha m)) (merge_graphs (mi_aliases mi) (m_aliases m))"
    using ok assms(2) by (auto simp: module_ok_def cg_input_ok_def intro: inv_intros)
  then show ?thesis using c f d i t
    by (simp add: merge_module_def metainfo_ok_def merge_icfs_append merge_functions_append)
qed

lemma merge_mcfi_metainfo_ok:
  assumes "\<forall>m \<in> set ms. module_ok m" and "metainfo_ok mi"
  shows "\<exists>mi'. merge_mcfi_metainfo ms mi = Some mi' \<and> metainfo_ok mi' \<and>
    mi_icfs mi' = mi_icfs mi @ concat (map m_icfs ms) \<and> mi_functions mi' = mi_functions mi @ concat (map m_functions ms)"
  using assms
proof (induction ms arbitrary: mi)
  case Nil
  then show ?case by (simp add: merge_mcfi_metainfo_def)
next
  case (Cons m ms)
  have "module_ok m" using Cons.prems(1) by simp
  from merge_module_ok [OF Cons.prems(2) this] obtain mi1 where
    m1: "merge_module m mi = Some mi1" "metainfo_ok mi1" "mi_icfs mi1 = mi_icfs mi @ m_icfs m"
      "mi_functions mi1 = mi_functions mi @ m_functions m" by blast
  have "\<forall>m \<in> set ms. module_ok m" using Cons.prems(1) by simp
  from Cons.IH [OF this m1(2)] show ?case using m1 by (simp add: merge_mcfi_metainfo_def)
qed

lemma empty_metainfo_ok: "metainfo_ok empty_metainfo"
  by (simp add: metainfo_ok_def empty_metainfo_def cg_input_ok_def classes_wf_def)

section \<open>The layout of the tables\<close>










section \<open>The pieces of a generation\<close>

lemma g_dtor_Nil [simp]: "g_dtor g = []"
  using dict_clear_walk [of g "[]"] by (simp add: g_dtor_def)

lemma g_transitive_closure_Nil [simp]: "g_transitive_closure [] = Some []"
  by (simp add: g_transitive_closure_def g_get_lcc_def)

text \<open>The classes that the searches return, in the form the identifier generation needs.\<close>

lemma lcc_classes:
  assumes "g_sym g" and "g_get_lcc g = Some lcc"
  shows "classes_ok lcc" and "(\<Union>cc \<in> set lcc. keys cc) = keys g"
    and "a \<in> keys g \<Longrightarrow> same_class lcc a b \<longleftrightarrow> b \<in> reach g a"
proof -
  have img: "keys ` set lcc = reach g ` keys g" and dist: "distinct (map keys lcc)"
    using g_get_lcc_classes [OF assms(1)] assms(2) by auto
  have mem: "keys cc = reach g a" if "cc \<in> set lcc" "a \<in> keys cc" for cc a
    using lcc_member_reach [OF assms that] .
  have "keys (lcc ! i) \<inter> keys (lcc ! j) = {}" if ij: "i < length lcc" "j < length lcc" "i \<noteq> j" for i j
  proof (rule ccontr)
    assume "keys (lcc ! i) \<inter> keys (lcc ! j) \<noteq> {}"
    then obtain x where x: "x \<in> keys (lcc ! i)" "x \<in> keys (lcc ! j)" by blast
    have "keys (lcc ! i) = keys (lcc ! j)" using mem [OF nth_mem x(1)] mem [OF nth_mem x(2)] ij by simp
    then show False using dist ij by (auto simp: distinct_conv_nth)
  qed
  then show "classes_ok lcc" using g_get_lcc_wf [OF assms(2)] unfolding classes_ok_def by blast
  show "(\<Union>cc \<in> set lcc. keys cc) = keys g"
  proof
    show "(\<Union>cc \<in> set lcc. keys cc) \<subseteq> keys g"
    proof (rule UN_least)
      fix cc
      assume "cc \<in> set lcc"
      then have "keys cc \<in> reach g ` keys g" unfolding img [symmetric] by (rule imageI)
      then obtain w where "w \<in> keys g" "keys cc = reach g w" by (rule imageE) simp
      then show "keys cc \<subseteq> keys g" using reach_keys [OF assms(1)] by simp
    qed
    show "keys g \<subseteq> (\<Union>cc \<in> set lcc. keys cc)" using lcc_covers [OF assms] by blast
  qed
  show "same_class lcc a b \<longleftrightarrow> b \<in> reach g a" if "a \<in> keys g"
    using lcc_covers [OF assms that] mem unfolding same_class_def by blast
qed


lemma length_lcc:
  assumes "g_sym g" and "g_get_lcc g = Some lcc"
  shows "length lcc \<le> card (keys g)"
proof -
  have "keys ` set lcc = reach g ` keys g" "distinct (map keys lcc)"
    using g_get_lcc_classes [OF assms(1)] assms(2) by auto
  then have "length lcc = card (reach g ` keys g)" by (metis distinct_card length_map set_map)
  then show ?thesis using card_image_le [of "keys g" "reach g"] by simp
qed

text \<open>The identifiers of a generation, in terms of the two graphs.\<close>

definition ids_of_graphs ::
  "name graph \<Rightarrow> name graph \<Rightarrow> (name, u64) dict \<Rightarrow> (name, u64) dict \<Rightarrow> u64 \<Rightarrow> bool" where
  "ids_of_graphs cg rg callids retids others \<longleftrightarrow> ids_active callids retids others
     \<and> keys callids = keys cg \<and> keys retids = keys rg
     \<and> (\<forall>a b x y. dict_find callids a = Some x \<and> dict_find callids b = Some y \<longrightarrow> (x = y \<longleftrightarrow> b \<in> reach cg a))
     \<and> (\<forall>a b x y. dict_find retids a = Some x \<and> dict_find retids b = Some y \<longrightarrow> (x = y \<longleftrightarrow> b \<in> reach rg a))
     \<and> (\<forall>a b x y. dict_find callids a = Some x \<and> dict_find retids b = Some y \<longrightarrow> x \<noteq> y)
     \<and> (\<forall>a x. dict_find callids a = Some x \<or> dict_find retids a = Some x \<longrightarrow> x \<noteq> others)"

lemma gen_mcfi_id_graphs:
  assumes sym: "g_sym cg" "g_sym rg" and lcc: "g_get_lcc cg = Some lcg" "g_get_lcc rg = Some lrt"
    and card: "card (keys cg) + card (keys rg) < 125 ^ 4"
  shows "\<exists>version' others callids retids. gen_mcfi_id False lcg lrt version = Some (version', others, callids, retids)
    \<and> ids_of_graphs cg rg callids retids others"
proof -
  note c = lcc_classes [OF sym(1) lcc(1)] and r = lcc_classes [OF sym(2) lcc(2)]
  have "length lcg + length lrt < 125 ^ 4"
    using card length_lcc [OF sym(1) lcc(1)] length_lcc [OF sym(2) lcc(2)] by linarith
  from gen_mcfi_id_classes [OF c(1) r(1) this, of version] obtain version' others callids retids where
    g: "gen_mcfi_id False lcg lrt version = Some (version', others, callids, retids)"
    and k: "keys callids = keys cg" "keys retids = keys rg"
    and s: "\<forall>a b x y. dict_find callids a = Some x \<and> dict_find callids b = Some y \<longrightarrow> (x = y \<longleftrightarrow> same_class lcg a b)"
      "\<forall>a b x y. dict_find retids a = Some x \<and> dict_find retids b = Some y \<longrightarrow> (x = y \<longleftrightarrow> same_class lrt a b)"
    and d: "\<forall>a b x y. dict_find callids a = Some x \<and> dict_find retids b = Some y \<longrightarrow> x \<noteq> y"
    and o: "\<forall>a x. dict_find callids a = Some x \<or> dict_find retids a = Some x \<longrightarrow> x \<noteq> others \<and> bit x 0" "bit others 0"
    unfolding c(2) r(2) by (elim exE conjE) rule
  have "\<forall>a b x y. dict_find callids a = Some x \<and> dict_find callids b = Some y \<longrightarrow> (x = y \<longleftrightarrow> b \<in> reach cg a)"
    using s(1) c(3) k(1) dict_find_SomeD by metis
  moreover have "\<forall>a b x y. dict_find retids a = Some x \<and> dict_find retids b = Some y \<longrightarrow> (x = y \<longleftrightarrow> b \<in> reach rg a)"
    using s(2) r(3) k(2) dict_find_SomeD by metis
  moreover have "ids_active callids retids others" using o unfolding ids_active_def by blast
  ultimately have "ids_of_graphs cg rg callids retids others" using k d o unfolding ids_of_graphs_def by blast
  then show ?thesis using g by blast
qed























section \<open>No step of a generation fails\<close>

lemma compute_fic_Nil: "\<exists>fic'. compute_fic fic fid [] = Some (fic', fid)"
  by (simp add: compute_fic_def)

lemma get_all_vmtd_total: "\<exists>all. get_all_vmtd vtaken vtable ctors = Some all"
proof -
  have "\<exists>d'. foldM (\<lambda>n all. if dict_find all n = None then dict_add all n [] else Some all) ns d = Some d' \<and> True"
    for ns and d :: addr_sets
    by (rule foldM_total) (auto simp: dict_add_def dict_in_def)
  then have "\<exists>d'. foldM (\<lambda>kv all. if dict_find vtaken (fst kv) = None \<and> dict_find ctors (fst kv) \<noteq> None
      then foldM (\<lambda>n all. if dict_find all n = None then dict_add all n [] else Some all) (snd kv) all
      else Some all) vtable ([] :: addr_sets) = Some d' \<and> True"
    by (intro foldM_total) auto
  then show ?thesis by (simp add: get_all_vmtd_def)
qed

lemma compute_tc_vmtd_Nil: "\<exists>vm. compute_tc_vmtd ms vtaken [] ctors [] = Some vm"
proof -
  have "\<exists>vm. foldM (\<lambda>m vm. do { a \<leftarrow> get_all_vmtd vtaken (m_vtable m) ctors; merge_dicts vm a }) ms [] = Some vm \<and> dict_wf vm"
  proof (rule foldM_total [where P = dict_wf])
    fix m and vm :: addr_sets
    assume wf: "dict_wf vm"
    obtain a where "get_all_vmtd vtaken (m_vtable m) ctors = Some a" using get_all_vmtd_total by blast
    then show "\<exists>s'. do { a \<leftarrow> get_all_vmtd vtaken (m_vtable m) ctors; merge_dicts vm a } = Some s' \<and> dict_wf s'"
      using merge_dicts_Some [OF wf, of a] by auto
  qed simp
  then show ?thesis by (auto simp: compute_tc_vmtd_def)
qed

lemma gen_cfg_total:
  assumes ok: "\<forall>m \<in> set (rt_modules rt). module_ok m" and inv: "tcb_inv rt"
    and mi: "merge_mcfi_metainfo (rt_modules rt) empty_metainfo = Some mi"
    and one: "\<forall>f \<in> set (mi_functions mi). \<forall>f' \<in> set (mi_functions mi).
       f_method_name f = f_method_name f' \<and> reach (mi_aliases mi) (f_name f) \<inter> reach (mi_aliases mi) (f_name f') \<noteq> {}
         \<longrightarrow> f_class_name f = f_class_name f'"
    and small: "\<And>cg byn. build_callgraph attrs (mi_icfs mi) (mi_functions mi) (mi_classes mi) (mi_cha mi) (mi_fats mi)
        (mi_aliases mi) [] = Some (cg, byn) \<Longrightarrow>
      card (keys cg) + card (keys (build_retgraph (mi_functions mi) cg byn (rt_modules rt))) < 125 ^ 4"
    and vs: "version_space rt + 1 < VERSION_SPACE_MAX"
  shows "\<exists>rt'. gen_cfg nop False attrs obs rt = Some rt'"
proof -
  have "metainfo_ok mi" using merge_mcfi_metainfo_ok [OF ok empty_metainfo_ok] mi by auto
  then have input: "cg_input_ok (mi_icfs mi) (mi_functions mi) (mi_classes mi) (mi_cha mi) (mi_aliases mi)"
    by (simp add: metainfo_ok_def)
  obtain cg byn where cg: "build_callgraph attrs (mi_icfs mi) (mi_functions mi) (mi_classes mi) (mi_cha mi) (mi_fats mi)
      (mi_aliases mi) [] = Some (cg, byn)" using build_callgraph_total [OF input one] by blast
  let ?rg = "build_retgraph (mi_functions mi) cg byn (rt_modules rt)"
  have sym: "g_sym cg" using build_callgraph_sym [OF input cg] .
  then have sym': "g_sym ?rg" by (rule inv_intros)
  obtain lcg where lcg: "g_get_lcc cg = Some lcg" using g_get_lcc_classes [OF sym] by auto
  obtain lrt where lrt: "g_get_lcc ?rg = Some lrt" using g_get_lcc_classes [OF sym'] by auto
  note lcc = lcg lrt
  obtain version others callids retids where ids: "gen_mcfi_id False lcg lrt (rt_version rt) = Some (version, others, callids, retids)"
    using gen_mcfi_id_graphs [OF sym sym' lcc small [OF cg]] by blast
  obtain fic where fic: "compute_fic (mi_fats_in_code mi) (mi_fats_in_data mi) [] = Some (fic, mi_fats_in_data mi)"
    using compute_fic_Nil by blast
  obtain vm where vm: "compute_tc_vmtd (rt_modules rt) (vtabletaken rt) [] (mi_defined_ctors mi) [] = Some vm"
    using compute_tc_vmtd_Nil by blast
  have live: "tcb_self ` {t \<in> set (tcb_list rt). \<not> tcb_remove t} \<subseteq> keys (thread_escape_map rt)"
    "distinct (map tcb_self (tcb_list rt))" using inv by (simp_all add: tcb_inv_def)
  obtain b where sf: "safe (thread_escape_map rt) (tcb_list rt) = Some b" using safe_Some [OF live(1)] by blast
  obtain e where e: "update_thesc (tcb_list rt) (thread_escape_map rt) = Some e" using update_thesc_Some [OF live] by blast
  have "next_version_space obs (rt\<lparr> rt_version := version \<rparr>) =
      Some (rt\<lparr> rt_version := version, version_space := (if b then 0 else version_space rt + 1) \<rparr>)"
    using sf vs by (simp add: next_version_space_def)
  then show ?thesis using mi cg lcc ids fic vm e
    by (simp add: gen_cfg_def Let_def split: prod.splits)
qed

text \<open>A module with one function, an indirect call of its type and a direct call to it.\<close>

definition ex_gen_func :: func where
  "ex_gen_func = ex_func 0x1000 0 0 0x2000 [0x3000]"

definition ex_gen_icf :: icf where
  "ex_gen_icf = \<lparr> icf_id = 0x4000, ity = NormalCall, icf_type = 0x2000, icf_attrs = 0, icf_class_name = 0, icf_method_name = 0 \<rparr>"

definition ex_gen_module :: codemodule where
  "ex_gen_module = alloc_code_module\<lparr> base_addr := 0x20000, m_sz := 0x1000, instrumented := True,
     m_icfs := [ex_gen_icf], m_functions := [ex_gen_func], m_fats := [(0x1000, ())],
     m_funcsyms := [\<lparr> s_name = 0x1000, s_offset = 8 \<rparr>], m_rad := [\<lparr> s_name = 0x1000, s_offset = 16 \<rparr>],
     m_icfsyms := [\<lparr> s_name = 0x4000, s_offset = 0x11000 \<rparr>, \<lparr> s_name = 0x3000, s_offset = 0x11008 \<rparr>] \<rparr>"

definition ex_gen_runtime :: runtime where
  "ex_gen_runtime = ex_runtime\<lparr> rt_modules := [ex_gen_module], rt_table := (\<lambda>_. 0)(0x20008 := 5) \<rparr>"

definition ex_gen_mi :: metainfo where
  "ex_gen_mi = empty_metainfo\<lparr> mi_icfs := [ex_gen_icf], mi_functions := [ex_gen_func], mi_fats := [(0x1000, ())] \<rparr>"

definition ex_gen_cg :: "name graph" where
  "ex_gen_cg = [(mark_icj 0x4000, [(0x1000, ())]), (0x1000, [(mark_icj 0x4000, ())])]"

lemma ex_gen_sel [simp]:
  "rt_modules ex_gen_runtime = [ex_gen_module]" "version_space ex_gen_runtime = 0"
  "rt_table ex_gen_runtime = (\<lambda>_. 0)(0x20008 := 5)" "rt_version ex_gen_runtime = 1"
  "rt_cfggened ex_gen_runtime" "instrumented ex_gen_module" "base_addr ex_gen_module = 0x20000"
  "m_funcsyms ex_gen_module = [\<lparr> s_name = 0x1000, s_offset = 8 \<rparr>]"
  "m_rad ex_gen_module = [\<lparr> s_name = 0x1000, s_offset = 16 \<rparr>]" "m_rai ex_gen_module = []"
  "m_icfsyms ex_gen_module = [\<lparr> s_name = 0x4000, s_offset = 0x11000 \<rparr>, \<lparr> s_name = 0x3000, s_offset = 0x11008 \<rparr>]"
  by (simp_all add: ex_gen_runtime_def ex_runtime_def ex_gen_module_def alloc_code_module_def)

lemma ex_gen_modules_ok: "\<forall>m \<in> set (rt_modules ex_gen_runtime). module_ok m"
  by (simp add: module_ok_def cg_input_ok_def ex_gen_module_def alloc_code_module_def ex_gen_icf_def
      ex_gen_func_def ex_func_def classes_wf_def user_ptr_def)


lemma ex_gen_merge: "merge_mcfi_metainfo (rt_modules ex_gen_runtime) empty_metainfo = Some ex_gen_mi"
  by (simp add: merge_mcfi_metainfo_def merge_module_def empty_metainfo_def ex_gen_module_def alloc_code_module_def
      ex_gen_mi_def merge_dicts_def merge_icfs_append merge_functions_append merge_graphs_def dict_add_def dict_in_def dict_put_def)

lemma ex_gen_mi_sel [simp]:
  "mi_icfs ex_gen_mi = [ex_gen_icf]" "mi_functions ex_gen_mi = [ex_gen_func]" "mi_classes ex_gen_mi = []"
  "mi_cha ex_gen_mi = []" "mi_fats ex_gen_mi = [(0x1000, ())]" "mi_aliases ex_gen_mi = []"
  by (simp_all add: ex_gen_mi_def empty_metainfo_def)

lemma ex_gen_build:
  "build_callgraph 0 [ex_gen_icf] [ex_gen_func] [] [] [(0x1000, ())] [] [] = Some (ex_gen_cg, [(0x1000, [(0, ())])])"
  by code_simp

lemma ex_gen_rg_keys:
  "keys (build_retgraph [ex_gen_func] ex_gen_cg [(0x1000, [(0, ())])] [ex_gen_module]) =
     {mark_icj 0x4000, 0x1000, mark_ret 0x3000, mark_ra_dc 0x1000}"
  by (simp add: build_retgraph_def ret_function_def ret_module_def ex_gen_func_def ex_func_def ex_gen_cg_def Let_def)
    auto

lemma ex_gen_tcb: "tcb_inv ex_gen_runtime"
  unfolding tcb_inv_def ex_gen_runtime_def ex_runtime_def runtime.simps live_Cons
  by (simp add: dict_wf_def alloc_tcb_def)

lemma ex_gen_small:
  "card (keys ex_gen_cg) + card (keys (build_retgraph [ex_gen_func] ex_gen_cg [(0x1000, [(0, ())])] [ex_gen_module])) < 125 ^ 4"
proof -
  have "card (keys ex_gen_cg) \<le> 2" by (simp add: ex_gen_cg_def card_insert_if)
  moreover have "card (keys (build_retgraph [ex_gen_func] ex_gen_cg [(0x1000, [(0, ())])] [ex_gen_module])) \<le> 4"
    unfolding ex_gen_rg_keys by (simp add: card_insert_if)
  ultimately show ?thesis by simp
qed


section \<open>Properties\<close>






text \<open>C8: the generation always completes. For well-formed modules and threads, fewer graph
  vertices than half identifiers, a version counter that has not run out, and no name that
  stands for same-named methods of two classes, \<open>gen_cfg\<close> fails none of its assertions and
  returns.\<close>

theorem gen_cfg_completes:
  assumes ok: "\<forall>m \<in> set (rt_modules rt). module_ok m" and inv: "tcb_inv rt"
    and mi: "merge_mcfi_metainfo (rt_modules rt) empty_metainfo = Some mi"
    and one: "\<forall>f \<in> set (mi_functions mi). \<forall>f' \<in> set (mi_functions mi).
       f_method_name f = f_method_name f' \<and> reach (mi_aliases mi) (f_name f) \<inter> reach (mi_aliases mi) (f_name f') \<noteq> {}
         \<longrightarrow> f_class_name f = f_class_name f'"
    and small: "\<And>cg byn. build_callgraph attrs (mi_icfs mi) (mi_functions mi) (mi_classes mi) (mi_cha mi) (mi_fats mi)
        (mi_aliases mi) [] = Some (cg, byn) \<Longrightarrow>
      card (keys cg) + card (keys (build_retgraph (mi_functions mi) cg byn (rt_modules rt))) < 125 ^ 4"
    and vs: "version_space rt + 1 < VERSION_SPACE_MAX"
  shows "\<exists>rt'. gen_cfg nop False attrs obs rt = Some rt'"
  using assms by (rule gen_cfg_total)

theorem gen_cfg_completes_witness:
  "\<exists>rt'. gen_cfg False False 0 [] ex_gen_runtime = Some rt'"
  by (rule gen_cfg_completes [OF ex_gen_modules_ok ex_gen_tcb ex_gen_merge])
    (use ex_gen_small ex_gen_build in \<open>simp_all add: VERSION_SPACE_MAX_def\<close>)

end
