(* ===== verification/Codeheap.thy ===== *)
theory Codeheap
  imports Runtime
begin

unbundle bit_operations_syntax

text \<open>
  Code heaps for just-in-time compilers (\<open>src/runtime/src/runtime.c\<close>): the bitmap that tells
  code from data bytes, overlap tests against read-only modules, moving and deleting code, the
  DFA-driven verifier of generated code and the installation of verified code. Sizes and
  addresses are 64-bit words; the bitmaps are byte arrays, bit \<open>i mod 8\<close> of byte
  \<open>i div 8\<close> standing for byte \<open>i\<close> of the heap.
\<close>

section \<open>The code/data bitmap\<close>

definition ROCK_INVALID :: int where "ROCK_INVALID = - 1"

definition ROCK_DATA :: int where "ROCK_DATA = 0"

definition ROCK_CODE :: int where "ROCK_CODE = 1"

definition ROCK_VERIFY :: u64 where "ROCK_VERIFY = 4"

definition ROCK_COPY :: u64 where "ROCK_COPY = 8"

definition ROCK_REPLACE :: u64 where "ROCK_REPLACE = 16"

definition bmp_bit :: "mem \<Rightarrow> nat \<Rightarrow> bool" where
  "bmp_bit bmp i \<longleftrightarrow> bit (bmp (i div 8)) (i mod 8)"

definition count_bits :: "mem \<Rightarrow> u64 \<Rightarrow> u64 \<Rightarrow> u64" where
  "count_bits bmp base len = of_nat (length (filter (bmp_bit bmp) [unat base..<unat (base + len)]))"

definition popcountl :: "u64 \<Rightarrow> u64" where
  "popcountl w = of_nat (length (filter (bit w) [0..<64]))"

text \<open>The loop over whole words adds the population count of the same word each time: the
  pointer is never advanced.\<close>

definition which_area :: "mem \<Rightarrow> u64 \<Rightarrow> u64 \<Rightarrow> int" where
  "which_area cdbmp base len =
     (let bitlen = len;
          bitsum = (if len < 32 then count_bits cdbmp base len
                    else
                      let base_align = base AND NOT 7;
                          head = 8 - (base - base_align);
                          (sum, len, base) =
                            (if base AND 7 \<noteq> 0
                             then (count_bits cdbmp base head, len - head, base_align + 8)
                             else (0, len, base));
                          trail_len = len AND 63;
                          sum = (if trail_len \<noteq> 0
                                 then sum + count_bits cdbmp (base + (len - trail_len)) trail_len else sum);
                          word = read64 cdbmp (unat (base div 8))
                      in fold (\<lambda>i s. s + popcountl word) [0..<unat (drop_bit 6 len)] sum)
      in if bitsum = bitlen then ROCK_CODE else if bitsum = 0 then ROCK_DATA else ROCK_INVALID)"

definition set_bits :: "nat \<Rightarrow> nat \<Rightarrow> mem \<Rightarrow> mem" where
  "set_bits a b bmp = fold (\<lambda>i bmp. bmp(i div 8 := bmp (i div 8) OR push_bit (i mod 8) 1)) [a..<b] bmp"

definition clear_bits :: "nat \<Rightarrow> nat \<Rightarrow> mem \<Rightarrow> mem" where
  "clear_bits a b bmp = fold (\<lambda>i bmp. bmp(i div 8 := bmp (i div 8) AND NOT (push_bit (i mod 8) 1))) [a..<b] bmp"

definition set_code :: "mem \<Rightarrow> u64 \<Rightarrow> u64 \<Rightarrow> mem" where
  "set_code cdbmp base len =
     (if len < 16 then set_bits (unat base) (unat (base + len)) cdbmp
      else
        let base_align = base AND NOT 7;
            k = unat (base - base_align);
            (bmp, len, base) =
              (if base AND 7 \<noteq> 0
               then (cdbmp(unat base_align := cdbmp (unat base_align) OR push_bit k (drop_bit k 0xff)),
                     len - (8 - (base - base_align)), base_align + 8)
               else (cdbmp, len, base));
            trail_len = len AND 7;
            trail_base = base + (len - trail_len);
            bmp = (if trail_len \<noteq> 0
                   then bmp(unat (trail_base div 8) := bmp (unat (trail_base div 8)) OR (push_bit (unat trail_len) 1 - 1))
                   else bmp)
        in fold (\<lambda>i bmp. bmp(unat (base div 8) + i := 0xff)) [0..<unat (len div 8)] bmp)"

definition set_data :: "mem \<Rightarrow> u64 \<Rightarrow> u64 \<Rightarrow> mem" where
  "set_data cdbmp base len =
     (if len < 16 then clear_bits (unat base) (unat (base + len)) cdbmp
      else
        let base_align = base AND NOT 7;
            k = unat (base - base_align);
            (bmp, len, base) =
              (if base AND 7 \<noteq> 0
               then (cdbmp(unat base_align := cdbmp (unat base_align) AND drop_bit (8 - k) 0xff),
                     len - (8 - (base - base_align)), base_align + 8)
               else (cdbmp, len, base));
            trail_len = len AND 7;
            trail_base = base + (len - trail_len);
            bmp = (if trail_len \<noteq> 0
                   then bmp(unat (trail_base div 8) := bmp (unat (trail_base div 8)) AND push_bit (unat trail_len) 0xff)
                   else bmp)
        in fold (\<lambda>i bmp. bmp(unat (base div 8) + i := 0)) [0..<unat (len div 8)] bmp)"

section \<open>Overlap tests\<close>

definition range_overlap :: "u64 \<Rightarrow> u64 \<Rightarrow> u64 \<Rightarrow> u64 \<Rightarrow> bool" where
  "range_overlap r1 len1 r2 len2 =
     (if r1 = r2 then True
      else if r1 < r2 \<and> r1 + len1 > r2 then True
      else if r2 < r1 \<and> r2 + len2 > r1 then True
      else False)"

definition PROT_READ :: u32 where "PROT_READ = 1"

definition PROT_WRITE :: u32 where "PROT_WRITE = 2"

definition PROT_EXEC :: u32 where "PROT_EXEC = 4"

definition insecure_overlap_rdonly :: "codemodule list \<Rightarrow> u64 \<Rightarrow> u64 \<Rightarrow> u32 \<Rightarrow> bool" where
  "insecure_overlap_rdonly modules start len prot \<longleftrightarrow>
     prot AND PROT_WRITE \<noteq> 0 \<and>
     list_ex (\<lambda>m. \<not> code_heap m \<and>
       (range_overlap start len (base_addr m) (m_sz m) \<or> range_overlap start len (gotplt m) (gotpltsz m))) modules"

definition in_code_heap :: "codemodule list \<Rightarrow> u64 \<Rightarrow> u64 \<Rightarrow> codemodule option" where
  "in_code_heap modules start len =
     List.find (\<lambda>m. code_heap m \<and> start \<ge> base_addr m \<and> start + len \<le> base_addr m + m_sz m) modules"

section \<open>Deleting and moving code\<close>

text \<open>A handle is a pointer to a module, \<open>None\<close> the null pointer. The cached module of the C
  function is never assigned, so a null handle passes the test and is dereferenced.\<close>

definition get_code_heap :: "codemodule list \<Rightarrow> nat option \<Rightarrow> nat option" where
  "get_code_heap modules h =
     (case h of None \<Rightarrow> None
      | Some i \<Rightarrow> if i < length modules \<and> code_heap (modules ! i) then Some i else None)"

definition zero_words :: "nat \<Rightarrow> nat \<Rightarrow> mem \<Rightarrow> mem" where
  "zero_words a n t = fold (\<lambda>i t. write64 t (a + 8 * i) 0) [0..<n] t"

definition delete_code :: "nat option \<Rightarrow> u64 \<Rightarrow> u64 \<Rightarrow> runtime \<Rightarrow> runtime option" where
  "delete_code h addr len rt = do {
     i \<leftarrow> get_code_heap (rt_modules rt) h;
     let m = rt_modules rt ! i;
     CHECK (\<not> (len \<ge> FourGB \<or> addr < base_addr m \<or> addr + len > base_addr m + m_sz m));
     CHECK (\<not> ((addr > base_addr m \<and> which_area (code_data_bitmap m) (addr - base_addr m - 1) 2 = ROCK_CODE) \<or>
               (addr + len < base_addr m + m_sz m \<and> which_area (code_data_bitmap m) (addr + len - 1) 2 = ROCK_CODE)));
     let m' = m\<lparr> code_data_bitmap := set_data (code_data_bitmap m) (addr - base_addr m) len \<rparr>;
     let a = addr AND NOT 7;
     let n = ((len + 7) AND NOT 7) div 8;
     Some (rt\<lparr> rt_modules := (rt_modules rt)[i := m'], rt_table := zero_words (unat a) (unat n) (rt_table rt) \<rparr>) }"

text \<open>Moving the nonzero words of the table, one by one.\<close>

definition move_words :: "nat \<Rightarrow> nat \<Rightarrow> nat \<Rightarrow> mem \<Rightarrow> mem" where
  "move_words p q n t =
     fold (\<lambda>i t. let tmp = read64 t (q + 8 * i)
                 in if tmp \<noteq> 0 then write64 (write64 t (q + 8 * i) 0) (p + 8 * i) tmp else t) [0..<n] t"

definition move_code :: "nat option \<Rightarrow> u64 \<Rightarrow> u64 \<Rightarrow> u64 \<Rightarrow> runtime \<Rightarrow> runtime option" where
  "move_code h target source len rt = do {
     i \<leftarrow> get_code_heap (rt_modules rt) h;
     let m = rt_modules rt ! i;
     CHECK (\<not> (len \<ge> FourGB \<or> target < base_addr m \<or> target + len > base_addr m + m_sz m \<or> target AND 7 \<noteq> 0));
     CHECK (\<not> (source < base_addr m \<or> source + len > base_addr m + m_sz m));
     CHECK (which_area (code_data_bitmap m) (source - base_addr m) len = ROCK_CODE);
     CHECK (\<not> ((source > base_addr m \<and> which_area (code_data_bitmap m) (source - base_addr m - 1) 1 = ROCK_CODE) \<or>
               (source + len < base_addr m + m_sz m \<and> which_area (code_data_bitmap m) (source + len) 1 = ROCK_CODE)));
     CHECK (which_area (code_data_bitmap m) (target - base_addr m) len = ROCK_DATA);
     let bmp = set_code (set_data (code_data_bitmap m) (source - base_addr m) len) (target - base_addr m) len;
     let m' = m\<lparr> code_data_bitmap := bmp \<rparr>;
     let n = ((len + 7) AND NOT 7) div 8;
     Some (rt\<lparr> rt_modules := (rt_modules rt)[i := m'],
               rt_table := move_words (unat (target AND NOT 7)) (unat (source AND NOT 7)) (unat n) (rt_table rt) \<rparr>) }"

section \<open>The verifier\<close>

definition dfa_lookup :: "verifier \<Rightarrow> u16 \<Rightarrow> u8 \<Rightarrow> u16" where
  "dfa_lookup v state byte = dfa v (unat state * 256 + unat byte)"

definition accepts :: "verifier \<Rightarrow> u16 \<Rightarrow> bool" where
  "accepts v state \<longleftrightarrow> state \<le> max_accept v \<and> state > 0"

definition accepts_others :: "verifier \<Rightarrow> u16 \<Rightarrow> bool" where
  "accepts_others v state \<longleftrightarrow> state > max_accept v \<and> state < v_start v"

definition accepts_dcall :: "verifier \<Rightarrow> u16 \<Rightarrow> bool" where
  "accepts_dcall v state \<longleftrightarrow> v_dcall v = state"

definition accepts_icall :: "verifier \<Rightarrow> u16 \<Rightarrow> bool" where
  "accepts_icall v state \<longleftrightarrow> v_icall v = state"

definition accepts_ijmp :: "verifier \<Rightarrow> u16 \<Rightarrow> bool" where
  "accepts_ijmp v state \<longleftrightarrow> v_ijmp v = state"

definition accepts_jmp_rel1 :: "verifier \<Rightarrow> u16 \<Rightarrow> bool" where
  "accepts_jmp_rel1 v state \<longleftrightarrow> v_jmp_rel1 v = state"

definition accepts_jmp_rel4 :: "verifier \<Rightarrow> u16 \<Rightarrow> bool" where
  "accepts_jmp_rel4 v state \<longleftrightarrow> v_jmp_rel4 v = state"

definition accepts_jcc_rel1 :: "verifier \<Rightarrow> u16 \<Rightarrow> bool" where
  "accepts_jcc_rel1 v state \<longleftrightarrow> v_jcc_rel1 v = state"

definition accepts_jcc_rel4 :: "verifier \<Rightarrow> u16 \<Rightarrow> bool" where
  "accepts_jcc_rel4 v state \<longleftrightarrow> v_jcc_rel4 v = state"

definition accepts_mcficall :: "verifier \<Rightarrow> u16 \<Rightarrow> bool" where
  "accepts_mcficall v state \<longleftrightarrow> v_mcficall v = state"

definition accepts_mcficheck :: "verifier \<Rightarrow> u16 \<Rightarrow> bool" where
  "accepts_mcficheck v state \<longleftrightarrow> v_mcficheck v = state"

definition accepts_mcfiret :: "verifier \<Rightarrow> u16 \<Rightarrow> bool" where
  "accepts_mcfiret v state \<longleftrightarrow> v_mcfiret v = state"

definition accepts_terminator :: "verifier \<Rightarrow> u16 \<Rightarrow> bool" where
  "accepts_terminator v state \<longleftrightarrow> v_terminator v = state"

definition terminator :: "verifier \<Rightarrow> u16 \<Rightarrow> bool" where
  "terminator v state \<longleftrightarrow> accepts_terminator v state \<or> accepts_dcall v state \<or> accepts_icall v state \<or>
     accepts_ijmp v state \<or> accepts_jmp_rel1 v state \<or> accepts_jmp_rel4 v state \<or> accepts_mcficall v state \<or>
     accepts_mcficheck v state \<or> accepts_mcfiret v state"

text \<open>\<open>verify\<close> on the bytes from \<open>cur\<close> to \<open>end\<close>; \<open>out\<close> holds the out-parameters
  \<open>end_state\<close> and \<open>endptr\<close>, and the result is 0, -1 or 1 with the final out-parameters.\<close>

fun verify :: "verifier \<Rightarrow> u8 list \<Rightarrow> nat \<Rightarrow> u16 \<Rightarrow> u16 \<times> nat \<Rightarrow> int \<times> u16 \<times> nat" where
  "verify v [] cur state out = (1, out)"
| "verify v (b # bs) cur state out =
     (let state = dfa_lookup v state b; cur = Suc cur
      in if state \<ge> v_start v then verify v bs cur state out
         else if accepts v state then
           (case bs of
              c # d # bs' \<Rightarrow>
                (let next_state = dfa_lookup v state c
                 in if next_state \<noteq> 0 then (0, snd (verify v (d # bs') (Suc cur) next_state (state, cur)))
                    else (0, state, cur))
            | _ \<Rightarrow> (0, state, cur))
         else if accepts_others v state then (0, state, cur)
         else if state = 0 then (- 1, out)
         else verify v bs cur state out)"

text \<open>The state of the automaton after a sequence of bytes, and the instructions it accepts: the
  bytes from \<open>cur\<close> to \<open>e\<close> lead from \<open>st\<close> to the accepting state \<open>s\<close>.\<close>

definition dfa_run :: "verifier \<Rightarrow> u16 \<Rightarrow> u8 list \<Rightarrow> u16" where
  "dfa_run v st bs = fold (\<lambda>b s. dfa_lookup v s b) bs st"

definition accepted :: "verifier \<Rightarrow> u16 \<Rightarrow> u8 list \<Rightarrow> nat \<Rightarrow> u16 \<Rightarrow> nat \<Rightarrow> bool" where
  "accepted v st bs cur s e \<longleftrightarrow>
     cur < e \<and> e \<le> cur + length bs \<and> (accepts v s \<or> accepts_others v s) \<and> s = dfa_run v st (take (e - cur) bs)"

lemma accepted_bounds: "accepted v st bs cur s e \<Longrightarrow> cur < e \<and> e \<le> cur + length bs"
  by (simp add: accepted_def)

lemma accepted_Cons:
  "accepted v (dfa_lookup v st b) bs (Suc cur) s e \<Longrightarrow> accepted v st (b # bs) cur s e"
  by (cases "e - cur") (auto simp: accepted_def dfa_run_def Suc_diff_Suc [symmetric])

lemma accepted_first:
  "accepts v (dfa_lookup v st b) \<or> accepts_others v (dfa_lookup v st b) \<Longrightarrow>
     accepted v st (b # bs) cur (dfa_lookup v st b) (Suc cur)"
  by (simp add: accepted_def dfa_run_def)

lemma verify_out:
  "verify v bs cur st (s0, e0) = (r, s, e) \<Longrightarrow>
     (r = 0 \<longrightarrow> accepted v st bs cur s e) \<and> ((s, e) = (s0, e0) \<or> accepted v st bs cur s e)"
proof (induction bs arbitrary: cur st s0 e0 r s e rule: length_induct)
  case (1 bs)
  show ?case
  proof (cases bs)
    case Nil
    then show ?thesis using "1.prems" by simp
  next
    case (Cons b bs1)
    let ?st = "dfa_lookup v st b"
    consider (go) "v_start v \<le> ?st" | (acc) "\<not> v_start v \<le> ?st" "accepts v ?st"
      | (oth) "\<not> v_start v \<le> ?st" "\<not> accepts v ?st" "accepts_others v ?st"
      | (zero) "\<not> v_start v \<le> ?st" "\<not> accepts v ?st" "\<not> accepts_others v ?st" "?st = 0"
      | (rest) "\<not> v_start v \<le> ?st" "\<not> accepts v ?st" "\<not> accepts_others v ?st" "?st \<noteq> 0" by blast
    then show ?thesis
    proof cases
      case go
      then have "verify v bs1 (Suc cur) ?st (s0, e0) = (r, s, e)" using "1.prems" Cons by simp
      from "1.IH" [rule_format, of bs1, OF _ this] Cons show ?thesis by (auto intro: accepted_Cons)
    next
      case rest
      then have "verify v bs1 (Suc cur) ?st (s0, e0) = (r, s, e)" using "1.prems" Cons by simp
      from "1.IH" [rule_format, of bs1, OF _ this] Cons show ?thesis by (auto intro: accepted_Cons)
    next
      case oth
      then show ?thesis using "1.prems" Cons accepted_first [of v st b bs1 cur] by auto
    next
      case zero
      then show ?thesis using "1.prems" Cons by auto
    next
      case acc
      note here = accepted_first [of v st b bs1 cur, OF disjI1, OF acc(2)]
      show ?thesis
      proof (cases "\<exists>c d bs'. bs1 = c # d # bs' \<and> dfa_lookup v ?st c \<noteq> 0")
        case True
        then obtain c d bs' where bs1: "bs1 = c # d # bs'" "dfa_lookup v ?st c \<noteq> 0" by blast
        obtain r1 s1 e1 where v1: "verify v (d # bs') (Suc (Suc cur)) (dfa_lookup v ?st c) (?st, Suc cur) = (r1, s1, e1)"
          by (metis prod_cases3)
        have "verify v bs cur st (s0, e0) = (0, s1, e1)" using acc Cons bs1 v1 by simp
        then have rs: "r = 0" "s = s1" "e = e1" using "1.prems" by simp_all
        have "length (d # bs') < length bs" using Cons bs1(1) by simp
        from "1.IH" [rule_format, OF this v1] here Cons bs1(1) rs show ?thesis
          by (auto intro!: accepted_Cons)
      next
        case False
        have "verify v (b # bs1) cur st (s0, e0) = (0, ?st, Suc cur)"
        proof (cases "length bs1 < 2")
          case True
          then have "bs1 = [] \<or> (\<exists>c. bs1 = [c])" by (cases bs1) auto
          then show ?thesis using acc by (elim disjE exE) (simp_all add: Let_def)
        next
          case long: False
          then obtain c d bs' where bs1: "bs1 = c # d # bs'" by (cases bs1; cases "tl bs1") auto
          then have "dfa_lookup v ?st c = 0" using False by blast
          then show ?thesis using acc bs1 by (simp add: Let_def)
        qed
        then have "verify v bs cur st (s0, e0) = (0, ?st, Suc cur)" using Cons by simp
        then show ?thesis using "1.prems" here Cons by auto
      qed
    qed
  qed
qed

section \<open>Verification of generated code\<close>

text \<open>The signed displacement at the end of a branch instruction that ends at \<open>e\<close>, and the
  address it leads to. A displacement that would start before the code is outside the model.\<close>

definition branch_target :: "u8 list \<Rightarrow> u64 \<Rightarrow> nat \<Rightarrow> bool \<Rightarrow> u64 option" where
  "branch_target code install_addr e rel1 =
     (if rel1 then (if e < 1 then None else Some (install_addr + of_nat e + scast (code ! (e - 1))))
      else if e < 4 then None
      else Some (install_addr + of_nat e +
             scast ((ucast (code ! (e - 4)) OR push_bit 8 (ucast (code ! (e - 3))) OR
                     push_bit 16 (ucast (code ! (e - 2))) OR push_bit 24 (ucast (code ! (e - 1)))) :: u32)))"

definition in_module :: "codemodule \<Rightarrow> u64 \<Rightarrow> bool" where
  "in_module m a \<longleftrightarrow> base_addr m \<le> a \<and> a < base_addr m + m_sz m"

text \<open>What is recorded for the instruction that ends at \<open>e\<close> in state \<open>s\<close>; \<open>data\<close> is the
  address of the buffer.\<close>

definition check_insn ::
  "codemodule \<Rightarrow> verifier \<Rightarrow> u8 list \<Rightarrow> u64 \<Rightarrow> u64 \<Rightarrow> u16 \<Rightarrow> nat \<Rightarrow> u32 list \<Rightarrow> u32 list option" where
  "check_insn m v code data install_addr s e targets =
     (if s > max_accept v then
        (if accepts_jmp_rel1 v s \<or> accepts_jcc_rel1 v s then do {
           t \<leftarrow> branch_target code install_addr e True; CHECK (in_module m t); Some (targets @ [ucast t]) }
         else if accepts_jmp_rel4 v s \<or> accepts_jcc_rel4 v s then do {
           t \<leftarrow> branch_target code install_addr e False; CHECK (in_module m t); Some (targets @ [ucast t]) }
         else if accepts_dcall v s then do {
           t \<leftarrow> branch_target code install_addr e False; CHECK (in_module m t); Some (targets @ [ucast t]) }
         else if accepts_mcficall v s then do { CHECK ((data + of_nat e) AND 7 = 0); Some targets }
         else Some targets)
      else Some targets)"

type_synonym vstate = "u8 list \<times> u32 list \<times> u16 \<times> nat"

function verify_loop ::
  "codemodule \<Rightarrow> verifier \<Rightarrow> u8 list \<Rightarrow> u64 \<Rightarrow> u64 \<Rightarrow> nat \<Rightarrow> vstate \<Rightarrow> vstate option" where
  "verify_loop m v code data install_addr ptr st =
     (if ptr < length code then
        (case st of (tary, targets, s0, e0) \<Rightarrow>
           (case verify v (drop ptr code) ptr (v_start v) (s0, e0) of (r, s, e) \<Rightarrow>
              if r \<noteq> 0 then None
              else
                (case check_insn m v code data install_addr s e targets of
                   None \<Rightarrow> None
                 | Some targets' \<Rightarrow>
                     verify_loop m v code data install_addr e (tary[ptr := ucast DCV], targets', s, e))))
      else Some st)"
  by pat_completeness auto

text \<open>Each round moves to the end of a verified instruction.\<close>

termination
proof (relation "measure (\<lambda>(m, v, code, data, a, ptr, st). length code - ptr)", goal_cases)
  case 1
  show ?case by simp
next
  case 2
  then show ?case by (auto dest!: sym [of _ "verify _ _ _ _ _"] verify_out dest: accepted_bounds)
qed

declare verify_loop.simps [simp del]

definition check_target :: "codemodule \<Rightarrow> mem \<Rightarrow> u64 \<Rightarrow> u8 list \<Rightarrow> u32 \<Rightarrow> bool" where
  "check_target m t install_addr tary j \<longleftrightarrow>
     (let a = ucast j :: u64; start = ucast (ucast install_addr :: u32) in
      in_module m a \<and>
      (if a < start \<or> a \<ge> start + of_nat (length tary) then t (unat a) = ucast DCV
       else tary ! unat (j - ucast install_addr) = ucast DCV))"

text \<open>\<open>state0\<close> is the indeterminate initial value of the local variable \<open>state\<close>.\<close>

definition verify_jitted_code ::
  "u16 \<Rightarrow> codemodule \<Rightarrow> verifier \<Rightarrow> mem \<Rightarrow> u8 list \<Rightarrow> u64 \<Rightarrow> u8 list \<Rightarrow> u64 \<Rightarrow> bool \<Rightarrow> u8 list option" where
  "verify_jitted_code state0 m v t code data tary install_addr check_terminate = do {
     (tary', targets, s, e) \<leftarrow> verify_loop m v code data install_addr 0 (tary, [], state0, 0);
     CHECK (\<not> (check_terminate \<and> \<not> terminator v s));
     CHECK (list_all (check_target m t install_addr tary') targets);
     Some tary' }"

section \<open>Installing code\<close>

text \<open>\<open>memcpy\<close> of \<open>src/runtime/src/string.c\<close>: \<open>n\<close> bytes of \<open>src\<close> from \<open>s\<close> on to \<open>t\<close> from
  \<open>a\<close> on, one by one.\<close>

fun memcpy :: "mem \<Rightarrow> nat \<Rightarrow> mem \<Rightarrow> nat \<Rightarrow> nat \<Rightarrow> mem" where
  "memcpy t a src s 0 = t"
| "memcpy t a src s (Suc n) = memcpy (t(a := src s)) (Suc a) src (Suc s) n"

definition bytes_at :: "mem \<Rightarrow> nat \<Rightarrow> nat \<Rightarrow> u8 list" where
  "bytes_at t a n = map (\<lambda>i. t (a + i)) [0..<n]"

definition of_bytes :: "u8 list \<Rightarrow> mem" where
  "of_bytes bs i = (if i < length bs then bs ! i else 0)"

definition data_flag :: "u64 \<Rightarrow> bool" where
  "data_flag flags \<longleftrightarrow> flags AND of_int ROCK_CODE = 0"

text \<open>\<open>same_internal_boundary\<close> compares the two boundary maps and overwrites the first byte of
  every instruction of both code buffers. The elements are signed characters, and the test
  against the positive \<open>DCV\<close> is made on their sign-extended values.\<close>

definition is_DCV :: "u8 \<Rightarrow> bool" where
  "is_DCV c \<longleftrightarrow> (scast c :: u32) = ucast DCV"

definition mark_first_bytes :: "u8 list \<Rightarrow> u8 list \<Rightarrow> u8 list" where
  "mark_first_bytes tary code = map (\<lambda>(t, c). if is_DCV t then ucast DCV else c) (zip tary code)"

definition same_internal_boundary ::
  "u8 list \<Rightarrow> u8 list \<Rightarrow> u8 list \<Rightarrow> u8 list \<Rightarrow> bool \<times> u8 list \<times> u8 list" where
  "same_internal_boundary old_tary tary safe_old_code safe_code =
     (old_tary = tary, mark_first_bytes old_tary safe_old_code, mark_first_bytes tary safe_code)"

text \<open>The writable alias of a sandbox address of the heap.\<close>

definition heap_alias :: "codemodule \<Rightarrow> u64 \<Rightarrow> nat" where
  "heap_alias m a = unat (a - base_addr m + osb_base_addr m)"

text \<open>A patch inside one aligned 8-byte word is written with one 8-byte store, a longer one with
  the same boundaries in two passes. \<open>cpuid\<close> only serialises the instruction stream.\<close>

definition write_patch :: "mem \<Rightarrow> nat \<Rightarrow> u8 list \<Rightarrow> u8 list \<Rightarrow> mem" where
  "write_patch ob p code safe_code =
     (let len = length code; p_align = p div 8 * 8
      in if p + len \<le> p_align + 8
         then let v = memcpy (of_bytes (bytes_at ob p_align 8)) (p - p_align) (of_bytes code) 0 len
              in write64 ob p_align (read64 v 0)
         else memcpy (memcpy ob p (of_bytes safe_code) 0 len) p (of_bytes code) 0 len)"

text \<open>The \<open>ROCK_REPLACE\<close> part. \<open>safe_old_code\<close> is the buffer \<open>code\<close> itself, so the first component
  that \<open>same_internal_boundary\<close> updates is the code to be written. The test of the bitmap of
  internal branch targets has no effect. \<open>buf\<close> is the address \<open>malloc\<close> returned for that buffer, where
  the verifier reads the code, and \<open>junk\<close> the value of its uninitialised state variable.\<close>

definition replace_code ::
  "u16 \<Rightarrow> u64 \<Rightarrow> codemodule \<Rightarrow> u64 \<Rightarrow> mem \<Rightarrow> u64 \<Rightarrow> runtime \<Rightarrow> runtime option" where
  "replace_code junk buf m dst src len rt = do {
     let n = unat len;
     let d = unat dst;
     let p = heap_alias m dst;
     let t = rt_table rt;
     CHECK (t d = ucast DCV);
     let old_tary = bytes_at t d n;
     let area = which_area (code_data_bitmap m) (dst - base_addr m + len) 1;
     v \<leftarrow> m_verifier m;
     tary \<leftarrow> verify_jitted_code junk m v t (bytes_at src 0 n) buf (replicate n 0) dst (area \<noteq> ROCK_CODE);
     let (same, code, safe_code) = same_internal_boundary old_tary tary (bytes_at src 0 n) (bytes_at src 0 n);
     if same then Some (rt\<lparr> osb := write_patch (osb rt) p code safe_code \<rparr>)
     else
       let t = memset t d 0 n;
           ob = memcpy (osb rt) (p + 1) (of_bytes code) 1 (n - 1);
           t = memcpy t d (of_bytes tary) 0 n;
           ob = ob(p := code ! 0)
       in Some (rt\<lparr> rt_table := t, osb := ob \<rparr>) }"

text \<open>\<open>ROCK_VERIFY\<close>: the code that is already in place, read through its writable alias.\<close>

definition verify_code :: "u16 \<Rightarrow> nat \<Rightarrow> codemodule \<Rightarrow> u64 \<Rightarrow> u64 \<Rightarrow> runtime \<Rightarrow> runtime option" where
  "verify_code junk i m dst len rt = do {
     let n = unat len;
     CHECK (dst AND 7 = 0);
     v \<leftarrow> m_verifier m;
     tary \<leftarrow> verify_jitted_code junk m v (rt_table rt) (bytes_at (osb rt) (heap_alias m dst) n) dst (replicate n 0) dst True;
     let m' = m\<lparr> code_data_bitmap := set_code (code_data_bitmap m) (dst - base_addr m) len \<rparr>;
     Some (rt\<lparr> rt_table := memcpy (rt_table rt) (unat dst) (of_bytes tary) 0 n,
               rt_modules := (rt_modules rt)[i := m'] \<rparr>) }"

definition heap_range_ok :: "codemodule \<Rightarrow> u64 \<Rightarrow> u64 \<Rightarrow> bool" where
  "heap_range_ok m dst len \<longleftrightarrow>
     \<not> (len \<ge> FourGB \<or> dst < base_addr m \<or> dst + len > base_addr m + m_sz m)"

text \<open>The code branch of \<open>code_heap_fill\<close>. Copied code is always verified, and verified code is not
  replaced in the same call.\<close>

definition fill_code ::
  "u16 \<Rightarrow> u64 \<Rightarrow> nat \<Rightarrow> u64 \<Rightarrow> mem \<Rightarrow> u64 \<Rightarrow> u64 \<Rightarrow> runtime \<Rightarrow> runtime option" where
  "fill_code junk buf i dst src len flags rt = do {
     let m = rt_modules rt ! i;
     let area = which_area (code_data_bitmap m) (dst - base_addr m) len;
     let copy = (flags AND ROCK_COPY \<noteq> 0);
     CHECK (copy \<longrightarrow> area = ROCK_DATA);
     let rt = (if copy then rt\<lparr> osb := memcpy (osb rt) (heap_alias m dst) src 0 (unat len) \<rparr> else rt);
     let flags = (if copy then (flags OR ROCK_VERIFY) AND NOT ROCK_REPLACE else flags);
     if flags AND ROCK_VERIFY \<noteq> 0 then verify_code junk i m dst len rt
     else if flags AND ROCK_REPLACE \<noteq> 0 \<and> area = ROCK_CODE then replace_code junk buf m dst src len rt
     else Some rt }"

text \<open>A data write into code is extended to the start of its instruction; \<open>None\<close> when the walk
  leaves the table.\<close>

fun insn_start :: "mem \<Rightarrow> nat \<Rightarrow> nat \<Rightarrow> nat \<Rightarrow> (nat \<times> nat) option" where
  "insn_start t base dst len =
     (if base \<le> dst \<and> t dst \<noteq> ucast DCV
      then (case dst of 0 \<Rightarrow> None | Suc d \<Rightarrow> insn_start t base d (Suc len))
      else Some (dst, len))"

declare insn_start.simps [simp del]

definition code_heap_fill ::
  "u16 \<Rightarrow> u64 \<Rightarrow> nat option \<Rightarrow> u64 \<Rightarrow> mem \<Rightarrow> u64 \<Rightarrow> u64 \<Rightarrow> runtime \<Rightarrow> runtime option" where
  "code_heap_fill junk buf h dst src len flags rt = do {
     i \<leftarrow> get_code_heap (rt_modules rt) h;
     let m = rt_modules rt ! i;
     CHECK (heap_range_ok m dst len);
     let p = heap_alias m dst;
     if data_flag flags then do {
       let area = which_area (code_data_bitmap m) (dst - base_addr m) len;
       CHECK (area \<noteq> ROCK_INVALID);
       if area = ROCK_CODE then do {
         (d, n) \<leftarrow> insn_start (rt_table rt) (unat (base_addr m)) (unat dst) (unat len);
         let head = n - unat len;
         CHECK (heap_range_ok m (of_nat d) (of_nat n));
         let src_code = (\<lambda>j. if j < head then osb rt (heap_alias m (of_nat d) + j) else src (j - head));
         fill_code junk buf i (of_nat d) src_code (of_nat n) (of_int ROCK_CODE OR ROCK_REPLACE) rt }
       else Some (rt\<lparr> osb := memcpy (osb rt) p src 0 (unat len) \<rparr>) }
     else fill_code junk buf i dst src len flags rt }"

section \<open>Waiting for the threads\<close>

text \<open>\<open>wait\<close> records block and escape count of every thread outside system calls, in an array of
  256 words, and then repeats rounds over the array until one finds every thread past the
  point. A round reads the blocks as they are at that moment.\<close>

fun thread_escapes :: "tcb list \<Rightarrow> nat \<Rightarrow> (u64 \<times> u64) list \<times> nat" where
  "thread_escapes [] count = ([], count)"
| "thread_escapes (t # ts) count =
     (if count < 256 then
        if \<not> tcb_remove t \<and> insyscall t = 0
        then (case thread_escapes ts (count + 2) of (l, c) \<Rightarrow> ((tcb_self t, sandbox_escape t) # l, c))
        else thread_escapes ts count
      else ([], count))"

definition wait_record :: "tcb list \<Rightarrow> (u64 \<times> u64) list option" where
  "wait_record l = (case thread_escapes l 0 of (r, count) \<Rightarrow> do { CHECK (\<not> count \<ge> 256); Some r })"

text \<open>One round: \<open>now\<close> gives the current block at an address.\<close>

fun wait_round :: "(u64 \<Rightarrow> tcb) \<Rightarrow> (u64 \<times> u64) list \<Rightarrow> bool \<times> (u64 \<times> u64) list" where
  "wait_round now [] = (True, [])"
| "wait_round now ((p, e) # r) =
     (if p \<noteq> 0 then
        if insyscall (now p) \<noteq> 0 then (case wait_round now r of (b, r') \<Rightarrow> (b, (0, e) # r'))
        else if sandbox_escape (now p) = e then (False, (p, e) # r)
        else (case wait_round now r of (b, r') \<Rightarrow> (b, (p, e) # r'))
      else (case wait_round now r of (b, r') \<Rightarrow> (b, (p, e) # r')))"

text \<open>The rounds, against a sequence of observed states of the threads; \<open>None\<close> when the
  observations end before a round succeeds.\<close>

fun wait :: "(u64 \<Rightarrow> tcb) list \<Rightarrow> (u64 \<times> u64) list \<Rightarrow> nat option" where
  "wait [] r = None"
| "wait (now # obs) r =
     (case wait_round now r of (ok, r') \<Rightarrow> if ok then Some 0 else map_option Suc (wait obs r'))"

section \<open>The bitmap operations\<close>

lemma bmp_bit_upd_or:
  "bmp_bit (bmp(x div 8 := bmp (x div 8) OR push_bit (x mod 8) 1)) i \<longleftrightarrow> bmp_bit bmp i \<or> x = i"
proof (cases "x div 8 = i div 8")
  case True
  then have "x = i \<longleftrightarrow> x mod 8 = i mod 8" by (metis div_mult_mod_eq)
  then show ?thesis using True by (auto simp: bmp_bit_def bit_simps)
next
  case False
  then show ?thesis by (auto simp: bmp_bit_def)
qed

lemma bmp_bit_upd_clear:
  "bmp_bit (bmp(x div 8 := bmp (x div 8) AND NOT (push_bit (x mod 8) 1))) i \<longleftrightarrow> bmp_bit bmp i \<and> x \<noteq> i"
proof (cases "x div 8 = i div 8")
  case True
  then have "x = i \<longleftrightarrow> x mod 8 = i mod 8" by (metis div_mult_mod_eq)
  then show ?thesis using True by (auto simp: bmp_bit_def bit_simps)
next
  case False
  then show ?thesis by (auto simp: bmp_bit_def)
qed

lemma bmp_bit_set_bits: "bmp_bit (set_bits a b bmp) i \<longleftrightarrow> bmp_bit bmp i \<or> a \<le> i \<and> i < b"
proof -
  have "bmp_bit (set_bits a b bmp) i \<longleftrightarrow> bmp_bit bmp i \<or> (\<exists>x \<in> set [a..<b]. x = i)"
    unfolding set_bits_def by (rule fold_collect [where Q = "\<lambda>bmp. bmp_bit bmp i"]) (rule bmp_bit_upd_or)
  then show ?thesis by auto
qed

lemma bmp_bit_clear_bits: "bmp_bit (clear_bits a b bmp) i \<longleftrightarrow> bmp_bit bmp i \<and> \<not> (a \<le> i \<and> i < b)"
proof -
  have "\<not> bmp_bit (clear_bits a b bmp) i \<longleftrightarrow> \<not> bmp_bit bmp i \<or> (\<exists>x \<in> set [a..<b]. x = i)"
    unfolding clear_bits_def
    by (rule fold_collect [where Q = "\<lambda>bmp. \<not> bmp_bit bmp i"]) (simp add: bmp_bit_upd_clear del: push_bit_of_1)
  then show ?thesis by auto
qed

lemma fold_fill: "fold (\<lambda>i bmp. bmp(b + i := c)) [0..<n] bmp = (\<lambda>x. if b \<le> x \<and> x < b + n then c else bmp x)"
  by (induction n) (auto simp: fun_eq_iff)

lemma unat_and_7: "unat (x AND 7 :: u64) = unat x mod 8"
proof -
  have "x AND 7 = take_bit 3 x" by (simp add: take_bit_eq_mask mask_eq_exp_minus_1)
  then show ?thesis by (simp add: take_bit_eq_mod unat_mod)
qed

lemma aligned_split:
  fixes base len :: u64
  assumes "base AND 7 = 0" and "unat base + unat len < 2 ^ 64"
  shows "unat base = 8 * unat (base div 8)"
    and "unat (len AND 7) = unat len mod 8"
    and "unat ((base + (len - (len AND 7))) div 8) = unat (base div 8) + unat len div 8"
    and "unat (len div 8) = unat len div 8"
proof -
  have "unat base mod 8 = 0" using assms(1) unat_and_7 [of base] by simp
  moreover have d: "unat (base div 8) = unat base div 8" by (simp add: unat_div)
  ultimately show b: "unat base = 8 * unat (base div 8)"
    using div_mult_mod_eq [of "unat base" 8] by simp
  show t: "unat (len AND 7) = unat len mod 8" by (rule unat_and_7)
  have "len AND 7 \<le> len" by (simp add: word_le_nat_alt t)
  then have "unat (len - (len AND 7)) = 8 * (unat len div 8)"
    by (simp add: unat_sub t minus_mod_eq_mult_div)
  moreover have "8 * (unat len div 8) \<le> unat len" by simp
  then have "unat base + 8 * (unat len div 8) < 2 ^ 64" using assms(2) by linarith
  ultimately have "unat (base + (len - (len AND 7))) = unat base + 8 * (unat len div 8)"
    by (subst unat_word_ariths(1)) simp
  then have "unat ((base + (len - (len AND 7))) div 8) = (unat base + 8 * (unat len div 8)) div 8"
    by (simp add: unat_div)
  then show "unat ((base + (len - (len AND 7))) div 8) = unat (base div 8) + unat len div 8"
    using d by simp
  show "unat (len div 8) = unat len div 8" by (simp add: unat_div)
qed

lemma bit_0xff: "j < 8 \<Longrightarrow> bit (255 :: u8) j"
proof -
  have "(255 :: u8) = - 1" by simp
  then show "j < 8 \<Longrightarrow> bit (255 :: u8) j" by (simp only: bit_minus_1_iff) simp
qed

lemma bit_low_mask: "bit (push_bit k 1 - 1 :: u8) j \<longleftrightarrow> j < k \<and> j < 8"
  by (simp add: push_bit_eq_mult mask_eq_exp_minus_1 [symmetric] bit_simps conj_commute)
     
lemma bmp_bit_set_code:
  assumes fit: "unat base + unat len < 2 ^ 64" and al: "len < 16 \<or> base AND 7 = 0"
  shows "bmp_bit (set_code bmp base len) i \<longleftrightarrow> bmp_bit bmp i \<or> unat base \<le> i \<and> i < unat base + unat len"
proof (cases "len < 16")
  case True
  then show ?thesis using fit by (simp add: set_code_def bmp_bit_set_bits unat_word_ariths)
next
  case False
  then have b0: "base AND 7 = 0" using al by simp
  note sp = aligned_split [OF b0 fit]
  define B L r where "B = unat (base div 8)" and "L = unat len div 8" and "r = unat len mod 8"
  have len: "unat len = 8 * L + r" "r < 8" by (simp_all add: L_def r_def)
  let ?b1 = "if r \<noteq> 0 then bmp(B + L := bmp (B + L) OR (push_bit r 1 - 1)) else bmp"
  have eq: "set_code bmp base len = (\<lambda>x. if B \<le> x \<and> x < B + L then 0xff else ?b1 x)"
    using False b0 unfolding set_code_def Let_def fold_fill
    by (simp add: sp(2-4) B_def L_def r_def word_unat_eq_iff [of "len AND 7"] fold_fill cong: if_cong)
  have i: "i = 8 * (i div 8) + i mod 8" "i mod 8 < 8" by simp_all
  consider "i div 8 < B" | "B \<le> i div 8" "i div 8 < B + L" | "i div 8 = B + L" | "B + L < i div 8" by linarith
  then show ?thesis
  proof cases
    case 2
    then have "bmp_bit (set_code bmp base len) i" using bit_0xff [of "i mod 8"] by (simp add: eq bmp_bit_def)
    moreover have "unat base \<le> i" "i < unat base + unat len" using 2 i sp(1) len unfolding B_def by linarith+
    ultimately show ?thesis by simp
  next
    case 3
    then have "bmp_bit (set_code bmp base len) i \<longleftrightarrow> bmp_bit bmp i \<or> i mod 8 < r"
      using bit_low_mask [of r "i mod 8"] by (simp add: eq bmp_bit_def bit_or_iff)
    moreover have "unat base \<le> i" "i < unat base + unat len \<longleftrightarrow> i mod 8 < r" using 3 i sp(1) len unfolding B_def by linarith+
    ultimately show ?thesis by simp
  next
    case 1
    then have "bmp_bit (set_code bmp base len) i \<longleftrightarrow> bmp_bit bmp i" by (simp add: eq bmp_bit_def)
    moreover have "i < unat base" using 1 i sp(1) unfolding B_def by linarith
    ultimately show ?thesis by simp
  next
    case 4
    then have "bmp_bit (set_code bmp base len) i \<longleftrightarrow> bmp_bit bmp i" by (simp add: eq bmp_bit_def)
    moreover have "unat base + unat len \<le> i" using 4 i sp(1) len unfolding B_def by linarith
    ultimately show ?thesis by simp
  qed
qed

lemma bit_high_mask: "bit (push_bit k 255 :: u8) j \<longleftrightarrow> k \<le> j \<and> j < 8"
proof -
  have "(255 :: u8) = - 1" by simp
  then show ?thesis by (simp only: bit_push_bit_iff bit_minus_1_iff) auto
qed

lemma bmp_bit_set_data:
  assumes fit: "unat base + unat len < 2 ^ 64" and al: "len < 16 \<or> base AND 7 = 0"
  shows "bmp_bit (set_data bmp base len) i \<longleftrightarrow> bmp_bit bmp i \<and> \<not> (unat base \<le> i \<and> i < unat base + unat len)"
proof (cases "len < 16")
  case True
  then show ?thesis using fit by (simp add: set_data_def bmp_bit_clear_bits unat_word_ariths)
next
  case False
  then have b0: "base AND 7 = 0" using al by simp
  note sp = aligned_split [OF b0 fit]
  define B L r where "B = unat (base div 8)" and "L = unat len div 8" and "r = unat len mod 8"
  have len: "unat len = 8 * L + r" "r < 8" by (simp_all add: L_def r_def)
  let ?b1 = "if r \<noteq> 0 then bmp(B + L := bmp (B + L) AND push_bit r 0xff) else bmp"
  have eq: "set_data bmp base len = (\<lambda>x. if B \<le> x \<and> x < B + L then 0 else ?b1 x)"
    using False b0 unfolding set_data_def Let_def fold_fill
    by (simp add: sp(2-4) B_def L_def r_def word_unat_eq_iff [of "len AND 7"] fold_fill cong: if_cong)
  have i: "i = 8 * (i div 8) + i mod 8" "i mod 8 < 8" by simp_all
  consider "i div 8 < B" | "B \<le> i div 8" "i div 8 < B + L" | "i div 8 = B + L" | "B + L < i div 8" by linarith
  then show ?thesis
  proof cases
    case 2
    then have "\<not> bmp_bit (set_data bmp base len) i" by (simp add: eq bmp_bit_def)
    moreover have "unat base \<le> i" "i < unat base + unat len" using 2 i sp(1) len unfolding B_def by linarith+
    ultimately show ?thesis by simp
  next
    case 3
    then have "bmp_bit (set_data bmp base len) i \<longleftrightarrow> bmp_bit bmp i \<and> \<not> i mod 8 < r"
      using bit_high_mask [of r "i mod 8"] by (simp add: eq bmp_bit_def bit_and_iff) auto
    moreover have "unat base \<le> i" "i < unat base + unat len \<longleftrightarrow> i mod 8 < r" using 3 i sp(1) len unfolding B_def by linarith+
    ultimately show ?thesis by simp
  next
    case 1
    then have "bmp_bit (set_data bmp base len) i \<longleftrightarrow> bmp_bit bmp i" by (simp add: eq bmp_bit_def)
    moreover have "i < unat base" using 1 i sp(1) unfolding B_def by linarith
    ultimately show ?thesis by simp
  next
    case 4
    then have "bmp_bit (set_data bmp base len) i \<longleftrightarrow> bmp_bit bmp i" by (simp add: eq bmp_bit_def)
    moreover have "unat base + unat len \<le> i" using 4 i sp(1) len unfolding B_def by linarith
    ultimately show ?thesis by simp
  qed
qed

lemma length_filter_eq_iff: "length (filter P xs) = length xs \<longleftrightarrow> (\<forall>x \<in> set xs. P x)"
proof (cases "\<forall>x \<in> set xs. P x")
  case True
  then show ?thesis by simp
next
  case False
  then show ?thesis using length_filter_less [of _ xs P] by fastforce
qed

lemma which_area_short:
  assumes "len < 32" and "unat base + unat len < 2 ^ 64"
  shows "which_area bmp base len = ROCK_CODE \<longleftrightarrow> (\<forall>i. unat base \<le> i \<and> i < unat base + unat len \<longrightarrow> bmp_bit bmp i)"
    and "len \<noteq> 0 \<Longrightarrow> which_area bmp base len = ROCK_DATA \<longleftrightarrow>
      (\<forall>i. unat base \<le> i \<and> i < unat base + unat len \<longrightarrow> \<not> bmp_bit bmp i)"
proof -
  let ?is = "[unat base..<unat base + unat len]"
  define n where "n = length (filter (bmp_bit bmp) ?is)"
  have n: "n \<le> unat len" unfolding n_def by (rule order_trans [OF length_filter_le]) simp
  have c: "count_bits bmp base len = of_nat n" using assms(2) by (simp add: count_bits_def unat_word_ariths n_def)
  have "unat len < 2 ^ 64" using unsigned_less [of len] by simp
  then have un: "unat (of_nat n :: u64) = n" using n by (simp add: unat_of_nat)
  have eq: "of_nat n = len \<longleftrightarrow> n = unat len" "(of_nat n :: u64) = 0 \<longleftrightarrow> n = 0"
    using un by (auto simp: word_unat_eq_iff simp del: unsigned_of_nat)
  have "n = length ?is \<longleftrightarrow> (\<forall>x \<in> set ?is. bmp_bit bmp x)"
    unfolding n_def by (rule length_filter_eq_iff)
  then have full: "n = unat len \<longleftrightarrow> (\<forall>i. unat base \<le> i \<and> i < unat base + unat len \<longrightarrow> bmp_bit bmp i)" by (simp add: Ball_def)
  have none: "n = 0 \<longleftrightarrow> (\<forall>i. unat base \<le> i \<and> i < unat base + unat len \<longrightarrow> \<not> bmp_bit bmp i)"
    unfolding n_def by (simp add: filter_empty_conv Ball_def)
  have wa: "which_area bmp base len = (if n = unat len then 1 else if n = 0 then 0 else - 1)"
    using assms(1) by (simp add: which_area_def c eq ROCK_CODE_def ROCK_DATA_def ROCK_INVALID_def)
  show "which_area bmp base len = ROCK_CODE \<longleftrightarrow> (\<forall>i. unat base \<le> i \<and> i < unat base + unat len \<longrightarrow> bmp_bit bmp i)"
    unfolding full [symmetric] wa ROCK_CODE_def by simp
  show "which_area bmp base len = ROCK_DATA \<longleftrightarrow>
      (\<forall>i. unat base \<le> i \<and> i < unat base + unat len \<longrightarrow> \<not> bmp_bit bmp i)" if "len \<noteq> 0"
    unfolding none [symmetric] wa ROCK_DATA_def using that by (auto simp: unat_eq_zero)
qed

text \<open>C27. Marking a range as code and as data, for a range of fewer than 16 bytes or one that starts at a byte boundary of the
  bitmap: every piece of it of 1 to 31 bytes is then reported as code, respectively data, and the report for every such
  piece outside of the range is unchanged. Longer reports and longer unaligned ranges go wrong, as \<open>which_area_long_range\<close> and
  \<open>set_code_unaligned\<close> below show.\<close>

theorem heap_bitmap_roundtrip:
  assumes "unat base + unat len < 2 ^ 64" and "len < 16 \<or> base AND 7 = 0"
    and "0 < n" and "n < 32" and "unat b + unat n < 2 ^ 64"
  shows "(unat base \<le> unat b \<and> unat b + unat n \<le> unat base + unat len \<longrightarrow>
      which_area (set_code bmp base len) b n = ROCK_CODE \<and>
      which_area (set_data bmp base len) b n = ROCK_DATA) \<and>
    (unat b + unat n \<le> unat base \<or> unat base + unat len \<le> unat b \<longrightarrow>
      which_area (set_code bmp base len) b n = which_area bmp b n \<and>
      which_area (set_data bmp base len) b n = which_area bmp b n)"
proof (intro conjI impI)
  have n0: "n \<noteq> 0" using assms(3) by auto
  note area = which_area_short [OF assms(4,5)]
  note bits = bmp_bit_set_code [OF assms(1,2)] bmp_bit_set_data [OF assms(1,2)]
  have same: "which_area bmp1 b n = which_area bmp2 b n"
    if "\<And>i. unat b \<le> i \<Longrightarrow> i < unat b + unat n \<Longrightarrow> bmp_bit bmp1 i = bmp_bit bmp2 i" for bmp1 bmp2
  proof -
    have "filter (bmp_bit bmp1) [unat b..<unat (b + n)] = filter (bmp_bit bmp2) [unat b..<unat (b + n)]"
      using that assms(5) by (intro filter_cong) (auto simp: unat_word_ariths)
    then show ?thesis using assms(4) by (simp add: which_area_def count_bits_def)
  qed
  show "which_area (set_code bmp base len) b n = ROCK_CODE" "which_area (set_data bmp base len) b n = ROCK_DATA"
    if "unat base \<le> unat b \<and> unat b + unat n \<le> unat base + unat len"
    using that n0 by (auto simp: area bits)
  show "which_area (set_code bmp base len) b n = which_area bmp b n"
    "which_area (set_data bmp base len) b n = which_area bmp b n"
    if "unat b + unat n \<le> unat base \<or> unat base + unat len \<le> unat b"
    using that by (auto simp: bits intro!: same)
qed

theorem heap_bitmap_roundtrip_witness:
  "which_area (set_code (\<lambda>_. 0) 64 100) 70 20 = ROCK_CODE \<and> which_area (set_data (\<lambda>_. 255) 64 100) 70 20 = ROCK_DATA \<and>
   which_area (set_code (\<lambda>_. 0) 64 100) 164 20 = which_area (\<lambda>_. 0) 164 20"
  using heap_bitmap_roundtrip [of 64 100 20 70] heap_bitmap_roundtrip [of 64 100 20 164] by simp

text \<open>A range of 128 bytes whose second half is data is reported as code.\<close>

lemma which_area_long_range:
  "which_area (\<lambda>i. if i < 8 then 255 else 0) 0 128 = ROCK_CODE \<and>
   \<not> bmp_bit (\<lambda>i. if i < 8 then 255 else 0) 64 \<and> \<not> bmp_bit (\<lambda>i. if i < 8 then 255 else 0) 127"
proof -
  let ?bmp = "\<lambda>i. if i < 8 then 255 else 0 :: u8"
  have "read64 ?bmp 0 = - 1"
  proof (rule bit_eqI)
    fix j
    show "bit (read64 ?bmp 0) j = bit (- 1 :: u64) j"
      using bit_0xff [of "j mod 8"] by (simp add: read64_def bit_read_le div_less_iff_less_mult)
  qed
  then have "which_area ?bmp 0 128 = ROCK_CODE"
    by (simp add: which_area_def popcountl_def upt_conv_Cons Let_def)
  then show ?thesis by (simp add: bmp_bit_def)
qed

text \<open>An unaligned range: the first bit is not set, a bit far behind the range is.\<close>

lemma set_code_unaligned:
  "\<not> bmp_bit (set_code (\<lambda>_. 0) 9 16) 9 \<and> bmp_bit (set_code (\<lambda>_. 0) 9 16) 65"
  by (simp add: set_code_def bmp_bit_def Let_def)

section \<open>Soundness of the verification of generated code\<close>

text \<open>The instructions of a piece of code: start, final state and end of each, back to back from
  \<open>ptr\<close> to the end of the code.\<close>

fun instructions :: "verifier \<Rightarrow> u8 list \<Rightarrow> nat \<Rightarrow> (nat \<times> u16 \<times> nat) list \<Rightarrow> bool" where
  "instructions v code ptr [] \<longleftrightarrow> ptr = length code"
| "instructions v code ptr ((b, s, e) # is) \<longleftrightarrow>
     b = ptr \<and> accepted v (v_start v) (drop ptr code) ptr s e \<and> instructions v code e is"

definition insn_starts :: "(nat \<times> u16 \<times> nat) list \<Rightarrow> nat set" where
  "insn_starts is = {b. \<exists>s e. (b, s, e) \<in> set is}"

lemma insn_starts_simps [simp]: "insn_starts [] = {}" "insn_starts ((b, s, e) # is) = insert b (insn_starts is)"
  by (auto simp: insn_starts_def)

text \<open>The target of a direct branch.\<close>

definition insn_target :: "verifier \<Rightarrow> u8 list \<Rightarrow> u64 \<Rightarrow> u16 \<Rightarrow> nat \<Rightarrow> u64 option" where
  "insn_target v code install_addr s e =
     (if s > max_accept v then
        if accepts_jmp_rel1 v s \<or> accepts_jcc_rel1 v s then branch_target code install_addr e True
        else if accepts_jmp_rel4 v s \<or> accepts_jcc_rel4 v s \<or> accepts_dcall v s
        then branch_target code install_addr e False else None
      else None)"

lemma check_insn_target:
  assumes "check_insn m v code data ia s e targets = Some targets'"
  shows "set targets' = set targets \<union> ucast ` {T. insn_target v code ia s e = Some T}"
    and "insn_target v code ia s e = Some T \<Longrightarrow> in_module m T"
  using assms
  by (auto simp: check_insn_def insn_target_def bind_eq_Some_conv split: if_splits)

lemma verify_loop_instructions:
  assumes "verify_loop m v code data ia ptr (tary, targets, s0, e0) = Some (tary', targets', s', e')"
    and "length tary = length code" and "ptr \<le> length code"
  shows "\<exists>is. instructions v code ptr is \<and> length tary' = length code \<and>
      (\<forall>i < length code. tary' ! i = (if i \<in> insn_starts is then ucast DCV else tary ! i)) \<and>
      (\<forall>(b, s, e) \<in> set is. \<forall>T. insn_target v code ia s e = Some T \<longrightarrow>
          in_module m T \<and> ucast T \<in> set targets') \<and> set targets \<subseteq> set targets' \<and>
      s' = (if is = [] then s0 else fst (snd (last is)))"
  using assms
proof (induction m v code data ia ptr "(tary, targets, s0, e0)" arbitrary: tary targets s0 e0 rule: verify_loop.induct)
  case (1 m v code data ia ptr)
  show ?case
  proof (cases "ptr < length code")
    case False
    then show ?thesis using "1.prems" by (intro exI [of _ "[]"]) (auto simp: verify_loop.simps)
  next
    case True
    obtain r s e where v: "verify v (drop ptr code) ptr (v_start v) (s0, e0) = (r, s, e)" by (metis prod_cases3)
    have r: "r = 0" using "1.prems"(1) True v by (subst (asm) verify_loop.simps) (simp split: if_splits)
    obtain ts where ts: "check_insn m v code data ia s e targets = Some ts"
      using "1.prems"(1) True v r by (subst (asm) verify_loop.simps) (auto split: option.splits)
    have loop: "verify_loop m v code data ia e (tary[ptr := ucast DCV], ts, s, e) = Some (tary', targets', s', e')"
      using "1.prems"(1) True v r ts by (subst (asm) verify_loop.simps) simp
    have acc: "accepted v (v_start v) (drop ptr code) ptr s e" using verify_out [OF v] r by simp
    then have e: "ptr < e" "e \<le> length code" using accepted_bounds True by fastforce+
    obtain "is" where I: "instructions v code e is" "length tary' = length code"
      "\<And>i. i < length code \<Longrightarrow> tary' ! i = (if i \<in> insn_starts is then ucast DCV else tary[ptr := ucast DCV] ! i)"
      "\<And>b s e T. (b, s, e) \<in> set is \<Longrightarrow> insn_target v code ia s e = Some T \<Longrightarrow> in_module m T \<and> ucast T \<in> set targets'"
      "set ts \<subseteq> set targets'" "s' = (if is = [] then s else fst (snd (last is)))"
      using "1.hyps" [OF True refl refl refl v [symmetric] refl _ ts loop] "1.prems"(2) e(2) r by fastforce
    show ?thesis
      using True acc I e check_insn_target [OF ts] "1.prems"(2)
      by (intro exI [of _ "(ptr, s, e) # is"]) (auto simp: nth_list_update)
  qed
qed

lemma ucast_u32_u64:
  assumes "unat (T :: u64) < 2 ^ 32"
  shows "ucast (ucast T :: u32) = T" and "unat (ucast T :: u32) = unat T"
proof -
  show u: "unat (ucast T :: u32) = unat T" using assms by (simp add: unsigned_ucast_eq take_bit_nat_eq_self)
  show "ucast (ucast T :: u32) = T" using assms by (simp add: word_unat_eq_iff unsigned_ucast_eq unsigned_take_bit_eq take_bit_nat_eq_self)
qed

lemma check_target_cases:
  assumes chk: "check_target m t install_addr tary (ucast T)" and inm: "in_module m T"
    and heap: "unat (base_addr m) + unat (m_sz m) \<le> 2 ^ 32"
    and room: "unat install_addr + n \<le> 2 ^ 32" and n: "length tary = n"
  shows "if install_addr \<le> T \<and> unat T < unat install_addr + n
         then unat T - unat install_addr < n \<and> tary ! (unat T - unat install_addr) = ucast DCV
         else t (unat T) = ucast DCV"
proof -
  have T: "unat T < 2 ^ 32"
    using inm heap by (simp add: in_module_def word_le_nat_alt word_less_nat_alt unat_word_ariths)
  note uT = ucast_u32_u64 [OF T]
  show ?thesis
  proof (cases "n = 0")
    case True
    then show ?thesis using chk n uT
      by (auto simp: check_target_def Let_def word_le_nat_alt word_less_nat_alt split: if_splits)
  next
    case False
    then have i: "unat install_addr < 2 ^ 32" using room by simp
    note ui = ucast_u32_u64 [OF i]
    have "n < 2 ^ 64" using room by simp
    then have sum: "unat (install_addr + of_nat n) = unat install_addr + n"
      using room by (simp add: unat_word_ariths unat_of_nat)
    have "unat ((ucast T :: u32) - ucast install_addr) = unat T - unat install_addr" if "install_addr \<le> T"
      using that uT ui by (simp add: unat_sub word_le_nat_alt)
    then show ?thesis
      using chk n uT ui sum by (auto simp: check_target_def Let_def word_le_nat_alt word_less_nat_alt split: if_splits)
  qed
qed

text \<open>Accepted code is a sequence of instructions, and the marks are their starts.\<close>

lemma verify_jitted_code_instructions:
  assumes ok: "verify_jitted_code state0 m v t code data (replicate (length code) 0) install_addr check_terminate = Some tary"
    and heap: "unat (base_addr m) + unat (m_sz m) \<le> 2 ^ 32"
    and room: "unat install_addr + length code \<le> 2 ^ 32"
  shows "\<exists>is. instructions v code 0 is \<and>
      tary = map (\<lambda>i. if i \<in> insn_starts is then ucast DCV else 0) [0..<length code] \<and>
      (\<forall>(b, s, e) \<in> set is. \<forall>T. insn_target v code install_addr s e = Some T \<longrightarrow>
         in_module m T \<and>
         (if install_addr \<le> T \<and> unat T < unat install_addr + length code
          then unat T - unat install_addr \<in> insn_starts is
          else t (unat T) = ucast DCV)) \<and>
      (check_terminate \<and> code \<noteq> [] \<longrightarrow> terminator v (fst (snd (last is))))"
proof -
  obtain targets s e where loop:
    "verify_loop m v code data install_addr 0 (replicate (length code) 0, [], state0, 0) = Some (tary, targets, s, e)"
    and fin: "check_terminate \<Longrightarrow> terminator v s"
    and tgt: "list_all (check_target m t install_addr tary) targets"
    using ok by (auto simp: verify_jitted_code_def bind_eq_Some_conv)
  obtain "is" where I: "instructions v code 0 is" and len: "length tary = length code"
    and tary: "\<And>i. i < length code \<Longrightarrow> tary ! i = (if i \<in> insn_starts is then ucast DCV else 0)"
    and T: "\<And>b s e T. (b, s, e) \<in> set is \<Longrightarrow> insn_target v code install_addr s e = Some T \<Longrightarrow>
              in_module m T \<and> ucast T \<in> set targets"
    and s: "s = (if is = [] then state0 else fst (snd (last is)))"
    using verify_loop_instructions [OF loop] by fastforce
  have "tary = map (\<lambda>i. if i \<in> insn_starts is then ucast DCV else 0) [0..<length code]"
    using len tary by (intro nth_equalityI) auto
  moreover have "in_module m T \<and>
         (if install_addr \<le> T \<and> unat T < unat install_addr + length code
          then unat T - unat install_addr \<in> insn_starts is else t (unat T) = ucast DCV)"
    if "(b, s, e) \<in> set is" "insn_target v code install_addr s e = Some T" for b s e T
  proof -
    have inm: "in_module m T" and chk: "check_target m t install_addr tary (ucast T)"
      using T [OF that] tgt by (auto simp: list_all_iff)
    show ?thesis using check_target_cases [OF chk inm heap room len] tary inm
      by (auto simp: DCV_def split: if_splits)
  qed
  moreover have "is \<noteq> []" if "code \<noteq> []" using I that by auto
  ultimately show ?thesis using I fin s by (intro exI [of _ "is"]) auto
qed

text \<open>A one-byte instruction and a backward jump to it, under an automaton with one plain
  accepting state and one for short jumps.\<close>

definition tiny_verifier :: verifier where
  "tiny_verifier = \<lparr> dfa = (\<lambda>i. if i = 2704 then 2 else if i = 2795 then 11 else if i div 256 = 11 then 5 else 0),
     states = 12, v_start = 10, v_dcall = 3, v_icall = 3, v_ijmp = 4, v_jmp_rel1 = 5, v_jmp_rel4 = 6,
     v_jcc_rel1 = 7, v_jcc_rel4 = 7, v_mcficall = 8, v_mcficheck = 8, v_mcfiret = 8, v_terminator = 9, max_accept = 2 \<rparr>"

definition tiny_heap :: codemodule where
  "tiny_heap = alloc_code_module\<lparr> base_addr := 0x10000, m_sz := 0x1000, osb_base_addr := 0x20000,
     code_heap := True, m_verifier := Some tiny_verifier \<rparr>"

lemma tiny_heap_simps [simp]:
  "base_addr tiny_heap = 0x10000" "m_sz tiny_heap = 0x1000" "osb_base_addr tiny_heap = 0x20000"
  "code_heap tiny_heap" "m_verifier tiny_heap = Some tiny_verifier" "code_data_bitmap tiny_heap = (\<lambda>_. 0)"
  by (simp_all add: tiny_heap_def alloc_code_module_def)

lemma tiny_verified:
  "verify_jitted_code 0 tiny_heap tiny_verifier t [0x90, 0xEB, 0xFD] data (replicate (length [0x90, 0xEB, 0xFD::u8]) 0) 0x10000 True
     = Some [0xF4, 0xF4, 0]"
  by (simp add: verify_jitted_code_def verify_loop.simps tiny_verifier_def dfa_lookup_def accepts_def Let_def
     accepts_others_def check_insn_def accepts_jmp_rel1_def branch_target_def in_module_def DCV_def
     terminator_def check_target_def)

section \<open>Installing verified code\<close>

lemma memcpy_eq: "memcpy t a src s n = (\<lambda>x. if a \<le> x \<and> x < a + n then src (s + (x - a)) else t x)"
proof (induction n arbitrary: t a s)
  case 0
  then show ?case by (auto simp: fun_eq_iff)
next
  case (Suc n)
  then show ?case by (auto simp: fun_eq_iff intro!: arg_cong [where f = src])
qed

lemma bytes_at_memcpy: "bytes_at (memcpy t a src s n) a n = bytes_at src s n"
  by (simp add: bytes_at_def memcpy_eq)

lemma length_bytes_at [simp]: "length (bytes_at t a n) = n"
  by (simp add: bytes_at_def)

lemma get_code_heap_Some:
  "get_code_heap modules h = Some i \<Longrightarrow> h = Some i \<and> i < length modules \<and> code_heap (modules ! i)"
  by (auto simp: get_code_heap_def split: option.splits if_splits)

lemma verify_code_Some:
  assumes "verify_code junk i m dst len rt = Some rt'"
  obtains v tary where "m_verifier m = Some v" "dst AND 7 = 0"
    "verify_jitted_code junk m v (rt_table rt) (bytes_at (osb rt) (heap_alias m dst) (unat len)) dst
       (replicate (unat len) 0) dst True = Some tary"
    "rt' = rt\<lparr> rt_table := memcpy (rt_table rt) (unat dst) (of_bytes tary) 0 (unat len),
               rt_modules := (rt_modules rt)[i := m\<lparr> code_data_bitmap := set_code (code_data_bitmap m) (dst - base_addr m) len \<rparr>] \<rparr>"
  using assms by (auto simp: verify_code_def bind_eq_Some_conv Let_def)

lemma code_heap_fill_copy:
  assumes "code_heap_fill junk buf h dst src len flags rt = Some rt'"
    and "flags AND of_int ROCK_CODE \<noteq> 0" and "flags AND ROCK_COPY \<noteq> 0"
  obtains i where "h = Some i" "i < length (rt_modules rt)" "code_heap (rt_modules rt ! i)"
    "heap_range_ok (rt_modules rt ! i) dst len"
    "verify_code junk i (rt_modules rt ! i) dst len
       (rt\<lparr> osb := memcpy (osb rt) (heap_alias (rt_modules rt ! i) dst) src 0 (unat len) \<rparr>) = Some rt'"
proof -
  have fl: "((flags OR ROCK_VERIFY) AND NOT ROCK_REPLACE) AND ROCK_VERIFY \<noteq> 0"
    by (auto simp: bit_eq_iff bit_simps ROCK_VERIFY_def ROCK_REPLACE_def intro!: exI [of _ 2])
  show thesis
    using that assms fl
    by (auto simp: code_heap_fill_def fill_code_def bind_eq_Some_conv Let_def data_flag_def
        dest!: get_code_heap_Some split: if_splits)
qed

text \<open>C23. Copying code into a heap: the code is a sequence of instructions the automaton of the heap accepts,
  the last one does not fall through, the table marks exactly their first bytes in the range,
  every direct branch stays in the heap and leads to a byte the table marks, the range becomes
  code, and nothing outside the range changes.\<close>

theorem code_heap_fill_installs:
  assumes fill: "code_heap_fill junk buf (Some i) dst src len flags rt = Some rt'"
    and flags: "flags AND of_int ROCK_CODE \<noteq> 0" "flags AND ROCK_COPY \<noteq> 0"
    and m: "m = rt_modules rt ! i" "m_verifier m = Some v"
    and heap: "unat (base_addr m) + unat (m_sz m) \<le> 2 ^ 32" "base_addr m AND 7 = 0"
    and dst: "dst \<le> FourGB"
  shows "\<exists>is. instructions v (bytes_at src 0 (unat len)) 0 is \<and>
      bytes_at (osb rt') (heap_alias m dst) (unat len) = bytes_at src 0 (unat len) \<and>
      (len \<noteq> 0 \<longrightarrow> terminator v (fst (snd (last is)))) \<and>
      (\<forall>x. rt_table rt' x = (if unat dst \<le> x \<and> x < unat dst + unat len
              then if x - unat dst \<in> insn_starts is then ucast DCV else 0 else rt_table rt x)) \<and>
      (\<forall>(b, s, e) \<in> set is. \<forall>T. insn_target v (bytes_at src 0 (unat len)) dst s e = Some T \<longrightarrow>
         in_module m T \<and> rt_table rt' (unat T) = ucast DCV) \<and>
      (\<forall>j. bmp_bit (code_data_bitmap (rt_modules rt' ! i)) j \<longleftrightarrow> bmp_bit (code_data_bitmap m) j \<or>
         unat (dst - base_addr m) \<le> j \<and> j < unat (dst - base_addr m) + unat len) \<and>
      (\<forall>x. \<not> (heap_alias m dst \<le> x \<and> x < heap_alias m dst + unat len) \<longrightarrow> osb rt' x = osb rt x)"
proof -
  let ?n = "unat len" and ?code = "bytes_at src 0 (unat len)" and ?p = "heap_alias m dst"
  have il: "i < length (rt_modules rt)" and range: "heap_range_ok m dst len"
    and vc: "verify_code junk i m dst len (rt\<lparr> osb := memcpy (osb rt) ?p src 0 ?n \<rparr>) = Some rt'"
    using code_heap_fill_copy [OF fill flags] m(1) by auto
  obtain tary where al: "dst AND 7 = 0"
    and ver: "verify_jitted_code junk m v (rt_table rt) ?code dst (replicate (length ?code) 0) dst True = Some tary"
    and rt': "rt' = rt\<lparr> osb := memcpy (osb rt) ?p src 0 ?n, rt_table := memcpy (rt_table rt) (unat dst) (of_bytes tary) 0 ?n,
        rt_modules := (rt_modules rt)[i := m\<lparr> code_data_bitmap := set_code (code_data_bitmap m) (dst - base_addr m) len \<rparr>] \<rparr>"
    using verify_code_Some [OF vc] m(2) by (auto simp: bytes_at_memcpy)
  have bnd: "unat (base_addr m) \<le> unat dst" "unat dst + ?n \<le> 2 ^ 32"
    using range heap(1) dst by (auto simp: heap_range_ok_def word_le_nat_alt word_less_nat_alt FourGB_eq unat_word_ariths)
  have room: "unat dst + length ?code \<le> 2 ^ 32" using bnd(2) by simp
  obtain "is" where I: "instructions v ?code 0 is"
    and tary: "tary = map (\<lambda>i. if i \<in> insn_starts is then ucast DCV else 0) [0..<?n]"
    and tgt: "\<forall>(b, s, e) \<in> set is. \<forall>T. insn_target v ?code dst s e = Some T \<longrightarrow> in_module m T \<and>
         (if dst \<le> T \<and> unat T < unat dst + ?n then unat T - unat dst \<in> insn_starts is else rt_table rt (unat T) = ucast DCV)"
    and fin: "True \<and> ?code \<noteq> [] \<longrightarrow> terminator v (fst (snd (last is)))"
    using verify_jitted_code_instructions [OF ver heap(1) room] unfolding length_bytes_at by (elim exE conjE)
  have tab: "rt_table rt' x = (if unat dst \<le> x \<and> x < unat dst + ?n
      then if x - unat dst \<in> insn_starts is then ucast DCV else 0 else rt_table rt x)" for x
    by (auto simp: rt' memcpy_eq of_bytes_def tary)
  have "\<forall>(b, s, e) \<in> set is. \<forall>T. insn_target v ?code dst s e = Some T \<longrightarrow>
      in_module m T \<and> rt_table rt' (unat T) = ucast DCV"
    using tgt by (auto simp: tab word_le_nat_alt split: if_splits)
  moreover have "len \<noteq> 0 \<longrightarrow> terminator v (fst (snd (last is)))"
    using fin by (auto simp: bytes_at_def unat_eq_zero)
  moreover have "bmp_bit (code_data_bitmap (rt_modules rt' ! i)) j \<longleftrightarrow> bmp_bit (code_data_bitmap m) j \<or>
         unat (dst - base_addr m) \<le> j \<and> j < unat (dst - base_addr m) + unat len" for j
  proof -
    have le: "base_addr m \<le> dst" using bnd by (simp add: word_le_nat_alt)
    have "unat (dst - base_addr m) mod 8 = 0"
      using al heap(2) le bnd(1) unat_and_7 [of dst] unat_and_7 [of "base_addr m"] by (simp add: unat_sub) presburger
    then have "(dst - base_addr m) AND 7 = 0" using unat_and_7 [of "dst - base_addr m"] by (simp add: unat_eq_zero)
    then show ?thesis using bnd le il by (subst rt') (simp add: bmp_bit_set_code unat_sub)
  qed
  moreover have "bytes_at (osb rt') ?p ?n = ?code" by (simp add: rt' bytes_at_memcpy)
  moreover have "\<not> (?p \<le> x \<and> x < ?p + ?n) \<longrightarrow> osb rt' x = osb rt x" for x by (auto simp: rt' memcpy_eq)
  ultimately show ?thesis using I tab by (intro exI [of _ "is"] conjI allI) assumption+
qed

definition tiny_runtime :: runtime where
  "tiny_runtime = \<lparr> tcb_list = [], thread_escape_map = [], rt_modules = [tiny_heap], rt_cfggened = False,
     fats_in_code = [], vmtd = [], patch_compensate = [], patched_ra = [], rt_table = (\<lambda>_. 0), osb = (\<lambda>_. 0),
     rt_version = 1, version_space = 0, vtabletaken = [] \<rparr>"

lemma tiny_filled:
  "\<exists>rt'. code_heap_fill 0 0 (Some 0) 0x10000 (of_bytes [0x90, 0xEB, 0xFD]) 3 9 tiny_runtime = Some rt'"
proof -
  have b: "bytes_at (memcpy (\<lambda>_. 0) 0x20000 (of_bytes [0x90, 0xEB, 0xFD]) 0 3) 0x20000 3 = [0x90, 0xEB, 0xFD]"
    by (simp add: bytes_at_memcpy) (simp add: bytes_at_def of_bytes_def numeral_3_eq_3)
  have "which_area (\<lambda>_. 0) 0 3 = ROCK_DATA"
    by (simp add: which_area_def count_bits_def bmp_bit_def upt_conv_Cons ROCK_DATA_def)
  moreover have r3: "replicate 3 0 = [0, 0, 0 :: u8]" by (simp add: numeral_3_eq_3)
  ultimately show ?thesis
    using tiny_verified [where t = "\<lambda>_. 0" and data = "0x10000"]
    by (simp add: code_heap_fill_def tiny_runtime_def get_code_heap_def heap_range_ok_def FourGB_eq data_flag_def
      ROCK_CODE_def fill_code_def ROCK_COPY_def Let_def ROCK_VERIFY_def ROCK_REPLACE_def verify_code_def heap_alias_def b
      r3)
qed

theorem code_heap_fill_installs_witness:
  "\<exists>rt' is. code_heap_fill 0 0 (Some 0) 0x10000 (of_bytes [0x90, 0xEB, 0xFD]) 3 9 tiny_runtime = Some rt' \<and>
     instructions tiny_verifier (bytes_at (of_bytes [0x90, 0xEB, 0xFD]) 0 (unat (3 :: u64))) 0 is \<and>
     bytes_at (osb rt') (heap_alias tiny_heap 0x10000) (unat (3 :: u64)) = bytes_at (of_bytes [0x90, 0xEB, 0xFD]) 0 (unat (3 :: u64))"
proof -
  obtain rt' where f: "code_heap_fill 0 0 (Some 0) 0x10000 (of_bytes [0x90, 0xEB, 0xFD]) 3 9 tiny_runtime = Some rt'"
    using tiny_filled by blast
  have flags: "(9 :: u64) AND of_int ROCK_CODE \<noteq> 0" "(9 :: u64) AND ROCK_COPY \<noteq> 0"
    by (simp_all add: ROCK_CODE_def ROCK_COPY_def)
  have m: "tiny_heap = rt_modules tiny_runtime ! 0" "m_verifier tiny_heap = Some tiny_verifier"
    "unat (base_addr tiny_heap) + unat (m_sz tiny_heap) \<le> 2 ^ 32" "base_addr tiny_heap AND 7 = 0" "0x10000 \<le> FourGB"
    by (simp_all add: tiny_runtime_def FourGB_eq)
  show ?thesis using code_heap_fill_installs [OF f flags m] f by blast
qed

section \<open>Moving and deleting code\<close>

text \<open>An address that is one of the \<open>n\<close> words at \<open>p\<close> or overlaps none of them.\<close>

definition word_or_apart :: "nat \<Rightarrow> nat \<Rightarrow> nat \<Rightarrow> bool" where
  "word_or_apart a p n \<longleftrightarrow> (\<forall>i < n. a = p + 8 * i \<or> a + 8 \<le> p + 8 * i \<or> p + 8 * i + 8 \<le> a)"

lemma read64_move_words:
  assumes "p + 8 * n \<le> q \<or> q + 8 * n \<le> p" and "word_or_apart a p n" and "word_or_apart a q n"
  shows "read64 (move_words p q n t) a =
    (if \<exists>i < n. a = p + 8 * i \<and> read64 t (q + 8 * i) \<noteq> 0 then read64 t (q + (a - p))
     else if \<exists>i < n. a = q + 8 * i then 0 else read64 t a)"
  using assms
proof (induction n arbitrary: a)
  case 0
  then show ?case by (simp add: move_words_def)
next
  case (Suc n)
  let ?t = "move_words p q n t"
  have step: "move_words p q (Suc n) t = (let tmp = read64 ?t (q + 8 * n)
     in if tmp \<noteq> 0 then write64 (write64 ?t (q + 8 * n) 0) (p + 8 * n) tmp else ?t)"
    by (simp add: move_words_def Let_def)
  have dis: "p + 8 * n + 8 \<le> q \<or> q + 8 * n + 8 \<le> p" using Suc.prems(1) by auto
  then have dis': "p + 8 * n \<le> q \<or> q + 8 * n \<le> p" by auto
  note IH = Suc.IH [OF dis']
  have qn: "read64 ?t (q + 8 * n) = read64 t (q + 8 * n)"
    using dis by (subst IH) (auto simp: word_or_apart_def)
  consider "a = p + 8 * n" | "a = q + 8 * n" | "a \<noteq> p + 8 * n" "a \<noteq> q + 8 * n" by blast
  then show ?case
  proof cases
    case 1
    moreover have "read64 ?t a = read64 t a" using 1 dis by (subst IH) (auto simp: word_or_apart_def)
    ultimately show ?thesis using dis by (auto simp: step Let_def qn read64_write64_other)
  next
    case 2
    then show ?thesis using dis qn by (auto simp: step Let_def read64_write64_other)
  next
    case 3
    have a: "a + 8 \<le> p + 8 * n \<or> p + 8 * n + 8 \<le> a" "a + 8 \<le> q + 8 * n \<or> q + 8 * n + 8 \<le> a"
      "word_or_apart a p n" "word_or_apart a q n"
      using 3 Suc.prems(2,3) by (auto simp: word_or_apart_def)
    then have "read64 (move_words p q (Suc n) t) a = read64 ?t a"
      by (auto simp: step Let_def read64_write64_other)
    then show ?thesis using 3 IH [OF a(3,4)] by (auto simp: less_Suc_eq)
  qed
qed

lemma and_not_7: "(a :: u64) AND 7 = 0 \<Longrightarrow> a AND NOT 7 = a"
proof (rule bit_eqI)
  fix n
  assume "a AND 7 = 0" and n: "possible_bit TYPE(u64) n"
  then have "bit (a AND 7) n = False" by simp
  then show "bit (a AND NOT 7) n = bit a n" using n by (auto simp: bit_simps)
qed

lemma same_mod_8_apart: "(q :: nat) mod 8 = a mod 8 \<Longrightarrow> a = q \<or> a + 8 \<le> q \<or> q + 8 \<le> a"
  using div_mult_mod_eq [of q 8] div_mult_mod_eq [of a 8]
  by (cases "q div 8" "a div 8" rule: linorder_cases) linarith+

lemma word_or_apart_aligned: "p mod 8 = a mod 8 \<Longrightarrow> word_or_apart a p n"
  unfolding word_or_apart_def by (intro allI impI same_mod_8_apart) simp

text \<open>C28. Moving aligned code moves its table words: each nonzero word of the source range becomes the word at
  the same place of the target range, the source words become zero, and the aligned words
  outside both ranges are unchanged.\<close>

theorem move_code_moves_table:
  assumes mv: "move_code h target source len rt = Some rt'"
    and al: "source AND 7 = 0" and n: "n = unat (((len + 7) AND NOT 7) div 8)"
    and dis: "unat target + 8 * n \<le> unat source \<or> unat source + 8 * n \<le> unat target"
  shows "(\<forall>k < n. read64 (rt_table rt') (unat target + 8 * k) =
            (if read64 (rt_table rt) (unat source + 8 * k) \<noteq> 0 then read64 (rt_table rt) (unat source + 8 * k)
             else read64 (rt_table rt) (unat target + 8 * k)) \<and>
          read64 (rt_table rt') (unat source + 8 * k) = 0) \<and>
    (\<forall>a. a mod 8 = 0 \<and> \<not> (unat target \<le> a \<and> a < unat target + 8 * n) \<and> \<not> (unat source \<le> a \<and> a < unat source + 8 * n) \<longrightarrow>
       read64 (rt_table rt') a = read64 (rt_table rt) a)"
proof -
  have t7: "target AND 7 = 0" and tab: "rt_table rt' = move_words (unat target) (unat source) n (rt_table rt)"
    using mv n al by (auto simp: move_code_def bind_eq_Some_conv Let_def and_not_7 [simplified])
  have m8: "unat target mod 8 = 0" "unat source mod 8 = 0"
    using t7 al unat_and_7 [of target] unat_and_7 [of source] by simp_all
  have rd: "read64 (rt_table rt') a =
    (if \<exists>i < n. a = unat target + 8 * i \<and> read64 (rt_table rt) (unat source + 8 * i) \<noteq> 0
     then read64 (rt_table rt) (unat source + (a - unat target))
     else if \<exists>i < n. a = unat source + 8 * i then 0 else read64 (rt_table rt) a)" if "a mod 8 = 0" for a
    unfolding tab using that m8 by (intro read64_move_words dis word_or_apart_aligned) simp_all
  show ?thesis
    using dis by (auto simp: rd m8)
qed

definition moving_runtime :: runtime where
  "moving_runtime = tiny_runtime\<lparr> rt_modules := [tiny_heap\<lparr> code_data_bitmap := (\<lambda>i. if i < 1 then 255 else 0) \<rparr>],
     rt_table := write64 (\<lambda>_. 0) 0x10000 5 \<rparr>"

theorem move_code_moves_table_witness:
  "\<exists>rt'. move_code (Some 0) 0x10010 0x10000 8 moving_runtime = Some rt' \<and>
     read64 (rt_table rt') (unat (0x10010 :: u64) + 8 * 0) = 5 \<and> read64 (rt_table rt') (unat (0x10000 :: u64) + 8 * 0) = 0"
proof -
  obtain rt' where mv: "move_code (Some 0) 0x10010 0x10000 8 moving_runtime = Some rt'"
    by (simp add: move_code_def moving_runtime_def get_code_heap_def FourGB_eq which_area_def count_bits_def bmp_bit_def
        upt_conv_Cons ROCK_CODE_def ROCK_DATA_def ROCK_INVALID_def)
  have "read64 (rt_table moving_runtime) (unat (0x10000 :: u64) + 8 * 0) = 5"
    by (simp add: moving_runtime_def)
  then show ?thesis using move_code_moves_table [OF mv _ refl] mv by simp
qed

text \<open>Deleting the first of two adjacent pieces of code: the test of the byte after the range reads
  the bitmap at the absolute address, so the fall-through into the rest is not noticed.\<close>

lemma delete_code_fall_through:
  "\<exists>m rt rt'. rt_modules rt = [m] \<and> which_area (code_data_bitmap m) 7 2 = ROCK_CODE \<and>
     delete_code (Some 0) (base_addr m) 8 rt = Some rt'"
proof -
  let ?m = "tiny_heap\<lparr> code_data_bitmap := (\<lambda>i. if i < 2 then 255 else 0) \<rparr>"
  let ?rt = "tiny_runtime\<lparr> rt_modules := [?m] \<rparr>"
  have "which_area (code_data_bitmap ?m) 7 2 = ROCK_CODE" by (simp add: which_area_def count_bits_def bmp_bit_def upt_conv_Cons)
  moreover have "\<exists>rt'. delete_code (Some 0) (base_addr ?m) 8 ?rt = Some rt'"
    by (simp add: delete_code_def get_code_heap_def FourGB_eq which_area_def count_bits_def bmp_bit_def upt_conv_Cons
        ROCK_CODE_def ROCK_DATA_def ROCK_INVALID_def)
  ultimately show ?thesis by (elim exE) (intro exI [of _ ?m] exI [of _ ?rt] exI conjI, simp_all)
qed

section \<open>Waiting\<close>

lemma wait_round_passed:
  "wait_round now r = (ok, r') \<Longrightarrow>
     length r' = length r \<and> map snd r' = map snd r \<and>
     (\<forall>i < length r. (fst (r' ! i) = fst (r ! i) \<or> fst (r' ! i) = 0 \<and> insyscall (now (fst (r ! i))) \<noteq> 0)) \<and>
     (ok \<longrightarrow> (\<forall>i < length r. fst (r ! i) \<noteq> 0 \<longrightarrow>
        insyscall (now (fst (r ! i))) \<noteq> 0 \<or> sandbox_escape (now (fst (r ! i))) \<noteq> snd (r ! i)))"
proof (induction now r arbitrary: ok r' rule: wait_round.induct)
  case (1 now)
  then show ?case by simp
next
  case (2 now p e r)
  obtain b r1 where w: "wait_round now r = (b, r1)" by fastforce
  show ?case
  proof (cases "p \<noteq> 0 \<and> insyscall (now p) = 0 \<and> sandbox_escape (now p) = e")
    case True
    then show ?thesis using "2.prems" by auto
  next
    case False
    have IH: "length r1 = length r \<and> map snd r1 = map snd r \<and>
     (\<forall>i < length r. (fst (r1 ! i) = fst (r ! i) \<or> fst (r1 ! i) = 0 \<and> insyscall (now (fst (r ! i))) \<noteq> 0)) \<and>
     (b \<longrightarrow> (\<forall>i < length r. fst (r ! i) \<noteq> 0 \<longrightarrow>
        insyscall (now (fst (r ! i))) \<noteq> 0 \<or> sandbox_escape (now (fst (r ! i))) \<noteq> snd (r ! i)))"
      using False "2.IH" w by (cases "p = 0"; cases "insyscall (now p) = 0") auto
    have "r' = (if p \<noteq> 0 \<and> insyscall (now p) \<noteq> 0 then (0, e) else (p, e)) # r1" "ok = b"
      using False "2.prems" w by (auto split: if_splits)
    then show ?thesis using False IH by (auto simp: nth_Cons split: nat.splits)
  qed
qed

text \<open>A recorded thread is seen in a system call or with a changed escape count before \<open>wait\<close> returns.\<close>

lemma wait_recorded:
  assumes "wait obs r = Some k" and "(p, e) \<in> set r" and "p \<noteq> 0"
  shows "\<exists>j \<le> k. j < length obs \<and> (insyscall ((obs ! j) p) \<noteq> 0 \<or> sandbox_escape ((obs ! j) p) \<noteq> e)"
  using assms
proof (induction obs arbitrary: r k)
  case Nil
  then show ?case by simp
next
  case (Cons now obs)
  obtain ok r' where w: "wait_round now r = (ok, r')" by fastforce
  note pass = wait_round_passed [OF w]
  obtain i where i: "i < length r" "r ! i = (p, e)" using Cons.prems(2) by (auto simp: in_set_conv_nth)
  show ?case
  proof (cases "insyscall (now p) \<noteq> 0 \<or> sandbox_escape (now p) \<noteq> e")
    case True
    then show ?thesis by (intro exI [of _ 0]) auto
  next
    case False
    have nok: "\<not> ok" using pass False i Cons.prems(3) by fastforce
    then obtain k' where k': "wait obs r' = Some k'" "k = Suc k'" using Cons.prems(1) w by auto
    have "r' ! i = (p, e)"
    proof (rule prod_eqI)
      show "fst (r' ! i) = fst (p, e)" using pass False i by fastforce
      have len: "length r' = length r" and "map snd r' = map snd r" using pass by simp_all
      then have "map snd r' ! i = map snd r ! i" by simp
      then show "snd (r' ! i) = snd (p, e)" using len i by (simp del: map_eq_conv)
    qed
    then have "(p, e) \<in> set r'" using pass i by (metis nth_mem)
    from Cons.IH [OF k'(1) this Cons.prems(3)] k'(2) show ?thesis
      by (metis Suc_le_mono length_Cons not_less_eq nth_Cons_Suc)
  qed
qed

text \<open>Unless there are too many threads, every thread in the list is recorded that is neither removed nor in a system call.\<close>

lemma thread_escapes_all:
  assumes "thread_escapes l count = (r, count')" and "count' < 256" and "t \<in> set l" and "\<not> tcb_remove t" and "insyscall t = 0"
  shows "(tcb_self t, sandbox_escape t) \<in> set r"
  using assms
proof (induction l arbitrary: count r)
  case (Cons x ts)
  have "count < 256" using Cons.prems(1,2) by (auto split: if_splits)
  then show ?case using Cons by (auto split: if_splits prod.splits)
qed simp

text \<open>C30. When \<open>wait\<close> has returned, every thread in the list that was not marked as removed was in a system call when it was
  looked at for recording, or was seen in one of the rounds in a system call or with an escape count other than the recorded one. Where
  the thread is afterwards is not stated: \<open>wait\<close> does not know.\<close>

theorem wait_grace_period:
  assumes "wait_record l = Some r" and "wait obs r = Some k" and "t \<in> set l" and "\<not> tcb_remove t" and "tcb_self t \<noteq> 0"
  shows "insyscall t \<noteq> 0 \<or>
    (\<exists>j \<le> k. j < length obs \<and> (insyscall ((obs ! j) (tcb_self t)) \<noteq> 0 \<or> sandbox_escape ((obs ! j) (tcb_self t)) \<noteq> sandbox_escape t))"
proof (cases "insyscall t = 0")
  case True
  obtain c where "thread_escapes l 0 = (r, c)" "c < 256"
    using assms(1) by (auto simp: wait_record_def bind_eq_Some_conv split: prod.splits)
  from thread_escapes_all [OF this assms(3,4) True] show ?thesis using wait_recorded [OF assms(2)] assms(5) by blast
qed simp

theorem wait_grace_period_witness:
  "\<exists>j \<le> 1. j < 2 \<and> sandbox_escape (([\<lambda>_ :: u64. alloc_tcb 8, \<lambda>_. (alloc_tcb 8)\<lparr> sandbox_escape := 5 \<rparr>] ! j) 8) \<noteq> 0"
proof -
  let ?obs = "[\<lambda>_ :: u64. alloc_tcb 8, \<lambda>_. (alloc_tcb 8)\<lparr> sandbox_escape := 5 \<rparr>]"
  have "wait_record [alloc_tcb 8] = Some [(8, 0)]" by (simp add: wait_record_def alloc_tcb_def)
  moreover have "wait ?obs [(8, 0)] = Some 1" by (simp add: alloc_tcb_def)
  ultimately have "insyscall (alloc_tcb 8) \<noteq> 0 \<or> (\<exists>j \<le> 1. j < length ?obs \<and> (insyscall ((?obs ! j) (tcb_self (alloc_tcb 8))) \<noteq> 0 \<or>
    sandbox_escape ((?obs ! j) (tcb_self (alloc_tcb 8))) \<noteq> sandbox_escape (alloc_tcb 8)))"
    by (rule wait_grace_period) (simp_all add: alloc_tcb_def)
  then show ?thesis by (auto simp: alloc_tcb_def less_Suc_eq le_Suc_eq numeral_2_eq_2)
qed

lemma wait_round_ok:
  assumes "\<forall>(p, e) \<in> set r. p \<noteq> 0 \<longrightarrow> insyscall (now p) \<noteq> 0 \<or> sandbox_escape (now p) \<noteq> e"
  shows "fst (wait_round now r)"
  using assms by (induction now r rule: wait_round.induct) (auto split: prod.splits)

lemma wait_round_set: "set (snd (wait_round now r)) \<subseteq> set r \<union> {0} \<times> UNIV"
  by (induction now r rule: wait_round.induct) (auto split: prod.splits)

text \<open>C29. The grace-period loop ends, at the latest in the first round that sees every recorded thread in a
  system call or past its recorded escape count.\<close>

theorem wait_returns:
  assumes "j < length obs"
    and "\<forall>(p, e) \<in> set r. p \<noteq> 0 \<longrightarrow> insyscall ((obs ! j) p) \<noteq> 0 \<or> sandbox_escape ((obs ! j) p) \<noteq> e"
  shows "\<exists>k \<le> j. wait obs r = Some k"
  using assms
proof (induction obs arbitrary: r j)
  case Nil
  then show ?case by simp
next
  case (Cons now obs)
  obtain ok r' where w: "wait_round now r = (ok, r')" by fastforce
  show ?case
  proof (cases ok)
    case True
    then show ?thesis using w by (intro exI [of _ 0]) simp
  next
    case False
    then obtain j' where j': "j = Suc j'" using wait_round_ok [of r now] w Cons.prems(2) by (cases j) auto
    then have "\<forall>(p, e) \<in> set r'. p \<noteq> 0 \<longrightarrow> insyscall ((obs ! j') p) \<noteq> 0 \<or> sandbox_escape ((obs ! j') p) \<noteq> e"
      using wait_round_set [of now r] w Cons.prems(2) by fastforce
    from Cons.IH [OF _ this] j' Cons.prems(1) obtain k where "k \<le> j'" "wait obs r' = Some k" by auto
    then show ?thesis using False w j' by (intro exI [of _ "Suc k"]) simp
  qed
qed

theorem wait_returns_witness:
  "\<exists>k \<le> 1. wait [\<lambda>_. alloc_tcb 8, \<lambda>_. (alloc_tcb 8)\<lparr> sandbox_escape := 5 \<rparr>] [(8, 0)] = Some k"
  using wait_returns [of 1 "[\<lambda>_. alloc_tcb 8, \<lambda>_. (alloc_tcb 8)\<lparr> sandbox_escape := 5 \<rparr>]" "[(8, 0)]"] by simp

end
