(* ===== verification/Smoothsort.thy ===== *)
theory Smoothsort
  imports Prelude "HOL-Library.Multiset"
begin

unbundle bit_operations_syntax

text \<open>
  \<open>bsearch\<close> and \<open>qsort\<close> of \<open>src/runtime/src/utils.c\<close>. \<open>qsort\<close> is smoothsort: the array is a
  forest of heaps whose sizes are Leonardo numbers; the orders of the heaps are the set bits of a
  two-word bit vector, counted from \<open>pshift\<close>.

  The array is a list and pointers into it are indices: byte offsets divided by the element width,
  since every offset the code computes is a multiple of it. A comparison function returns an
  integer. A read outside of the array or of the table of Leonardo numbers makes the result
  \<open>None\<close>.
\<close>

section \<open>Binary search\<close>

function bsearch :: "('k \<Rightarrow> 'a \<Rightarrow> int) \<Rightarrow> 'k \<Rightarrow> 'a list \<Rightarrow> nat \<Rightarrow> nat \<Rightarrow> nat option" where
  "bsearch cmp key xs base nel =
     (if nel > 0 then
        let try = base + nel div 2; s = cmp key (xs ! try)
        in if s = 0 then Some try
           else if nel = 1 then None
           else if s < 0 then bsearch cmp key xs base (nel div 2)
           else bsearch cmp key xs try (nel - nel div 2)
      else None)"
  by pat_completeness auto
termination by (relation "measure (\<lambda>(_, _, _, _, nel). nel)") auto

declare bsearch.simps [simp del]

section \<open>The bit vector\<close>

type_synonym bitvec = "u64 \<times> u64"

text \<open>\<open>a_ctz_l\<close>: the index of the lowest set bit; \<open>bsf\<close> leaves its operand unchanged when it
  is zero.\<close>

definition ntz :: "u64 \<Rightarrow> nat" where
  "ntz x = (if x = 0 then 0 else length (takeWhile (\<lambda>i. \<not> bit x i) [0..<64]))"

definition pntz :: "bitvec \<Rightarrow> nat" where
  "pntz p =
     (let r = ntz (fst p - 1)
      in if r \<noteq> 0 then r
         else let r = 64 + ntz (snd p) in if r \<noteq> 64 then r else 0)"

definition shl :: "bitvec \<Rightarrow> nat \<Rightarrow> bitvec" where
  "shl p n =
     (let (p0, p1, n) = (if n \<ge> 64 then (0, fst p, n - 64) else (fst p, snd p, n))
      in (push_bit n p0, push_bit n p1 OR drop_bit (64 - n) p0))"

definition shr :: "bitvec \<Rightarrow> nat \<Rightarrow> bitvec" where
  "shr p n =
     (let (p0, p1, n) = (if n \<ge> 64 then (snd p, 0, n - 64) else (fst p, snd p, n))
      in (drop_bit n p0 OR push_bit (64 - n) p1, drop_bit n p1))"

section \<open>Moving elements\<close>

text \<open>\<open>cycle\<close> moves the element at each position of the list to the position before it, the first
  one to the last position; the chunks of at most 256 bytes are moved one after the other.\<close>

fun cycle_from :: "'a \<Rightarrow> 'a list \<Rightarrow> nat list \<Rightarrow> 'a list" where
  "cycle_from tmp xs [] = xs"
| "cycle_from tmp xs [p] = xs[p := tmp]"
| "cycle_from tmp xs (p # q # ps) = cycle_from tmp (xs[p := xs ! q]) (q # ps)"

definition cycle :: "'a list \<Rightarrow> nat list \<Rightarrow> 'a list" where
  "cycle xs ar = (if length ar < 2 then xs else cycle_from (xs ! hd ar) xs ar)"

text \<open>The positions \<open>ar[1..]\<close> that \<open>sift\<close> collects; \<open>x\<close> is the element at \<open>ar[0]\<close>.\<close>

function sift_path ::
  "('a \<Rightarrow> 'a \<Rightarrow> int) \<Rightarrow> nat list \<Rightarrow> 'a list \<Rightarrow> 'a \<Rightarrow> nat \<Rightarrow> nat \<Rightarrow> nat list option" where
  "sift_path cmp lp xs x head pshift =
     (if pshift > 1 then
        if length lp \<le> pshift - 2 \<or> head < 1 + lp ! (pshift - 2) then None
        else
          let rt = head - 1; lf = head - 1 - lp ! (pshift - 2)
          in if cmp x (xs ! lf) \<ge> 0 \<and> cmp x (xs ! rt) \<ge> 0 then Some []
             else if cmp (xs ! lf) (xs ! rt) \<ge> 0
             then map_option (Cons lf) (sift_path cmp lp xs x lf (pshift - 1))
             else map_option (Cons rt) (sift_path cmp lp xs x rt (pshift - 2))
      else Some [])"
  by pat_completeness auto
termination by (relation "measure (\<lambda>(_, _, _, _, _, pshift). pshift)") auto

declare sift_path.simps [simp del]

definition sift :: "('a \<Rightarrow> 'a \<Rightarrow> int) \<Rightarrow> nat list \<Rightarrow> 'a list \<Rightarrow> nat \<Rightarrow> nat \<Rightarrow> 'a list option" where
  "sift cmp lp xs head pshift =
     (if head < length xs
      then map_option (\<lambda>ar. cycle xs (head # ar)) (sift_path cmp lp xs (xs ! head) head pshift)
      else None)"

text \<open>The loop of \<open>trinkle\<close>: the collected positions and the final \<open>head\<close>, \<open>pshift\<close> and
  \<open>trusty\<close>.\<close>

function trinkle_path ::
  "('a \<Rightarrow> 'a \<Rightarrow> int) \<Rightarrow> nat list \<Rightarrow> 'a list \<Rightarrow> 'a \<Rightarrow> nat \<Rightarrow> bitvec \<Rightarrow> nat \<Rightarrow> bool \<Rightarrow>
     (nat list \<times> nat \<times> nat \<times> bool) option" where
  "trinkle_path cmp lp xs x head p pshift trusty =
     (if p \<noteq> (1, 0) then
        if length lp \<le> pshift \<or> head < lp ! pshift \<or> lp ! pshift = 0 then None
        else
          let stepson = head - lp ! pshift
          in if cmp (xs ! stepson) x \<le> 0 then Some ([], head, pshift, trusty)
             else if \<not> trusty \<and> pshift > 1 \<and> head < 1 + lp ! (pshift - 2) then None
             else if \<not> trusty \<and> pshift > 1 \<and>
                (cmp (xs ! (head - 1)) (xs ! stepson) \<ge> 0 \<or>
                 cmp (xs ! (head - 1 - lp ! (pshift - 2))) (xs ! stepson) \<ge> 0)
             then Some ([], head, pshift, trusty)
             else
               let trail = pntz p
               in map_option (\<lambda>(ar, r). (stepson # ar, r))
                    (trinkle_path cmp lp xs x stepson (shr p trail) (pshift + trail) False)
      else Some ([], head, pshift, trusty))"
  by pat_completeness auto
termination by (relation "measure (\<lambda>(_, _, _, _, head, _). head)") auto

declare trinkle_path.simps [simp del]

definition trinkle ::
  "('a \<Rightarrow> 'a \<Rightarrow> int) \<Rightarrow> nat list \<Rightarrow> 'a list \<Rightarrow> nat \<Rightarrow> bitvec \<Rightarrow> nat \<Rightarrow> bool \<Rightarrow> 'a list option" where
  "trinkle cmp lp xs head pp pshift trusty =
     (if head < length xs
      then
        (case trinkle_path cmp lp xs (xs ! head) head pp pshift trusty of
           None \<Rightarrow> None
         | Some (ar, head', pshift', trusty') \<Rightarrow>
             if \<not> trusty' then sift cmp lp (cycle xs (head # ar)) head' pshift' else Some xs)
      else None)"

section \<open>The sort\<close>

text \<open>The table of Leonardo numbers, up to the first one that is not below the size.\<close>

function leonardo_from :: "nat \<Rightarrow> nat \<Rightarrow> nat \<Rightarrow> nat list" where
  "leonardo_from a b nel = (let v = a + b + 1 in v # (if v < nel then leonardo_from b v nel else []))"
  by pat_completeness auto
termination by (relation "measure (\<lambda>(a, b, nel). nel - b)") auto

declare leonardo_from.simps [simp del]

definition leonardo_table :: "nat \<Rightarrow> nat list" where
  "leonardo_table nel = 1 # 1 # leonardo_from 1 1 nel"

text \<open>First loop: one more element joins the forest in each round.\<close>

function build_forest ::
  "('a \<Rightarrow> 'a \<Rightarrow> int) \<Rightarrow> nat list \<Rightarrow> nat \<Rightarrow> 'a list \<Rightarrow> nat \<Rightarrow> bitvec \<Rightarrow> nat \<Rightarrow> ('a list \<times> nat \<times> bitvec \<times> nat) option" where
  "build_forest cmp lp high xs head p pshift =
     (if head < high then
        if fst p AND 3 = 3 then do {
          xs \<leftarrow> sift cmp lp xs head pshift;
          let p = shr p 2;
          build_forest cmp lp high xs (head + 1) (fst p OR 1, snd p) (pshift + 2) }
        else do {
          CHECK (0 < pshift \<and> pshift - 1 < length lp);
          xs \<leftarrow> (if lp ! (pshift - 1) \<ge> high - head then trinkle cmp lp xs head p pshift False
                 else sift cmp lp xs head pshift);
          let (p, pshift) = (if pshift = 1 then (shl p 1, 0) else (shl p (pshift - 1), 1));
          build_forest cmp lp high xs (head + 1) (fst p OR 1, snd p) pshift }
      else Some (xs, head, p, pshift))"
  by pat_completeness auto
termination by (relation "measure (\<lambda>(_, _, high, _, head, _, _). high - head)") auto

text \<open>Second loop: the last element leaves the forest in each round.\<close>

function take_forest ::
  "('a \<Rightarrow> 'a \<Rightarrow> int) \<Rightarrow> nat list \<Rightarrow> 'a list \<Rightarrow> nat \<Rightarrow> bitvec \<Rightarrow> nat \<Rightarrow> 'a list option" where
  "take_forest cmp lp xs head p pshift =
     (if pshift \<noteq> 1 \<or> p \<noteq> (1, 0) then
        if head = 0 then None
        else if pshift \<le> 1 then
          let trail = pntz p in take_forest cmp lp xs (head - 1) (shr p trail) (pshift + trail)
        else
          let p = shl p 2; pshift = pshift - 2; p = (fst p XOR 7, snd p); p = shr p 1
          in if length lp \<le> pshift \<or> head < lp ! pshift + 1 then None
             else do {
               xs \<leftarrow> trinkle cmp lp xs (head - lp ! pshift - 1) p (pshift + 1) True;
               let p = shl p 1;
               let p = (fst p OR 1, snd p);
               xs \<leftarrow> trinkle cmp lp xs (head - 1) p pshift True;
               take_forest cmp lp xs (head - 1) p pshift }
      else Some xs)"
  by pat_completeness auto
termination by (relation "measure (\<lambda>(_, _, _, head, _, _). head)") auto

declare build_forest.simps [simp del] take_forest.simps [simp del]

definition qsort :: "('a \<Rightarrow> 'a \<Rightarrow> int) \<Rightarrow> 'a list \<Rightarrow> 'a list option" where
  "qsort cmp xs =
     (if xs = [] then Some xs
      else do {
        let lp = leonardo_table (length xs);
        (xs, head, p, pshift) \<leftarrow> build_forest cmp lp (length xs - 1) xs 0 (1, 0) 1;
        xs \<leftarrow> trinkle cmp lp xs head p pshift False;
        take_forest cmp lp xs head p pshift })"

end
