(* ===== verification/Smoothsort_Correct.thy ===== *)
theory Smoothsort_Correct
  imports Smoothsort
begin

unbundle bit_operations_syntax

text \<open>
  Correctness of \<open>qsort\<close> (\<open>src/runtime/src/utils.c\<close>). The locale \<open>ordering\<close> states what the
  sort relies on: the comparison function reports the order of a key. Under that contract the
  forest that the code keeps in the array and its bit vector is a list of Leonardo heaps; the first
  loop builds it, \<open>trinkle\<close> restores it, the second loop takes the largest element away.
\<close>

section \<open>Comparison functions\<close>

locale ordering =
  fixes cmp :: "'a \<Rightarrow> 'a \<Rightarrow> int" and key :: "'a \<Rightarrow> 'b :: linorder"
  assumes cmp_neg: "cmp x y < 0 \<longleftrightarrow> key x < key y"
    and cmp_pos: "cmp x y > 0 \<longleftrightarrow> key x > key y"
begin

lemma cmp_ge: "cmp x y \<ge> 0 \<longleftrightarrow> key y \<le> key x"
  using cmp_neg by (metis linorder_not_less)

lemma cmp_le: "cmp x y \<le> 0 \<longleftrightarrow> key x \<le> key y"
  using cmp_pos by (metis linorder_not_less)

end

section \<open>Leonardo numbers\<close>

fun leonardo :: "nat \<Rightarrow> nat" where
  "leonardo 0 = 1"
| "leonardo (Suc 0) = 1"
| "leonardo (Suc (Suc k)) = leonardo k + leonardo (Suc k) + 1"

lemma leonardo_pos [simp]: "0 < leonardo k" "Suc 0 \<le> leonardo k"
  by (induction k rule: leonardo.induct) auto

lemma leonardo_ge_2: "2 \<le> k \<Longrightarrow> leonardo k = leonardo (k - 2) + leonardo (k - 1) + 1"
  by (cases k rule: leonardo.cases) auto

lemma leonardo_Suc_le: "leonardo k \<le> leonardo (Suc k)"
  by (cases k rule: leonardo.cases) auto

lemma leonardo_mono: "i \<le> j \<Longrightarrow> leonardo i \<le> leonardo j"
  by (rule lift_Suc_mono_le [of leonardo]) (auto simp: leonardo_Suc_le)

lemma leonardo_strict: "1 \<le> i \<Longrightarrow> i < j \<Longrightarrow> leonardo i < leonardo j"
proof (induction j)
  case (Suc j)
  show ?case
  proof (cases "i = j")
    case True
    then show ?thesis using Suc.prems(1) by (cases i) auto
  next
    case False
    then show ?thesis using Suc leonardo_Suc_le [of j] by (meson le_less_trans less_SucE not_le order_less_le_trans)
  qed
qed simp

lemma leonardo_power: "2 ^ m \<le> leonardo (2 * m)"
proof (induction m)
  case (Suc m)
  have "leonardo (2 * m) \<le> leonardo (Suc (2 * m))" by (rule leonardo_Suc_le)
  then show ?case using Suc by simp
qed simp

text \<open>A table is right when its entries are the Leonardo numbers and it is long enough for every
  order up to \<open>k\<close>.\<close>

definition table_ok :: "nat list \<Rightarrow> nat \<Rightarrow> bool" where
  "table_ok lp k \<longleftrightarrow> k < length lp \<and> (\<forall>i < length lp. lp ! i = leonardo i)"

lemma table_ok_le: "table_ok lp k \<Longrightarrow> i \<le> k \<Longrightarrow> table_ok lp i"
  by (auto simp: table_ok_def)

lemma table_ok_nth: "table_ok lp k \<Longrightarrow> i \<le> k \<Longrightarrow> lp ! i = leonardo i"
  by (auto simp: table_ok_def)

lemma leonardo_from_table:
  "a = leonardo k \<Longrightarrow> b = leonardo (Suc k) \<Longrightarrow>
     (\<forall>i < length (leonardo_from a b n). leonardo_from a b n ! i = leonardo (k + 2 + i)) \<and>
     0 < length (leonardo_from a b n) \<and> n \<le> last (leonardo_from a b n)"
proof (induction a b n arbitrary: k rule: leonardo_from.induct)
  case (1 a b n)
  let ?v = "a + b + 1"
  have v: "?v = leonardo (Suc (Suc k))" using "1.prems" by simp
  show ?case
  proof (cases "?v < n")
    case True
    then have eq: "leonardo_from a b n = ?v # leonardo_from b ?v n" by (subst leonardo_from.simps) (simp add: Let_def)
    show ?thesis
      using "1.IH" [OF refl True "1.prems"(2) v] unfolding eq v by (auto simp: nth_Cons split: nat.split)
  next
    case False
    then have "leonardo_from a b n = [?v]" by (subst leonardo_from.simps) (simp add: Let_def)
    then show ?thesis using v False by simp
  qed
qed

lemma leonardo_table_ok:
  assumes "leonardo k \<le> n" and "0 < k" shows "table_ok (leonardo_table n) k"
proof -
  let ?l = "leonardo_from 1 1 n"
  have l: "\<forall>i < length ?l. ?l ! i = leonardo (i + 2)" "0 < length ?l" "n \<le> last ?l"
    using leonardo_from_table [of 1 0 1 n] by (auto simp: add.commute)
  obtain m where m: "length ?l = Suc m" using l(2) by (cases "length ?l") auto
  have "last ?l = ?l ! m" using m last_conv_nth [of ?l] by fastforce
  also have "\<dots> = leonardo (m + 2)" using l(1) m by (metis lessI)
  finally have "last ?l = leonardo (length ?l + 1)" using m by simp
  then have "leonardo k \<le> leonardo (length ?l + 1)" using l(3) assms(1) by simp
  then have "k \<le> length ?l + 1" using leonardo_strict [of "length ?l + 1" k] by force
  moreover have "leonardo_table n ! i = leonardo i" if "i < length (leonardo_table n)" for i
    using that l(1) by (cases i rule: leonardo.cases) (auto simp: leonardo_table_def)
  ultimately show ?thesis by (simp add: table_ok_def leonardo_table_def)
qed

section \<open>Heaps\<close>

text \<open>The tree of order \<open>k\<close> with its root at \<open>r\<close> occupies the \<open>leonardo k\<close> places up to \<open>r\<close>.\<close>

definition in_tree :: "nat \<Rightarrow> nat \<Rightarrow> nat \<Rightarrow> bool" where
  "in_tree r k i \<longleftrightarrow> i \<le> r \<and> r < i + leonardo k"

function isheap :: "('a \<Rightarrow> 'b :: linorder) \<Rightarrow> 'a list \<Rightarrow> nat \<Rightarrow> nat \<Rightarrow> bool" where
  "isheap key xs r k \<longleftrightarrow>
     (2 \<le> k \<longrightarrow> key (xs ! (r - 1)) \<le> key (xs ! r) \<and> key (xs ! (r - 1 - leonardo (k - 2))) \<le> key (xs ! r) \<and>
        isheap key xs (r - 1) (k - 2) \<and> isheap key xs (r - 1 - leonardo (k - 2)) (k - 1))"
  by pat_completeness auto
termination by (relation "measure (\<lambda>(_, _, _, k). k)") auto

declare isheap.simps [simp del]

definition subheaps :: "('a \<Rightarrow> 'b :: linorder) \<Rightarrow> 'a list \<Rightarrow> nat \<Rightarrow> nat \<Rightarrow> bool" where
  "subheaps key xs r k \<longleftrightarrow>
     (2 \<le> k \<longrightarrow> isheap key xs (r - 1) (k - 2) \<and> isheap key xs (r - 1 - leonardo (k - 2)) (k - 1))"

lemma isheap_subheaps: "isheap key xs r k \<Longrightarrow> subheaps key xs r k"
  by (subst (asm) isheap.simps) (simp add: subheaps_def)

lemma isheap_I:
  "subheaps key xs r k \<Longrightarrow> (2 \<le> k \<Longrightarrow> key (xs ! (r - 1)) \<le> key (xs ! r)) \<Longrightarrow>
     (2 \<le> k \<Longrightarrow> key (xs ! (r - 1 - leonardo (k - 2))) \<le> key (xs ! r)) \<Longrightarrow> isheap key xs r k"
  by (subst isheap.simps) (simp add: subheaps_def)

lemma in_tree_children:
  assumes "2 \<le> k" and "leonardo k \<le> r + 1"
  shows "in_tree r k i \<longleftrightarrow> i = r \<or> in_tree (r - 1) (k - 2) i \<or> in_tree (r - 1 - leonardo (k - 2)) (k - 1) i"
    and "leonardo (k - 2) \<le> (r - 1) + 1" and "leonardo (k - 1) \<le> (r - 1 - leonardo (k - 2)) + 1"
    and "in_tree (r - 1) (k - 2) (r - 1)" and "in_tree (r - 1 - leonardo (k - 2)) (k - 1) (r - 1 - leonardo (k - 2))"
    and "r - 1 - leonardo (k - 2) < r - 1" and "1 + leonardo (k - 2) \<le> r" and "0 < r"
proof -
  define a b where "a = leonardo (k - 2)" and "b = leonardo (k - 1)"
  have ab: "0 < a" "0 < b" "a + b \<le> r" "leonardo k = a + b + 1"
    using leonardo_ge_2 [OF assms(1)] assms(2) by (auto simp: a_def b_def)
  show "in_tree r k i \<longleftrightarrow> i = r \<or> in_tree (r - 1) (k - 2) i \<or> in_tree (r - 1 - leonardo (k - 2)) (k - 1) i"
    "leonardo (k - 2) \<le> (r - 1) + 1" "leonardo (k - 1) \<le> (r - 1 - leonardo (k - 2)) + 1"
    "in_tree (r - 1) (k - 2) (r - 1)" "in_tree (r - 1 - leonardo (k - 2)) (k - 1) (r - 1 - leonardo (k - 2))"
    "r - 1 - leonardo (k - 2) < r - 1" "1 + leonardo (k - 2) \<le> r" "0 < r"
    using ab unfolding in_tree_def a_def [symmetric] b_def [symmetric] by linarith+
qed

lemma isheap_cong:
  "leonardo k \<le> r + 1 \<Longrightarrow> (\<And>i. in_tree r k i \<Longrightarrow> xs ! i = ys ! i) \<Longrightarrow> isheap key xs r k = isheap key ys r k"
proof (induction k arbitrary: r rule: less_induct)
  case (less k)
  show ?case
  proof (cases "2 \<le> k")
    case True
    note ch = in_tree_children [OF True less.prems(1)]
    have "isheap key xs (r - 1) (k - 2) = isheap key ys (r - 1) (k - 2)"
      using True ch(2) less.prems(2) ch(1) by (intro less.IH) auto
    moreover have "isheap key xs (r - 1 - leonardo (k - 2)) (k - 1) = isheap key ys (r - 1 - leonardo (k - 2)) (k - 1)"
      using True ch(3) less.prems(2) ch(1) by (intro less.IH) auto
    moreover have "xs ! r = ys ! r" "xs ! (r - 1) = ys ! (r - 1)"
      "xs ! (r - 1 - leonardo (k - 2)) = ys ! (r - 1 - leonardo (k - 2))"
      using less.prems(2) ch(1,4,5) by auto
    ultimately show ?thesis by (subst (1 2) isheap.simps) simp
  next
    case False
    then show ?thesis by (subst (1 2) isheap.simps) simp
  qed
qed

lemma isheap_upd_above: "s < r \<Longrightarrow> leonardo j \<le> s + 1 \<Longrightarrow> isheap key (xs[r := v]) s j = isheap key xs s j"
  by (rule isheap_cong) (auto simp: in_tree_def)

lemma isheap_le_root:
  "leonardo k \<le> r + 1 \<Longrightarrow> isheap key xs r k \<Longrightarrow> in_tree r k i \<Longrightarrow> key (xs ! i) \<le> key (xs ! r)"
proof (induction k arbitrary: r rule: less_induct)
  case (less k)
  show ?case
  proof (cases "2 \<le> k")
    case True
    note ch = in_tree_children [OF True less.prems(1)]
    have h: "key (xs ! (r - 1)) \<le> key (xs ! r)" "key (xs ! (r - 1 - leonardo (k - 2))) \<le> key (xs ! r)"
      "isheap key xs (r - 1) (k - 2)" "isheap key xs (r - 1 - leonardo (k - 2)) (k - 1)"
      using less.prems(2) True by (subst (asm) isheap.simps, simp)+
    consider "i = r" | "in_tree (r - 1) (k - 2) i" | "in_tree (r - 1 - leonardo (k - 2)) (k - 1) i"
      using less.prems(3) ch(1) by blast
    then show ?thesis
    proof cases
      case 2
      then show ?thesis using less.IH [OF _ ch(2) h(3)] h(1) True by fastforce
    next
      case 3
      then show ?thesis using less.IH [OF _ ch(3) h(4)] h(2) True by fastforce
    qed simp
  next
    case False
    then have "k = 0 \<or> k = 1" by auto
    then have "i = r" using less.prems(3) by (auto simp: in_tree_def)
    then show ?thesis by simp
  qed
qed

section \<open>Rearranging a segment\<close>

definition perm_in :: "nat \<Rightarrow> nat \<Rightarrow> 'a list \<Rightarrow> 'a list \<Rightarrow> bool" where
  "perm_in lo hi xs ys \<longleftrightarrow> mset ys = mset xs \<and> (\<forall>i. i < lo \<or> hi < i \<longrightarrow> ys ! i = xs ! i)"

lemma perm_in_refl [simp]: "perm_in lo hi xs xs"
  by (simp add: perm_in_def)

lemma perm_in_length: "perm_in lo hi xs ys \<Longrightarrow> length ys = length xs"
  by (metis perm_in_def size_mset)

lemma perm_in_mono: "perm_in lo hi xs ys \<Longrightarrow> lo' \<le> lo \<Longrightarrow> hi \<le> hi' \<Longrightarrow> perm_in lo' hi' xs ys"
  by (auto simp: perm_in_def)

lemma perm_in_trans: "perm_in lo hi xs ys \<Longrightarrow> perm_in lo hi ys zs \<Longrightarrow> perm_in lo hi xs zs"
  by (auto simp: perm_in_def)

lemma perm_in_swap:
  "i < length xs \<Longrightarrow> j < length xs \<Longrightarrow> lo \<le> i \<Longrightarrow> lo \<le> j \<Longrightarrow> i \<le> hi \<Longrightarrow> j \<le> hi \<Longrightarrow>
     perm_in lo hi xs (xs[i := xs ! j, j := xs ! i])"
  by (auto simp: perm_in_def mset_swap)

lemma perm_in_values:
  assumes "perm_in lo hi xs ys" and "lo \<le> i" and "i \<le> hi" and "i < length xs"
  shows "\<exists>j. lo \<le> j \<and> j \<le> hi \<and> j < length xs \<and> ys ! i = xs ! j"
proof -
  have len: "length ys = length xs" using perm_in_length [OF assms(1)] .
  let ?seg = "\<lambda>zs. drop lo (take (Suc hi) zs)"
  have split: "zs = take lo zs @ ?seg zs @ drop (Suc hi) zs" for zs :: "'a list"
    using assms(2,3) by (metis append.assoc append_take_drop_id le_SucI min.absorb1 order.trans take_take)
  have "take lo ys = take lo xs" using assms(1) len by (intro nth_equalityI) (auto simp: perm_in_def)
  moreover have "drop (Suc hi) ys = drop (Suc hi) xs" using assms(1) len by (intro nth_equalityI) (auto simp: perm_in_def)
  moreover have "mset ys = mset xs" using assms(1) by (simp add: perm_in_def)
  ultimately have "mset (?seg ys) = mset (?seg xs)"
    using split [of xs] split [of ys] by (metis add_left_cancel add_right_cancel mset_append)
  then have "set (?seg ys) = set (?seg xs)" by (rule mset_eq_setD)
  moreover have "ys ! i \<in> set (?seg ys)"
    using assms(2-4) len by (auto simp: in_set_conv_nth intro!: exI [of _ "i - lo"])
  ultimately obtain k where "k < length (?seg xs)" "ys ! i = ?seg xs ! k" by (auto simp: in_set_conv_nth)
  moreover from this have "?seg xs ! k = xs ! (lo + k)" using assms(2-4) by simp
  ultimately show ?thesis by (intro exI [of _ "lo + k"]) auto
qed

section \<open>Sifting\<close>

text \<open>\<open>sift\<close> with the element at \<open>ar[0]\<close> given separately.\<close>

definition sift_from :: "('a \<Rightarrow> 'a \<Rightarrow> int) \<Rightarrow> nat list \<Rightarrow> 'a \<Rightarrow> 'a list \<Rightarrow> nat \<Rightarrow> nat \<Rightarrow> 'a list option" where
  "sift_from cmp lp x xs r k = map_option (\<lambda>ar. cycle_from x xs (r # ar)) (sift_path cmp lp xs x r k)"

lemma cycle_Cons: "r < length xs \<Longrightarrow> cycle xs (r # ar) = cycle_from (xs ! r) xs (r # ar)"
  by (cases ar) (simp_all add: cycle_def)

lemma sift_eq: "r < length xs \<Longrightarrow> sift cmp lp xs r k = sift_from cmp lp (xs ! r) xs r k"
  by (simp add: sift_def sift_from_def cycle_Cons)

lemma sift_path_cong:
  "(\<And>i. i < r \<Longrightarrow> xs ! i = ys ! i) \<Longrightarrow> sift_path cmp lp xs x r k = sift_path cmp lp ys x r k"
proof (induction cmp lp xs x r k rule: sift_path.induct)
  case (1 cmp lp xs x r k)
  show ?case
  proof (cases "k > 1 \<and> \<not> (length lp \<le> k - 2 \<or> r < 1 + lp ! (k - 2))")
    case True
    define rt lf where "rt = r - 1" and "lf = r - 1 - lp ! (k - 2)"
    have b: "rt < r" "lf < r" using True by (auto simp: rt_def lf_def)
    have g: "k > 1" "\<not> (length lp \<le> k - 2 \<or> r < 1 + lp ! (k - 2))" using True by auto
    have eq: "xs ! lf = ys ! lf" "xs ! rt = ys ! rt" using "1.prems" b by auto
    have rec: "\<not> (0 \<le> cmp x (xs ! lf) \<and> 0 \<le> cmp x (xs ! rt)) \<Longrightarrow> 0 \<le> cmp (xs ! lf) (xs ! rt) \<Longrightarrow>
        sift_path cmp lp xs x lf (k - 1) = sift_path cmp lp ys x lf (k - 1)"
      "\<not> (0 \<le> cmp x (xs ! lf) \<and> 0 \<le> cmp x (xs ! rt)) \<Longrightarrow> \<not> 0 \<le> cmp (xs ! lf) (xs ! rt) \<Longrightarrow>
        sift_path cmp lp xs x rt (k - 2) = sift_path cmp lp ys x rt (k - 2)"
      using "1.IH"(1) [OF g refl refl] "1.IH"(2) [OF g refl refl] "1.prems" b unfolding rt_def lf_def by auto
    have un: "sift_path cmp lp zs x r k =
        (if 0 \<le> cmp x (zs ! lf) \<and> 0 \<le> cmp x (zs ! rt) then Some []
         else if 0 \<le> cmp (zs ! lf) (zs ! rt) then map_option (Cons lf) (sift_path cmp lp zs x lf (k - 1))
         else map_option (Cons rt) (sift_path cmp lp zs x rt (k - 2)))" for zs
      using g by (subst sift_path.simps) (simp add: Let_def rt_def lf_def)
    show ?thesis unfolding un using rec by (simp add: eq)
  next
    case False
    then show ?thesis by (subst (1 2) sift_path.simps) auto
  qed
qed

context ordering
begin

lemma sift_from_small: "k \<le> 1 \<Longrightarrow> sift_from cmp lp x xs r k = Some (xs[r := x])"
  by (simp add: sift_from_def sift_path.simps)

lemma sift_from_step:
  assumes "2 \<le> k" and "table_ok lp k" and "leonardo k \<le> r + 1"
  defines "rt \<equiv> r - 1" and "lf \<equiv> r - 1 - leonardo (k - 2)"
  shows "sift_from cmp lp x xs r k =
    (if key (xs ! lf) \<le> key x \<and> key (xs ! rt) \<le> key x then Some (xs[r := x])
     else if key (xs ! rt) \<le> key (xs ! lf) then sift_from cmp lp x (xs[r := xs ! lf]) lf (k - 1)
     else sift_from cmp lp x (xs[r := xs ! rt]) rt (k - 2))"
proof -
  note ch = in_tree_children [OF assms(1,3)]
  have lp: "lp ! (k - 2) = leonardo (k - 2)" "\<not> length lp \<le> k - 2" using assms(2) by (auto simp: table_ok_def)
  have g: "\<not> r < 1 + leonardo (k - 2)" "1 < k" using ch(7) assms(1) by auto
  have less: "lf < r" "rt < r" using ch(7,8) by (auto simp: lf_def rt_def)
  have cong: "sift_path cmp lp (xs[r := v]) x s j = sift_path cmp lp xs x s j" if "s < r" for v s j
    using that by (intro sift_path_cong) auto
  have "sift_path cmp lp xs x r k =
    (if key (xs ! lf) \<le> key x \<and> key (xs ! rt) \<le> key x then Some []
     else if key (xs ! rt) \<le> key (xs ! lf) then map_option (Cons lf) (sift_path cmp lp xs x lf (k - 1))
     else map_option (Cons rt) (sift_path cmp lp xs x rt (k - 2)))"
    using g lp by (subst sift_path.simps) (simp add: Let_def cmp_ge rt_def lf_def)
  then show ?thesis
    by (auto simp: sift_from_def cong less option.map_comp o_def)
qed

lemma sift_from_heap:
  "table_ok lp k \<Longrightarrow> leonardo k \<le> r + 1 \<Longrightarrow> r < length xs \<Longrightarrow> subheaps key xs r k \<Longrightarrow>
     \<exists>ys. sift_from cmp lp x xs r k = Some ys \<and> perm_in (r + 1 - leonardo k) r (xs[r := x]) ys \<and> isheap key ys r k"
proof (induction k arbitrary: r xs rule: less_induct)
  case (less k)
  show ?case
  proof (cases "2 \<le> k")
    case False
    then show ?thesis by (subst isheap.simps) (simp add: sift_from_small)
  next
    case True
    define rt lf where "rt = r - 1" and "lf = r - 1 - leonardo (k - 2)"
    note ch = in_tree_children [OF True less.prems(2), folded rt_def lf_def]
    note step = sift_from_step [OF True less.prems(1,2), folded rt_def lf_def, of x xs]
    have sub: "isheap key xs rt (k - 2)" "isheap key xs lf (k - 1)"
      using less.prems(4) True by (auto simp: subheaps_def rt_def lf_def)
    have L: "leonardo k = leonardo (k - 2) + leonardo (k - 1) + 1" using leonardo_ge_2 [OF True] .
    have pos: "lf < rt" "rt < r" "lf < length xs" "rt < length xs" using ch(6,8) less.prems(3) by (auto simp: rt_def)
    have tab: "table_ok lp (k - 1)" "table_ok lp (k - 2)" using less.prems(1) by (auto intro: table_ok_le)
    have lo: "r + 1 - leonardo k \<le> lf + 1 - leonardo (k - 1)" "r + 1 - leonardo k \<le> rt + 1 - leonardo (k - 2)"
      using L ch(7) by (auto simp: lf_def rt_def)
    have lr: "lf < r" using pos by simp
    have own: "lf + 1 - leonardo (k - 1) \<le> lf" "rt + 1 - leonardo (k - 2) \<le> rt"
      using leonardo_pos(2) [of "k - 1"] leonardo_pos(2) [of "k - 2"] by linarith+
    have lo2: "r + 1 - leonardo k \<le> lf" "r + 1 - leonardo k \<le> rt" "r + 1 - leonardo k \<le> r"
      using lo leonardo_pos(2) [of "k - 1"] leonardo_pos(2) [of k] pos by linarith+
    have mk: "isheap key zs r k"
      if "isheap key zs rt (k - 2)" "isheap key zs lf (k - 1)" "key (zs ! lf) \<le> key (zs ! r)" "key (zs ! rt) \<le> key (zs ! r)"
      for zs using that unfolding rt_def lf_def by (intro isheap_I) (simp_all add: subheaps_def)
    note keep = isheap_upd_above [OF lr ch(3)] isheap_upd_above [OF pos(2) ch(2)]
    have below: "in_tree s j i \<Longrightarrow> i \<le> s" for s j i by (auto simp: in_tree_def)
    consider (stay) "key (xs ! lf) \<le> key x" "key (xs ! rt) \<le> key x"
      | (left) "\<not> (key (xs ! lf) \<le> key x \<and> key (xs ! rt) \<le> key x)" "key (xs ! rt) \<le> key (xs ! lf)"
      | (right) "\<not> (key (xs ! lf) \<le> key x \<and> key (xs ! rt) \<le> key x)" "\<not> key (xs ! rt) \<le> key (xs ! lf)" by blast
    then show ?thesis
    proof cases
      case stay
      let ?ys = "xs[r := x]"
      have "isheap key ?ys rt (k - 2)" "isheap key ?ys lf (k - 1)"
        unfolding keep using sub by simp_all
      then have "isheap key ?ys r k"
        using pos less.prems(3) stay by (intro mk) auto
      then show ?thesis using step stay by simp
    next
      case left
      let ?xs = "xs[r := xs ! lf]"
      have h: "isheap key ?xs lf (k - 1)" "isheap key ?xs rt (k - 2)"
        unfolding keep using sub by simp_all
      obtain ys where ys: "sift_from cmp lp x ?xs lf (k - 1) = Some ys"
        "perm_in (lf + 1 - leonardo (k - 1)) lf (?xs[lf := x]) ys" "isheap key ys lf (k - 1)"
        using less.IH [OF _ tab(1) ch(3) _ isheap_subheaps [OF h(1)]] True pos(3) by auto
      have "perm_in (r + 1 - leonardo k) r (xs[r := x]) (?xs[lf := x])"
        using perm_in_swap [of r "xs[r := x]" lf "r + 1 - leonardo k" r] pos less.prems(3) lo2 by simp
      moreover have "perm_in (r + 1 - leonardo k) r (?xs[lf := x]) ys"
        using ys(2) lo(1) pos by (auto intro: perm_in_mono)
      ultimately have perm: "perm_in (r + 1 - leonardo k) r (xs[r := x]) ys" by (rule perm_in_trans)
      have "ys ! i = ?xs ! i" if "lf < i" for i using ys(2) that by (auto simp: perm_in_def)
      moreover have "in_tree rt (k - 2) i \<Longrightarrow> lf < i" for i
        using ch(7) by (auto simp: in_tree_def lf_def rt_def)
      ultimately have hr: "isheap key ys rt (k - 2)" and r: "ys ! r = xs ! lf" "ys ! rt = xs ! rt"
        using h(2) isheap_cong [OF ch(2), of ys ?xs key] pos less.prems(3) by auto
      have "key (ys ! lf) \<le> key (xs ! lf)"
      proof -
        obtain i where i: "lf + 1 - leonardo (k - 1) \<le> i" "i \<le> lf" "ys ! lf = (?xs[lf := x]) ! i"
          using perm_in_values [OF ys(2) own(1) order_refl] pos by auto
        show ?thesis
        proof (cases "i = lf")
          case True
          then show ?thesis using i(3) left pos by auto
        next
          case False
          then have "in_tree lf (k - 1) i" using i by (auto simp: in_tree_def)
          then show ?thesis using isheap_le_root [OF ch(3) sub(2)] i(3) False pos i(2) by auto
        qed
      qed
      then have "isheap key ys r k"
        using ys(3) hr r left by (intro mk) auto
      then show ?thesis using step left ys(1) perm by auto
    next
      case right
      let ?xs = "xs[r := xs ! rt]"
      have h: "isheap key ?xs lf (k - 1)" "isheap key ?xs rt (k - 2)"
        unfolding keep using sub by simp_all
      obtain ys where ys: "sift_from cmp lp x ?xs rt (k - 2) = Some ys"
        "perm_in (rt + 1 - leonardo (k - 2)) rt (?xs[rt := x]) ys" "isheap key ys rt (k - 2)"
        using less.IH [OF _ tab(2) ch(2) _ isheap_subheaps [OF h(2)]] True pos(4) by auto
      have "perm_in (r + 1 - leonardo k) r (xs[r := x]) (?xs[rt := x])"
        using perm_in_swap [of r "xs[r := x]" rt "r + 1 - leonardo k" r] pos less.prems(3) lo2 by simp
      moreover have "perm_in (r + 1 - leonardo k) r (?xs[rt := x]) ys"
        using ys(2) lo(2) pos by (auto intro: perm_in_mono)
      ultimately have perm: "perm_in (r + 1 - leonardo k) r (xs[r := x]) ys" by (rule perm_in_trans)
      have out: "ys ! i = ?xs ! i" if "rt < i \<or> i \<le> lf" for i
        using ys(2) that pos ch(7) by (auto simp: perm_in_def lf_def rt_def)
      then have hl: "isheap key ys lf (k - 1)" and r: "ys ! r = xs ! rt" "ys ! lf = xs ! lf"
        using h(1) isheap_cong [OF ch(3), of ys ?xs key] pos less.prems(3) below by auto
      have "key (ys ! rt) \<le> key (xs ! rt)"
      proof -
        obtain i where i: "rt + 1 - leonardo (k - 2) \<le> i" "i \<le> rt" "ys ! rt = (?xs[rt := x]) ! i"
          using perm_in_values [OF ys(2) own(2) order_refl] pos by auto
        show ?thesis
        proof (cases "i = rt")
          case True
          then show ?thesis using i(3) right pos by auto
        next
          case False
          then have "in_tree rt (k - 2) i" using i by (auto simp: in_tree_def)
          then show ?thesis using isheap_le_root [OF ch(2) sub(1)] i(3) False pos i(2) by auto
        qed
      qed
      then have "isheap key ys r k"
        using ys(3) hl r right by (intro mk) auto
      then show ?thesis using step right ys(1) perm by auto
    qed
  qed
qed
end

section \<open>The bit vector of a forest\<close>

text \<open>The bit vector \<open>p\<close> at \<open>pshift = k\<close> stands for the orders \<open>ks\<close>, the last tree first.\<close>

definition orders :: "bitvec \<Rightarrow> nat \<Rightarrow> nat list \<Rightarrow> bool" where
  "orders p k ks \<longleftrightarrow> snd p = 0 \<and> ks \<noteq> [] \<and> hd ks = k \<and> (\<forall>i. bit (fst p) i \<longleftrightarrow> k + i \<in> set ks) \<and>
     sorted_wrt (<) ks \<and> (\<forall>j \<in> set ks. j < 64)"

lemma bit_u64: "bit (x :: u64) n \<Longrightarrow> n < 64"
  by (drule bit_imp_le_length) simp

lemma ntz_eq:
  assumes "bit x n" and "\<And>i. i < n \<Longrightarrow> \<not> bit x i" shows "ntz x = n"
proof -
  have n: "n < 64" using assms(1) by (rule bit_u64)
  have "takeWhile (\<lambda>i. \<not> bit x i) ([0..<n] @ n # [Suc n..<64]) = [0..<n]"
    using assms by (subst takeWhile_append2) auto
  moreover have "[0..<64] = [0..<n] @ n # [Suc n..<64]"
    using n upt_add_eq_append [of 0 n "64 - n"] by (simp add: upt_conv_Cons)
  moreover have "x \<noteq> 0" using assms(1) by auto
  ultimately show ?thesis by (simp add: ntz_def)
qed

lemma shr_small: "snd p = 0 \<Longrightarrow> n < 64 \<Longrightarrow> shr p n = (drop_bit n (fst p), 0)"
  by (simp add: shr_def)

lemma shl_small:
  assumes "snd p = 0" and "n < 64" and "\<And>i. bit (fst p) i \<Longrightarrow> i + n < 64"
  shows "shl p n = (push_bit n (fst p), 0)"
proof -
  have "drop_bit (64 - n) (fst p) = 0"
  proof (rule bit_eqI)
    fix i
    have "\<not> bit (fst p) (64 - n + i)" using assms(3) [of "64 - n + i"] assms(2) by fastforce
    then show "bit (drop_bit (64 - n) (fst p)) i = bit (0 :: u64) i" by (simp add: bit_drop_bit_eq)
  qed
  then show ?thesis using assms(1,2) by (simp add: shl_def)
qed

lemma orders_single: "orders p k ks \<Longrightarrow> p = (1, 0) \<longleftrightarrow> ks = [k]"
proof -
  assume o: "orders p k ks"
  then obtain ks' where ks: "ks = k # ks'" by (cases ks) (auto simp: orders_def)
  show "p = (1, 0) \<longleftrightarrow> ks = [k]"
  proof
    assume "p = (1, 0)"
    then have "\<forall>i. bit (1 :: u64) i \<longleftrightarrow> k + i \<in> set ks" using o by (simp add: orders_def)
    then have eq: "i = 0 \<longleftrightarrow> k + i \<in> set ks" for i by (simp add: bit_1_iff)
    have "ks' = []"
    proof (rule ccontr)
      assume "ks' \<noteq> []"
      then obtain j where j: "j \<in> set ks'" by (cases ks') auto
      then have "k < j" using o ks by (auto simp: orders_def)
      then show False using eq [of "j - k"] j ks by auto
    qed
    then show "ks = [k]" using ks by simp
  next
    assume "ks = [k]"
    then have "bit (fst p) i \<longleftrightarrow> bit 1 i" for i using o by (auto simp: orders_def bit_1_iff)
    then have "fst p = 1" by (intro bit_eqI) simp
    then show "p = (1, 0)" using o by (auto simp: orders_def prod_eq_iff)
  qed
qed

lemma orders_odd: "orders p k ks \<Longrightarrow> bit (fst p) 0"
  by (cases ks) (auto simp: orders_def)

lemma bit_minus_1: assumes "bit (x :: u64) 0" shows "bit (x - 1) i \<longleftrightarrow> i \<noteq> 0 \<and> bit x i"
proof -
  have "x - 1 = x AND NOT 1" using assms by (intro disjunctive_diff) (simp add: bit_1_iff)
  then show ?thesis using bit_u64 [of x i] by (auto simp: bit_simps)
qed

lemma orders_next:
  assumes "orders p k (k # k' # ks)"
  shows "pntz p = k' - k" and "orders (shr p (k' - k)) k' (k' # ks)"
proof -
  have o: "snd p = 0" "\<And>i. bit (fst p) i \<longleftrightarrow> k + i \<in> set (k # k' # ks)" "k < k'" "\<forall>j \<in> set ks. k' < j \<and> k < j"
    "sorted_wrt (<) (k' # ks)" "\<forall>j \<in> set (k' # ks). j < 64"
    using assms by (auto simp: orders_def)
  have "ntz (fst p - 1) = k' - k"
    using o(3,4) by (intro ntz_eq) (auto simp: bit_minus_1 [OF orders_odd [OF assms]] o(2))
  then show "pntz p = k' - k" using o(3) by (simp add: pntz_def)
  have s: "shr p (k' - k) = (drop_bit (k' - k) (fst p), 0)" using o by (intro shr_small) auto
  have "bit (fst p) (k' - k + i) \<longleftrightarrow> k' + i \<in> set (k' # ks)" for i
    using o(2) [of "k' - k + i"] o(3) by auto
  then show "orders (shr p (k' - k)) k' (k' # ks)"
    using o unfolding s by (auto simp: orders_def bit_simps)
qed

lemma bit_3: "bit (3 :: u64) i \<longleftrightarrow> i < 2"
proof -
  have "(3 :: u64) = mask 2" by (simp add: mask_eq_exp_minus_1)
  then show ?thesis by (simp only: bit_mask_iff) auto
qed

lemma bit_7: "bit (7 :: u64) i \<longleftrightarrow> i < 3"
proof -
  have "(7 :: u64) = mask 3" by (simp add: mask_eq_exp_minus_1)
  then show ?thesis by (simp only: bit_mask_iff) auto
qed

lemma orders_adjacent: assumes o: "orders p k ks" shows "fst p AND 3 = 3 \<longleftrightarrow> Suc k \<in> set ks"
proof -
  have "fst p AND 3 = 3 \<longleftrightarrow> bit (fst p) 0 \<and> bit (fst p) 1"
  proof
    assume "fst p AND 3 = 3"
    then have "bit (fst p AND 3) i = bit (3 :: u64) i" for i by simp
    then have "bit (fst p) i \<or> \<not> i < 2" for i unfolding bit_and_iff bit_3 by blast
    from this [of 0] this [of 1] show "bit (fst p) 0 \<and> bit (fst p) 1" by simp
  next
    assume b: "bit (fst p) 0 \<and> bit (fst p) 1"
    show "fst p AND 3 = 3"
    proof (rule bit_eqI)
      fix i
      have "i < 2 \<Longrightarrow> i = 0 \<or> i = 1" for i :: nat by auto
      then show "bit (fst p AND 3) i = bit (3 :: u64) i" unfolding bit_and_iff bit_3 using b by blast
    qed
  qed
  then show ?thesis using o orders_odd [OF o] by (auto simp: orders_def)
qed

lemma orders_merge:
  assumes "orders p k (k # Suc k # ks)" and "k + 2 < 64" and "\<forall>j \<in> set ks. k + 2 < j"
  shows "orders (fst (shr p 2) OR 1, snd (shr p 2)) (k + 2) ((k + 2) # ks)"
proof -
  have o: "snd p = 0" "\<And>i. bit (fst p) i \<longleftrightarrow> k + i \<in> set (k # Suc k # ks)"
    "sorted_wrt (<) ks" "\<forall>j \<in> set ks. j < 64" using assms by (auto simp: orders_def)
  have "bit (drop_bit 2 (fst p) OR 1) i \<longleftrightarrow> k + 2 + i \<in> set ((k + 2) # ks)" for i
    using o(2) [of "2 + i"] by (auto simp: bit_simps)
  then show ?thesis using o assms shr_small [OF o(1), of 2] by (auto simp: orders_def)
qed

lemma orders_ge: assumes "orders p k ks" "l \<in> set ks" shows "k \<le> l"
proof (cases ks)
  case (Cons a ks')
  then show ?thesis using assms by (auto simp: orders_def intro: less_imp_le)
qed (use assms in simp)

lemma orders_push:
  assumes "orders p k ks" and "j < k"
  shows "orders (fst (shl p (k - j)) OR 1, snd (shl p (k - j))) j (j # ks)"
proof -
  have o: "snd p = 0" "\<And>i. bit (fst p) i \<longleftrightarrow> k + i \<in> set ks" "sorted_wrt (<) ks" "\<forall>j \<in> set ks. j < 64"
    "ks \<noteq> []" "hd ks = k" using assms by (simp_all add: orders_def)
  have ge: "\<And>l. l \<in> set ks \<Longrightarrow> k \<le> l" using orders_ge [OF assms(1)] .
  have k: "k < 64" using o(4-6) by (metis hd_in_set)
  have small: "i + (k - j) < 64" if "bit (fst p) i" for i
    using that o(2) [of i] o(4) assms(2) by fastforce
  have s: "shl p (k - j) = (push_bit (k - j) (fst p), 0)"
    using o(1) k small by (intro shl_small) auto
  have b: "bit (push_bit (k - j) (fst p) OR 1) i \<longleftrightarrow> j + i \<in> set (j # ks)" for i
  proof (cases "k - j \<le> i")
    case True
    then have e: "k + (i - (k - j)) = j + i" "i \<noteq> 0" using assms(2) by simp_all
    have "bit (push_bit (k - j) (fst p) OR 1) i \<longleftrightarrow> i < 64 \<and> bit (fst p) (i - (k - j))"
      using True e(2) by (auto simp: bit_or_iff bit_push_bit_iff bit_1_iff)
    also have "\<dots> \<longleftrightarrow> i < 64 \<and> j + i \<in> set ks" unfolding o(2) e(1) ..
    also have "\<dots> \<longleftrightarrow> j + i \<in> set ks" using o(4) by fastforce
    finally show ?thesis using e(2) by simp
  next
    case False
    then have "j + i \<notin> set ks" using ge by fastforce
    then show ?thesis using False by (simp add: bit_or_iff bit_push_bit_iff bit_1_iff)
  qed
  have "sorted_wrt (<) (j # ks)" using o(3) ge assms(2) by fastforce
  then show ?thesis using o(4) k assms(2) b unfolding s by (simp add: orders_def)
qed

lemma orders_split:
  assumes "orders p k (k # ks)" and "2 \<le> k"
  shows "orders (shr (fst (shl p 2) XOR 7, snd (shl p 2)) 1) (k - 1) ((k - 1) # ks)"
proof -
  have o: "snd p = 0" "\<And>i. bit (fst p) i \<longleftrightarrow> k + i \<in> set (k # ks)" "sorted_wrt (<) (k # ks)" "\<forall>j \<in> set (k # ks). j < 64"
    using assms by (simp_all add: orders_def)
  have small: "i + 2 < 64" if "bit (fst p) i" for i
    using that o(2) [of i] o(4) assms(2) by fastforce
  have s: "shl p 2 = (push_bit 2 (fst p), 0)" using o(1) small by (intro shl_small) auto
  have s2: "shr (fst (shl p 2) XOR 7, snd (shl p 2)) 1 = (drop_bit 1 (push_bit 2 (fst p) XOR 7), 0)"
    unfolding s by (subst shr_small) simp_all
  have e: "bit (drop_bit 1 (push_bit 2 (fst p) XOR 7)) i \<longleftrightarrow> (2 \<le> 1 + i \<and> 1 + i < 64 \<and> bit (fst p) (1 + i - 2)) \<noteq> (1 + i < 3)" for i
    unfolding bit_drop_bit_eq bit_xor_iff bit_push_bit_iff comp_def bit_7 by auto
  have b: "bit (drop_bit 1 (push_bit 2 (fst p) XOR 7)) i \<longleftrightarrow> k - 1 + i \<in> set ((k - 1) # ks)" for i
  proof -
    consider "i = 0" | "i = 1" | "2 \<le> i" by linarith
    then show ?thesis
    proof cases
      case 1
      then show ?thesis unfolding e by simp
    next
      case 2
      then have "k - 1 + i \<notin> set ks" using o(3) assms(2) by auto
      then show ?thesis using orders_odd [OF assms(1)] 2 assms(2) unfolding e by simp
    next
      case 3
      then have "k + (i - 1) = k - 1 + i" "1 + i - 2 = i - 1" using assms(2) by simp_all
      moreover have "k - 1 + i \<in> set ks \<Longrightarrow> 1 + i < 64" using o(4) assms(2) by fastforce
      ultimately show ?thesis using o(2) [of "i - 1"] 3 assms(2) unfolding e by auto
    qed
  qed
  have "sorted_wrt (<) ((k - 1) # ks)" using o(3) by fastforce
  then show ?thesis using o(4) assms(2) b unfolding s2 by (auto simp: orders_def)
qed

section \<open>The forest\<close>

text \<open>The trees of orders \<open>ks\<close>, the first with its root at \<open>r\<close>, each next one right before the tree
  before it, exactly fill the places up to \<open>r\<close>.\<close>

fun fits :: "nat \<Rightarrow> nat list \<Rightarrow> bool" where
  "fits r [] \<longleftrightarrow> False"
| "fits r [k] \<longleftrightarrow> r + 1 = leonardo k"
| "fits r (k # ks) \<longleftrightarrow> leonardo k \<le> r \<and> fits (r - leonardo k) ks"

fun heaps :: "('a \<Rightarrow> 'b :: linorder) \<Rightarrow> 'a list \<Rightarrow> nat \<Rightarrow> nat list \<Rightarrow> bool" where
  "heaps key xs r [] \<longleftrightarrow> True"
| "heaps key xs r (k # ks) \<longleftrightarrow> isheap key xs r k \<and> heaps key xs (r - leonardo k) ks"

fun rsorted :: "('a \<Rightarrow> 'b :: linorder) \<Rightarrow> 'a list \<Rightarrow> nat \<Rightarrow> nat list \<Rightarrow> bool" where
  "rsorted key xs r (k # k' # ks) \<longleftrightarrow>
     key (xs ! (r - leonardo k)) \<le> key (xs ! r) \<and> rsorted key xs (r - leonardo k) (k' # ks)"
| "rsorted key xs r ks \<longleftrightarrow> True"

lemma fits_le: "fits r (k # ks) \<Longrightarrow> leonardo k \<le> r + 1"
  by (cases ks) auto

lemma fits_rest: "fits r (k # ks) \<Longrightarrow> ks \<noteq> [] \<Longrightarrow> leonardo k \<le> r \<and> fits (r - leonardo k) ks"
  by (cases ks) auto

lemma fits_bound: "fits r ks \<Longrightarrow> k \<in> set ks \<Longrightarrow> leonardo k \<le> r + 1"
proof (induction r ks rule: fits.induct)
  case (3 r k k' ks)
  then show ?case by fastforce
qed auto

lemma heaps_cong:
  "fits r ks \<Longrightarrow> (\<And>i. i \<le> r \<Longrightarrow> xs ! i = ys ! i) \<Longrightarrow> heaps key xs r ks = heaps key ys r ks"
proof (induction ks arbitrary: r)
  case (Cons k ks)
  have "isheap key xs r k = isheap key ys r k"
    using Cons.prems by (intro isheap_cong fits_le) (auto simp: in_tree_def)
  moreover have "heaps key xs (r - leonardo k) ks = heaps key ys (r - leonardo k) ks"
  proof (cases "ks = []")
    case False
    then show ?thesis using Cons.IH [of "r - leonardo k"] fits_rest [OF Cons.prems(1)] Cons.prems(2) by simp
  qed simp
  ultimately show ?case by simp
qed simp

lemma rsorted_cong:
  "fits r ks \<Longrightarrow> (\<And>i. i \<le> r \<Longrightarrow> xs ! i = ys ! i) \<Longrightarrow> rsorted key xs r ks = rsorted key ys r ks"
  by (induction r ks rule: fits.induct) auto

lemma heaps_max:
  "fits r ks \<Longrightarrow> heaps key xs r ks \<Longrightarrow> rsorted key xs r ks \<Longrightarrow> i \<le> r \<Longrightarrow> key (xs ! i) \<le> key (xs ! r)"
proof (induction r ks rule: fits.induct)
  case (2 r k)
  then show ?case using isheap_le_root [of k r key xs i] by (simp add: in_tree_def)
next
  case (3 r k k' ks)
  show ?case
  proof (cases "in_tree r k i")
    case True
    then show ?thesis using "3.prems" isheap_le_root [of k r key xs i] by simp
  next
    case False
    then have "i \<le> r - leonardo k" using "3.prems" by (auto simp: in_tree_def)
    then have "key (xs ! i) \<le> key (xs ! (r - leonardo k))" using "3.IH" "3.prems" by simp
    also have "\<dots> \<le> key (xs ! r)" using "3.prems" by simp
    finally show ?thesis .
  qed
qed simp

section \<open>Trinkling\<close>

lemma perm_in_sym: "perm_in lo hi xs ys \<Longrightarrow> perm_in lo hi ys xs"
  by (simp add: perm_in_def)

lemma cycle_from_last: "ps \<noteq> [] \<Longrightarrow> last ps < length xs \<Longrightarrow> cycle_from x xs ps ! last ps = x"
  by (induction x xs ps rule: cycle_from.induct) auto

lemma length_cycle_from [simp]: "length (cycle_from x xs ps) = length xs"
  by (induction x xs ps rule: cycle_from.induct) auto

text \<open>The conditions under which the loop goes on.\<close>

definition goes_on :: "('a \<Rightarrow> 'a \<Rightarrow> int) \<Rightarrow> nat list \<Rightarrow> 'a list \<Rightarrow> 'a \<Rightarrow> nat \<Rightarrow> nat \<Rightarrow> bool \<Rightarrow> bool" where
  "goes_on cmp lp xs x head k t \<longleftrightarrow>
     \<not> cmp (xs ! (head - lp ! k)) x \<le> 0 \<and>
     \<not> (\<not> t \<and> k > 1 \<and> (cmp (xs ! (head - 1)) (xs ! (head - lp ! k)) \<ge> 0 \<or>
        cmp (xs ! (head - 1 - lp ! (k - 2))) (xs ! (head - lp ! k)) \<ge> 0))"

definition in_table :: "nat list \<Rightarrow> nat \<Rightarrow> nat \<Rightarrow> bool" where
  "in_table lp head k \<longleftrightarrow> k < length lp \<and> lp ! k \<le> head \<and> 0 < lp ! k"

lemma trinkle_path_step:
  "trinkle_path cmp lp xs x head p k t =
     (if p = (1, 0) then Some ([], head, k, t)
      else if \<not> in_table lp head k then None
      else if \<not> cmp (xs ! (head - lp ! k)) x \<le> 0 \<and> \<not> t \<and> k > 1 \<and> head < 1 + lp ! (k - 2) then None
      else if goes_on cmp lp xs x head k t
      then map_option (\<lambda>(ar, r). ((head - lp ! k) # ar, r))
             (trinkle_path cmp lp xs x (head - lp ! k) (shr p (pntz p)) (k + pntz p) False)
      else Some ([], head, k, t))"
proof -
  have "length lp \<le> k \<or> head < lp ! k \<or> lp ! k = 0 \<longleftrightarrow> \<not> in_table lp head k" by (auto simp: in_table_def)
  then show ?thesis
    unfolding trinkle_path.simps [of cmp lp xs x head p k t] Let_def goes_on_def by (auto simp del: One_nat_def)
qed

lemma trinkle_path_last:
  "trinkle_path cmp lp xs x head p k t = Some (ar, h', k', t') \<Longrightarrow>
     h' = last (head # ar) \<and> (ar \<noteq> [] \<longrightarrow> \<not> t') \<and> (\<not> t \<longrightarrow> \<not> t') \<and> (\<forall>a \<in> set ar. a < head) \<and> (ar = [] \<longrightarrow> t' = t \<and> k' = k)"
proof (induction head arbitrary: p k t ar rule: less_induct)
  case (less head)
  let ?s = "head - lp ! k"
  show ?case
  proof (cases "ar = []")
    case True
    then show ?thesis using less.prems by (subst (asm) trinkle_path_step) (auto split: if_splits)
  next
    case False
    then obtain ar1 where r: "trinkle_path cmp lp xs x ?s (shr p (pntz p)) (k + pntz p) False = Some (ar1, h', k', t')"
      "ar = ?s # ar1" "in_table lp head k"
      using less.prems by (subst (asm) trinkle_path_step) (auto split: if_splits)
    then have "?s < head" by (auto simp: in_table_def)
    then show ?thesis using less.IH [OF _ r(1)] r(2) by auto
  qed
qed

lemma trinkle_path_cong:
  "(\<And>i. i < head \<Longrightarrow> xs ! i = ys ! i) \<Longrightarrow> trinkle_path cmp lp xs x head p k t = trinkle_path cmp lp ys x head p k t"
proof (induction head arbitrary: p k t rule: less_induct)
  case (less head)
  let ?s = "head - lp ! k"
  show ?case
  proof (cases "in_table lp head k")
    case False
    then show ?thesis by (subst (1 2) trinkle_path_step) simp
  next
    case True
    then have s: "?s < head" by (auto simp: in_table_def)
    have "xs ! ?s = ys ! ?s" "xs ! (head - 1) = ys ! (head - 1)"
      "xs ! (head - 1 - lp ! (k - 2)) = ys ! (head - 1 - lp ! (k - 2))"
      using less.prems s by auto
    then have "goes_on cmp lp xs x head k t = goes_on cmp lp ys x head k t" "xs ! ?s = ys ! ?s"
      unfolding goes_on_def by simp_all
    moreover have "trinkle_path cmp lp xs x ?s p' k' t' = trinkle_path cmp lp ys x ?s p' k' t'" for p' k' t'
      using less.IH [OF s] less.prems s by simp
    ultimately show ?thesis by (subst (1 2) trinkle_path_step) simp
  qed
qed

text \<open>\<open>trinkle\<close> with the element at \<open>ar[0]\<close> given separately.\<close>

definition trinkle_from ::
  "('a \<Rightarrow> 'a \<Rightarrow> int) \<Rightarrow> nat list \<Rightarrow> 'a \<Rightarrow> 'a list \<Rightarrow> nat \<Rightarrow> bitvec \<Rightarrow> nat \<Rightarrow> bool \<Rightarrow> 'a list option" where
  "trinkle_from cmp lp x xs head p k t =
     (case trinkle_path cmp lp xs x head p k t of
        None \<Rightarrow> None
      | Some (ar, h', k', t') \<Rightarrow>
          if \<not> t' then sift_from cmp lp x (cycle_from x xs (head # ar)) h' k' else Some xs)"

lemma trinkle_eq:
  assumes "head < length xs"
  shows "trinkle cmp lp xs head p k t = trinkle_from cmp lp (xs ! head) xs head p k t"
proof (cases "trinkle_path cmp lp xs (xs ! head) head p k t")
  case None
  then show ?thesis using assms by (simp add: trinkle_def trinkle_from_def)
next
  case (Some r)
  then obtain ar h' k' t' where r: "trinkle_path cmp lp xs (xs ! head) head p k t = Some (ar, h', k', t')" by (cases r) auto
  note l = trinkle_path_last [OF r]
  have "last (head # ar) < length xs" 
    using l assms by (cases "ar = []") (auto dest!: last_in_set intro: less_trans)
  then have "h' < length xs" "cycle_from (xs ! head) xs (head # ar) ! h' = xs ! head"
    using l cycle_from_last [of "head # ar" xs "xs ! head"] by auto
  then show ?thesis
    using assms r by (simp add: trinkle_def trinkle_from_def cycle_Cons sift_eq)
qed


context ordering
begin

lemma sift_from_hole:
  assumes "table_ok lp k" and "leonardo k \<le> r + 1"
  shows "sift_from cmp lp x (xs[r := v]) r k = sift_from cmp lp x xs r k"
proof (cases "2 \<le> k")
  case True
  have "r - 1 < r" "r - 1 - leonardo (k - 2) < r" using in_tree_children(7,8) [OF True assms(2)] by simp_all
  then show ?thesis by (simp add: sift_from_step [OF True assms])
qed (simp add: sift_from_small)

text \<open>Placing \<open>x\<close> at the root of the last tree: the tree becomes a heap whose root bounds what was
  there.\<close>

lemma sift_from_tree:
  assumes "table_ok lp k" and "leonardo k \<le> r + 1" and "r < length xs" and "subheaps key xs r k"
  obtains ys where "sift_from cmp lp x xs r k = Some ys" "perm_in (r + 1 - leonardo k) r (xs[r := x]) ys"
    "isheap key ys r k" "\<And>i. in_tree r k i \<Longrightarrow> key ((xs[r := x]) ! i) \<le> key (ys ! r)"
proof -
  obtain ys where ys: "sift_from cmp lp x xs r k = Some ys" "perm_in (r + 1 - leonardo k) r (xs[r := x]) ys"
    "isheap key ys r k" using sift_from_heap [OF assms] by blast
  have "key ((xs[r := x]) ! i) \<le> key (ys ! r)" if i: "in_tree r k i" for i
  proof -
    have "r + 1 - leonardo k \<le> i" "i \<le> r" using i by (auto simp: in_tree_def)
    then obtain j where j: "r + 1 - leonardo k \<le> j" "j \<le> r" "(xs[r := x]) ! i = ys ! j"
      using perm_in_values [OF perm_in_sym [OF ys(2)]] perm_in_length [OF ys(2)] assms(3) by fastforce
    have "in_tree r k j" using j(1,2) by (auto simp: in_tree_def)
    then show ?thesis using isheap_le_root [OF assms(2) ys(3)] j(3) by simp
  qed
  then show ?thesis using that ys by blast
qed

lemma trinkle_from_stop:
  assumes "trinkle_path cmp lp xs x r p k t = Some ([], r, k, t)" and "table_ok lp k" and "leonardo k \<le> r + 1"
  shows "trinkle_from cmp lp x xs r p k t = (if t then Some xs else sift_from cmp lp x xs r k)"
  using assms by (simp add: trinkle_from_def sift_from_hole)

lemma trinkle_from_step:
  assumes "p \<noteq> (1, 0)" and "in_table lp r k" and "\<not> t \<and> k > 1 \<longrightarrow> 1 + lp ! (k - 2) \<le> r" and "goes_on cmp lp xs x r k t"
  shows "trinkle_from cmp lp x xs r p k t =
    trinkle_from cmp lp x (xs[r := xs ! (r - lp ! k)]) (r - lp ! k) (shr p (pntz p)) (k + pntz p) False"
proof -
  let ?s = "r - lp ! k"
  have "?s < r" using assms(2) by (auto simp: in_table_def)
  then have c: "trinkle_path cmp lp (xs[r := v]) x ?s p' k' t' = trinkle_path cmp lp xs x ?s p' k' t'" for v p' k' t'
    by (intro trinkle_path_cong) simp
  have "trinkle_path cmp lp xs x r p k t =
      map_option (\<lambda>(ar, q). (?s # ar, q)) (trinkle_path cmp lp xs x ?s (shr p (pntz p)) (k + pntz p) False)"
    using assms by (subst trinkle_path_step) auto
  then show ?thesis
    by (auto simp: trinkle_from_def c split: option.split dest: trinkle_path_last)
qed

lemma bounded_root:
  assumes "fits r (k # ks)" and "2 \<le> k" shows "1 + leonardo (k - 2) \<le> r"
  using fits_le [OF assms(1)] leonardo_ge_2 [OF assms(2)] leonardo_pos(2) [of "k - 1"] by linarith

text \<open>The two ends of a round: the element stays at \<open>r\<close>, or the root of the next tree moves up.\<close>

lemma trinkle_halts:
  assumes fit: "leonardo k \<le> r" "fits (r - leonardo k) (k' # ks)" and r: "r < length xs" and tab: "table_ok lp k"
    and sub: "subheaps key xs r k" and h: "heaps key xs (r - leonardo k) (k' # ks)"
    and s: "rsorted key xs (r - leonardo k) (k' # ks)" and t: "t \<Longrightarrow> xs ! r = x \<and> isheap key xs r k"
    and halt: "\<not> goes_on cmp lp xs x r k t" "trinkle_path cmp lp xs x r p k t = Some ([], r, k, t)"
  shows "\<exists>ys. trinkle_from cmp lp x xs r p k t = Some ys \<and> perm_in 0 r (xs[r := x]) ys \<and>
     heaps key ys r (k # k' # ks) \<and> rsorted key ys r (k # k' # ks)"
proof -
  let ?s = "r - leonardo k"
  have lp: "lp ! k = leonardo k" using tab by (simp add: table_ok_def)
  have le: "leonardo k \<le> r + 1" using fit(1) by simp
  have eq: "trinkle_from cmp lp x xs r p k t = (if t then Some xs else sift_from cmp lp x xs r k)"
    by (rule trinkle_from_stop [OF halt(2) tab le])
  show ?thesis
  proof (cases t)
    case True
    then have "key (xs ! ?s) \<le> key (xs ! r)" using halt(1) t by (simp add: goes_on_def cmp_le lp)
    then show ?thesis using True eq t h s by auto
  next
    case nt: False
    obtain ys where ys: "sift_from cmp lp x xs r k = Some ys" "perm_in (r + 1 - leonardo k) r (xs[r := x]) ys"
      "isheap key ys r k" "\<And>i. in_tree r k i \<Longrightarrow> key ((xs[r := x]) ! i) \<le> key (ys ! r)"
      using sift_from_tree [OF tab le r sub] by blast
    have "?s < r" using fit(1) leonardo_pos(1) [of k] by linarith
    then have low: "ys ! i = xs ! i" if "i \<le> ?s" for i using ys(2) that fit(1) by (auto simp: perm_in_def)
    have "key (xs ! ?s) \<le> key (ys ! r)"
    proof -
      have x: "key x \<le> key (ys ! r)" using ys(4) [of r] r by (simp add: in_tree_def)
      consider "key (xs ! ?s) \<le> key x"
        | "k > 1" "key (xs ! ?s) \<le> key (xs ! (r - 1)) \<or> key (xs ! ?s) \<le> key (xs ! (r - 1 - leonardo (k - 2)))"
        using halt(1) nt table_ok_nth [OF tab, of "k - 2"] unfolding goes_on_def cmp_le cmp_ge lp by auto
      then show ?thesis
      proof cases
        case 1
        then show ?thesis using x by simp
      next
        case 2
        have "in_tree r k (r - 1)" "in_tree r k (r - 1 - leonardo (k - 2))" "r - 1 \<noteq> r" "r - 1 - leonardo (k - 2) \<noteq> r"
          using leonardo_ge_2 [of k] 2(1) le leonardo_pos(1) [of "k - 2"] leonardo_pos(1) [of "k - 1"] fit(1)
          unfolding in_tree_def by linarith+
        then show ?thesis using ys(4) [of "r - 1"] ys(4) [of "r - 1 - leonardo (k - 2)"] 2(2) by fastforce
      qed
    qed
    moreover have "heaps key ys ?s (k' # ks)" "rsorted key ys ?s (k' # ks)"
      using heaps_cong [OF fit(2), of ys xs key] rsorted_cong [OF fit(2), of ys xs key] low h s by simp_all
    moreover have "perm_in 0 r (xs[r := x]) ys" using ys(2) by (auto intro: perm_in_mono)
    ultimately show ?thesis using eq nt ys(1,3) low [of ?s] by simp
  qed
qed

lemma moved_tree:
  assumes le: "leonardo k \<le> r" and r: "r < length xs" and tab: "table_ok lp k" and sub: "subheaps key xs r k"
    and t: "t \<Longrightarrow> xs ! r = x \<and> isheap key xs r k" and go: "goes_on cmp lp xs x r k t"
    and zs: "\<And>i. r - leonardo k < i \<Longrightarrow> zs ! i = (xs[r := xs ! (r - leonardo k)]) ! i"
  shows "isheap key zs r k"
proof (cases "2 \<le> k")
  case False
  then show ?thesis by (subst isheap.simps) simp
next
  case k: True
  let ?s = "r - leonardo k" and ?l = "r - 1 - leonardo (k - 2)"
  let ?xs = "xs[r := xs ! ?s]"
  have le1: "leonardo k \<le> r + 1" using le by simp
  note ch = in_tree_children [OF k le1]
  have lt: "?l < r" "r - 1 < r" using ch(6,8) by linarith+
  have lp: "lp ! k = leonardo k" "lp ! (k - 2) = leonardo (k - 2)" using tab by (auto simp: table_ok_def)
  have x: "key x < key (xs ! ?s)" using go by (auto simp: goes_on_def cmp_le lp)
  have "key (xs ! (r - 1)) \<le> key (xs ! ?s) \<and> key (xs ! ?l) \<le> key (xs ! ?s)"
  proof (cases t)
    case True
    then have "isheap key xs r k" "xs ! r = x" using t by auto
    then have "key (xs ! (r - 1)) \<le> key x \<and> key (xs ! ?l) \<le> key x"
      using k by (subst (asm) isheap.simps) simp
    then show ?thesis using x by auto
  next
    case False
    then show ?thesis using go k unfolding goes_on_def cmp_ge lp by auto
  qed
  moreover have "subheaps key ?xs r k"
    using sub k unfolding subheaps_def isheap_upd_above [OF lt(1) ch(3)] isheap_upd_above [OF lt(2) ch(2)] by simp
  ultimately have "isheap key ?xs r k" using lt r by (intro isheap_I) simp_all
  moreover have "isheap key zs r k = isheap key ?xs r k"
    using le le1 zs by (intro isheap_cong) (simp_all add: in_tree_def less_diff_conv2)
  ultimately show ?thesis by simp
qed

text \<open>The placement of \<open>x\<close> at the root of the first tree restores the forest.\<close>

lemma trinkle_from_heaps:
  "orders p k (k # ks) \<Longrightarrow> fits r (k # ks) \<Longrightarrow> r < length xs \<Longrightarrow> (\<forall>j \<in> set (k # ks). table_ok lp j) \<Longrightarrow>
   subheaps key xs r k \<Longrightarrow> heaps key xs (r - leonardo k) ks \<Longrightarrow> rsorted key xs (r - leonardo k) ks \<Longrightarrow>
   (t \<Longrightarrow> xs ! r = x \<and> isheap key xs r k) \<Longrightarrow>
   \<exists>ys. trinkle_from cmp lp x xs r p k t = Some ys \<and> perm_in 0 r (xs[r := x]) ys \<and>
     heaps key ys r (k # ks) \<and> rsorted key ys r (k # ks)"
proof (induction ks arbitrary: p k r xs t)
  case Nil
  have len: "leonardo k = r + 1" and tab: "table_ok lp k" using Nil.prems by auto
  have "p = (1, 0)" using orders_single [OF Nil.prems(1)] by simp
  then have "trinkle_path cmp lp xs x r p k t = Some ([], r, k, t)" by (subst trinkle_path_step) simp
  then have eq: "trinkle_from cmp lp x xs r p k t = (if t then Some xs else sift_from cmp lp x xs r k)"
    using tab len by (intro trinkle_from_stop) auto
  show ?case
  proof (cases t)
    case True
    then show ?thesis using Nil.prems(8) eq by auto
  next
    case False
    obtain ys where "sift_from cmp lp x xs r k = Some ys" "perm_in (r + 1 - leonardo k) r (xs[r := x]) ys" "isheap key ys r k"
      using sift_from_tree [OF tab eq_imp_le [OF len] Nil.prems(3,5)] by blast
    then show ?thesis using False eq len by auto
  qed
next
  case (Cons k' ks)
  let ?s = "r - leonardo k"
  have fit: "leonardo k \<le> r" "fits ?s (k' # ks)" using Cons.prems(2) by auto
  have tab: "table_ok lp k" using Cons.prems(4) by simp
  have lp: "lp ! k = leonardo k" using tab by (simp add: table_ok_def)
  have p: "p \<noteq> (1, 0)" using orders_single [OF Cons.prems(1)] by simp
  have it: "in_table lp r k" using tab fit(1) lp by (simp add: in_table_def table_ok_def)
  have kid: "1 + lp ! (k - 2) \<le> r" if "k > 1"
    using bounded_root [OF Cons.prems(2)] table_ok_nth [OF tab, of "k - 2"] that by simp
  have s: "?s < r" "?s < length xs" using fit(1) leonardo_pos(1) [of k] Cons.prems(3) by linarith+
  show ?case
  proof (cases "goes_on cmp lp xs x r k t")
    case False
    then have "trinkle_path cmp lp xs x r p k t = Some ([], r, k, t)"
      using p it kid by (subst trinkle_path_step) auto
    then show ?thesis using trinkle_halts [OF fit Cons.prems(3) tab Cons.prems(5-8) False] by blast
  next
    case True
    let ?xs = "xs[r := xs ! ?s]"
    have "k < k'" using Cons.prems(1) by (simp add: orders_def)
    then have eq: "trinkle_from cmp lp x xs r p k t = trinkle_from cmp lp x ?xs ?s (shr p (k' - k)) k' False"
      using trinkle_from_step [OF p it _ True] kid orders_next(1) [OF Cons.prems(1)] unfolding lp by simp
    have h: "heaps key ?xs ?s (k' # ks)" "rsorted key ?xs ?s (k' # ks)"
      using heaps_cong [OF fit(2), of ?xs xs key] rsorted_cong [OF fit(2), of ?xs xs key] Cons.prems(6,7) s by simp_all
    have sub: "subheaps key ?xs ?s k'" using h(1) isheap_subheaps by auto
    have rest: "rsorted key ?xs (?s - leonardo k') ks" using h(2) by (cases ks) auto
    obtain ys where ys: "trinkle_from cmp lp x ?xs ?s (shr p (k' - k)) k' False = Some ys"
      "perm_in 0 ?s (?xs[?s := x]) ys" "heaps key ys ?s (k' # ks)" "rsorted key ys ?s (k' # ks)"
      using Cons.IH [OF orders_next(2) [OF Cons.prems(1)] fit(2) _ _ sub _ rest, of False] s Cons.prems(4) h(1) by auto
    have hi: "ys ! i = ?xs ! i" if "?s < i" for i using ys(2) that by (auto simp: perm_in_def)
    have root: "ys ! r = xs ! ?s" using hi [of r] s Cons.prems(3) by simp
    have tree: "isheap key ys r k"
      by (rule moved_tree [OF fit(1) Cons.prems(3) tab Cons.prems(5,8) True hi])
    have "key (ys ! ?s) \<le> key (xs ! ?s)"
    proof -
      obtain j where j: "j \<le> ?s" "ys ! ?s = (?xs[?s := x]) ! j" using perm_in_values [OF ys(2), of ?s] s by auto
      have "key x < key (xs ! ?s)" using True by (auto simp: goes_on_def cmp_le lp)
      then show ?thesis
        using j s heaps_max [OF fit(2) Cons.prems(6,7) j(1)] by (cases "j = ?s") auto
    qed
    moreover have "perm_in 0 r (xs[r := x]) ys"
    proof -
      have "perm_in 0 r (xs[r := x]) (?xs[?s := x])"
        using perm_in_swap [of r "xs[r := x]" ?s 0 r] s Cons.prems(3) by simp
      moreover have "perm_in 0 r (?xs[?s := x]) ys" using ys(2) s by (auto intro: perm_in_mono)
      ultimately show ?thesis by (rule perm_in_trans)
    qed
    ultimately show ?thesis using eq ys tree root by auto
  qed
qed

end

section \<open>The second loop\<close>

text \<open>Everything behind \<open>r\<close> is in its final place.\<close>

definition tail_sorted :: "('a \<Rightarrow> 'b :: linorder) \<Rightarrow> 'a list \<Rightarrow> nat \<Rightarrow> bool" where
  "tail_sorted key xs r \<longleftrightarrow> (\<forall>i j. i \<le> j \<longrightarrow> r < j \<longrightarrow> j < length xs \<longrightarrow> key (xs ! i) \<le> key (xs ! j))"

lemma tail_sorted_perm:
  assumes "tail_sorted key xs r" and "perm_in 0 r xs ys" shows "tail_sorted key ys r"
  unfolding tail_sorted_def
proof (intro allI impI)
  fix i j assume ij: "i \<le> j" "r < j" "j < length ys"
  have len: "length ys = length xs" using perm_in_length [OF assms(2)] .
  have j: "ys ! j = xs ! j" using assms(2) ij(2) by (simp add: perm_in_def)
  show "key (ys ! i) \<le> key (ys ! j)"
  proof (cases "i \<le> r")
    case True
    then obtain i' where "i' \<le> r" "ys ! i = xs ! i'"
      using perm_in_values [OF assms(2), of i] ij len by auto
    then show ?thesis using assms(1) ij len j unfolding tail_sorted_def by simp
  next
    case False
    then have "ys ! i = xs ! i" using assms(2) by (simp add: perm_in_def)
    then show ?thesis using assms(1) ij len j unfolding tail_sorted_def by simp
  qed
qed

lemma tail_sorted_down:
  assumes "tail_sorted key xs r" and "\<And>i. i \<le> r \<Longrightarrow> key (xs ! i) \<le> key (xs ! r)" shows "tail_sorted key xs (r - 1)"
  unfolding tail_sorted_def
proof (intro allI impI)
  fix i j assume ij: "i \<le> j" "r - 1 < j" "j < length xs"
  then consider "r < j" | "j = r" by linarith
  then show "key (xs ! i) \<le> key (xs ! j)"
    by cases (use assms ij in \<open>auto simp: tail_sorted_def\<close>)
qed

context ordering
begin

lemma trinkle_heaps:
  assumes "orders p k (k # ks)" "fits r (k # ks)" "r < length xs" "\<forall>j \<in> set (k # ks). table_ok lp j"
    "subheaps key xs r k" "heaps key xs (r - leonardo k) ks" "rsorted key xs (r - leonardo k) ks" "t \<Longrightarrow> isheap key xs r k"
  obtains ys where "trinkle cmp lp xs r p k t = Some ys" "perm_in 0 r xs ys" "heaps key ys r (k # ks)" "rsorted key ys r (k # ks)"
proof -
  have "t \<Longrightarrow> xs ! r = xs ! r \<and> isheap key xs r k" using assms(8) by simp
  from trinkle_from_heaps [OF assms(1-7) this]
  show ?thesis using that trinkle_eq [OF assms(3)] by auto
qed

text \<open>A tree of order at least two gives way to its two children.\<close>

lemma split_forest:
  assumes o: "orders p k (k # ks)" and f: "fits r (k # ks)" and k: "2 \<le> k" and r: "r < length xs"
    and tab: "\<forall>j \<in> set (k # ks). table_ok lp j"
    and h: "heaps key xs r (k # ks)" and s: "rsorted key xs r (k # ks)"
  defines "p1 \<equiv> shr (fst (shl p 2) XOR 7, snd (shl p 2)) 1"
  defines "p2 \<equiv> (fst (shl p1 1) OR 1, snd (shl p1 1))"
  obtains ys zs where "trinkle cmp lp xs (r - leonardo (k - 2) - 1) p1 (k - 1) True = Some ys"
    "trinkle cmp lp ys (r - 1) p2 (k - 2) True = Some zs" "perm_in 0 (r - 1) xs zs"
    "orders p2 (k - 2) ((k - 2) # (k - 1) # ks)" "fits (r - 1) ((k - 2) # (k - 1) # ks)"
    "heaps key zs (r - 1) ((k - 2) # (k - 1) # ks)" "rsorted key zs (r - 1) ((k - 2) # (k - 1) # ks)"
proof -
  let ?l = "r - 1 - leonardo (k - 2)"
  note ch = in_tree_children [OF k fits_le [OF f]]
  have L: "leonardo k = leonardo (k - 2) + leonardo (k - 1) + 1" using leonardo_ge_2 [OF k] .
  have o1: "orders p1 (k - 1) ((k - 1) # ks)" unfolding p1_def by (rule orders_split [OF o k])
  have o2: "orders p2 (k - 2) ((k - 2) # (k - 1) # ks)"
    using orders_push [OF o1, of "k - 2"] k unfolding p2_def by simp
  have rest: "?l - leonardo (k - 1) = r - leonardo k" using L by simp
  have f1: "fits ?l ((k - 1) # ks)"
  proof (cases ks)
    case Nil
    then show ?thesis using f L ch(7) by simp
  next
    case (Cons j js)
    then show ?thesis using f L rest by auto
  qed
  have f2: "fits (r - 1) ((k - 2) # (k - 1) # ks)" using f1 ch(7) by simp
  have trees: "isheap key xs (r - 1) (k - 2)" "isheap key xs ?l (k - 1)"
    using h k by (simp_all, subst (asm) isheap.simps, simp)+
  have hr: "heaps key xs (?l - leonardo (k - 1)) ks" "rsorted key xs (?l - leonardo (k - 1)) ks"
    using h s unfolding rest by (simp, cases ks, simp_all)
  have lt: "?l < length xs" "r - 1 < length xs" using r by simp_all
  have tab1: "\<forall>j \<in> set ((k - 1) # ks). table_ok lp j" "\<forall>j \<in> set ((k - 2) # (k - 1) # ks). table_ok lp j"
    using tab table_ok_le [of lp k] by auto
  obtain ys where ys: "trinkle cmp lp xs ?l p1 (k - 1) True = Some ys" "perm_in 0 ?l xs ys"
    "heaps key ys ?l ((k - 1) # ks)" "rsorted key ys ?l ((k - 1) # ks)"
    using trinkle_heaps [OF o1 f1 lt(1) tab1(1) isheap_subheaps [OF trees(2)] hr] trees(2) by blast
  have hi: "isheap key ys (r - 1) (k - 2)"
  proof -
    have "ys ! i = xs ! i" if "in_tree (r - 1) (k - 2) i" for i
      using ys(2) that ch(7) by (auto simp: perm_in_def in_tree_def)
    then show ?thesis using trees(1) isheap_cong [OF ch(2)] by blast
  qed
  have len: "r - 1 < length ys" using lt perm_in_length [OF ys(2)] by simp
  obtain zs where zs: "trinkle cmp lp ys (r - 1) p2 (k - 2) True = Some zs" "perm_in 0 (r - 1) ys zs"
    "heaps key zs (r - 1) ((k - 2) # (k - 1) # ks)" "rsorted key zs (r - 1) ((k - 2) # (k - 1) # ks)"
    using trinkle_heaps [OF o2 f2 len tab1(2) isheap_subheaps [OF hi] ys(3,4)] hi by blast
  have "perm_in 0 (r - 1) xs ys" using ys(2) by (auto intro: perm_in_mono)
  then have "perm_in 0 (r - 1) xs zs" using zs(2) by (rule perm_in_trans)
  moreover have "r - leonardo (k - 2) - 1 = ?l" by simp
  ultimately show ?thesis using that ys(1) zs o2 f2 by metis
qed

lemma take_forest_sorts:
  "orders p k (k # ks) \<Longrightarrow> fits r (k # ks) \<Longrightarrow> (k = 0 \<longrightarrow> ks \<noteq> []) \<Longrightarrow> r < length xs \<Longrightarrow>
   (\<forall>j \<in> set (k # ks). table_ok lp j) \<Longrightarrow> heaps key xs r (k # ks) \<Longrightarrow> rsorted key xs r (k # ks) \<Longrightarrow>
   tail_sorted key xs r \<Longrightarrow>
   \<exists>ys. take_forest cmp lp xs r p k = Some ys \<and> mset ys = mset xs \<and> tail_sorted key ys 0"
proof (induction r arbitrary: xs p k ks)
  case 0
  have ks: "ks = []" using "0.prems"(2) leonardo_pos [of k] by (cases ks) simp_all
  then have "leonardo k = 1" using "0.prems"(2) by simp
  then have "\<not> 1 < k" using leonardo_strict [of 1 k] by auto
  then have "k = 1" using "0.prems"(3) ks by simp
  then have "p = (1, 0)" "k = 1" using orders_single [OF "0.prems"(1)] ks by auto
  then show ?case using "0.prems"(8) by (subst take_forest.simps) simp
next
  case (Suc r)
  have go: "k \<noteq> 1 \<or> p \<noteq> (1, 0)"
    using orders_single [OF Suc.prems(1)] Suc.prems(2) by (cases ks) auto
  have down: "tail_sorted key xs r"
    using tail_sorted_down [OF Suc.prems(8) heaps_max [OF Suc.prems(2,6,7)]] by simp
  show ?case
  proof (cases "k \<le> 1")
    case True
    have one: "leonardo k = 1" using True by (cases k) auto
    have ne: "ks \<noteq> []" using Suc.prems(2) one by (cases ks) auto
    then obtain k' ks' where ks: "ks = k' # ks'" by (cases ks) auto
    have lt: "k < k'" using Suc.prems(1) ks by (simp add: orders_def)
    note nx = orders_next [OF Suc.prems(1) [unfolded ks]]
    have "take_forest cmp lp xs (Suc r) p k = take_forest cmp lp xs r (shr p (k' - k)) k'"
      using go True lt nx(1) by (subst take_forest.simps) (simp add: Let_def)
    moreover have "\<exists>ys. take_forest cmp lp xs r (shr p (k' - k)) k' = Some ys \<and> mset ys = mset xs \<and> tail_sorted key ys 0"
      using Suc.IH [OF nx(2)] Suc.prems(2,4,5,6,7) one ks down lt by simp
    ultimately show ?thesis by simp
  next
    case False
    then have k: "2 \<le> k" by simp
    define p1 where "p1 = shr (fst (shl p 2) XOR 7, snd (shl p 2)) 1"
    define p2 where "p2 = (fst (shl p1 1) OR 1, snd (shl p1 1))"
    obtain ys zs where z: "trinkle cmp lp xs (Suc r - leonardo (k - 2) - 1) p1 (k - 1) True = Some ys"
      "trinkle cmp lp ys r p2 (k - 2) True = Some zs" "perm_in 0 r xs zs"
      "orders p2 (k - 2) ((k - 2) # (k - 1) # ks)" "fits r ((k - 2) # (k - 1) # ks)"
      "heaps key zs r ((k - 2) # (k - 1) # ks)" "rsorted key zs r ((k - 2) # (k - 1) # ks)"
      using split_forest [OF Suc.prems(1,2) k Suc.prems(4-7)] unfolding p1_def p2_def diff_Suc_1 by metis
    have lp: "lp ! (k - 2) = leonardo (k - 2)" "\<not> length lp \<le> k - 2" "\<not> Suc r < lp ! (k - 2) + 1"
      using Suc.prems(5) bounded_root [OF Suc.prems(2) k] by (auto simp: table_ok_def)
    have "Suc (k - 2) = k - Suc 0" using k by simp
    then have "take_forest cmp lp xs (Suc r) p k = take_forest cmp lp zs r p2 (k - 2)"
      using go k z(1,2) [unfolded One_nat_def] lp
      unfolding take_forest.simps [of cmp lp xs "Suc r" p k] Let_def p1_def [symmetric] p2_def
      by simp
    moreover have "\<exists>ws. take_forest cmp lp zs r p2 (k - 2) = Some ws \<and> mset ws = mset zs \<and> tail_sorted key ws 0"
      using Suc.IH [OF z(4,5) _ _ _ z(6,7) tail_sorted_perm [OF down z(3)]] Suc.prems(4,5) perm_in_length [OF z(3)]
        table_ok_le [of lp k] by simp
    moreover have "mset zs = mset xs" using z(3) by (simp add: perm_in_def)
    ultimately show ?thesis by simp
  qed
qed


end

section \<open>The first loop\<close>

text \<open>A tree is final when the elements to come do not suffice to merge it; final trees are in the
  order of their roots.\<close>

fun fsorted :: "('a \<Rightarrow> 'b :: linorder) \<Rightarrow> 'a list \<Rightarrow> nat \<Rightarrow> nat \<Rightarrow> nat list \<Rightarrow> bool" where
  "fsorted key xs hi r [] \<longleftrightarrow> True"
| "fsorted key xs hi r (k # ks) \<longleftrightarrow>
     (hi - r \<le> leonardo (k - 1) \<longrightarrow> rsorted key xs r (k # ks)) \<and> fsorted key xs hi (r - leonardo k) ks"

lemma rsorted_fsorted: "rsorted key xs r ks \<Longrightarrow> fsorted key xs hi r ks"
proof (induction ks arbitrary: r)
  case (Cons k ks)
  have "rsorted key xs (r - leonardo k) ks" using Cons.prems by (cases ks) auto
  then show ?case using Cons.IH Cons.prems by simp
qed simp

lemma fsorted_cong:
  "fits r ks \<Longrightarrow> (\<And>i. i \<le> r \<Longrightarrow> xs ! i = ys ! i) \<Longrightarrow> fsorted key xs hi r ks = fsorted key ys hi r ks"
proof (induction ks arbitrary: r)
  case (Cons k ks)
  have "fsorted key xs hi (r - leonardo k) ks = fsorted key ys hi (r - leonardo k) ks"
  proof (cases "ks = []")
    case False
    then show ?thesis using Cons.IH [of "r - leonardo k"] fits_rest [OF Cons.prems(1)] Cons.prems(2) by simp
  qed simp
  then show ?case using rsorted_cong [OF Cons.prems, of key] by simp
qed simp

fun spaced :: "nat list \<Rightarrow> bool" where
  "spaced (a # b # l) \<longleftrightarrow> a + 2 \<le> b \<and> spaced (b # l)"
| "spaced l \<longleftrightarrow> True"

lemma spaced_less: "spaced (a # l) \<Longrightarrow> b \<in> set l \<Longrightarrow> a + 2 \<le> b"
  by (induction l arbitrary: a) fastforce+

text \<open>Only the two smallest trees may have adjacent orders; a tree of order 0 stands before one of
  order 1.\<close>

definition shape :: "nat \<Rightarrow> nat list \<Rightarrow> bool" where
  "shape k ks \<longleftrightarrow> spaced ks \<and> (k = 0 \<longrightarrow> ks \<noteq> [] \<and> hd ks = 1)"

definition forest :: "('a \<Rightarrow> 'b :: linorder) \<Rightarrow> 'a list \<Rightarrow> nat \<Rightarrow> nat \<Rightarrow> bitvec \<Rightarrow> nat \<Rightarrow> nat list \<Rightarrow> bool" where
  "forest key xs hi r p k ks \<longleftrightarrow>
     orders p k (k # ks) \<and> fits r (k # ks) \<and> shape k ks \<and> subheaps key xs r k \<and>
     heaps key xs (r - leonardo k) ks \<and> fsorted key xs hi (r - leonardo k) ks"

lemma forest_adjacent: "forest key xs hi r p k ks \<Longrightarrow> fst p AND 3 = 3 \<longleftrightarrow> (\<exists>ks'. ks = Suc k # ks')"
proof -
  assume f: "forest key xs hi r p k ks"
  have "sorted_wrt (<) (k # ks)" using f by (auto simp: forest_def orders_def)
  then have "Suc k \<in> set ks \<longleftrightarrow> (\<exists>ks'. ks = Suc k # ks')" by (cases ks) fastforce+
  then show ?thesis using orders_adjacent [of p k "k # ks"] f by (simp add: forest_def)
qed

lemma order_bound: assumes "leonardo k < 2 ^ 32" shows "k < 64"
proof (rule ccontr)
  assume "\<not> k < 64"
  then have "leonardo 64 \<le> leonardo k" by (intro leonardo_mono) auto
  then show False using assms leonardo_power [of 32] by simp
qed

lemma table_bound: "leonardo k \<le> n \<Longrightarrow> table_ok (leonardo_table n) k"
proof (cases "k = 0")
  case True
  assume "leonardo k \<le> n"
  then show ?thesis using True leonardo_table_ok [of 1 n] table_ok_le [of "leonardo_table n" 1 0] by simp
qed (simp add: leonardo_table_ok)

lemma forest_orders:
  assumes "forest key xs hi r p k ks" and "r + 1 \<le> n" and "j \<in> set (k # ks)"
  shows "table_ok (leonardo_table n) j"
proof -
  have "leonardo j \<le> r + 1" using fits_bound [of r "k # ks" j] assms(1,3) by (simp add: forest_def)
  then show ?thesis using assms(2) by (intro table_bound) simp
qed

text \<open>The last two trees and the next element make one tree.\<close>

lemma forest_merge:
  assumes f: "forest key xs hi r p k (Suc k # ks)" and t: "isheap key xs r k" and n: "r + 2 < 2 ^ 32"
  shows "forest key xs hi (r + 1) (fst (shr p 2) OR 1, snd (shr p 2)) (k + 2) ks"
proof -
  have o: "orders p k (k # Suc k # ks)" and fit: "leonardo k \<le> r" "fits (r - leonardo k) (Suc k # ks)"
    and sp: "spaced (Suc k # ks)" and h: "isheap key xs (r - leonardo k) (Suc k)"
    "heaps key xs (r - leonardo k - leonardo (Suc k)) ks" "fsorted key xs hi (r - leonardo k - leonardo (Suc k)) ks"
    using f by (auto simp: forest_def shape_def)
  have L: "leonardo (k + 2) = leonardo k + leonardo (Suc k) + 1" by simp
  have fit2: "fits (r + 1) ((k + 2) # ks)" and le: "leonardo (k + 2) \<le> r + 2"
  proof -
    show "leonardo (k + 2) \<le> r + 2" using fits_le [OF fit(2)] fit(1) L by linarith
    show "fits (r + 1) ((k + 2) # ks)"
    proof (cases ks)
      case Nil
      then show ?thesis using fit L by simp
    next
      case (Cons j js)
      then show ?thesis using fit L by auto
    qed
  qed
  have "k + 2 < 64" using le n by (intro order_bound) simp
  moreover have "\<forall>j \<in> set ks. k + 2 < j" using spaced_less [OF sp] by fastforce
  ultimately have "orders (fst (shr p 2) OR 1, snd (shr p 2)) (k + 2) ((k + 2) # ks)" by (rule orders_merge [OF o])
  moreover have "shape (k + 2) ks" using sp by (cases ks) (auto simp: shape_def)
  moreover have "subheaps key xs (r + 1) (k + 2)" using t h(1) by (simp add: subheaps_def)
  moreover have "r + 1 - leonardo (k + 2) = r - leonardo k - leonardo (Suc k)" using L by simp
  ultimately show ?thesis using fit2 h unfolding forest_def by simp
qed

text \<open>The next element makes a tree of its own.\<close>

lemma forest_push:
  assumes f: "forest key xs hi r p k ks" and d: "j < k" "j = (if k = 1 then 0 else 1)" and sp: "spaced (k # ks)"
    and t: "isheap key xs r k" and fs: "fsorted key xs hi r (k # ks)"
  shows "forest key xs hi (r + 1) (fst (shl p (k - j)) OR 1, snd (shl p (k - j))) j (k # ks)"
proof -
  have o: "orders p k (k # ks)" and fit: "fits r (k # ks)" and h: "heaps key xs (r - leonardo k) ks"
    using f by (auto simp: forest_def)
  have one: "leonardo j = 1" using d(2) by simp
  have "orders (fst (shl p (k - j)) OR 1, snd (shl p (k - j))) j (j # k # ks)" by (rule orders_push [OF o d(1)])
  moreover have "fits (r + 1) (j # k # ks)" using fit one by simp
  moreover have "shape j (k # ks)" using sp d by (simp add: shape_def)
  moreover have "subheaps key xs (r + 1) j" using d(2) by (simp add: subheaps_def)
  ultimately show ?thesis using h t fs one unfolding forest_def by simp
qed


context ordering
begin

lemma sift_heap:
  assumes "table_ok lp k" and "leonardo k \<le> r + 1" and "r < length xs" and "subheaps key xs r k"
  obtains ys where "sift cmp lp xs r k = Some ys" "perm_in (r + 1 - leonardo k) r xs ys" "isheap key ys r k"
  using sift_from_heap [OF assms, of "xs ! r"] sift_eq [OF assms(3)] by auto

text \<open>Sifting the last tree leaves the other trees alone.\<close>

lemma forest_sift:
  assumes f: "forest key xs hi r p k ks" and tab: "table_ok lp k" and r: "r < length xs"
  obtains ys where "sift cmp lp xs r k = Some ys" "perm_in 0 r xs ys" "isheap key ys r k" "forest key ys hi r p k ks"
proof -
  have o: "orders p k (k # ks)" "fits r (k # ks)" "shape k ks" "subheaps key xs r k"
    "heaps key xs (r - leonardo k) ks" "fsorted key xs hi (r - leonardo k) ks"
    using f by (simp_all add: forest_def)
  note le = fits_le [OF o(2)]
  obtain ys where ys: "sift cmp lp xs r k = Some ys" "perm_in (r + 1 - leonardo k) r xs ys" "isheap key ys r k"
    using sift_heap [OF tab le r o(4)] by blast
  have "heaps key ys (r - leonardo k) ks \<and> fsorted key ys hi (r - leonardo k) ks"
  proof (cases "ks = []")
    case False
    then have fit: "leonardo k \<le> r" "fits (r - leonardo k) ks" using fits_rest [OF o(2)] by simp_all
    have "ys ! i = xs ! i" if "i \<le> r - leonardo k" for i using ys(2) that fit(1) by (auto simp: perm_in_def)
    then show ?thesis using heaps_cong [OF fit(2), of ys xs key] fsorted_cong [OF fit(2), of ys xs key hi] o(5,6) by simp
  qed simp
  then have "forest key ys hi r p k ks" using o isheap_subheaps [OF ys(3)] by (simp add: forest_def)
  moreover have "perm_in 0 r xs ys" using ys(2) by (auto intro: perm_in_mono)
  ultimately show ?thesis using that ys by blast
qed

text \<open>A final tree is trinkled: then the whole forest is sorted by its roots.\<close>

lemma forest_trinkle:
  assumes f: "forest key xs hi r p k ks" and tab: "\<forall>j \<in> set (k # ks). table_ok lp j" and r: "r < length xs"
    and s: "rsorted key xs (r - leonardo k) ks"
  obtains ys where "trinkle cmp lp xs r p k False = Some ys" "perm_in 0 r xs ys" "isheap key ys r k"
    "forest key ys hi r p k ks" "heaps key ys r (k # ks)" "rsorted key ys r (k # ks)"
proof -
  have o: "orders p k (k # ks)" "fits r (k # ks)" "shape k ks" "subheaps key xs r k" "heaps key xs (r - leonardo k) ks"
    using f by (simp_all add: forest_def)
  obtain ys where ys: "trinkle cmp lp xs r p k False = Some ys" "perm_in 0 r xs ys" "heaps key ys r (k # ks)"
    "rsorted key ys r (k # ks)" by (rule trinkle_heaps [OF o(1,2) r tab o(4,5) s, where t = False]) simp_all
  have t: "isheap key ys r k" "heaps key ys (r - leonardo k) ks" "fsorted key ys hi (r - leonardo k) ks"
    using ys(3) rsorted_fsorted [OF ys(4), of hi] by simp_all
  then have "forest key ys hi r p k ks" using o(1-3) isheap_subheaps [OF t(1)] by (simp add: forest_def)
  then show ?thesis by (rule that [OF ys(1,2) t(1) _ ys(3,4)])
qed

text \<open>When a tree is final, so are the trees before it.\<close>

lemma rest_sorted:
  assumes f: "forest key xs hi r p k ks" and d: "ks \<noteq> [] \<longrightarrow> hi - r + leonardo k \<le> leonardo (hd ks - 1)"
  shows "rsorted key xs (r - leonardo k) ks"
proof (cases ks)
  case (Cons j js)
  have "leonardo k \<le> r" using f Cons by (auto simp: forest_def)
  then have "hi - (r - leonardo k) \<le> leonardo (j - 1)" using d Cons by simp
  then show ?thesis using f Cons by (simp add: forest_def)
qed simp


text \<open>One round of the loop.\<close>

lemma build_round:
  assumes f: "forest key xs hi r p k ks" and hi: "r < hi" "hi < length xs" and n: "length xs < 2 ^ 32"
  defines "lp \<equiv> leonardo_table (length xs)"
  obtains ys p' k' ks' where "build_forest cmp lp hi xs r p k = build_forest cmp lp hi ys (r + 1) p' k'"
    "perm_in 0 r xs ys" "forest key ys hi (r + 1) p' k' ks'"
proof -
  note goal = that
  have r: "r < length xs" using hi by simp
  have tab: "\<forall>j \<in> set (k # ks). table_ok lp j"
    using forest_orders [OF f, of "length xs"] r unfolding lp_def by simp
  then have tabk: "table_ok lp k" by simp
  have o: "orders p k (k # ks)" "shape k ks" using f by (simp_all add: forest_def)
  show ?thesis
  proof (cases "fst p AND 3 = 3")
    case True
    then obtain ks' where ks: "ks = Suc k # ks'" using forest_adjacent [OF f] by blast
    obtain ys where ys: "sift cmp lp xs r k = Some ys" "perm_in 0 r xs ys" "isheap key ys r k" "forest key ys hi r p k ks"
      using forest_sift [OF f tabk r] by blast
    have "build_forest cmp lp hi xs r p k =
        build_forest cmp lp hi ys (r + 1) (fst (shr p 2) OR 1, snd (shr p 2)) (k + 2)"
      using hi(1) True ys(1) by (subst build_forest.simps) (simp add: Let_def)
    moreover have "forest key ys hi (r + 1) (fst (shr p 2) OR 1, snd (shr p 2)) (k + 2) ks'"
      using forest_merge [OF ys(4) [unfolded ks] ys(3)] hi n by simp
    ultimately show ?thesis using goal ys(2) by blast
  next
    case False
    define j where "j = (if k = 1 then 0 else 1 :: nat)"
    have no: "\<not> (\<exists>ks'. ks = Suc k # ks')" using False forest_adjacent [OF f] by blast
    have k: "0 < k" using o(2) no by (cases ks) (auto simp: shape_def)
    then have jk: "j < k" by (auto simp: j_def)
    have gap: "k + 2 \<le> l" if "ks = l # ls" for l ls using o(1) no that by (auto simp: orders_def)
    have sp: "spaced (k # ks)" using o(2) gap by (cases ks) (auto simp: shape_def)
    have lp: "lp ! (k - 1) = leonardo (k - 1)" "k - 1 < length lp" using tabk by (auto simp: table_ok_def)
    let ?q = "(fst (shl p (k - j)) OR 1, snd (shl p (k - j)))"
    have push: ?thesis
      if ys: "(if lp ! (k - 1) \<ge> hi - r then trinkle cmp lp xs r p k False else sift cmp lp xs r k) = Some ys"
        "perm_in 0 r xs ys" "isheap key ys r k" "forest key ys hi r p k ks" "fsorted key ys hi r (k # ks)" for ys
    proof -
      have "build_forest cmp lp hi xs r p k = build_forest cmp lp hi ys (r + 1) ?q j"
        using hi(1) False k ys(1) lp(2) unfolding build_forest.simps [of cmp lp hi xs r p k] j_def by simp
      then show ?thesis using goal forest_push [OF ys(4) jk j_def sp ys(3,5)] ys(2) by blast
    qed
    show ?thesis
    proof (cases "lp ! (k - 1) \<ge> hi - r")
      case True
      have *: "leonardo (k - 1) + leonardo k + 1 \<le> leonardo (l - 1)" if "ks = l # ls" for l ls
      proof -
        have "leonardo (Suc k) \<le> leonardo (l - 1)" using gap [OF that] by (intro leonardo_mono) simp
        moreover have "leonardo (Suc k) = leonardo (k - 1) + leonardo k + 1" using k leonardo_ge_2 [of "Suc k"] by simp
        ultimately show ?thesis by linarith
      qed
      then have "ks \<noteq> [] \<longrightarrow> hi - r + leonardo k \<le> leonardo (hd ks - 1)"
      proof (cases ks)
        case (Cons l ls)
        then show ?thesis using *[OF Cons] True lp(1) by simp
      qed simp
      from forest_trinkle [OF f tab r rest_sorted [OF f this]]
      obtain ys where ys: "trinkle cmp lp xs r p k False = Some ys" "perm_in 0 r xs ys" "isheap key ys r k"
        "forest key ys hi r p k ks" "rsorted key ys r (k # ks)" by blast
      then show ?thesis using push [OF _ ys(2-4) rsorted_fsorted [OF ys(5)]] True by simp
    next
      case False
      obtain ys where ys: "sift cmp lp xs r k = Some ys" "perm_in 0 r xs ys" "isheap key ys r k" "forest key ys hi r p k ks"
        using forest_sift [OF f tabk r] by blast
      have "fsorted key ys hi r (k # ks)" using ys(4) False lp(1) by (simp add: forest_def)
      then show ?thesis using push [OF _ ys(2-4)] False ys(1) by simp
    qed
  qed
qed

lemma build_forest_sorts:
  "forest key xs hi r p k ks \<Longrightarrow> r \<le> hi \<Longrightarrow> hi < length xs \<Longrightarrow> length xs < 2 ^ 32 \<Longrightarrow>
   \<exists>ys p' k' ks'. build_forest cmp (leonardo_table (length xs)) hi xs r p k = Some (ys, hi, p', k') \<and>
     mset ys = mset xs \<and> forest key ys hi hi p' k' ks'"
proof (induction "hi - r" arbitrary: xs r p k ks)
  case 0
  then show ?case by (subst build_forest.simps) (auto intro: exI [of _ ks])
next
  case (Suc d)
  have lt: "r < hi" using Suc.hyps(2) by simp
  obtain ys p' k' ks' where ys: "build_forest cmp (leonardo_table (length xs)) hi xs r p k =
      build_forest cmp (leonardo_table (length xs)) hi ys (r + 1) p' k'"
    "perm_in 0 r xs ys" "forest key ys hi (r + 1) p' k' ks'"
    using build_round [OF Suc.prems(1) lt Suc.prems(3,4)] by blast
  have len: "length ys = length xs" using perm_in_length [OF ys(2)] .
  have "\<exists>zs p'' k'' ks''. build_forest cmp (leonardo_table (length ys)) hi ys (r + 1) p' k' = Some (zs, hi, p'', k'') \<and>
     mset zs = mset ys \<and> forest key zs hi hi p'' k'' ks''"
    using Suc.hyps(1) [OF _ ys(3)] Suc.hyps(2) Suc.prems len by simp
  then show ?case using ys(1,2) len by (simp add: perm_in_def)
qed

lemma initial_forest: "xs \<noteq> [] \<Longrightarrow> forest key xs hi 0 (1, 0) 1 []"
  by (auto simp: forest_def orders_def shape_def subheaps_def bit_1_iff)

lemma qsort_sorts:
  assumes "length xs < 2 ^ 32"
  shows "\<exists>ys. qsort cmp xs = Some ys \<and> mset ys = mset xs \<and> sorted (map key ys)"
proof (cases "xs = []")
  case True
  then show ?thesis by (simp add: qsort_def)
next
  case False
  let ?lp = "leonardo_table (length xs)" and ?hi = "length xs - 1"
  have hi: "?hi < length xs" using False by simp
  obtain ys p k ks where ys: "build_forest cmp ?lp ?hi xs 0 (1, 0) 1 = Some (ys, ?hi, p, k)" "mset ys = mset xs"
    "forest key ys ?hi ?hi p k ks"
    using build_forest_sorts [OF initial_forest [OF False] le0 hi assms] by blast
  have len: "length ys = length xs" using mset_eq_length [OF ys(2)] .
  have tab: "\<forall>j \<in> set (k # ks). table_ok ?lp j" using forest_orders [OF ys(3), of "length xs"] hi by simp
  have inc: "\<forall>j \<in> set ks. k < j" using ys(3) by (simp add: forest_def orders_def)
  have "leonardo k \<le> leonardo (hd ks - 1)" if "ks \<noteq> []"
    using inc that by (intro leonardo_mono) (cases ks, auto)
  then have "rsorted key ys (?hi - leonardo k) ks" by (intro rest_sorted [OF ys(3)]) simp
  then obtain zs where zs: "trinkle cmp ?lp ys ?hi p k False = Some zs" "perm_in 0 ?hi ys zs"
    "heaps key zs ?hi (k # ks)" "rsorted key zs ?hi (k # ks)"
    using forest_trinkle [OF ys(3) tab] len hi by (metis (no_types, lifting))
  have len': "length zs = length xs" using perm_in_length [OF zs(2)] len by simp
  have "tail_sorted key zs ?hi" using len' by (auto simp: tail_sorted_def)
  moreover have "k = 0 \<longrightarrow> ks \<noteq> []" "orders p k (k # ks)" "fits ?hi (k # ks)"
    using ys(3) by (auto simp: forest_def shape_def)
  ultimately obtain ws where ws: "take_forest cmp ?lp zs ?hi p k = Some ws" "mset ws = mset zs" "tail_sorted key ws 0"
    using take_forest_sorts [OF _ _ _ _ tab zs(3,4)] len' hi by metis
  have "qsort cmp xs = Some ws" using False ys(1) zs(1) ws(1) by (simp add: qsort_def)
  moreover have "mset ws = mset xs" using ws(2) zs(2) ys(2) by (simp add: perm_in_def)
  moreover have "sorted (map key ws)"
    unfolding sorted_iff_nth_mono using ws(3) by (auto simp: tail_sorted_def)
  ultimately show ?thesis by blast
qed

end

section \<open>Searching\<close>

text \<open>\<open>bsearch\<close> relies on the elements being ordered against the key: what is behind an element
  that is too large is too large, what is before one that is too small is too small.\<close>

lemma bsearch_range:
  assumes "\<And>i j. i < j \<Longrightarrow> j < length xs \<Longrightarrow> cmp key (xs ! i) < 0 \<Longrightarrow> cmp key (xs ! j) < 0"
    and "\<And>i j. i < j \<Longrightarrow> j < length xs \<Longrightarrow> cmp key (xs ! j) > 0 \<Longrightarrow> cmp key (xs ! i) > 0"
  shows "base + nel \<le> length xs \<Longrightarrow>
    (case bsearch cmp key xs base nel of
       Some i \<Rightarrow> base \<le> i \<and> i < base + nel \<and> cmp key (xs ! i) = 0
     | None \<Rightarrow> (\<forall>i. base \<le> i \<and> i < base + nel \<longrightarrow> cmp key (xs ! i) \<noteq> 0))"
proof (induction nel arbitrary: base rule: less_induct)
  case (less nel)
  define m where "m = base + nel div 2"
  let ?s = "cmp key (xs ! m)"
  have m: "nel > 0 \<Longrightarrow> base \<le> m \<and> m < base + nel" by (auto simp: m_def)
  consider "nel = 0" | "nel > 0" "?s = 0" | "nel = 1" "?s \<noteq> 0" | "nel > 1" "?s < 0" | "nel > 1" "?s > 0" by linarith
  then show ?case
  proof cases
    case 4
    have eq: "bsearch cmp key xs base nel = bsearch cmp key xs base (nel div 2)"
      using 4 by (subst bsearch.simps) (simp add: Let_def m_def)
    have "cmp key (xs ! i) \<noteq> 0" if "base + nel div 2 \<le> i" "i < base + nel" for i
      using assms(1) [of m i] 4 that less.prems by (cases "i = m") (auto simp: m_def)
    moreover have h: "nel div 2 < nel" "base + nel div 2 \<le> length xs" "base + nel div 2 < base + nel"
      using 4 less.prems by simp_all
    ultimately show ?thesis
      using less.IH [OF h(1,2)] h(3) unfolding eq by (cases "bsearch cmp key xs base (nel div 2)") (auto simp: not_le [symmetric])
  next
    case 5
    have eq: "bsearch cmp key xs base nel = bsearch cmp key xs m (nel - nel div 2)"
      using 5 by (subst bsearch.simps) (simp add: Let_def m_def)
    have "cmp key (xs ! i) \<noteq> 0" if "i < m" for i
      using assms(2) [of i m] 5 that less.prems m by fastforce
    moreover have h: "nel - nel div 2 < nel" "m + (nel - nel div 2) \<le> length xs" "m + (nel - nel div 2) = base + nel" "base \<le> m"
      using 5 less.prems by (simp_all add: m_def)
    ultimately show ?thesis
      using less.IH [OF h(1,2)] h(3,4) unfolding eq by (cases "bsearch cmp key xs m (nel - nel div 2)") (auto simp: not_le [symmetric])
  qed (subst bsearch.simps, auto simp: Let_def m_def le_less_Suc_eq)+
qed

lemmas bsearch_all = bsearch_range [of _ _ _ 0, simplified]

section \<open>Properties\<close>

text \<open>C31. \<open>qsort\<close> returns: with a comparison function that reports the order of a key, the result is a
  permutation of the input with ascending keys. No access leaves the array or the table of Leonardo
  numbers.\<close>

theorem qsort_permutes_and_sorts:
  assumes "\<And>x y. cmp x y < 0 \<longleftrightarrow> key x < key y" and "\<And>x y. cmp x y > 0 \<longleftrightarrow> key x > key y"
    and "length xs < 2 ^ 32"
  shows "\<exists>ys. qsort cmp xs = Some ys \<and> mset ys = mset xs \<and> sorted (map key ys)"
proof -
  have "ordering cmp key" by unfold_locales (rule assms)+
  then show ?thesis using assms(3) by (rule ordering.qsort_sorts)
qed

theorem qsort_permutes_and_sorts_witness:
  "\<exists>ys. qsort (\<lambda>x y. fst x - fst y) [(2 :: int, True), (1, False), (2, False)] = Some ys \<and> sorted (map fst ys)"
  using qsort_permutes_and_sorts [of "\<lambda>x y. fst x - fst y" fst "[(2 :: int, True), (1, False), (2, False)]"] by auto

end
