(* ===== verification/Pager.thy ===== *)
theory Pager
  imports Smoothsort_Correct
begin

unbundle bit_operations_syntax

text \<open>
  The map of the sandbox's pages (\<open>src/runtime/src/pager.c\<close>, \<open>pager.h\<close>): an array of regions with
  their protections, sorted on demand. The array of entry pointers is a list of entries, \<open>nvalid\<close>
  its length: no entry is pointed to twice. Memory allocation succeeds.
\<close>

section \<open>Data\<close>

datatype vmmap_entry_type = VMMAP_ENTRY_ANONYMOUS | VMMAP_ENTRY_MAPPED

record vmmap_entry =
  page_num :: u64
  npages :: u64
  prot :: u32
  max_prot :: u32
  vmmap_type :: vmmap_entry_type
  removed :: bool

record vmmap =
  vmentry :: "vmmap_entry list"
  vm_size :: u64
  is_sorted :: bool

abbreviation nvalid :: "vmmap \<Rightarrow> nat" where
  "nvalid vm \<equiv> length (vmentry vm)"

definition PAGESHIFT :: nat where "PAGESHIFT = 12"

definition CurPage :: "u64 \<Rightarrow> u64" where
  "CurPage x = push_bit PAGESHIFT (drop_bit PAGESHIFT x)"

definition RoundToPage :: "u64 \<Rightarrow> u64" where
  "RoundToPage x = (x + PAGE_SIZE - 1) div PAGE_SIZE * PAGE_SIZE"

section \<open>Entries\<close>

definition VmmapEntryMake :: "u64 \<Rightarrow> u64 \<Rightarrow> u32 \<Rightarrow> u32 \<Rightarrow> vmmap_entry_type \<Rightarrow> vmmap_entry" where
  "VmmapEntryMake page n pr mx ty =
     \<lparr> page_num = page, npages = n, prot = pr, max_prot = mx, vmmap_type = ty, removed = False \<rparr>"

definition VmmapCtor :: vmmap where
  "VmmapCtor = \<lparr> vmentry = [], vm_size = 2, is_sorted = True \<rparr>"

definition VmmapCmpEntries :: "vmmap_entry \<Rightarrow> vmmap_entry \<Rightarrow> int" where
  "VmmapCmpEntries left right =
     (if page_num left < page_num right then - 1
      else if page_num left = page_num right then 0 else 1)"

text \<open>One past the last page of an entry.\<close>

definition ent_end_page :: "vmmap_entry \<Rightarrow> u64" where
  "ent_end_page ent = page_num ent + npages ent"

section \<open>Removal of marked entries\<close>

text \<open>First loop: the index of the last entry that is not marked. When every entry is marked the
  process ends.\<close>

fun last_kept :: "vmmap_entry list \<Rightarrow> nat \<Rightarrow> nat option" where
  "last_kept es 0 = None"
| "last_kept es (Suc n) = (if removed (es ! n) then last_kept es n else Some n)"

fun skip_removed :: "vmmap_entry list \<Rightarrow> nat \<Rightarrow> nat \<Rightarrow> nat" where
  "skip_removed es i 0 = 0"
| "skip_removed es i (Suc n) = (if Suc n > i \<and> removed (es ! Suc n) then skip_removed es i n else Suc n)"

lemma skip_removed_le: "skip_removed es i n \<le> n"
  by (induction n) auto

text \<open>Second loop: the last kept entry moves into the place of a marked one.\<close>

function move_to_front :: "vmmap_entry list \<Rightarrow> nat \<Rightarrow> nat \<Rightarrow> vmmap_entry list \<times> nat" where
  "move_to_front es i lst =
     (if i < lst then
        if \<not> removed (es ! i) then move_to_front es (i + 1) lst
        else move_to_front (es[i := es ! lst]) (i + 1) (skip_removed (es[i := es ! lst]) i (lst - 1))
      else (es, lst))"
  by pat_completeness auto
termination
  by (relation "measure (\<lambda>(_, i, lst). lst - i)")
    (auto intro!: diff_less_mono2 intro: le_less_trans [OF diff_le_mono [OF skip_removed_le]])

declare move_to_front.simps [simp del]

definition VmmapRemoveMarked :: "vmmap \<Rightarrow> vmmap option" where
  "VmmapRemoveMarked vm =
     (if nvalid vm = 0 then Some vm
      else do {
        last \<leftarrow> last_kept (vmentry vm) (nvalid vm);
        let (es, last) = move_to_front (vmentry vm) 0 last;
        Some (vm\<lparr> vmentry := take (last + 1) es, is_sorted := False \<rparr>) })"

definition VmmapMakeSorted :: "vmmap \<Rightarrow> vmmap option" where
  "VmmapMakeSorted vm =
     (if is_sorted vm then Some vm
      else do {
        vm \<leftarrow> VmmapRemoveMarked vm;
        es \<leftarrow> qsort VmmapCmpEntries (vmentry vm);
        Some (vm\<lparr> vmentry := es, is_sorted := True \<rparr>) })"

section \<open>Updates\<close>

definition VmmapAdd :: "u64 \<Rightarrow> u64 \<Rightarrow> u32 \<Rightarrow> u32 \<Rightarrow> vmmap_entry_type \<Rightarrow> vmmap \<Rightarrow> vmmap" where
  "VmmapAdd page n pr mx ty vm =
     vm\<lparr> vmentry := vmentry vm @ [VmmapEntryMake page n pr mx ty],
         vm_size := (if of_nat (nvalid vm) = vm_size vm then 2 * vm_size vm else vm_size vm),
         is_sorted := False \<rparr>"

definition set_entry :: "nat \<Rightarrow> vmmap_entry \<Rightarrow> vmmap \<Rightarrow> vmmap" where
  "set_entry i e vm = vm\<lparr> vmentry := (vmentry vm)[i := e] \<rparr>"

function update_entries :: "u64 \<Rightarrow> u64 \<Rightarrow> nat \<Rightarrow> vmmap \<Rightarrow> vmmap option" where
  "update_entries page new_end i vm =
     (if i < nvalid vm then
        let ent = vmentry vm ! i; ent_end = ent_end_page ent in
        if page_num ent < page \<and> new_end < ent_end then
          Some (set_entry i (ent\<lparr> npages := page - page_num ent \<rparr>)
            (VmmapAdd new_end (ent_end - new_end) (prot ent) (max_prot ent) (vmmap_type ent) vm))
        else if page_num ent < page \<and> page < ent_end then
          update_entries page new_end (i + 1) (set_entry i (ent\<lparr> npages := page - page_num ent \<rparr>) vm)
        else if page_num ent < new_end \<and> new_end < ent_end then
          Some (set_entry i (ent\<lparr> page_num := new_end, npages := ent_end - new_end \<rparr>) vm)
        else if page \<le> page_num ent \<and> ent_end \<le> new_end then
          update_entries page new_end (i + 1) (set_entry i (ent\<lparr> removed := True \<rparr>) vm)
        else if new_end \<le> page_num ent \<or> ent_end \<le> page then update_entries page new_end (i + 1) vm
        else None
      else Some vm)"
  by pat_completeness auto
termination
  by (relation "measure (\<lambda>(_, _, i, vm). nvalid vm - i)") (auto simp: set_entry_def)

declare update_entries.simps [simp del]

definition VmmapUpdate ::
  "u64 \<Rightarrow> u64 \<Rightarrow> u32 \<Rightarrow> u32 \<Rightarrow> vmmap_entry_type \<Rightarrow> bool \<Rightarrow> vmmap \<Rightarrow> vmmap option" where
  "VmmapUpdate page n pr mx ty remove vm = do {
     vm \<leftarrow> VmmapMakeSorted vm;
     CHECK (n > 0);
     vm \<leftarrow> update_entries page (page + n) 0 vm;
     let vm = (if \<not> remove then VmmapAdd page n pr mx ty vm else vm);
     VmmapRemoveMarked vm }"

definition VmmapAddWithOverwrite ::
  "u64 \<Rightarrow> u64 \<Rightarrow> u32 \<Rightarrow> u32 \<Rightarrow> vmmap_entry_type \<Rightarrow> vmmap \<Rightarrow> vmmap option" where
  "VmmapAddWithOverwrite page n pr mx ty vm = VmmapUpdate page n pr mx ty False vm"

definition VmmapRemove :: "u64 \<Rightarrow> u64 \<Rightarrow> vmmap_entry_type \<Rightarrow> vmmap \<Rightarrow> vmmap option" where
  "VmmapRemove page n ty vm = VmmapUpdate page n 0 0 ty True vm"

section \<open>Protections\<close>

fun check_entries :: "vmmap_entry list \<Rightarrow> u64 \<Rightarrow> u64 \<Rightarrow> u32 \<Rightarrow> bool" where
  "check_entries [] page region_end pr = False"
| "check_entries (ent # es) page region_end pr =
     (if page_num ent \<le> page \<and> region_end \<le> ent_end_page ent then pr AND NOT (max_prot ent) = 0
      else if page_num ent \<le> page \<and> page < ent_end_page ent then
        if pr AND NOT (max_prot ent) \<noteq> 0 then False
        else check_entries es (ent_end_page ent) region_end pr
      else if page < page_num ent then False
      else check_entries es page region_end pr)"

definition VmmapCheckExistingMapping :: "u64 \<Rightarrow> u64 \<Rightarrow> u32 \<Rightarrow> vmmap \<Rightarrow> (bool \<times> vmmap) option" where
  "VmmapCheckExistingMapping page n pr vm =
     (if nvalid vm = 0 then Some (False, vm)
      else do {
        vm \<leftarrow> VmmapMakeSorted vm;
        Some (check_entries (vmentry vm) page (page + n) pr, vm) })"

text \<open>The loop of \<open>VmmapChangeProt\<close>; \<open>nv\<close> is the number of entries before it and \<open>new_end\<close> the end
  of the whole region.\<close>

function change_entries :: "u64 \<Rightarrow> u32 \<Rightarrow> nat \<Rightarrow> nat \<Rightarrow> u64 \<Rightarrow> u64 \<Rightarrow> vmmap \<Rightarrow> vmmap option" where
  "change_entries new_end pr nv i page n vm =
     (if i < nv \<and> n > 0 then
        let ent = vmentry vm ! i; ent_end = ent_end_page ent in
        if page_num ent < page \<and> new_end < ent_end then
          Some (VmmapAdd page n pr (max_prot ent) (vmmap_type ent)
            (set_entry i (ent\<lparr> npages := page - page_num ent \<rparr>)
              (VmmapAdd new_end (ent_end - new_end) (prot ent) (max_prot ent) (vmmap_type ent) vm)))
        else if page_num ent < page \<and> page < ent_end then
          change_entries new_end pr nv (i + 1) ent_end (new_end - ent_end)
            (VmmapAdd page (ent_end - page) pr (max_prot ent) (vmmap_type ent)
              (set_entry i (ent\<lparr> npages := page - page_num ent \<rparr>) vm))
        else if page_num ent < new_end \<and> new_end < ent_end then
          Some (set_entry i (ent\<lparr> page_num := new_end, npages := ent_end - new_end \<rparr>)
            (VmmapAdd page n pr (max_prot ent) (vmmap_type ent) vm))
        else if page \<le> page_num ent \<and> ent_end \<le> new_end then
          change_entries new_end pr nv (i + 1) ent_end (new_end - ent_end)
            (set_entry i (ent\<lparr> prot := pr \<rparr>) vm)
        else if new_end \<le> page_num ent \<or> ent_end \<le> page then
          change_entries new_end pr nv (i + 1) page n vm
        else None
      else Some vm)"
  by pat_completeness auto
termination by (relation "measure (\<lambda>(_, _, nv, i, _). nv - i)") auto

declare change_entries.simps [simp del]

definition VmmapChangeProt :: "u64 \<Rightarrow> u64 \<Rightarrow> u32 \<Rightarrow> vmmap \<Rightarrow> (bool \<times> vmmap) option" where
  "VmmapChangeProt page n pr vm = do {
     (ok, vm) \<leftarrow> VmmapCheckExistingMapping page n pr vm;
     if \<not> ok then Some (False, vm)
     else do {
       vm \<leftarrow> VmmapMakeSorted vm;
       vm \<leftarrow> change_entries (page + n) pr (nvalid vm) 0 page n vm;
       Some (True, vm) } }"

section \<open>Queries\<close>

definition VmmapContainCmpEntries :: "u64 \<Rightarrow> vmmap_entry \<Rightarrow> int" where
  "VmmapContainCmpEntries key ent =
     (if key < page_num ent then - 1
      else if key < page_num ent + npages ent then 0 else 1)"

definition VmmapFindPage :: "u64 \<Rightarrow> vmmap \<Rightarrow> (vmmap_entry option \<times> vmmap) option" where
  "VmmapFindPage pnum vm = do {
     vm \<leftarrow> VmmapMakeSorted vm;
     Some (map_option (\<lambda>i. vmentry vm ! i) (bsearch VmmapContainCmpEntries pnum (vmentry vm) 0 (nvalid vm)), vm) }"

text \<open>An iterator is a map and an index.\<close>

definition VmmapFindPageIter :: "u64 \<Rightarrow> vmmap \<Rightarrow> (vmmap \<times> nat) option" where
  "VmmapFindPageIter pnum vm = do {
     vm \<leftarrow> VmmapMakeSorted vm;
     Some (vm, (case bsearch VmmapContainCmpEntries pnum (vmentry vm) 0 (nvalid vm) of
                  None \<Rightarrow> nvalid vm | Some i \<Rightarrow> i)) }"

definition VmmapIterAtEnd :: "vmmap \<times> nat \<Rightarrow> bool" where
  "VmmapIterAtEnd it \<longleftrightarrow> snd it \<ge> nvalid (fst it)"

definition VmmapIterStar :: "vmmap \<times> nat \<Rightarrow> vmmap_entry" where
  "VmmapIterStar it = vmentry (fst it) ! snd it"

definition VmmapIterIncr :: "vmmap \<times> nat \<Rightarrow> vmmap \<times> nat" where
  "VmmapIterIncr it = (fst it, snd it + 1)"

definition VmmapIterErase :: "vmmap \<times> nat \<Rightarrow> vmmap" where
  "VmmapIterErase it =
     (fst it)\<lparr> vmentry := butlast ((vmentry (fst it))[snd it := last (vmentry (fst it))]),
               is_sorted := False \<rparr>"

definition VmmapVisit :: "(vmmap_entry \<Rightarrow> 's \<Rightarrow> 's) \<Rightarrow> 's \<Rightarrow> vmmap \<Rightarrow> ('s \<times> vmmap) option" where
  "VmmapVisit f state vm = do {
     vm \<leftarrow> VmmapMakeSorted vm;
     Some (fold f (vmentry vm) state, vm) }"

text \<open>From the highest pair of neighbours down to \<open>entries 0 and 1\<close>.\<close>

fun space_below :: "vmmap_entry list \<Rightarrow> u64 \<Rightarrow> nat \<Rightarrow> u64" where
  "space_below es num_pages 0 = 0"
| "space_below es num_pages (Suc i) =
     (if page_num (es ! Suc i) - ent_end_page (es ! i) \<ge> num_pages
      then page_num (es ! Suc i) - num_pages
      else space_below es num_pages i)"

definition VmmapFindSpace :: "u64 \<Rightarrow> vmmap \<Rightarrow> (u64 \<times> vmmap) option" where
  "VmmapFindSpace num_pages vm =
     (if nvalid vm = 0 then Some (0, vm)
      else do {
        vm \<leftarrow> VmmapMakeSorted vm;
        Some (space_below (vmentry vm) num_pages (nvalid vm - 1), vm) })"

definition VmmapFindMapSpace :: "u64 \<Rightarrow> vmmap \<Rightarrow> (u64 \<times> vmmap) option" where
  "VmmapFindMapSpace num_pages vm =
     (if nvalid vm = 0 then Some (0, vm)
      else do {
        vm \<leftarrow> VmmapMakeSorted vm;
        Some (space_below (vmentry vm) num_pages (nvalid vm - 1), vm) })"

fun space_above :: "vmmap_entry list \<Rightarrow> u64 \<Rightarrow> u64 \<Rightarrow> u64" where
  "space_above (e # f # es) usr_page num_pages =
     (let end_page = (if ent_end_page e \<le> usr_page \<and> usr_page < page_num f then usr_page else ent_end_page e)
      in if usr_page \<le> end_page \<and> page_num f - end_page \<ge> num_pages then end_page
         else space_above (f # es) usr_page num_pages)"
| "space_above es usr_page num_pages = 0"

definition VmmapFindMapSpaceAboveHint :: "u64 \<Rightarrow> u64 \<Rightarrow> vmmap \<Rightarrow> (u64 \<times> vmmap) option" where
  "VmmapFindMapSpaceAboveHint uaddr num_pages vm = do {
     vm \<leftarrow> VmmapMakeSorted vm;
     Some (space_above (vmentry vm) (drop_bit PAGESHIFT uaddr) num_pages, vm) }"

end
