(* ===== verification/Pager_Correct.thy ===== *)
theory Pager_Correct
  imports Pager
begin

unbundle bit_operations_syntax

text \<open>
  The page map as a function from pages to attributes: the invariant of the array of entries, what
  each operation of \<open>src/runtime/src/pager.c\<close> does to that function, and the queries. Sorting goes
  through the interpretation of the locale \<open>ordering\<close> at the comparison function of the map.
\<close>

interpretation vm: ordering VmmapCmpEntries page_num
  by unfold_locales (auto simp: VmmapCmpEntries_def)

section \<open>The pages of a map\<close>

definition covers :: "vmmap_entry \<Rightarrow> u64 \<Rightarrow> bool" where
  "covers e p \<longleftrightarrow> page_num e \<le> p \<and> p < ent_end_page e"

type_synonym page_attr = "u32 \<times> u32 \<times> vmmap_entry_type"

definition attr :: "vmmap_entry \<Rightarrow> page_attr" where
  "attr e = (prot e, max_prot e, vmmap_type e)"

definition pages :: "vmmap_entry list \<Rightarrow> u64 \<Rightarrow> page_attr option" where
  "pages es p = map_option attr (List.find (\<lambda>e. \<not> removed e \<and> covers e p) es)"

text \<open>An entry is not empty and does not wrap around; two entries share no page.\<close>

definition entry_ok :: "vmmap_entry \<Rightarrow> bool" where
  "entry_ok e \<longleftrightarrow> page_num e < ent_end_page e \<and> \<not> removed e"

definition apart :: "vmmap_entry \<Rightarrow> vmmap_entry \<Rightarrow> bool" where
  "apart e f \<longleftrightarrow> ent_end_page e \<le> page_num f \<or> ent_end_page f \<le> page_num e"

definition disjoint :: "vmmap_entry list \<Rightarrow> bool" where
  "disjoint es \<longleftrightarrow> (\<forall>e \<in> set es. entry_ok e) \<and> sorted_wrt apart es"

definition vm_ok :: "vmmap \<Rightarrow> bool" where
  "vm_ok vm \<longleftrightarrow> disjoint (vmentry vm) \<and> (is_sorted vm \<longrightarrow> sorted (map page_num (vmentry vm)))"

definition small :: "vmmap \<Rightarrow> bool" where
  "small vm \<longleftrightarrow> nvalid vm < 2 ^ 32"

lemma apart_sym: "apart e f \<longleftrightarrow> apart f e"
  by (auto simp: apart_def)

lemma sorted_wrt_perm:
  assumes "\<And>x y. R x y \<longleftrightarrow> R y x" shows "mset xs = mset ys \<Longrightarrow> sorted_wrt R xs \<longleftrightarrow> sorted_wrt R ys"
proof (induction xs arbitrary: ys)
  case (Cons x xs)
  have "x \<in> set ys" using Cons.prems by (metis list.set_intros(1) mset_eq_setD)
  then obtain a b where ys: "ys = a @ x # b" by (auto simp: in_set_conv_decomp)
  then have m: "mset xs = mset (a @ b)" using Cons.prems by simp
  have "sorted_wrt R (a @ x # b) \<longleftrightarrow> sorted_wrt R (a @ b) \<and> (\<forall>y \<in> set (a @ b). R x y)"
    using assms by (auto simp: sorted_wrt_append)
  then show ?case using Cons.IH [OF m] mset_eq_setD [OF m] ys by auto
qed simp

lemma disjoint_perm: "mset xs = mset ys \<Longrightarrow> disjoint xs \<longleftrightarrow> disjoint ys"
  using sorted_wrt_perm [of apart xs ys, OF apart_sym] by (auto simp: disjoint_def dest: mset_eq_setD)

lemma disjoint_covers:
  "disjoint es \<Longrightarrow> e \<in> set es \<Longrightarrow> f \<in> set es \<Longrightarrow> covers e p \<Longrightarrow> covers f p \<Longrightarrow> e = f"
proof (induction es)
  case (Cons a es)
  have "\<not> (covers a p \<and> covers g p)" if "g \<in> set es" for g
    using Cons.prems(1) that by (auto simp: disjoint_def apart_def covers_def)
  moreover have "disjoint es" using Cons.prems(1) by (auto simp: disjoint_def)
  ultimately show ?case using Cons by auto
qed simp

lemma pages_Some: "disjoint es \<Longrightarrow> pages es p = Some v \<longleftrightarrow> (\<exists>e \<in> set es. covers e p \<and> attr e = v)"
proof
  assume d: "disjoint es"
  {
    assume "pages es p = Some v"
    then show "\<exists>e \<in> set es. covers e p \<and> attr e = v"
      by (auto simp: pages_def find_Some_iff intro: nth_mem)
  }
  assume "\<exists>e \<in> set es. covers e p \<and> attr e = v"
  then obtain e where e: "e \<in> set es" "covers e p" "attr e = v" by blast
  then have "List.find (\<lambda>e. \<not> removed e \<and> covers e p) es \<noteq> None"
    using d by (auto simp: find_None_iff disjoint_def entry_ok_def)
  then obtain f where f: "List.find (\<lambda>e. \<not> removed e \<and> covers e p) es = Some f" by blast
  then have "f \<in> set es" "covers f p" by (auto simp: find_Some_iff)
  then show "pages es p = Some v" using f disjoint_covers [OF d e(1) _ e(2)] e(3) by (simp add: pages_def)
qed

lemma pages_eqI:
  assumes "disjoint xs" and "\<And>v. (\<exists>e \<in> set xs. covers e p \<and> attr e = v) \<longleftrightarrow> w = Some v" shows "pages xs p = w"
  using pages_Some [OF assms(1), of p] assms(2) by (cases w; cases "pages xs p") auto

lemma pages_perm: "mset xs = mset ys \<Longrightarrow> disjoint xs \<Longrightarrow> pages xs = pages ys"
proof (rule ext)
  fix p
  assume m: "mset xs = mset ys" and d: "disjoint xs"
  then show "pages xs p = pages ys p"
    using pages_Some [of xs p] pages_Some [of ys p] disjoint_perm [OF m] mset_eq_setD [OF m]
    by (intro pages_eqI) auto
qed

section \<open>Removal of marked entries\<close>

abbreviation live :: "vmmap_entry list \<Rightarrow> vmmap_entry list" where
  "live es \<equiv> filter (\<lambda>e. \<not> removed e) es"

lemma last_kept:
  "(case last_kept es n of
      Some l \<Rightarrow> l < n \<and> \<not> removed (es ! l) \<and> (\<forall>i. l < i \<and> i < n \<longrightarrow> removed (es ! i))
    | None \<Rightarrow> (\<forall>i < n. removed (es ! i)))"
  by (induction n) (auto split: option.splits simp: less_Suc_eq)

lemma skip_removed:
  "i \<le> n \<Longrightarrow> i \<le> skip_removed es i n \<and> skip_removed es i n \<le> n \<and>
     (skip_removed es i n = i \<or> \<not> removed (es ! skip_removed es i n)) \<and>
     (\<forall>j. skip_removed es i n < j \<and> j \<le> n \<longrightarrow> removed (es ! j))"
  by (induction n) (auto simp: le_Suc_eq)

lemma live_take_removed:
  "m \<le> n \<Longrightarrow> n \<le> length es \<Longrightarrow> (\<forall>j. m \<le> j \<and> j < n \<longrightarrow> removed (es ! j)) \<Longrightarrow> live (take n es) = live (take m es)"
proof (induction n)
  case (Suc n)
  show ?case
  proof (cases "m = Suc n")
    case False
    then have "live (take (Suc n) es) = live (take n es)"
      using Suc.prems by (simp add: take_Suc_conv_app_nth)
    then show ?thesis using Suc False by simp
  qed simp
qed simp

lemma live_filter_update:
  "i < length xs \<Longrightarrow> removed (xs ! i) \<Longrightarrow> \<not> removed y \<Longrightarrow> mset (live (xs[i := y])) = add_mset y (mset (live xs))"
  by (induction xs arbitrary: i) (auto split: nat.split simp: nth_Cons)

lemma move_to_front:
  "lst < length es \<Longrightarrow> \<not> removed (es ! lst) \<Longrightarrow> (\<forall>j < i. j \<le> lst \<longrightarrow> \<not> removed (es ! j)) \<Longrightarrow>
   move_to_front es i lst = (es', l') \<Longrightarrow> mset (take (l' + 1) es') = mset (live (take (lst + 1) es))"
proof (induction es i lst rule: move_to_front.induct)
  case (1 es i lst)
  show ?case
  proof (cases "i < lst")
    case False
    then have "move_to_front es i lst = (es, lst)" by (subst move_to_front.simps) simp
    moreover have "\<not> removed (es ! j)" if "j \<le> lst" for j
      using "1.prems"(2,3) False that by (cases "j = lst") auto
    then have "live (take (lst + 1) es) = take (lst + 1) es"
      using "1.prems"(1) by (auto simp: filter_id_conv in_set_conv_nth)
    ultimately show ?thesis using "1.prems"(4) by simp
  next
    case True
    show ?thesis
    proof (cases "removed (es ! i)")
      case False
      then have "move_to_front es i lst = move_to_front es (i + 1) lst" using True by (subst move_to_front.simps) simp
      then show ?thesis using "1.IH"(1) [OF True False] "1.prems" False by (auto simp: less_Suc_eq)
    next
      case rem: True
      let ?es = "es[i := es ! lst]" and ?l = "skip_removed (es[i := es ! lst]) i (lst - 1)"
      have eq: "move_to_front es i lst = move_to_front ?es (i + 1) ?l"
        using True rem by (subst move_to_front.simps) simp
      have sk: "i \<le> ?l" "?l \<le> lst - 1" "?l = i \<or> \<not> removed (?es ! ?l)" "\<forall>j. ?l < j \<and> j \<le> lst - 1 \<longrightarrow> removed (?es ! j)"
        using skip_removed [of i "lst - 1" ?es] True by auto
      have len: "?l < length ?es" using sk(2) True "1.prems"(1) by simp
      have alive: "\<not> removed (?es ! ?l)" using sk(3) "1.prems"(1,2) True by (cases "?l = i") auto
      have front: "\<forall>j < i + 1. j \<le> ?l \<longrightarrow> \<not> removed (?es ! j)"
        using "1.prems"(1-3) True by (auto simp: less_Suc_eq)
      have "mset (take (l' + 1) es') = mset (live (take (?l + 1) ?es))"
        using "1.IH"(2) [OF True _ len alive front] rem "1.prems"(4) unfolding eq by simp
      also have "live (take (?l + 1) ?es) = live (take lst ?es)"
        using sk(2,4) True "1.prems"(1) by (intro live_take_removed [symmetric]) auto
      also have "mset (live (take lst ?es)) = add_mset (es ! lst) (mset (live (take lst es)))"
        using True "1.prems"(1,2) rem live_filter_update [of i "take lst es" "es ! lst"] by (simp add: take_update_swap)
      also have "\<dots> = mset (live (take (lst + 1) es))"
        using "1.prems"(1,2) by (simp add: take_Suc_conv_app_nth)
      finally show ?thesis .
    qed
  qed
qed

lemma remove_marked:
  "VmmapRemoveMarked vm = None \<longleftrightarrow> vmentry vm \<noteq> [] \<and> live (vmentry vm) = []"
  "VmmapRemoveMarked vm = Some vm' \<Longrightarrow>
     mset (vmentry vm') = mset (live (vmentry vm)) \<and> (is_sorted vm' \<longrightarrow> vmentry vm = []) \<and> vm_size vm' = vm_size vm"
proof -
  let ?es = "vmentry vm"
  consider "?es = []" | "?es \<noteq> []" "last_kept ?es (length ?es) = None"
    | l where "?es \<noteq> []" "last_kept ?es (length ?es) = Some l" by fastforce
  then have "(VmmapRemoveMarked vm = None \<longleftrightarrow> ?es \<noteq> [] \<and> live ?es = []) \<and>
    (VmmapRemoveMarked vm = Some vm' \<longrightarrow>
      mset (vmentry vm') = mset (live ?es) \<and> (is_sorted vm' \<longrightarrow> ?es = []) \<and> vm_size vm' = vm_size vm)"
  proof cases
    case 2
    then have "live ?es = []" using last_kept [of "length ?es" ?es] by (auto simp: filter_empty_conv in_set_conv_nth)
    then show ?thesis using 2 by (simp add: VmmapRemoveMarked_def)
  next
    case (3 l)
    then have l: "l < length ?es" "\<not> removed (?es ! l)" "\<forall>i. l < i \<and> i < length ?es \<longrightarrow> removed (?es ! i)"
      using last_kept [of "length ?es" ?es] by auto
    obtain es' l' where m: "move_to_front ?es 0 l = (es', l')" by fastforce
    have "live ?es = live (take (l + 1) ?es)"
      using live_take_removed [of "l + 1" "length ?es" ?es] l(1,3) by simp
    then have e: "mset (take (l' + 1) es') = mset (live ?es)" using move_to_front [OF l(1,2) _ m] by simp
    moreover have "?es ! l \<in> set (live ?es)" using l(1,2) by simp
    then have "live ?es \<noteq> []" by force
    ultimately show ?thesis using 3 m by (auto simp: VmmapRemoveMarked_def)
  qed (auto simp: VmmapRemoveMarked_def)
  then show "VmmapRemoveMarked vm = None \<longleftrightarrow> ?es \<noteq> [] \<and> live ?es = []"
    "VmmapRemoveMarked vm = Some vm' \<Longrightarrow>
     mset (vmentry vm') = mset (live ?es) \<and> (is_sorted vm' \<longrightarrow> ?es = []) \<and> vm_size vm' = vm_size vm" by blast+
qed

lemma live_ok: "disjoint es \<Longrightarrow> live es = es"
  by (auto simp: disjoint_def entry_ok_def filter_id_conv)

lemma make_sorted:
  assumes "vm_ok vm" and "small vm"
  obtains vm' where "VmmapMakeSorted vm = Some vm'" "mset (vmentry vm') = mset (vmentry vm)" "vm_ok vm'"
    "is_sorted vm'" "sorted (map page_num (vmentry vm'))"
proof (cases "is_sorted vm")
  case True
  then show ?thesis using that assms by (simp add: VmmapMakeSorted_def vm_ok_def)
next
  case False
  have d: "disjoint (vmentry vm)" using assms(1) by (simp add: vm_ok_def)
  obtain vm1 where vm1: "VmmapRemoveMarked vm = Some vm1" "mset (vmentry vm1) = mset (vmentry vm)"
  proof -
    have "VmmapRemoveMarked vm \<noteq> None" unfolding remove_marked(1) live_ok [OF d] by simp
    then obtain vm1 where vm1: "VmmapRemoveMarked vm = Some vm1" by blast
    have "mset (vmentry vm1) = mset (vmentry vm)" using remove_marked(2) [OF vm1] unfolding live_ok [OF d] by simp
    with vm1 show ?thesis by (rule that)
  qed
  have "length (vmentry vm1) < 2 ^ 32" using assms(2) mset_eq_length [OF vm1(2)] by (simp add: small_def)
  then obtain es where es: "qsort VmmapCmpEntries (vmentry vm1) = Some es" "mset es = mset (vmentry vm1)"
    "sorted (map page_num es)" using vm.qsort_sorts by blast
  have "disjoint es" using disjoint_perm [of es "vmentry vm"] es(2) vm1(2) d by simp
  then show ?thesis
    using that [of "vm1\<lparr> vmentry := es, is_sorted := True \<rparr>"] False vm1 es by (simp add: VmmapMakeSorted_def vm_ok_def)
qed

section \<open>Updates\<close>

text \<open>What is left of an entry without the pages of a region.\<close>

definition cut :: "u64 \<Rightarrow> u64 \<Rightarrow> vmmap_entry \<Rightarrow> vmmap_entry list" where
  "cut page new_end e =
     (if page_num e < page \<and> new_end < ent_end_page e then
        [e\<lparr> npages := page - page_num e \<rparr>,
         VmmapEntryMake new_end (ent_end_page e - new_end) (prot e) (max_prot e) (vmmap_type e)]
      else if page_num e < page \<and> page < ent_end_page e then [e\<lparr> npages := page - page_num e \<rparr>]
      else if page_num e < new_end \<and> new_end < ent_end_page e then
        [e\<lparr> page_num := new_end, npages := ent_end_page e - new_end \<rparr>]
      else if page \<le> page_num e \<and> ent_end_page e \<le> new_end then []
      else [e])"

lemma end_upd [simp]:
  "ent_end_page (e\<lparr> npages := q - page_num e \<rparr>) = q"
  "ent_end_page (e\<lparr> page_num := a, npages := q - a \<rparr>) = q"
  "ent_end_page (VmmapEntryMake a (q - a) pr mx ty) = q"
  "ent_end_page (e\<lparr> removed := b \<rparr>) = ent_end_page e"
  "ent_end_page (e\<lparr> prot := pr \<rparr>) = ent_end_page e"
  by (simp_all add: ent_end_page_def VmmapEntryMake_def)

lemma make_simps [simp]:
  "page_num (VmmapEntryMake a n pr mx ty) = a" "prot (VmmapEntryMake a n pr mx ty) = pr"
  "max_prot (VmmapEntryMake a n pr mx ty) = mx" "vmmap_type (VmmapEntryMake a n pr mx ty) = ty"
  "\<not> removed (VmmapEntryMake a n pr mx ty)" "attr (VmmapEntryMake a n pr mx ty) = (pr, mx, ty)"
  by (simp_all add: VmmapEntryMake_def attr_def)

lemma attr_upd [simp]: "attr (e\<lparr> npages := n \<rparr>) = attr e" "attr (e\<lparr> page_num := a, npages := n \<rparr>) = attr e"
  by (simp_all add: attr_def)

lemma cut_ok:
  assumes "entry_ok e" and "page < new_end"
  shows "\<forall>f \<in> set (cut page new_end e). entry_ok f" and "sorted_wrt apart (cut page new_end e)"
    and "(\<exists>f \<in> set (cut page new_end e). covers f p \<and> attr f = v) \<longleftrightarrow>
      covers e p \<and> attr e = v \<and> \<not> (page \<le> p \<and> p < new_end)"
    and "f \<in> set (cut page new_end e) \<Longrightarrow> page_num e \<le> page_num f \<and> ent_end_page f \<le> ent_end_page e"
  subgoal using assms by (auto simp: cut_def entry_ok_def)
  subgoal using assms by (auto simp: cut_def apart_def)
  subgoal using assms by (auto simp: cut_def entry_ok_def covers_def attr_def)
  subgoal using assms by (auto simp: cut_def entry_ok_def split: if_splits)
  done

lemma cut_disjoint:
  assumes "disjoint es" and "page < new_end"
  shows "disjoint (concat (map (cut page new_end) es))"
  using assms(1)
proof (induction es)
  case (Cons e es)
  have e: "entry_ok e" "disjoint es" "\<forall>f \<in> set es. apart e f" using Cons.prems by (auto simp: disjoint_def)
  have "apart f g" if f: "f \<in> set (cut page new_end e)" and g: "h \<in> set es" "g \<in> set (cut page new_end h)" for f g h
  proof -
    have "entry_ok h" using e(2) g(1) by (simp add: disjoint_def)
    then show ?thesis
      using cut_ok(4) [OF e(1) assms(2) f] cut_ok(4) [OF _ assms(2) g(2)] e(3) g(1) unfolding apart_def
      by (meson order.trans)
  qed
  then show ?case
    using Cons.IH [OF e(2)] cut_ok(1,2) [OF e(1) assms(2)] by (auto simp: disjoint_def sorted_wrt_append)
qed (simp add: disjoint_def)

lemma cut_pages:
  assumes "disjoint es" and "page < new_end"
  shows "pages (concat (map (cut page new_end) es)) p = (if page \<le> p \<and> p < new_end then None else pages es p)"
proof (rule pages_eqI [OF cut_disjoint [OF assms]])
  fix v
  have "entry_ok e" if "e \<in> set es" for e using assms(1) that by (simp add: disjoint_def)
  then have "(\<exists>f \<in> set (concat (map (cut page new_end) es)). covers f p \<and> attr f = v) \<longleftrightarrow>
      (\<exists>e \<in> set es. covers e p \<and> attr e = v) \<and> \<not> (page \<le> p \<and> p < new_end)"
    using cut_ok(3) [OF _ assms(2), of _ p v] by fastforce
  then show "(\<exists>e \<in> set (concat (map (cut page new_end) es)). covers e p \<and> attr e = v) \<longleftrightarrow>
      (if page \<le> p \<and> p < new_end then None else pages es p) = Some v"
    using pages_Some [OF assms(1), of p v] by auto
qed

text \<open>Behind the region every entry is left as it is.\<close>

lemma cut_behind: "new_end \<le> page_num e \<Longrightarrow> entry_ok e \<Longrightarrow> page < new_end \<Longrightarrow> cut page new_end e = [e]"
  by (auto simp: cut_def entry_ok_def)

lemma cuts_behind:
  "\<forall>e \<in> set es. new_end \<le> page_num e \<and> entry_ok e \<Longrightarrow> page < new_end \<Longrightarrow> concat (map (cut page new_end) es) = es"
  by (induction es) (simp_all add: cut_behind)

definition ordered :: "vmmap_entry list \<Rightarrow> bool" where
  "ordered es \<longleftrightarrow> (\<forall>e \<in> set es. entry_ok e) \<and> sorted_wrt (\<lambda>e f. ent_end_page e \<le> page_num f) es"

lemma sorted_ordered: "disjoint es \<Longrightarrow> sorted (map page_num es) \<Longrightarrow> ordered es"
proof (induction es)
  case (Cons e es)
  have "ent_end_page e \<le> page_num f" if "f \<in> set es" for f
    using Cons.prems that by (fastforce simp: disjoint_def apart_def entry_ok_def)
  then show ?case using Cons by (auto simp: ordered_def disjoint_def)
qed (simp add: ordered_def)

lemma live_set_entry:
  "i < length xs \<Longrightarrow> mset (live (xs[i := e])) = mset (live (take i xs)) + mset (live [e]) + mset (live (drop (Suc i) xs))"
  by (simp add: upd_conv_take_nth_drop)

lemma live_ordered: "ordered es \<Longrightarrow> live es = es"
  by (auto simp: ordered_def entry_ok_def filter_id_conv)

lemma ordered_Cons: "ordered (e # es) \<longleftrightarrow> entry_ok e \<and> ordered es \<and> (\<forall>f \<in> set es. ent_end_page e \<le> page_num f)"
  by (auto simp: ordered_def)

lemma ordered_behind:
  "ordered (e # es) \<Longrightarrow> new_end \<le> ent_end_page e \<Longrightarrow> page < new_end \<Longrightarrow> concat (map (cut page new_end) es) = es"
  by (intro cuts_behind) (auto simp: ordered_def intro: order.trans)

lemma update_entries:
  assumes "page < new_end"
  shows "ordered (drop i (vmentry vm)) \<Longrightarrow>
    \<exists>vm'. update_entries page new_end i vm = Some vm' \<and> nvalid vm \<le> nvalid vm' \<and>
      mset (live (vmentry vm')) = mset (live (take i (vmentry vm))) + mset (concat (map (cut page new_end) (drop i (vmentry vm))))"
proof (induction "nvalid vm - i" arbitrary: i vm)
  case 0
  then show ?case by (subst update_entries.simps) simp
next
  case (Suc n)
  let ?es = "vmentry vm"
  define e where "e = ?es ! i"
  define rest where "rest = drop (Suc i) ?es"
  have i: "i < length ?es" using Suc.hyps(2) by simp
  have d: "drop i ?es = e # rest" using i by (simp add: e_def rest_def Cons_nth_drop_Suc)
  have o: "ordered (e # rest)" using Suc.prems d by simp
  have ok: "entry_ok e" "ordered rest" "live rest = rest" using o live_ordered [of rest] by (auto simp: ordered_Cons)
  have rest_live: "{#x \<in># mset rest. \<not> removed x#} = mset rest" using ok(3) by (metis mset_filter)
  have more: ?case
    if "update_entries page new_end i vm = update_entries page new_end (i + 1) (set_entry i e' vm)"
      "mset (live [e']) = mset (cut page new_end e)" for e'
  proof -
    have "drop (i + 1) (vmentry (set_entry i e' vm)) = rest" by (simp add: set_entry_def rest_def)
    moreover have "mset (live (take (i + 1) (vmentry (set_entry i e' vm)))) = mset (live (take i ?es)) + mset (live [e'])"
      using i by (simp add: set_entry_def take_Suc_conv_app_nth)
    moreover have "nvalid (set_entry i e' vm) = nvalid vm" by (simp add: set_entry_def)
    moreover have "n = nvalid (set_entry i e' vm) - (i + 1)" using Suc.hyps(2) by (simp add: set_entry_def)
    ultimately show ?thesis using Suc.hyps(1) [of "set_entry i e' vm" "i + 1"] ok(2) that d by auto
  qed
  have stop: ?case
    if "update_entries page new_end i vm = Some (set_entry i e' vm')" "new_end \<le> ent_end_page e"
      "vmentry vm' = ?es @ r" "mset (live [e']) + mset (live r) = mset (cut page new_end e)" for e' vm' r
  proof -
    have "mset (live (vmentry (set_entry i e' vm'))) = mset (live (take i ?es)) + mset (live [e']) + mset rest + mset (live r)"
      using live_set_entry [of i "?es @ r" e'] i that(3) rest_live by (simp add: set_entry_def rest_def union_ac)
    then show ?thesis using that(1,3,4) ordered_behind [OF o that(2) assms] d by (simp add: union_ac set_entry_def)
  qed
  have self: "set_entry i e vm = vm" by (simp add: set_entry_def e_def)
  have dead: "live [e\<lparr> removed := True \<rparr>] = []" "live [e] = [e]"
    "live [e\<lparr> npages := a \<rparr>] = [e\<lparr> npages := a \<rparr>]" "live [e\<lparr> page_num := b, npages := a \<rparr>] = [e\<lparr> page_num := b, npages := a \<rparr>]"
    for a b using ok(1) by (simp_all add: entry_ok_def)
  note un = update_entries.simps [of page new_end i vm, folded e_def]
  consider "page_num e < page" "new_end < ent_end_page e"
    | "\<not> (page_num e < page \<and> new_end < ent_end_page e)" "page_num e < page" "page < ent_end_page e"
    | "page \<le> page_num e" "page_num e < new_end" "new_end < ent_end_page e"
    | "page \<le> page_num e" "ent_end_page e \<le> new_end"
    | "new_end \<le> page_num e \<or> ent_end_page e \<le> page"
    using assms by (meson not_le order.trans)
  then show ?case
  proof cases
    case 1
    then show ?thesis
      using i ok(1) by (intro stop) (auto simp: un Let_def cut_def dead VmmapAdd_def entry_ok_def)
  next
    case 2
    then show ?thesis using i ok(1) by (intro more) (auto simp: un Let_def cut_def dead self entry_ok_def)
  next
    case 3
    then show ?thesis using i ok(1) by (intro stop [of _ vm "[]"]) (auto simp: un Let_def cut_def dead self entry_ok_def)
  next
    case 4
    then show ?thesis using i ok(1) by (intro more [of "e\<lparr> removed := True \<rparr>"]) (auto simp: un Let_def cut_def dead self entry_ok_def)
  next
    case 5
    then show ?thesis
      using i ok(1) assms by (intro more [of e]) (auto simp: un Let_def cut_def dead self entry_ok_def)
  qed
qed

text \<open>\<open>VmmapUpdate\<close> takes the pages of the region away and, unless it only removes, gives them the new
  attributes. It ends the process when nothing is left.\<close>

definition region :: "u64 \<Rightarrow> u64 \<Rightarrow> u64 \<Rightarrow> bool" where
  "region page n p \<longleftrightarrow> page \<le> p \<and> p < page + n"

lemma update_result:
  assumes "vm_ok vm" and "small vm" and "page < page + n"
  obtains vm' es where "VmmapUpdate page n pr mx ty remove vm = VmmapRemoveMarked vm'"
    "mset (live (vmentry vm')) = mset es" "disjoint es" "vmentry vm' \<noteq> [] \<and> es = [] \<longrightarrow> remove \<and> vmentry vm \<noteq> []"
    "\<And>p. pages es p = (if region page n p then if remove then None else Some (pr, mx, ty) else pages (vmentry vm) p)"
proof -
  obtain vm1 where vm1: "VmmapMakeSorted vm = Some vm1" "mset (vmentry vm1) = mset (vmentry vm)" "vm_ok vm1"
    "sorted (map page_num (vmentry vm1))" using make_sorted [OF assms(1,2)] by blast
  have d1: "disjoint (vmentry vm1)" using vm1(3) by (simp add: vm_ok_def)
  obtain vm2 where vm2: "update_entries page (page + n) 0 vm1 = Some vm2" "nvalid vm1 \<le> nvalid vm2"
    "mset (live (vmentry vm2)) = mset (concat (map (cut page (page + n)) (vmentry vm1)))"
    using update_entries [OF assms(3), of 0 vm1] sorted_ordered [OF d1 vm1(4)] by auto
  let ?c = "concat (map (cut page (page + n)) (vmentry vm1))"
  let ?new = "if remove then [] else [VmmapEntryMake page n pr mx ty]"
  let ?vm = "if \<not> remove then VmmapAdd page n pr mx ty vm2 else vm2"
  have n: "n > 0" using assms(3) by (cases "n = 0") (auto simp: word_gt_0)
  have eq: "VmmapUpdate page n pr mx ty remove vm = VmmapRemoveMarked ?vm"
    using vm1(1) vm2(1) n by (simp add: VmmapUpdate_def)
  have pg: "pages (vmentry vm1) = pages (vmentry vm)" by (rule pages_perm [OF vm1(2) d1])
  have dc: "disjoint ?c" by (rule cut_disjoint [OF d1 assms(3)])
  have new: "entry_ok (VmmapEntryMake page n pr mx ty)" "ent_end_page (VmmapEntryMake page n pr mx ty) = page + n"
    using assms(3) by (simp_all add: entry_ok_def ent_end_page_def VmmapEntryMake_def)
  have "apart f (VmmapEntryMake page n pr mx ty)" if f: "f \<in> set ?c" for f
  proof -
    obtain e where e: "e \<in> set (vmentry vm1)" "f \<in> set (cut page (page + n) e)" using f by auto
    then have "entry_ok e" using d1 by (simp add: disjoint_def)
    then show ?thesis using e(2) assms(3) new(2) by (auto simp: cut_def apart_def entry_ok_def split: if_splits)
  qed
  then have d: "disjoint (?c @ ?new)" using dc new(1) by (auto simp: disjoint_def sorted_wrt_append)
  have m: "mset (live (vmentry ?vm)) = mset (?c @ ?new)" using vm2(3) by (simp add: VmmapAdd_def)
  have "vmentry vm1 = [] \<Longrightarrow> vm2 = vm1" using vm2(1) by (subst (asm) update_entries.simps) simp
  then have nz: "vmentry ?vm \<noteq> [] \<and> ?c @ ?new = [] \<longrightarrow> remove \<and> vmentry vm \<noteq> []"
    using vm1(2) by (auto simp: VmmapAdd_def)
  have pc: "pages ?c p = (if region page n p then None else pages (vmentry vm) p)" for p
    using cut_pages [OF d1 assms(3), of p] pg by (simp add: region_def)
  have "pages (?c @ ?new) p = (if region page n p then if remove then None else Some (pr, mx, ty) else pages (vmentry vm) p)" for p
  proof (cases remove)
    case True
    then show ?thesis using pc by simp
  next
    case False
    have "covers (VmmapEntryMake page n pr mx ty) p \<longleftrightarrow> region page n p"
      using new(2) by (simp add: covers_def region_def)
    then have "(\<exists>e \<in> set (?c @ ?new). covers e p \<and> attr e = v) \<longleftrightarrow> pages ?c p = Some v \<or> region page n p \<and> v = (pr, mx, ty)" for v
      unfolding pages_Some [OF dc] using False by auto
    then show ?thesis using False unfolding pc by (intro pages_eqI [OF d]) auto
  qed
  then show ?thesis using that [OF eq m d nz] by blast
qed

lemma pages_empty: "disjoint es \<Longrightarrow> es = [] \<longleftrightarrow> (\<forall>p. pages es p = None)"
proof
  assume d: "disjoint es" and n: "\<forall>p. pages es p = None"
  show "es = []"
  proof (rule ccontr)
    assume "es \<noteq> []"
    then have "hd es \<in> set es" by simp
    then have "covers (hd es) (page_num (hd es))" using d by (simp add: disjoint_def entry_ok_def covers_def)
    then show False using pages_Some [OF d, of "page_num (hd es)" "attr (hd es)"] n \<open>hd es \<in> set es\<close> by auto
  qed
qed (simp add: pages_def)

lemma update_refines:
  assumes "vm_ok vm" and "small vm" and "page < page + n"
  shows "case VmmapUpdate page n pr mx ty remove vm of
      None \<Rightarrow> remove \<and> vmentry vm \<noteq> [] \<and> (\<forall>p. \<not> region page n p \<longrightarrow> pages (vmentry vm) p = None)
    | Some vm' \<Rightarrow> vm_ok vm' \<and> pages (vmentry vm') =
        (\<lambda>p. if region page n p then if remove then None else Some (pr, mx, ty) else pages (vmentry vm) p)"
proof -
  obtain vm1 es where u: "VmmapUpdate page n pr mx ty remove vm = VmmapRemoveMarked vm1"
    "mset (live (vmentry vm1)) = mset es" "disjoint es" "vmentry vm1 \<noteq> [] \<and> es = [] \<longrightarrow> remove \<and> vmentry vm \<noteq> []"
    "\<And>p. pages es p = (if region page n p then if remove then None else Some (pr, mx, ty) else pages (vmentry vm) p)"
    using update_result [OF assms] by blast
  show ?thesis
  proof (cases "VmmapRemoveMarked vm1")
    case None
    then have e: "vmentry vm1 \<noteq> []" "es = []" using remove_marked(1) [of vm1] u(2) by auto
    moreover have "pages (vmentry vm) p = None" if "\<not> region page n p" for p
      using u(5) [of p] e(2) that by (simp add: pages_def)
    ultimately show ?thesis using None u(1,4) by simp
  next
    case (Some vm')
    note r = remove_marked(2) [OF Some]
    then have m: "mset (vmentry vm') = mset es" using u(2) by simp
    have "is_sorted vm' \<Longrightarrow> vmentry vm' = []" using r by auto
    then have "vm_ok vm'" using disjoint_perm [OF m] u(3) by (auto simp: vm_ok_def)
    moreover have "pages (vmentry vm') = pages es" using pages_perm [OF m [symmetric] u(3)] by simp
    ultimately show ?thesis using Some u(1,5) by (auto simp: fun_eq_iff)
  qed
qed

section \<open>Protections\<close>

lemma check_entries:
  "ordered es \<Longrightarrow> page < region_end \<Longrightarrow>
   check_entries es page region_end pr \<longleftrightarrow>
     (\<forall>p. page \<le> p \<and> p < region_end \<longrightarrow> (\<exists>e \<in> set es. covers e p \<and> pr AND NOT (max_prot e) = 0))"
proof (induction es arbitrary: page)
  case (Cons e es)
  have o: "entry_ok e" "ordered es" and behind: "\<And>f. f \<in> set es \<Longrightarrow> ent_end_page e \<le> page_num f"
    using Cons.prems(1) by (auto simp: ordered_Cons)
  have out: "\<not> covers f p" if "f \<in> set es" "p < ent_end_page e" for f p
    using behind [OF that(1)] that(2) by (auto simp: covers_def)
  let ?R = "\<lambda>p. \<exists>f \<in> set (e # es). covers f p \<and> pr AND NOT (max_prot f) = 0"
  consider "page_num e \<le> page" "region_end \<le> ent_end_page e"
    | "page_num e \<le> page" "page < ent_end_page e" "ent_end_page e < region_end"
    | "page < page_num e" | "ent_end_page e \<le> page"
    using Cons.prems(2) by (meson not_le)
  then show ?case
  proof cases
    case 1
    have "covers e p \<and> (\<forall>f \<in> set es. \<not> covers f p)" if "page \<le> p" "p < region_end" for p
      using 1 that out by (auto simp: covers_def)
    then show ?thesis using 1 Cons.prems(2) by fastforce
  next
    case 2
    have here: "covers e p \<and> (\<forall>f \<in> set es. \<not> covers f p)" if "page \<le> p" "p < ent_end_page e" for p
      using 2 that out by (auto simp: covers_def)
    have there: "\<not> covers e p" if "ent_end_page e \<le> p" for p using that by (auto simp: covers_def)
    have "check_entries (e # es) page region_end pr \<longleftrightarrow>
        pr AND NOT (max_prot e) = 0 \<and> check_entries es (ent_end_page e) region_end pr"
      using 2 by auto
    also have "\<dots> \<longleftrightarrow> (\<forall>p. page \<le> p \<and> p < region_end \<longrightarrow> ?R p)"
    proof
      assume l: "pr AND NOT (max_prot e) = 0 \<and> check_entries es (ent_end_page e) region_end pr"
      show "\<forall>p. page \<le> p \<and> p < region_end \<longrightarrow> ?R p"
      proof (intro allI impI)
        fix p assume p: "page \<le> p \<and> p < region_end"
        show "?R p" using here [of p] l p Cons.IH [OF o(2) 2(3)] by (cases "p < ent_end_page e") auto
      qed
    next
      assume r: "\<forall>p. page \<le> p \<and> p < region_end \<longrightarrow> ?R p"
      have "page < region_end" using 2(2,3) by (rule less_trans)
      then have "?R page" using r by simp
      then have "pr AND NOT (max_prot e) = 0" using here [of page] 2 by auto
      moreover have "\<exists>f \<in> set es. covers f p \<and> pr AND NOT (max_prot f) = 0" if "ent_end_page e \<le> p" "p < region_end" for p
      proof -
        have "page \<le> p" using 2(2) that(1) by simp
        then show ?thesis using r there [OF that(1)] that(2) by auto
      qed
      ultimately show "pr AND NOT (max_prot e) = 0 \<and> check_entries es (ent_end_page e) region_end pr"
        using Cons.IH [OF o(2) 2(3)] by simp
    qed
    finally show ?thesis .
  next
    case 3
    then have "\<not> covers e page" "\<forall>f \<in> set es. \<not> covers f page"
      using out [of _ page] o(1) by (auto simp: covers_def entry_ok_def)
    then show ?thesis using 3 Cons.prems(2) by auto
  next
    case 4
    then have "\<not> covers e p" if "page \<le> p" for p using that by (auto simp: covers_def)
    then show ?thesis using Cons.IH [OF o(2) Cons.prems(2)] 4 o(1) Cons.prems(2) by (auto simp: entry_ok_def)
  qed
next
  case Nil
  then show ?case by auto
qed

text \<open>An entry after the protection of the pages of a region has changed.\<close>

definition chg :: "u64 \<Rightarrow> u64 \<Rightarrow> u32 \<Rightarrow> vmmap_entry \<Rightarrow> vmmap_entry list" where
  "chg page new_end pr e =
     (if page_num e < page \<and> new_end < ent_end_page e then
        [e\<lparr> npages := page - page_num e \<rparr>,
         VmmapEntryMake new_end (ent_end_page e - new_end) (prot e) (max_prot e) (vmmap_type e),
         VmmapEntryMake page (new_end - page) pr (max_prot e) (vmmap_type e)]
      else if page_num e < page \<and> page < ent_end_page e then
        [e\<lparr> npages := page - page_num e \<rparr>, VmmapEntryMake page (ent_end_page e - page) pr (max_prot e) (vmmap_type e)]
      else if page_num e < new_end \<and> new_end < ent_end_page e then
        [e\<lparr> page_num := new_end, npages := ent_end_page e - new_end \<rparr>,
         VmmapEntryMake (page_num e) (new_end - page_num e) pr (max_prot e) (vmmap_type e)]
      else if page \<le> page_num e \<and> ent_end_page e \<le> new_end then [e\<lparr> prot := pr \<rparr>]
      else [e])"

definition set_prot :: "u32 \<Rightarrow> page_attr \<Rightarrow> page_attr" where
  "set_prot pr v = (pr, snd v)"

lemma chg_ok:
  assumes "entry_ok e" and "page \<le> new_end"
  shows "\<forall>f \<in> set (chg page new_end pr e). page_num e \<le> page_num f \<and> ent_end_page f \<le> ent_end_page e"
    and "page < new_end \<Longrightarrow> \<forall>f \<in> set (chg page new_end pr e). entry_ok f"
    and "sorted_wrt apart (chg page new_end pr e)"
    and "(\<exists>f \<in> set (chg page new_end pr e). covers f p \<and> attr f = v) \<longleftrightarrow>
      covers e p \<and> (if page \<le> p \<and> p < new_end then set_prot pr (attr e) else attr e) = v"
  subgoal using assms by (auto simp: chg_def entry_ok_def)
  subgoal using assms by (auto simp: chg_def entry_ok_def)
  subgoal using assms by (auto simp: chg_def entry_ok_def apart_def)
  subgoal using assms by (auto simp: chg_def entry_ok_def covers_def attr_def set_prot_def)
  done

lemma chg_outside: "new_end \<le> page_num e \<or> ent_end_page e \<le> page \<Longrightarrow> entry_ok e \<Longrightarrow> page \<le> new_end \<Longrightarrow> chg page new_end pr e = [e]"
  by (auto simp: chg_def entry_ok_def)

lemma chg_later: "page \<le> page' \<Longrightarrow> page' \<le> page_num e \<Longrightarrow> entry_ok e \<Longrightarrow> chg page new_end pr e = chg page' new_end pr e"
  by (auto simp: chg_def entry_ok_def)

lemma chgs_outside:
  "ordered es \<Longrightarrow> \<forall>e \<in> set es. new_end \<le> page_num e \<Longrightarrow> page \<le> new_end \<Longrightarrow> concat (map (chg page new_end pr) es) = es"
  by (induction es) (simp_all add: chg_outside ordered_Cons)

lemma chgs_later:
  "ordered es \<Longrightarrow> page \<le> page' \<Longrightarrow> \<forall>e \<in> set es. page' \<le> page_num e \<Longrightarrow>
     concat (map (chg page new_end pr) es) = concat (map (chg page' new_end pr) es)"
  by (induction es) (simp_all add: chg_later [of page page'] ordered_Cons)

lemma chgs_disjoint:
  assumes "disjoint es" and "page < new_end"
  shows "disjoint (concat (map (chg page new_end pr) es))"
  using assms(1)
proof (induction es)
  case (Cons e es)
  have e: "entry_ok e" "disjoint es" "\<forall>f \<in> set es. apart e f" using Cons.prems by (auto simp: disjoint_def)
  have le: "page \<le> new_end" using assms(2) by simp
  have "apart f g" if f: "f \<in> set (chg page new_end pr e)" and g: "h \<in> set es" "g \<in> set (chg page new_end pr h)" for f g h
  proof -
    have "entry_ok h" using e(2) g(1) by (simp add: disjoint_def)
    then show ?thesis
      using chg_ok(1) [OF e(1) le] chg_ok(1) [OF _ le] f g e(3) unfolding apart_def by (meson order.trans)
  qed
  then show ?case
    using Cons.IH [OF e(2)] chg_ok(2) [OF e(1) le assms(2)] chg_ok(3) [OF e(1) le] by (auto simp: disjoint_def sorted_wrt_append)
qed (simp add: disjoint_def)

lemma chgs_pages:
  assumes "disjoint es" and "page < new_end"
  shows "pages (concat (map (chg page new_end pr) es)) p =
    (if page \<le> p \<and> p < new_end then map_option (set_prot pr) (pages es p) else pages es p)"
proof (rule pages_eqI [OF chgs_disjoint [OF assms]])
  fix v
  have ok: "entry_ok e" if "e \<in> set es" for e using assms(1) that by (simp add: disjoint_def)
  have "(\<exists>f \<in> set (concat (map (chg page new_end pr) es)). covers f p \<and> attr f = v) \<longleftrightarrow>
      (\<exists>e \<in> set es. \<exists>f \<in> set (chg page new_end pr e). covers f p \<and> attr f = v)" by auto
  also have "\<dots> \<longleftrightarrow> (\<exists>e \<in> set es. covers e p \<and> (if page \<le> p \<and> p < new_end then set_prot pr (attr e) else attr e) = v)"
    using chg_ok(4) [OF ok less_imp_le [OF assms(2)], of _ pr p v] by (intro bex_cong refl) simp
  also have "\<dots> \<longleftrightarrow> (\<exists>w. pages es p = Some w \<and> (if page \<le> p \<and> p < new_end then set_prot pr w else w) = v)"
    unfolding pages_Some [OF assms(1)] by blast
  finally show "(\<exists>e \<in> set (concat (map (chg page new_end pr) es)). covers e p \<and> attr e = v) \<longleftrightarrow>
      (if page \<le> p \<and> p < new_end then map_option (set_prot pr) (pages es p) else pages es p) = Some v" by (auto simp del: split_paired_Ex split_paired_All)
qed

text \<open>The entries from \<open>i\<close> on have every page of what is left of the region.\<close>

definition backed :: "vmmap_entry list \<Rightarrow> u64 \<Rightarrow> u64 \<Rightarrow> bool" where
  "backed es page new_end \<longleftrightarrow> (\<forall>p. page \<le> p \<and> p < new_end \<longrightarrow> (\<exists>e \<in> set es. covers e p))"

lemma backed_first:
  assumes "ordered (e # es)" and "backed (e # es) page new_end" and "page < new_end"
  shows "page_num e \<le> page \<and> (page < ent_end_page e \<longrightarrow> backed es (ent_end_page e) new_end) \<and>
    (ent_end_page e \<le> page \<longrightarrow> backed es page new_end)"
proof -
  have b: "\<exists>f \<in> set (e # es). covers f p" if "page \<le> p" "p < new_end" for p using assms(2) that by (simp add: backed_def)
  have "page_num e \<le> page"
  proof (rule ccontr)
    assume n: "\<not> page_num e \<le> page"
    have "\<not> covers f page" if "f \<in> set (e # es)" for f
      using assms(1) n that by (fastforce simp: ordered_Cons covers_def entry_ok_def)
    then show False using b [of page] assms(3) by auto
  qed
  moreover have "\<exists>f \<in> set es. covers f p" if "page \<le> p" "ent_end_page e \<le> p" "p < new_end" for p
    using b [OF that(1,3)] that(2) by (auto simp: covers_def)
  ultimately show ?thesis by (auto simp: backed_def)
qed

definition pending :: "vmmap_entry list \<Rightarrow> u64 \<Rightarrow> u64 \<Rightarrow> bool" where
  "pending es page new_end \<longleftrightarrow>
     page < new_end \<and> backed es page new_end \<or> page = new_end \<and> (\<forall>e \<in> set es. new_end \<le> page_num e)"

lemma change_entries:
  "nv \<le> nvalid vm \<Longrightarrow> ordered (drop i (take nv (vmentry vm))) \<Longrightarrow>
   pending (drop i (take nv (vmentry vm))) page new_end \<Longrightarrow>
   \<exists>vm'. change_entries new_end pr nv i page (new_end - page) vm = Some vm' \<and>
     (is_sorted vm' \<longrightarrow> is_sorted vm \<and> map page_num (vmentry vm') = map page_num (vmentry vm)) \<and>
     mset (vmentry vm') = mset (take i (take nv (vmentry vm))) +
       mset (concat (map (chg page new_end pr) (drop i (take nv (vmentry vm))))) + mset (drop nv (vmentry vm))"
proof (induction "nv - i" arbitrary: i page vm)
  case 0
  then show ?case by (subst change_entries.simps) (simp flip: mset_append)
next
  case (Suc n)
  let ?es = "vmentry vm"
  define e where "e = ?es ! i"
  define rest where "rest = drop (Suc i) (take nv ?es)"
  have i: "i < nv" "i < length ?es" using Suc.hyps(2) Suc.prems(1) by simp_all
  have d: "drop i (take nv ?es) = e # rest"
    using i Suc.prems(1) by (simp add: e_def rest_def Cons_nth_drop_Suc [symmetric])
  have all: "?es = take i (take nv ?es) @ e # rest @ drop nv ?es"
    using d by (metis append_Cons append_take_drop_id append.assoc)
  have o: "ordered (e # rest)" using Suc.prems(2) d by simp
  have ok: "entry_ok e" "ordered rest" "\<forall>f \<in> set rest. ent_end_page e \<le> page_num f" using o by (auto simp: ordered_Cons)
  note un = change_entries.simps [of new_end pr nv i page "new_end - page" vm, folded e_def]
  show ?case
  proof (cases "page < new_end")
    case False
    then have p: "page = new_end" "\<forall>f \<in> set (e # rest). new_end \<le> page_num f" using Suc.prems(3) d by (auto simp: pending_def)
    then have "concat (map (chg page new_end pr) (e # rest)) = e # rest" using o by (intro chgs_outside) auto
    moreover have "change_entries new_end pr nv i page (new_end - page) vm = Some vm" unfolding un using p(1) by simp
    moreover have "mset ?es = mset (take i (take nv ?es)) + mset (e # rest) + mset (drop nv ?es)" by (subst all) simp
    ultimately show ?thesis unfolding d by (simp del: take_take)
  next
    case True
    have n: "0 < new_end - page" using True by (auto simp: word_gt_0)
    have bf: "page_num e \<le> page" "page < ent_end_page e \<longrightarrow> backed rest (ent_end_page e) new_end"
      "ent_end_page e \<le> page \<longrightarrow> backed rest page new_end"
      using backed_first [OF o _ True] Suc.prems(3) d True by (auto simp: pending_def)
    have upd: "take nv (?es[i := e']) = take i (take nv ?es) @ e' # rest" "drop nv (?es[i := e']) = drop nv ?es" for e'
    proof -
      have "nv - i = Suc (nv - Suc i)" using i(1) by simp
      then show "take nv (?es[i := e']) = take i (take nv ?es) @ e' # rest" "drop nv (?es[i := e']) = drop nv ?es"
        using i Suc.prems(1) by (simp_all add: rest_def upd_conv_take_nth_drop drop_take min_def)
    qed
    have more: ?thesis
      if eq: "change_entries new_end pr nv i page (new_end - page) vm = change_entries new_end pr nv (i + 1) page' (new_end - page') vm2"
      and vm2: "vmentry vm2 = ?es[i := e'] @ r" "is_sorted vm2 \<longrightarrow> is_sorted vm \<and> r = [] \<and> page_num e' = page_num e"
      and chg: "add_mset e' (mset r) = mset (chg page new_end pr e)"
      and p: "pending rest page' new_end" "page' = page \<or> page \<le> page' \<and> (\<forall>f \<in> set rest. page' \<le> page_num f)"
      for e' r page' vm2
    proof -
      have n1: "n = nv - (i + 1)" using Suc.hyps(2) by linarith
      have nv: "nv \<le> nvalid vm2" using Suc.prems(1) vm2(1) by simp
      have t: "take nv (vmentry vm2) = take i (take nv ?es) @ e' # rest" "drop nv (vmentry vm2) = drop nv ?es @ r"
        using upd Suc.prems(1) vm2(1) by simp_all
      have l: "length (take i (take nv ?es)) = i" using i Suc.prems(1) by simp
      have t2: "drop (i + 1) (take nv (vmentry vm2)) = rest" "take (i + 1) (take nv (vmentry vm2)) = take i (take nv ?es) @ [e']"
        unfolding t(1) using l by (simp_all del: take_take)
      have same: "concat (map (chg page' new_end pr) rest) = concat (map (chg page new_end pr) rest)"
        using p(2) chgs_later [OF ok(2), of page page' new_end pr] by auto
      obtain vm' where vm': "change_entries new_end pr nv (i + 1) page' (new_end - page') vm2 = Some vm'"
        "is_sorted vm' \<longrightarrow> is_sorted vm2 \<and> map page_num (vmentry vm') = map page_num (vmentry vm2)"
        "mset (vmentry vm') = mset (take i (take nv ?es) @ [e']) + mset (concat (map (chg page new_end pr) rest)) + mset (drop nv ?es @ r)"
        using Suc.hyps(1) [OF n1 nv, of page', unfolded t2 t(2) same, OF ok(2) p(1)] by auto
      have "is_sorted vm2 \<Longrightarrow> map page_num (vmentry vm2) = map page_num ?es"
        using vm2 i by (simp add: map_update e_def list_update_same_conv)
      then show ?thesis using eq vm' vm2(2) chg unfolding d by (simp add: union_ac)
    qed
    have stop: ?thesis
      if eq: "change_entries new_end pr nv i page (new_end - page) vm = Some vm2"
      and vm2: "mset (vmentry vm2) = mset (?es[i := e']) + mset r" "\<not> is_sorted vm2"
      and chg: "add_mset e' (mset r) = mset (chg page new_end pr e)" and e: "new_end \<le> ent_end_page e"
      for e' r vm2
    proof -
      have "concat (map (chg page new_end pr) rest) = rest"
        using ok(2,3) e True by (intro chgs_outside) (auto intro: order.trans)
      moreover have "mset (?es[i := e']) = mset (take i (take nv ?es)) + add_mset e' (mset rest) + mset (drop nv ?es)"
        using append_take_drop_id [of nv "?es[i := e']"] unfolding upd by (metis mset.simps(2) mset_append)
      ultimately show ?thesis using eq vm2 chg unfolding d by (simp add: union_ac)
    qed
    consider "page_num e < page" "new_end < ent_end_page e"
      | "page_num e < page" "page < ent_end_page e" "ent_end_page e \<le> new_end"
      | "page_num e = page" "new_end < ent_end_page e" | "page_num e = page" "ent_end_page e \<le> new_end"
      | "ent_end_page e \<le> page"
      using bf(1) by fastforce
    then show ?thesis
    proof cases
      case 1
      let ?e = "e\<lparr> npages := page - page_num e \<rparr>"
      let ?r1 = "VmmapEntryMake new_end (ent_end_page e - new_end) (prot e) (max_prot e) (vmmap_type e)"
      let ?r2 = "VmmapEntryMake page (new_end - page) pr (max_prot e) (vmmap_type e)"
      show ?thesis
      proof (rule stop [of _ ?e "[?r1, ?r2]"])
        show "change_entries new_end pr nv i page (new_end - page) vm =
          Some (VmmapAdd page (new_end - page) pr (max_prot e) (vmmap_type e) (set_entry i ?e
            (VmmapAdd new_end (ent_end_page e - new_end) (prot e) (max_prot e) (vmmap_type e) vm)))"
          unfolding un using i n 1 by (simp add: Let_def)
      qed (use i 1 in \<open>simp_all add: VmmapAdd_def set_entry_def list_update_append chg_def union_ac\<close>)
    next
      case 2
      let ?e = "e\<lparr> npages := page - page_num e \<rparr>"
      have "\<not> new_end < ent_end_page e" using 2(3) by simp
      moreover have "pending rest (ent_end_page e) new_end"
        using bf(2) 2(2,3) ok(3) by (auto simp: pending_def)
      ultimately show ?thesis
        using i n 2 ok(3) less_imp_le [OF 2(2)]
        by (intro more [of "ent_end_page e" "VmmapAdd page (ent_end_page e - page) pr (max_prot e) (vmmap_type e) (set_entry i ?e vm)"
              ?e "[VmmapEntryMake page (ent_end_page e - page) pr (max_prot e) (vmmap_type e)]"])
          (simp_all add: un Let_def VmmapAdd_def set_entry_def chg_def)
    next
      case 3
      let ?e = "e\<lparr> page_num := new_end, npages := ent_end_page e - new_end \<rparr>"
      show ?thesis
      proof (rule stop [of _ ?e "[VmmapEntryMake page (new_end - page) pr (max_prot e) (vmmap_type e)]"])
        show "change_entries new_end pr nv i page (new_end - page) vm =
          Some (set_entry i ?e (VmmapAdd page (new_end - page) pr (max_prot e) (vmmap_type e) vm))"
          unfolding un using i n 3 True by (simp add: Let_def)
      qed (use i 3 True in \<open>simp_all add: VmmapAdd_def set_entry_def list_update_append chg_def union_ac\<close>)
    next
      case 4
      let ?e = "e\<lparr> prot := pr \<rparr>"
      have nl: "\<not> new_end < ent_end_page e" "\<not> page_num e < page" "page < ent_end_page e"
        using 4 ok(1) by (auto simp: entry_ok_def)
      then have "pending rest (ent_end_page e) new_end" using bf(2) 4(2) ok(3) by (auto simp: pending_def)
      then show ?thesis
        using i n 4 ok(3) nl less_imp_le [OF nl(3)]
        by (intro more [of "ent_end_page e" "set_entry i ?e vm" ?e "[]"])
          (simp_all add: un Let_def set_entry_def chg_def)
    next
      case 5
      have nl: "\<not> new_end < ent_end_page e" "\<not> page < ent_end_page e" "page_num e < page" "\<not> page \<le> page_num e"
        using 5 True ok(1) by (auto simp: entry_ok_def)
      then have "pending rest page new_end" using bf(3) 5 True by (auto simp: pending_def)
      then show ?thesis
        using i n 5 nl ok(1)
        by (intro more [of page vm e "[]"]) (simp_all add: un Let_def chg_def, simp_all add: e_def)
    qed
  qed
qed

text \<open>\<open>VmmapCheckExistingMapping\<close> and \<open>VmmapChangeProt\<close> against the pages of the map.\<close>

definition permitted :: "vmmap_entry list \<Rightarrow> u64 \<Rightarrow> u64 \<Rightarrow> u32 \<Rightarrow> bool" where
  "permitted es page n pr \<longleftrightarrow>
     (\<forall>p. region page n p \<longrightarrow> (case pages es p of None \<Rightarrow> False | Some (_, mx, _) \<Rightarrow> pr AND NOT mx = 0))"

lemma permitted_entries:
  assumes "disjoint es"
  shows "permitted es page n pr \<longleftrightarrow> (\<forall>p. region page n p \<longrightarrow> (\<exists>e \<in> set es. covers e p \<and> pr AND NOT (max_prot e) = 0))"
proof -
  have "(case pages es p of None \<Rightarrow> False | Some (_, mx, _) \<Rightarrow> pr AND NOT mx = 0) \<longleftrightarrow>
      (\<exists>e \<in> set es. covers e p \<and> pr AND NOT (max_prot e) = 0)" for p
  proof -
    have "(case pages es p of None \<Rightarrow> False | Some (_, mx, _) \<Rightarrow> pr AND NOT mx = 0) \<longleftrightarrow>
        (\<exists>v. pages es p = Some v \<and> pr AND NOT (fst (snd v)) = 0)"
      by (auto split: option.splits)
    also have "\<dots> \<longleftrightarrow> (\<exists>e \<in> set es. covers e p \<and> pr AND NOT (fst (snd (attr e))) = 0)"
      unfolding pages_Some [OF assms] by blast
    finally show ?thesis by (simp add: attr_def)
  qed
  then show ?thesis by (simp add: permitted_def)
qed

lemma check_existing:
  assumes "vm_ok vm" and "small vm" and "page < page + n"
  obtains vm' where "VmmapCheckExistingMapping page n pr vm = Some (permitted (vmentry vm) page n pr, vm')"
    "mset (vmentry vm') = mset (vmentry vm)" "vm_ok vm'"
proof (cases "nvalid vm = 0")
  case True
  then have "\<not> permitted (vmentry vm) page n pr"
    using assms(3) by (auto simp: permitted_def pages_def region_def)
  then show ?thesis using that [of vm] True assms(1) by (simp add: VmmapCheckExistingMapping_def)
next
  case False
  obtain vm1 where vm1: "VmmapMakeSorted vm = Some vm1" "mset (vmentry vm1) = mset (vmentry vm)" "vm_ok vm1"
    "sorted (map page_num (vmentry vm1))" using make_sorted [OF assms(1,2)] by blast
  have d: "disjoint (vmentry vm1)" "disjoint (vmentry vm)" using vm1(3) assms(1) by (simp_all add: vm_ok_def)
  have "check_entries (vmentry vm1) page (page + n) pr \<longleftrightarrow> permitted (vmentry vm1) page n pr"
    using check_entries [OF sorted_ordered [OF d(1) vm1(4)] assms(3)] unfolding permitted_entries [OF d(1)] region_def by simp
  also have "\<dots> \<longleftrightarrow> permitted (vmentry vm) page n pr" by (simp add: permitted_def pages_perm [OF vm1(2) d(1)])
  finally show ?thesis using that vm1 False by (simp add: VmmapCheckExistingMapping_def)
qed

lemma change_prot_refines:
  assumes "vm_ok vm" and "small vm" and "page < page + n"
  shows "\<exists>vm'. VmmapChangeProt page n pr vm = Some (permitted (vmentry vm) page n pr, vm') \<and> vm_ok vm' \<and>
    pages (vmentry vm') = (\<lambda>p. if permitted (vmentry vm) page n pr \<and> region page n p
                               then map_option (set_prot pr) (pages (vmentry vm) p) else pages (vmentry vm) p)"
proof -
  obtain vm1 where vm1: "VmmapCheckExistingMapping page n pr vm = Some (permitted (vmentry vm) page n pr, vm1)"
    "mset (vmentry vm1) = mset (vmentry vm)" "vm_ok vm1" using check_existing [OF assms] by blast
  have d: "disjoint (vmentry vm)" "disjoint (vmentry vm1)" using assms(1) vm1(3) by (simp_all add: vm_ok_def)
  have pg1: "pages (vmentry vm1) = pages (vmentry vm)" by (rule pages_perm [OF vm1(2) d(2)])
  show ?thesis
  proof (cases "permitted (vmentry vm) page n pr")
    case False
    then show ?thesis using vm1 pg1 by (simp add: VmmapChangeProt_def)
  next
    case True
    have "small vm1" using assms(2) mset_eq_length [OF vm1(2)] by (simp add: small_def)
    then obtain vm2 where vm2: "VmmapMakeSorted vm1 = Some vm2" "mset (vmentry vm2) = mset (vmentry vm1)" "vm_ok vm2"
      "sorted (map page_num (vmentry vm2))" using make_sorted [OF vm1(3)] by blast
    have d2: "disjoint (vmentry vm2)" using vm2(3) by (simp add: vm_ok_def)
    have pg2: "pages (vmentry vm2) = pages (vmentry vm)" using pages_perm [OF vm2(2) d2] pg1 by simp
    have "permitted (vmentry vm2) page n pr" using True by (simp add: permitted_def pg2)
    then have "pending (vmentry vm2) page (page + n)"
      using assms(3) unfolding permitted_entries [OF d2] by (auto simp: pending_def backed_def region_def)
    then obtain vm3 where vm3: "change_entries (page + n) pr (nvalid vm2) 0 page n vm2 = Some vm3"
      "is_sorted vm3 \<longrightarrow> is_sorted vm2 \<and> map page_num (vmentry vm3) = map page_num (vmentry vm2)"
      "mset (vmentry vm3) = mset (concat (map (chg page (page + n) pr) (vmentry vm2)))"
      using change_entries [of "nvalid vm2" vm2 0 page "page + n" pr] sorted_ordered [OF d2 vm2(4)] by auto
    have dc: "disjoint (concat (map (chg page (page + n) pr) (vmentry vm2)))" by (rule chgs_disjoint [OF d2 assms(3)])
    then have d3: "disjoint (vmentry vm3)" using disjoint_perm [OF vm3(3)] by simp
    have "vm_ok vm3" using d3 vm3(2) vm2(4) by (simp add: vm_ok_def)
    moreover have "pages (vmentry vm3) p = (if region page n p then map_option (set_prot pr) (pages (vmentry vm) p) else pages (vmentry vm) p)" for p
      using chgs_pages [OF d2 assms(3), of pr p] pages_perm [OF vm3(3) d3] pg2 by (simp add: region_def)
    ultimately show ?thesis
      using True vm1(1) vm2(1) vm3(1) by (simp add: VmmapChangeProt_def fun_eq_iff)
  qed
qed

section \<open>Queries\<close>

lemma find_page:
  assumes "vm_ok vm" and "small vm"
  obtains vm' where "VmmapMakeSorted vm = Some vm'" "vm_ok vm'" "mset (vmentry vm') = mset (vmentry vm)"
    "VmmapFindPage p vm = Some (List.find (\<lambda>e. \<not> removed e \<and> covers e p) (vmentry vm), vm')"
proof -
  obtain vm1 where vm1: "VmmapMakeSorted vm = Some vm1" "mset (vmentry vm1) = mset (vmentry vm)" "vm_ok vm1"
    "sorted (map page_num (vmentry vm1))" using make_sorted [OF assms] by blast
  let ?es = "vmentry vm1"
  have d: "disjoint ?es" "disjoint (vmentry vm)" using vm1(3) assms(1) by (simp_all add: vm_ok_def)
  have o: "ordered ?es" by (rule sorted_ordered [OF d(1) vm1(4)])
  have zero: "VmmapContainCmpEntries p e = 0 \<longleftrightarrow> covers e p" for e
    by (auto simp: VmmapContainCmpEntries_def covers_def ent_end_page_def)
  have neg: "VmmapContainCmpEntries p e < 0 \<longleftrightarrow> p < page_num e" for e
    by (auto simp: VmmapContainCmpEntries_def)
  have pos: "VmmapContainCmpEntries p e > 0 \<longleftrightarrow> ent_end_page e \<le> p" if "e \<in> set ?es" for e
    using d(1) that by (auto simp: VmmapContainCmpEntries_def disjoint_def entry_ok_def ent_end_page_def)
  have le: "page_num (?es ! i) < ent_end_page (?es ! i) \<and> ent_end_page (?es ! i) \<le> page_num (?es ! j) \<and> page_num (?es ! j) < ent_end_page (?es ! j)"
    if "i < j" "j < length ?es" for i j
    using o that by (auto simp: ordered_def sorted_wrt_iff_nth_less entry_ok_def)
  have a1: "VmmapContainCmpEntries p (?es ! j) < 0" if "i < j" "j < length ?es" "VmmapContainCmpEntries p (?es ! i) < 0" for i j
    using le [OF that(1,2)] that(3) unfolding neg by (meson less_trans less_le_trans)
  have a2: "VmmapContainCmpEntries p (?es ! i) > 0" if "i < j" "j < length ?es" "VmmapContainCmpEntries p (?es ! j) > 0" for i j
    using le [OF that(1,2)] that pos [of "?es ! i"] pos [of "?es ! j"] by fastforce
  have b: "case bsearch VmmapContainCmpEntries p ?es 0 (length ?es) of
       Some i \<Rightarrow> i < length ?es \<and> covers (?es ! i) p | None \<Rightarrow> (\<forall>i < length ?es. \<not> covers (?es ! i) p)"
    using bsearch_range [of ?es VmmapContainCmpEntries p 0 "length ?es"] a1 a2 by (auto simp: zero split: option.splits)
  have "map_option (\<lambda>i. ?es ! i) (bsearch VmmapContainCmpEntries p ?es 0 (length ?es)) =
      List.find (\<lambda>e. \<not> removed e \<and> covers e p) (vmentry vm)"
  proof (cases "bsearch VmmapContainCmpEntries p ?es 0 (length ?es)")
    case None
    then have "\<forall>e \<in> set ?es. \<not> covers e p" using b by (auto simp: in_set_conv_nth)
    then have "\<forall>e \<in> set (vmentry vm). \<not> covers e p" unfolding mset_eq_setD [OF vm1(2)] .
    then have "List.find (\<lambda>e. \<not> removed e \<and> covers e p) (vmentry vm) = None" by (simp add: find_None_iff)
    then show ?thesis using None by simp
  next
    case (Some i)
    then have i: "?es ! i \<in> set (vmentry vm)" "covers (?es ! i) p" using b mset_eq_setD [OF vm1(2)] nth_mem by fastforce+
    then obtain e where e: "List.find (\<lambda>e. \<not> removed e \<and> covers e p) (vmentry vm) = Some e"
      using d(2) by (cases "List.find (\<lambda>e. \<not> removed e \<and> covers e p) (vmentry vm)") (auto simp: find_None_iff disjoint_def entry_ok_def)
    then have "e \<in> set (vmentry vm)" "covers e p" by (auto simp: find_Some_iff)
    then show ?thesis using Some e disjoint_covers [OF d(2) i(1) _ i(2)] by simp
  qed
  then show ?thesis using that vm1 by (simp add: VmmapFindPage_def)
qed

text \<open>A gap between neighbours is free.\<close>

lemma unat_small: "unat (x :: u64) < 2 ^ 64"
  using unsigned_less [of x] by simp

lemma gap_arith:
  fixes q e n :: u64
  assumes "e \<le> q" and "n \<le> q - e"
  shows "e \<le> q - n" and "q - n \<le> q" and "q - n + n = q"
proof -
  have "unat (q - e) = unat q - unat e" using assms(1) by (simp add: unat_sub word_le_nat_alt)
  then have n: "unat n \<le> unat q - unat e" using assms(2) by (simp add: word_le_nat_alt)
  then have "n \<le> q" by (simp add: word_le_nat_alt)
  then have "unat (q - n) = unat q - unat n" by (rule unat_sub)
  then show "e \<le> q - n" "q - n \<le> q" using n assms(1) by (auto simp: word_le_nat_alt)
  show "q - n + n = q" by simp
qed

lemma between:
  assumes "ordered es" and "Suc i < length es" and "ent_end_page (es ! i) \<le> p" and "p < page_num (es ! Suc i)" and "f \<in> set es"
  shows "\<not> covers f p"
proof -
  obtain j where j: "j < length es" "f = es ! j" using assms(5) by (auto simp: in_set_conv_nth)
  have le: "ent_end_page (es ! k) \<le> page_num (es ! l)" if "k < l" "l < length es" for k l
    using assms(1) that by (simp add: ordered_def sorted_wrt_iff_nth_less)
  have ok: "page_num (es ! k) < ent_end_page (es ! k)" if "k < length es" for k
    using assms(1) that by (auto simp: ordered_def entry_ok_def)
  consider "j = i" | "j < i" | "j = Suc i" | "Suc i < j" by linarith
  then have "ent_end_page (es ! j) \<le> p \<or> p < page_num (es ! j)"
  proof cases
    case 2
    then have "ent_end_page (es ! j) < ent_end_page (es ! i)" using le [of j i] ok [of i] assms(2) by (simp add: le_less_trans)
    then show ?thesis using assms(3) by (meson less_imp_le order.trans)
  next
    case 4
    then have "page_num (es ! Suc i) < page_num (es ! j)" using le [of "Suc i" j] ok [of "Suc i"] j(1) by (simp add: less_le_trans)
    then show ?thesis using assms(4) by (meson less_trans)
  qed (use assms(3,4) in auto)
  then show ?thesis using j(2) by (auto simp: covers_def)
qed

text \<open>The highest gap that is large enough is taken from its upper end.\<close>

abbreviation gap_after :: "vmmap_entry list \<Rightarrow> nat \<Rightarrow> u64" where
  "gap_after es j \<equiv> page_num (es ! Suc j) - ent_end_page (es ! j)"

lemma space_below:
  assumes "ordered es"
  shows "i < length es \<Longrightarrow>
    (if space_below es n i = 0 then \<forall>j < i. gap_after es j < n
     else \<exists>j < i. n \<le> gap_after es j \<and> (\<forall>k. j < k \<longrightarrow> k < i \<longrightarrow> gap_after es k < n) \<and>
       ent_end_page (es ! j) \<le> space_below es n i \<and> space_below es n i \<le> page_num (es ! Suc j) \<and>
       space_below es n i + n = page_num (es ! Suc j))"
proof (induction i)
  case (Suc i)
  have o: "page_num (es ! i) < ent_end_page (es ! i)" "ent_end_page (es ! i) \<le> page_num (es ! Suc i)"
    using assms Suc.prems by (auto simp: ordered_def sorted_wrt_iff_nth_less entry_ok_def)
  show ?case
  proof (cases "gap_after es i \<ge> n")
    case True
    note g = gap_arith [OF o(2) True]
    have "page_num (es ! Suc i) - n \<noteq> 0" using g(1) o(1) by auto
    then show ?thesis using True g by (auto intro!: exI [of _ i])
  next
    case False
    have ih: "if space_below es n i = 0 then \<forall>j < i. gap_after es j < n
     else \<exists>j < i. n \<le> gap_after es j \<and> (\<forall>k. j < k \<longrightarrow> k < i \<longrightarrow> gap_after es k < n) \<and>
       ent_end_page (es ! j) \<le> space_below es n i \<and> space_below es n i \<le> page_num (es ! Suc j) \<and>
       space_below es n i + n = page_num (es ! Suc j)" using Suc.IH Suc.prems by simp
    have eq: "space_below es n (Suc i) = space_below es n i" and lt: "gap_after es i < n" using False by simp_all
    show ?thesis unfolding eq using ih lt by (auto simp: less_Suc_eq split: if_splits)
  qed
qed simp

lemma find_space:
  assumes "vm_ok vm" and "small vm"
  obtains vm' r where "VmmapFindSpace n vm = Some (r, vm')" "vm_ok vm'" "mset (vmentry vm') = mset (vmentry vm)"
    "r \<noteq> 0 \<longrightarrow> r \<le> r + n \<and> (\<forall>p. region r n p \<longrightarrow> pages (vmentry vm) p = None) \<and>
       (\<exists>j. Suc j < nvalid vm' \<and> n \<le> gap_after (vmentry vm') j \<and> r + n = page_num (vmentry vm' ! Suc j) \<and>
          (\<forall>k > j. Suc k < nvalid vm' \<longrightarrow> gap_after (vmentry vm') k < n))"
    "r = 0 \<longrightarrow> (\<forall>j. Suc j < nvalid vm' \<longrightarrow> gap_after (vmentry vm') j < n)"
    "nvalid vm \<noteq> 0 \<longrightarrow> sorted (map page_num (vmentry vm'))"
proof (cases "nvalid vm = 0")
  case True
  then show ?thesis using that [of 0 vm] assms(1) by (simp add: VmmapFindSpace_def)
next
  case False
  obtain vm1 where vm1: "VmmapMakeSorted vm = Some vm1" "mset (vmentry vm1) = mset (vmentry vm)" "vm_ok vm1"
    "sorted (map page_num (vmentry vm1))" using make_sorted [OF assms] by blast
  let ?es = "vmentry vm1"
  let ?r = "space_below ?es n (nvalid vm1 - 1)"
  have len: "length ?es = nvalid vm" using mset_eq_length [OF vm1(2)] .
  have d: "disjoint ?es" using vm1(3) by (simp add: vm_ok_def)
  have o: "ordered ?es" by (rule sorted_ordered [OF d vm1(4)])
  have i: "nvalid vm1 - 1 < length ?es" using False len by simp
  note sb = space_below [OF o i, of n]
  have free: "?r \<le> ?r + n \<and> (\<forall>p. region ?r n p \<longrightarrow> pages (vmentry vm) p = None) \<and>
      (\<exists>j. Suc j < nvalid vm1 \<and> n \<le> gap_after ?es j \<and> ?r + n = page_num (?es ! Suc j) \<and>
         (\<forall>k > j. Suc k < nvalid vm1 \<longrightarrow> gap_after ?es k < n))" if nz: "?r \<noteq> 0"
  proof -
    obtain j where j: "j < nvalid vm1 - 1" "ent_end_page (?es ! j) \<le> ?r" "?r \<le> page_num (?es ! Suc j)"
      "?r + n = page_num (?es ! Suc j)" "n \<le> gap_after ?es j" "\<forall>k. j < k \<longrightarrow> k < nvalid vm1 - 1 \<longrightarrow> gap_after ?es k < n"
      using sb nz by auto
    have "pages ?es p = None" if "region ?r n p" for p
    proof -
      have "\<forall>f \<in> set ?es. \<not> covers f p"
        using between [OF o _ _ _, of j p] j that len by (auto simp: region_def intro: order.trans)
      then show ?thesis by (simp add: pages_def find_None_iff)
    qed
    moreover have "Suc j < nvalid vm1" "\<forall>k > j. Suc k < nvalid vm1 \<longrightarrow> gap_after ?es k < n" using j(1,6) by auto
    ultimately show ?thesis using j(3-5) pages_perm [OF vm1(2) d] by auto
  qed
  have tight: "\<forall>j. Suc j < nvalid vm1 \<longrightarrow> gap_after ?es j < n" if "?r = 0"
    using sb that len by auto
  show ?thesis
    using that [of ?r vm1] False vm1 free tight len by (simp add: VmmapFindSpace_def)
qed

lemma space_above:
  "ordered es \<Longrightarrow> space_above es usr n \<noteq> 0 \<Longrightarrow>
   usr \<le> space_above es usr n \<and> space_above es usr n \<le> space_above es usr n + n \<and>
   ent_end_page (hd es) \<le> space_above es usr n \<and>
   (\<forall>p. region (space_above es usr n) n p \<longrightarrow> (\<forall>f \<in> set es. \<not> covers f p))"
proof (induction es usr n rule: space_above.induct)
  case (1 e f es usr n)
  define q where "q = (if ent_end_page e \<le> usr \<and> usr < page_num f then usr else ent_end_page e)"
  have o: "page_num e < ent_end_page e" "ent_end_page e \<le> page_num f" "ordered (f # es)"
    using "1.prems"(1) by (auto simp: ordered_def entry_ok_def)
  have q: "ent_end_page e \<le> q" "q \<le> page_num f" using o(2) by (auto simp: q_def)
  show ?case
  proof (cases "usr \<le> q \<and> page_num f - q \<ge> n")
    case True
    then have eq: "space_above (e # f # es) usr n = q" by (simp add: q_def Let_def)
    have n: "unat n \<le> unat (page_num f) - unat q"
      using True q(2) by (simp add: word_le_nat_alt unat_sub)
    then have "unat q + unat n < 2 ^ 64" using q(2) unat_small [of "page_num f"] by (simp add: word_le_nat_alt)
    then have un: "unat (q + n) = unat q + unat n" by (simp add: unat_word_ariths)
    then have qn: "q \<le> q + n" "q + n \<le> page_num f" using n q(2) by (auto simp: word_le_nat_alt)
    have "\<not> covers g p" if "region q n p" "g \<in> set (e # f # es)" for g p
    proof -
      have "ent_end_page e \<le> p" "p < page_num f" using that(1) q(1) qn(2) by (auto simp: region_def)
      then show ?thesis using between [OF "1.prems"(1), of 0 p g] that(2) by simp
    qed
    then show ?thesis unfolding eq using True qn(1) q(1) by simp
  next
    case False
    have eq: "space_above (e # f # es) usr n = space_above (f # es) usr n" using False by (auto simp: q_def Let_def)
    let ?r = "space_above (f # es) usr n"
    have ih: "usr \<le> ?r" "?r \<le> ?r + n" "ent_end_page f \<le> ?r" "\<And>p g. region ?r n p \<Longrightarrow> g \<in> set (f # es) \<Longrightarrow> \<not> covers g p"
      using "1.IH" [OF q_def] False o(3) "1.prems"(2) unfolding eq by auto
    have "page_num f < ent_end_page f" using o(3) by (auto simp: ordered_def entry_ok_def)
    then have er: "ent_end_page e \<le> ?r" using o(2) ih(3) by (meson less_imp_le order.trans)
    have "\<not> covers e p" if "region ?r n p" for p
    proof -
      have "ent_end_page e \<le> p" using that er by (auto simp: region_def intro: order.trans)
      then show ?thesis by (auto simp: covers_def)
    qed
    then show ?thesis unfolding eq using ih er by auto
  qed
qed simp_all

section \<open>Properties\<close>

definition ex_entries :: "vmmap_entry list" where
  "ex_entries =
     [VmmapEntryMake 0xff800 0x800 3 3 VMMAP_ENTRY_ANONYMOUS, VmmapEntryMake 0 0x400 0 0 VMMAP_ENTRY_ANONYMOUS,
      VmmapEntryMake 0x500 0x100 3 7 VMMAP_ENTRY_ANONYMOUS]"

definition ex_vm :: vmmap where
  "ex_vm = \<lparr> vmentry = ex_entries, vm_size = 4, is_sorted = False \<rparr>"

lemma ex_vm_ok: "vm_ok ex_vm \<and> small ex_vm"
  by (simp add: vm_ok_def small_def ex_vm_def ex_entries_def disjoint_def entry_ok_def apart_def ent_end_page_def VmmapEntryMake_def)

lemma ex_vm_pages:
  "pages (vmentry ex_vm) 0x580 = Some (3, 7, VMMAP_ENTRY_ANONYMOUS)" "pages (vmentry ex_vm) 0x450 = None"
  "pages (vmentry ex_vm) 0x100 = Some (0, 0, VMMAP_ENTRY_ANONYMOUS)"
  by (simp_all add: pages_def ex_vm_def ex_entries_def covers_def ent_end_page_def attr_def VmmapEntryMake_def)

text \<open>C33. Adding or removing a region of pages is, on the function from pages to attributes, the update of
  exactly the pages of that region; the entries stay disjoint and not empty. The process ends only when
  a removal leaves no page at all.\<close>

theorem VmmapUpdate_refines:
  assumes "vm_ok vm" and "small vm" and "page < page + n"
  shows "case VmmapUpdate page n pr mx ty remove vm of
      None \<Rightarrow> remove \<and> vmentry vm \<noteq> [] \<and> (\<forall>p. \<not> region page n p \<longrightarrow> pages (vmentry vm) p = None)
    | Some vm' \<Rightarrow> vm_ok vm' \<and> pages (vmentry vm') =
        (\<lambda>p. if region page n p then if remove then None else Some (pr, mx, ty) else pages (vmentry vm) p)"
  by (rule update_refines [OF assms])

theorem VmmapUpdate_refines_witness:
  "\<exists>vm'. VmmapUpdate 0x540 0x10 1 1 VMMAP_ENTRY_MAPPED False ex_vm = Some vm' \<and> vm_ok vm' \<and>
     pages (vmentry vm') 0x548 = Some (1, 1, VMMAP_ENTRY_MAPPED) \<and>
     pages (vmentry vm') 0x580 = Some (3, 7, VMMAP_ENTRY_ANONYMOUS)"
  using VmmapUpdate_refines [OF conjunct1 [OF ex_vm_ok] conjunct2 [OF ex_vm_ok], where page = "0x540" and n = "0x10" and pr = 1 and mx = 1 and ty = VMMAP_ENTRY_MAPPED and remove = False] ex_vm_pages
  by (auto simp: region_def split: option.splits)

text \<open>C34. Changing the protection of a region succeeds exactly when every page of it is mapped with a
  maximal protection that admits the new one, and then changes the protection of exactly these pages;
  otherwise no page changes.\<close>

theorem VmmapChangeProt_refines:
  assumes "vm_ok vm" and "small vm" and "page < page + n"
  shows "\<exists>vm'. VmmapChangeProt page n pr vm = Some (permitted (vmentry vm) page n pr, vm') \<and> vm_ok vm' \<and>
    pages (vmentry vm') = (\<lambda>p. if permitted (vmentry vm) page n pr \<and> region page n p
                               then map_option (set_prot pr) (pages (vmentry vm) p) else pages (vmentry vm) p)"
  by (rule change_prot_refines [OF assms])

theorem VmmapChangeProt_refines_witness:
  "\<exists>vm'. VmmapChangeProt 0x500 0x100 5 ex_vm = Some (True, vm') \<and>
     pages (vmentry vm') 0x580 = Some (5, 7, VMMAP_ENTRY_ANONYMOUS)"
proof -
  have "permitted (vmentry ex_vm) 0x500 0x100 5"
    using ex_vm_ok unfolding vm_ok_def
    by (subst permitted_entries) (auto simp: region_def ex_vm_def ex_entries_def covers_def ent_end_page_def VmmapEntryMake_def)
  then show ?thesis
    using VmmapChangeProt_refines [of ex_vm "0x500" "0x100" 5] ex_vm_ok ex_vm_pages(1) by (auto simp: region_def set_prot_def)
qed

text \<open>C32. Looking up a page by sorting the entries and binary search gives the same answer as a linear search for the entry that
  covers the page, whatever the order of the entries is; the lookup may sort the entries and changes nothing else.\<close>

theorem VmmapFindPage_equals_linear_search:
  assumes "vm_ok vm" and "small vm"
  shows "\<exists>vm'. VmmapFindPage p vm = Some (List.find (\<lambda>e. \<not> removed e \<and> covers e p) (vmentry vm), vm') \<and>
    vm_ok vm' \<and> mset (vmentry vm') = mset (vmentry vm)"
  using find_page [OF assms, of p] by metis

theorem VmmapFindPage_equals_linear_search_witness:
  "\<exists>vm'. VmmapFindPage 0x580 ex_vm = Some (Some (VmmapEntryMake 0x500 0x100 3 7 VMMAP_ENTRY_ANONYMOUS), vm')"
proof -
  have "List.find (\<lambda>e. \<not> removed e \<and> covers e 0x580) (vmentry ex_vm) = Some (VmmapEntryMake 0x500 0x100 3 7 VMMAP_ENTRY_ANONYMOUS)"
    by (simp add: ex_vm_def ex_entries_def covers_def ent_end_page_def VmmapEntryMake_def)
  then show ?thesis using VmmapFindPage_equals_linear_search [of ex_vm "0x580"] ex_vm_ok by auto
qed

text \<open>C35. The search for space returns 0 exactly when every gap between two neighbouring entries is too small. Otherwise it
  returns the upper end of the highest gap that is large enough: a region that does not wrap around and whose pages are all free.\<close>

theorem VmmapFindSpace_free:
  assumes "vm_ok vm" and "small vm" and "vmentry vm \<noteq> []"
  shows "\<exists>r vm'. VmmapFindSpace n vm = Some (r, vm') \<and> vm_ok vm' \<and> mset (vmentry vm') = mset (vmentry vm) \<and>
    sorted (map page_num (vmentry vm')) \<and>
    (r = 0 \<longleftrightarrow> (\<forall>j. Suc j < nvalid vm' \<longrightarrow> page_num (vmentry vm' ! Suc j) - ent_end_page (vmentry vm' ! j) < n)) \<and>
    (r \<noteq> 0 \<longrightarrow> r \<le> r + n \<and> (\<forall>p. region r n p \<longrightarrow> pages (vmentry vm) p = None) \<and>
       (\<exists>j. Suc j < nvalid vm' \<and> n \<le> page_num (vmentry vm' ! Suc j) - ent_end_page (vmentry vm' ! j) \<and>
          r + n = page_num (vmentry vm' ! Suc j) \<and>
          (\<forall>k > j. Suc k < nvalid vm' \<longrightarrow> page_num (vmentry vm' ! Suc k) - ent_end_page (vmentry vm' ! k) < n)))"
proof (rule find_space [OF assms(1,2), of n])
  fix vm' r
  assume f: "VmmapFindSpace n vm = Some (r, vm')" "vm_ok vm'" "mset (vmentry vm') = mset (vmentry vm)"
    and r: "r \<noteq> 0 \<longrightarrow> r \<le> r + n \<and> (\<forall>p. region r n p \<longrightarrow> pages (vmentry vm) p = None) \<and>
       (\<exists>j. Suc j < nvalid vm' \<and> n \<le> gap_after (vmentry vm') j \<and> r + n = page_num (vmentry vm' ! Suc j) \<and>
          (\<forall>k > j. Suc k < nvalid vm' \<longrightarrow> gap_after (vmentry vm') k < n))"
    and z: "r = 0 \<longrightarrow> (\<forall>j. Suc j < nvalid vm' \<longrightarrow> gap_after (vmentry vm') j < n)"
    and srt: "nvalid vm \<noteq> 0 \<longrightarrow> sorted (map page_num (vmentry vm'))"
  have "r = 0 \<longleftrightarrow> (\<forall>j. Suc j < nvalid vm' \<longrightarrow> gap_after (vmentry vm') j < n)" using r z not_less by blast
  then show ?thesis using f r srt assms(3) by (intro exI [of _ r] exI [of _ vm']) simp
qed

lemma ex_vm_space: "map_option fst (VmmapFindSpace 0x200 ex_vm) = Some 0xff600"
  by code_simp

theorem VmmapFindSpace_free_witness:
  "\<exists>vm'. VmmapFindSpace 0x200 ex_vm = Some (0xff600, vm') \<and> pages (vmentry ex_vm) 0xff700 = None"
proof -
  have "vmentry ex_vm \<noteq> []" by (simp add: ex_vm_def ex_entries_def)
  then obtain r vm' where r: "VmmapFindSpace 0x200 ex_vm = Some (r, vm')"
    "r \<noteq> 0 \<longrightarrow> r \<le> r + 0x200 \<and> (\<forall>p. region r 0x200 p \<longrightarrow> pages (vmentry ex_vm) p = None)"
    using VmmapFindSpace_free [OF conjunct1 [OF ex_vm_ok] conjunct2 [OF ex_vm_ok], of "0x200"] by blast
  then have "r = 0xff600" using ex_vm_space by simp
  moreover have "region 0xff600 0x200 0xff700" by (simp add: region_def)
  ultimately show ?thesis using r by auto
qed

text \<open>Removing the marked entries keeps exactly the others, and ends the process exactly when there are
  entries and all of them are marked.\<close>

lemma VmmapRemoveMarked_keeps:
  "if vmentry vm \<noteq> [] \<and> live (vmentry vm) = [] then VmmapRemoveMarked vm = None
   else \<exists>vm'. VmmapRemoveMarked vm = Some vm' \<and> mset (vmentry vm') = mset (live (vmentry vm))"
  using remove_marked [of vm] by (cases "VmmapRemoveMarked vm") auto

end
