(* ===== verification/Memory.thy ===== *)
theory Memory
  imports Codeheap Pager_Correct
begin

unbundle bit_operations_syntax

text \<open>
  The memory services of the sandbox (\<open>src/runtime/src/runtime.c\<close>: \<open>rock_mmap\<close>,
  \<open>rock_mprotect\<close>, \<open>rock_munmap\<close>, \<open>rock_mremap\<close>, \<open>rock_brk\<close>; \<open>main.c\<close>: \<open>alloc_sandbox\<close> and
  \<open>create_parallel_mapping\<close>; the system call wrappers of \<open>src/runtime/src/mm\<close>).

  The kernel is a parameter: the raw result of a system call as a function of the calls before it
  and its arguments. The state keeps the system calls made so far, in order; the contents of the
  sandbox's pages are not part of it, a copy between them is an event of the same list.
\<close>

section \<open>System calls\<close>

datatype event =
    Mmap u64 u64 u32 u32 u32 u64
  | Mprotect u64 u64 u32
  | Munmap u64 u64
  | Brk u64
  | Shm_open
  | Ftruncate u32 u64
  | Close u32
  | Shm_unlink
  | Memcpy u64 u64 u64
  | Store u64 u64

type_synonym kernel = "event list \<Rightarrow> event \<Rightarrow> u64"

definition MAP_FAILED :: u64 where "MAP_FAILED = - 1"

definition MAP_SHARED :: u32 where "MAP_SHARED = 1"

definition MAP_PRIVATE :: u32 where "MAP_PRIVATE = 2"

definition MAP_FIXED :: u32 where "MAP_FIXED = 0x10"

definition MAP_ANONYMOUS :: u32 where "MAP_ANONYMOUS = 0x20"

definition PROT_NONE :: u32 where "PROT_NONE = 0"

definition EINVAL :: u64 where "EINVAL = 22"

definition ENOMEM :: u64 where "ENOMEM = 12"

definition EEXIST :: u64 where "EEXIST = 17"

record sandbox =
  sb_rt :: runtime
  VM :: vmmap
  prog_brk :: u64
  max_brk :: u64
  events :: "event list"

abbreviation sb_modules :: "sandbox \<Rightarrow> codemodule list" where
  "sb_modules sb \<equiv> rt_modules (sb_rt sb)"

definition emit :: "event \<Rightarrow> sandbox \<Rightarrow> sandbox" where
  "emit e sb = sb\<lparr> events := events sb @ [e] \<rparr>"

definition mmap :: "kernel \<Rightarrow> u64 \<Rightarrow> u64 \<Rightarrow> u32 \<Rightarrow> u32 \<Rightarrow> u32 \<Rightarrow> u64 \<Rightarrow> sandbox \<Rightarrow> u64 \<times> sandbox" where
  "mmap kern start len pr flags fd off sb =
     (let e = Mmap start len pr flags fd off; rs = kern (events sb) e
      in (if rs <s 0 then MAP_FAILED else rs, emit e sb))"

text \<open>The wrapper widens the range to whole pages; an \<open>int\<close> result is the low 32 bits.\<close>

definition mprotect :: "kernel \<Rightarrow> u64 \<Rightarrow> u64 \<Rightarrow> u32 \<Rightarrow> sandbox \<Rightarrow> u32 \<times> sandbox" where
  "mprotect kern addr len pr sb =
     (let start = addr AND - PAGE_SIZE;
          end_addr = (addr + len + PAGE_SIZE - 1) AND - PAGE_SIZE;
          e = Mprotect start (end_addr - start) pr;
          rc = (ucast (kern (events sb) e) :: u32)
      in (if rc <s 0 then - 1 else rc, emit e sb))"

definition munmap :: "kernel \<Rightarrow> u64 \<Rightarrow> u64 \<Rightarrow> sandbox \<Rightarrow> u32 \<times> sandbox" where
  "munmap kern start len sb =
     (let e = Munmap start len; rc = (ucast (kern (events sb) e) :: u32)
      in (if rc <s 0 then - 1 else rc, emit e sb))"

definition brk :: "kernel \<Rightarrow> u64 \<Rightarrow> sandbox \<Rightarrow> u64 \<times> sandbox" where
  "brk kern addr sb = (kern (events sb) (Brk addr), emit (Brk addr) sb)"

section \<open>The sandbox\<close>

definition X64ABIBASE :: u64 where "X64ABIBASE = 0x400000"

text \<open>The guard region behind the sandbox, the unmapped start of the sandbox, the stack at its end;
  the second result is the top of the stack.\<close>

definition alloc_sandbox :: "kernel \<Rightarrow> sandbox \<Rightarrow> (u64 \<times> sandbox) option" where
  "alloc_sandbox kern sb = do {
     let (ptr, sb) = mmap kern FourGB FourGB PROT_NONE (MAP_ANONYMOUS OR MAP_FIXED OR MAP_PRIVATE) (- 1) 0 sb;
     CHECK (ptr = FourGB);
     let sb = sb\<lparr> VM := VmmapAdd (drop_bit PAGESHIFT 0) (drop_bit PAGESHIFT X64ABIBASE)
                         PROT_NONE PROT_NONE VMMAP_ENTRY_ANONYMOUS (VM sb) \<rparr>;
     let start = FourGB - SixtyFourKB * 128;
     let (stack, sb) = mmap kern start (FourGB - start) (PROT_READ OR PROT_WRITE)
                         (MAP_ANONYMOUS OR MAP_FIXED OR MAP_PRIVATE) (- 1) 0 sb;
     CHECK (stack = start);
     Some (FourGB - 8,
       sb\<lparr> VM := VmmapAdd (drop_bit PAGESHIFT start) (drop_bit PAGESHIFT (FourGB - start))
                   (PROT_READ OR PROT_WRITE) (PROT_READ OR PROT_WRITE) VMMAP_ENTRY_ANONYMOUS (VM sb) \<rparr>) }"

section \<open>Mapping\<close>

text \<open>A fixed mapping inside a code heap only changes the protection of its pages.\<close>

definition map_in_heap :: "kernel \<Rightarrow> codemodule \<Rightarrow> u64 \<Rightarrow> u64 \<Rightarrow> u32 \<Rightarrow> sandbox \<Rightarrow> (u64 \<times> sandbox) option" where
  "map_in_heap kern m start len pr sb = do {
     CHECK (\<not> (pr AND PROT_WRITE \<noteq> 0 \<and> pr AND PROT_EXEC \<noteq> 0));
     CHECK (which_area (code_data_bitmap m) (start - base_addr m) len = ROCK_DATA);
     let (rs, sb) = mprotect kern start len pr sb;
     Some (if rs = 0 then start else - ENOMEM, sb) }"

text \<open>The page of a mapping outside of the code heaps; \<open>Inl\<close> is a failure with its error.\<close>

definition choose_page :: "u64 \<Rightarrow> u64 \<Rightarrow> u32 \<Rightarrow> u64 \<Rightarrow> sandbox \<Rightarrow> ((u64 + u64) \<times> sandbox) option" where
  "choose_page start len flags npg sb =
     (if flags AND MAP_FIXED = 0 then do {
        (page, vm) \<leftarrow> (if start > FourGB \<or> start = 0 then VmmapFindSpace npg (VM sb)
                       else VmmapFindMapSpaceAboveHint start npg (VM sb));
        Some (if page = 0 then Inl (- ENOMEM) else Inr page, sb\<lparr> VM := vm \<rparr>) }
      else
        let page = 0
        in Some (if len > FourGB \<or> page + len > FourGB then Inl (- ENOMEM)
                 else Inr (drop_bit PAGESHIFT start), sb))"

definition map_pages ::
  "kernel \<Rightarrow> u64 \<Rightarrow> u64 \<Rightarrow> u64 \<Rightarrow> u32 \<Rightarrow> u32 \<Rightarrow> u32 \<Rightarrow> u64 \<Rightarrow> sandbox \<Rightarrow> (u64 \<times> sandbox) option" where
  "map_pages kern page len npg pr flags fd off sb = do {
     let addr = push_bit PAGESHIFT page;
     CHECK (\<not> insecure_overlap_rdonly (sb_modules sb) addr len pr);
     let (res, sb) = mmap kern addr len pr (flags OR MAP_FIXED) fd off sb;
     if res = addr then do {
       vm \<leftarrow> VmmapAddWithOverwrite page npg pr pr VMMAP_ENTRY_ANONYMOUS (VM sb);
       Some (res, sb\<lparr> VM := vm \<rparr>) }
     else Some (res, sb) }"

definition rock_mmap ::
  "kernel \<Rightarrow> u64 \<Rightarrow> u64 \<Rightarrow> u32 \<Rightarrow> u32 \<Rightarrow> u32 \<Rightarrow> u64 \<Rightarrow> sandbox \<Rightarrow> (u64 \<times> sandbox) option" where
  "rock_mmap kern start len pr flags fd off sb =
     (let npg = drop_bit PAGESHIFT (RoundToPage len) in
      if start AND (push_bit PAGESHIFT 1 - 1) \<noteq> 0 then Some (- EINVAL, sb)
      else if start > FourGB \<and> flags AND MAP_FIXED \<noteq> 0 then Some (- ENOMEM, sb)
      else if len > FourGB then Some (- ENOMEM, sb)
      else
        (case (if start \<noteq> 0 \<and> flags AND MAP_FIXED \<noteq> 0 then in_code_heap (sb_modules sb) start len else None) of
           Some m \<Rightarrow> map_in_heap kern m start len pr sb
         | None \<Rightarrow> do {
             CHECK (pr AND PROT_EXEC = 0);
             (choice, sb) \<leftarrow> choose_page start len flags npg sb;
             (case choice of
                Inl err \<Rightarrow> Some (err, sb)
              | Inr page \<Rightarrow> map_pages kern page len npg pr flags fd off sb) }))"

section \<open>Protection and unmapping\<close>

definition rock_mprotect :: "kernel \<Rightarrow> u64 \<Rightarrow> u64 \<Rightarrow> u32 \<Rightarrow> sandbox \<Rightarrow> (u32 \<times> sandbox) option" where
  "rock_mprotect kern addr len pr sb = do {
     CHECK (\<not> (addr > FourGB \<or> len > FourGB \<or> pr AND PROT_EXEC \<noteq> 0));
     CHECK (\<not> insecure_overlap_rdonly (sb_modules sb) addr len pr);
     Some (mprotect kern addr len pr sb) }"

definition rock_munmap :: "kernel \<Rightarrow> u64 \<Rightarrow> u64 \<Rightarrow> sandbox \<Rightarrow> (u32 \<times> sandbox) option" where
  "rock_munmap kern start len sb = do {
     CHECK (\<not> (start > FourGB \<or> len > FourGB \<or> start + len > FourGB));
     let (rv, sb) = munmap kern start len sb;
     if rv = 0 then do {
       vm \<leftarrow> VmmapRemove (drop_bit PAGESHIFT (RoundToPage start)) (drop_bit PAGESHIFT (RoundToPage len))
               VMMAP_ENTRY_ANONYMOUS (VM sb);
       Some (rv, sb\<lparr> VM := vm \<rparr>) }
     else Some (rv, sb) }"

definition rock_mremap :: "kernel \<Rightarrow> u64 \<Rightarrow> u64 \<Rightarrow> u64 \<Rightarrow> sandbox \<Rightarrow> (u64 \<times> sandbox) option" where
  "rock_mremap kern old_addr old_len new_len sb = do {
     (ptr, sb) \<leftarrow> rock_mmap kern 0 new_len (PROT_READ OR PROT_WRITE) (MAP_ANONYMOUS OR MAP_PRIVATE) (- 1) 0 sb;
     if 0 <s ptr then do {
       let sb = emit (Memcpy ptr old_addr (if old_len > new_len then new_len else old_len)) sb;
       (_, sb) \<leftarrow> rock_munmap kern old_addr old_len sb;
       Some (ptr, sb) }
     else Some (ptr, sb) }"

section \<open>The program break\<close>

definition BRK_LEAP :: u64 where "BRK_LEAP = 0x800000"

text \<open>First call: the initial break and the pages reserved behind it.\<close>

definition init_brk :: "kernel \<Rightarrow> sandbox \<Rightarrow> sandbox option" where
  "init_brk kern sb =
     (if prog_brk sb = 0 then do {
        let (b, sb) = brk kern 0 sb;
        CHECK (\<not> b \<ge> FourGB);
        Some (sb\<lparr> prog_brk := b, max_brk := RoundToPage b + BRK_LEAP,
                  VM := VmmapAdd (drop_bit PAGESHIFT (RoundToPage b)) (drop_bit PAGESHIFT BRK_LEAP)
                          (PROT_READ OR PROT_WRITE) (PROT_READ OR PROT_WRITE) VMMAP_ENTRY_ANONYMOUS (VM sb) \<rparr>) }
      else Some sb)"

definition rock_brk :: "kernel \<Rightarrow> u64 \<Rightarrow> sandbox \<Rightarrow> (u64 \<times> sandbox) option" where
  "rock_brk kern newbrk sb = do {
     sb \<leftarrow> init_brk kern sb;
     CHECK (\<not> newbrk \<ge> FourGB);
     let (b, sb) = brk kern newbrk sb;
     let sb = sb\<lparr> prog_brk := b \<rparr>;
     if b > max_brk sb then
       let old_max = max_brk sb; new_max = RoundToPage b + BRK_LEAP
       in Some (b, sb\<lparr> max_brk := new_max,
                 VM := VmmapAdd (drop_bit PAGESHIFT (CurPage old_max)) (drop_bit PAGESHIFT (new_max - old_max))
                         (PROT_READ OR PROT_WRITE) (PROT_READ OR PROT_WRITE) VMMAP_ENTRY_ANONYMOUS (VM sb) \<rparr>)
     else if CurPage (max_brk sb) - RoundToPage b \<ge> BRK_LEAP then do {
       vm \<leftarrow> VmmapRemove (drop_bit PAGESHIFT (RoundToPage b))
               (drop_bit PAGESHIFT (CurPage (max_brk sb) - RoundToPage b)) VMMAP_ENTRY_ANONYMOUS (VM sb);
       Some (b, sb\<lparr> VM := vm \<rparr>) }
     else Some (b, sb) }"

section \<open>Parallel mappings\<close>

text \<open>The shared memory object is created exclusively; the loop retries while it exists.\<close>

partial_function (option) shm_create :: "kernel \<Rightarrow> sandbox \<Rightarrow> (u32 \<times> sandbox) option" where
  "shm_create kern sb =
     (let rc = kern (events sb) Shm_open; sb = emit Shm_open sb
      in if \<not> (ucast rc :: u32) <s 0 then Some (ucast rc, sb)
         else if (ucast rc :: u32) = - ucast EEXIST then shm_create kern sb
         else None)"

definition create_parallel_mapping :: "kernel \<Rightarrow> u64 \<Rightarrow> u64 \<Rightarrow> u32 \<Rightarrow> sandbox \<Rightarrow> (u64 \<times> sandbox) option" where
  "create_parallel_mapping kern base sz pr sb = do {
     (fd, sb) \<leftarrow> shm_create kern sb;
     let rc = (ucast (kern (events sb) (Ftruncate fd sz)) :: u32);
     let sb = emit (Ftruncate fd sz) sb;
     CHECK (rc = 0);
     CHECK (sz mod PAGE_SIZE = 0);
     let (base, sb) = mmap kern base sz pr (MAP_SHARED OR MAP_FIXED) fd 0 sb;
     CHECK (base \<noteq> - 1);
     let (osb_base, sb) = mmap kern 0 sz PROT_WRITE MAP_SHARED fd 0 sb;
     CHECK (osb_base \<noteq> - 1);
     Some (osb_base, emit Shm_unlink (emit (Close fd) sb)) }"

end
