(* ===== verification/Parser.thy ===== *)
theory Parser
  imports Module
begin

unbundle bit_operations_syntax

text \<open>
  The string pool (\<open>src/runtime/include/cfggen/stringpool.h\<close>) and the parsers of the metadata
  sections the compiler emits (\<open>src/runtime/include/cfggen/cfggen.h\<close>).

  A section is the list of its characters and a cursor is the rest of the section. The C code
  overwrites the delimiter after each string it cuts off with a terminator; it never reads that
  byte again through the cursor, so the model returns the string itself. Reading past the end of
  the section has the result \<open>None\<close>, like \<open>quit\<close> and null-pointer accesses.

  Strings are interned: the pool maps each string to the pointer of its copy. \<open>alloc k\<close> is the
  address \<open>malloc\<close> returns for the copy of the \<open>k\<close>-th string; the properties assume that these
  addresses are distinct and not null.
\<close>

section \<open>String functions\<close>

definition NUL :: char where "NUL = CHR 0x00"

text \<open>\<open>strlen\<close> of \<open>src/runtime/src/string.c\<close> on memory that starts with the string: the
  terminator is counted.\<close>

fun strlen :: "string \<Rightarrow> nat option" where
  "strlen [] = None"
| "strlen (c # s) = (if c = NUL then Some 1 else map_option Suc (strlen s))"

text \<open>\<open>strcmp\<close> and \<open>strncmp\<close>: the difference of the first differing bytes.\<close>

fun strcmp :: "string \<Rightarrow> string \<Rightarrow> int option" where
  "strcmp (c # l) (d # r) =
     (if c = d \<and> c \<noteq> NUL then strcmp l r else Some (int (of_char c) - int (of_char d)))"
| "strcmp _ _ = None"

fun strncmp :: "string \<Rightarrow> string \<Rightarrow> nat \<Rightarrow> int option" where
  "strncmp l r 0 = Some 0"
| "strncmp (c # l) (d # r) (Suc n) =
     (if c \<noteq> NUL \<and> d \<noteq> NUL \<and> n \<noteq> 0 \<and> c = d then strncmp l r n
      else Some (int (of_char c) - int (of_char d)))"
| "strncmp _ _ (Suc n) = None"

fun strnlen :: "string \<Rightarrow> nat \<Rightarrow> nat option" where
  "strnlen [] maxlen = None"
| "strnlen (c # s) 0 = Some 0"
| "strnlen (c # s) (Suc n) = (if c = NUL then Some 0 else map_option Suc (strnlen s n))"

section \<open>The string pool\<close>

type_synonym pool = "(string, name) dict"

definition sp_str_handle :: "pool \<Rightarrow> string \<Rightarrow> name option" where
  "sp_str_handle sp data = dict_find sp data"

definition sp_add_cpy :: "(nat \<Rightarrow> name) \<Rightarrow> pool \<Rightarrow> string \<Rightarrow> name \<times> pool" where
  "sp_add_cpy alloc sp data = (let h = alloc (length sp) in (h, dict_put sp data h))"

definition sp_add_cpy_or_nothing :: "(nat \<Rightarrow> name) \<Rightarrow> pool \<Rightarrow> string \<Rightarrow> name \<times> pool" where
  "sp_add_cpy_or_nothing alloc sp data =
     (case sp_str_handle sp data of None \<Rightarrow> sp_add_cpy alloc sp data | Some h \<Rightarrow> (h, sp))"

definition sp_del :: "pool \<Rightarrow> string \<Rightarrow> pool" where
  "sp_del sp data = dict_del sp data"

definition sp_intern_string :: "(nat \<Rightarrow> name) \<Rightarrow> pool \<Rightarrow> string \<Rightarrow> name \<times> pool" where
  "sp_intern_string alloc sp s = sp_add_cpy_or_nothing alloc sp s"

section \<open>Cutting strings\<close>

definition next_symbol :: "string \<Rightarrow> char \<Rightarrow> (nat \<times> bool) option" where
  "next_symbol cursor s =
     (let n = length (takeWhile (\<lambda>c. c \<noteq> s \<and> c \<noteq> NUL) cursor)
      in if n < length cursor then Some (n, cursor ! n = NUL) else None)"

text \<open>The string before the symbol, whether a terminator ended it, and the cursor behind it.\<close>

definition get_string_before_symbol :: "string \<Rightarrow> char \<Rightarrow> (string \<times> bool \<times> string) option" where
  "get_string_before_symbol cursor s =
     (case next_symbol cursor s of
        None \<Rightarrow> None
      | Some (n, stop) \<Rightarrow> Some (take n cursor, stop, drop (Suc n) cursor))"

lemma next_symbol_bound: "next_symbol cursor s = Some (n, stop) \<Longrightarrow> n < length cursor"
  by (simp add: next_symbol_def Let_def split: if_splits)

lemma get_string_shorter:
  "get_string_before_symbol cursor s = Some (str, stop, rest) \<Longrightarrow> length str + length rest < length cursor"
  by (auto simp: get_string_before_symbol_def split: option.splits dest!: next_symbol_bound)

lemma get_string_append:
  assumes "\<forall>c \<in> set str. c \<noteq> s \<and> c \<noteq> NUL" and "d = s \<or> d = NUL"
  shows "get_string_before_symbol (str @ d # rest) s = Some (str, d = NUL, rest)"
proof -
  have "takeWhile (\<lambda>c. c \<noteq> s \<and> c \<noteq> NUL) (str @ d # rest) = str"
    using assms by (simp add: takeWhile_append)
  then show ?thesis by (simp add: get_string_before_symbol_def next_symbol_def)
qed

text \<open>Cutting a string and interning it.\<close>

definition get_interned :: "(nat \<Rightarrow> name) \<Rightarrow> pool \<Rightarrow> string \<Rightarrow> char \<Rightarrow> (name \<times> bool \<times> string \<times> pool) option" where
  "get_interned alloc sp cursor s =
     (case get_string_before_symbol cursor s of
        None \<Rightarrow> None
      | Some (str, stop, rest) \<Rightarrow>
          (case sp_intern_string alloc sp str of (h, sp') \<Rightarrow> Some (h, stop, rest, sp')))"

lemma get_interned_shorter:
  "get_interned alloc sp cursor s = Some (h, stop, rest, sp') \<Longrightarrow> length rest < length cursor"
  by (auto simp: get_interned_def split: option.splits prod.splits dest!: get_string_shorter)

section \<open>Classes\<close>

text \<open>The loops of the parsers that run until a terminator has been met.\<close>

function inherit_loop ::
  "(nat \<Rightarrow> name) \<Rightarrow> name \<Rightarrow> bool \<Rightarrow> string \<Rightarrow> name graph \<Rightarrow> pool \<Rightarrow> (string \<times> name graph \<times> pool) option" where
  "inherit_loop alloc sub stop cursor cha sp =
     (if stop then Some (cursor, cha, sp)
      else
        (case get_interned alloc sp cursor (CHR ''#'') of
           None \<Rightarrow> None
         | Some (super, stop', rest, sp') \<Rightarrow>
             inherit_loop alloc sub stop' rest (g_add_edge cha sub super) sp'))"
  by pat_completeness auto
termination
  by (relation "measure (\<lambda>(_, _, _, cursor, _, _). length cursor)") (auto dest: get_interned_shorter)

definition parse_inheritance ::
  "(nat \<Rightarrow> name) \<Rightarrow> string \<Rightarrow> name graph \<Rightarrow> pool \<Rightarrow> (string \<times> name graph \<times> pool) option" where
  "parse_inheritance alloc cursor cha sp =
     (case get_interned alloc sp cursor (CHR ''#'') of
        None \<Rightarrow> None
      | Some (sub, stop, rest, sp') \<Rightarrow> inherit_loop alloc sub stop rest cha sp')"

text \<open>The qualifiers behind the last \<open>@\<close> of a method name, at most four of them. An empty name
  would make the C code read before the string.\<close>

definition qualifier :: "char \<Rightarrow> u8" where
  "qualifier c = (if c = CHR ''c'' then CONSTANT else if c = CHR ''o'' then VOLATILE
     else if c = CHR ''s'' then STATIC else if c = CHR ''v'' then VIRTUAL else 0)"

fun attr_walk :: "string \<Rightarrow> nat \<Rightarrow> nat \<Rightarrow> u8 \<Rightarrow> nat \<times> u8" where
  "attr_walk nm 0 counter attrs = (0, attrs)"
| "attr_walk nm (Suc len) counter attrs =
     (if nm ! Suc len \<noteq> CHR ''@'' \<and> counter > 0
      then attr_walk nm len (counter - 1) (attrs OR qualifier (nm ! Suc len))
      else (Suc len, attrs))"

definition get_cpp_method_attr :: "string \<Rightarrow> (string \<times> u8) option" where
  "get_cpp_method_attr nm =
     (if nm = [] then None
      else case attr_walk nm (length nm - 1) 5 0 of
             (len, attrs) \<Rightarrow> Some (if nm ! len = CHR ''@'' then (take len nm, attrs) else (nm, 0)))"

function methods_loop ::
  "(nat \<Rightarrow> name) \<Rightarrow> name \<Rightarrow> bool \<Rightarrow> string \<Rightarrow> classes \<Rightarrow> pool \<Rightarrow> (string \<times> classes \<times> pool) option" where
  "methods_loop alloc cls stop cursor classes sp =
     (if stop then Some (cursor, classes, sp)
      else
        (case get_string_before_symbol cursor (CHR ''#'') of
           None \<Rightarrow> None
         | Some (str, stop', rest) \<Rightarrow>
             (case get_cpp_method_attr str of
                None \<Rightarrow> None
              | Some (nm, attrs) \<Rightarrow>
                  (case sp_intern_string alloc sp nm of (method, sp') \<Rightarrow>
                     (case dict_find classes cls of
                        None \<Rightarrow> None
                      | Some methods \<Rightarrow>
                          (case dict_find methods method of
                             None \<Rightarrow>
                               methods_loop alloc cls stop' rest
                                 (dict_set classes cls (dict_put methods method attrs)) sp'
                           | Some a \<Rightarrow>
                               if a \<noteq> attrs then None
                               else methods_loop alloc cls stop' rest classes sp'))))))"
  by pat_completeness auto
termination
  by (relation "measure (\<lambda>(_, _, _, cursor, _, _). length cursor)") (auto dest: get_string_shorter)

definition parse_classes ::
  "(nat \<Rightarrow> name) \<Rightarrow> string \<Rightarrow> classes \<Rightarrow> pool \<Rightarrow> (string \<times> classes \<times> pool) option" where
  "parse_classes alloc cursor classes sp =
     (case get_interned alloc sp cursor (CHR ''#'') of
        None \<Rightarrow> None
      | Some (cls, stop, rest, sp') \<Rightarrow>
          methods_loop alloc cls stop rest
            (if dict_in classes cls then classes else dict_put classes cls []) sp')"

declare inherit_loop.simps [simp del] methods_loop.simps [simp del]

lemma inherit_loop_shorter:
  "inherit_loop alloc sub stop cursor cha sp = Some (rest, cha', sp') \<Longrightarrow> length rest \<le> length cursor"
  by (induction alloc sub stop cursor cha sp rule: inherit_loop.induct)
    (subst (asm) (2) inherit_loop.simps,
     fastforce split: if_splits option.splits dest!: get_interned_shorter)

lemma methods_loop_shorter:
  "methods_loop alloc cls stop cursor classes sp = Some (rest, classes', sp') \<Longrightarrow> length rest \<le> length cursor"
proof (induction alloc cls stop cursor classes sp rule: methods_loop.induct)
  case (1 alloc cls stop cursor classes sp)
  then show ?case
    by (subst (asm) (3) methods_loop.simps)
      (fastforce split: if_splits option.splits prod.splits dest!: get_string_shorter)
qed


lemma parse_inheritance_shorter:
  "parse_inheritance alloc cursor cha sp = Some (rest, cha', sp') \<Longrightarrow> length rest < length cursor"
  by (auto simp: parse_inheritance_def split: option.splits dest!: get_interned_shorter inherit_loop_shorter)

lemma parse_classes_shorter:
  "parse_classes alloc cursor classes sp = Some (rest, classes', sp') \<Longrightarrow> length rest < length cursor"
  by (auto simp: parse_classes_def split: option.splits dest!: get_interned_shorter methods_loop_shorter)

function parse_cha ::
  "(nat \<Rightarrow> name) \<Rightarrow> string \<Rightarrow> classes \<Rightarrow> name graph \<Rightarrow> pool \<Rightarrow> (classes \<times> name graph \<times> pool) option" where
  "parse_cha alloc cursor classes cha sp =
     (if cursor = [] then Some (classes, cha, sp)
      else if hd cursor = CHR ''I'' then
        (case parse_inheritance alloc (drop 2 cursor) cha sp of
           None \<Rightarrow> None
         | Some (rest, cha', sp') \<Rightarrow> parse_cha alloc rest classes cha' sp')
      else if hd cursor = CHR ''M'' then
        (case parse_classes alloc (drop 2 cursor) classes sp of
           None \<Rightarrow> None
         | Some (rest, classes', sp') \<Rightarrow> parse_cha alloc rest classes' cha sp')
      else None)"
  by pat_completeness auto
termination
  by (relation "measure (\<lambda>(_, cursor, _, _, _). length cursor)")
    (auto dest!: parse_inheritance_shorter parse_classes_shorter)

declare parse_cha.simps [simp del]

section \<open>Indirect calls\<close>

definition alloc_icf :: icf where
  "alloc_icf = \<lparr> icf_id = 0, ity = VirtualMethodCall, icf_type = 0, icf_attrs = 0, icf_class_name = 0,
     icf_method_name = 0 \<rparr>"

definition member_attrs :: "string \<Rightarrow> u8" where
  "member_attrs co =
     (if length co = 2 then CONSTANT OR VOLATILE
      else if length co = 1 then if hd co = CHR ''c'' then CONSTANT else VOLATILE else 0)"

text \<open>The description of one call behind its identifier: the kind, one skipped character, the
  strings of the kind.\<close>

definition parse_icf :: "(nat \<Rightarrow> name) \<Rightarrow> icf \<Rightarrow> string \<Rightarrow> pool \<Rightarrow> (icf \<times> string \<times> pool) option" where
  "parse_icf alloc ic cursor sp =
     (case cursor of
        [] \<Rightarrow> None
      | k # _ \<Rightarrow>
          (if k = CHR ''V'' then do {
             (cls, _, c1, sp1) \<leftarrow> get_interned alloc sp (drop 2 cursor) (CHR ''#'');
             (method, _, c2, sp2) \<leftarrow> get_interned alloc sp1 c1 (CHR ''#'');
             Some (ic\<lparr> ity := VirtualMethodCall, icf_class_name := cls, icf_method_name := method \<rparr>, c2, sp2) }
           else if k = CHR ''D'' then do {
             (cls, _, c1, sp1) \<leftarrow> get_interned alloc sp (drop 2 cursor) (CHR ''#'');
             let (method, sp2) = sp_intern_string alloc sp1 ''~'';
             Some (ic\<lparr> ity := VirtualMethodCall, icf_class_name := cls, icf_method_name := method \<rparr>, c1, sp2) }
           else if k = CHR ''P'' then do {
             (cls, _, c1, sp1) \<leftarrow> get_interned alloc sp (drop 2 cursor) (CHR ''#'');
             (co, _, c2) \<leftarrow> get_string_before_symbol c1 (CHR ''#'');
             (ty, _, c3, sp2) \<leftarrow> get_interned alloc sp1 c2 (CHR ''#'');
             Some (ic\<lparr> icf_attrs := member_attrs co, icf_type := ty, ity := PointerToMethodCall,
                       icf_class_name := cls \<rparr>, c3, sp2) }
           else if k = CHR ''N'' then do {
             (ty, _, c1, sp1) \<leftarrow> get_interned alloc sp (drop 2 cursor) (CHR ''#'');
             Some (ic\<lparr> icf_type := ty, ity := NormalCall \<rparr>, c1, sp1) }
           else None))"

lemma parse_icf_shorter:
  "parse_icf alloc ic cursor sp = Some (ic', rest, sp') \<Longrightarrow> length rest < length cursor"
  by (auto simp: parse_icf_def bind_eq_Some_conv Let_def split_beta split: list.splits if_splits
      dest!: get_interned_shorter get_string_shorter)

function parse_icfs :: "(nat \<Rightarrow> name) \<Rightarrow> string \<Rightarrow> icf list \<Rightarrow> pool \<Rightarrow> (icf list \<times> pool) option" where
  "parse_icfs alloc cursor icfs sp =
     (if cursor = [] then Some (icfs, sp)
      else
        (case get_interned alloc sp cursor (CHR ''#'') of
           None \<Rightarrow> None
         | Some (i, _, c1, sp1) \<Rightarrow>
             (case parse_icf alloc (alloc_icf\<lparr> icf_id := i \<rparr>) c1 sp1 of
                None \<Rightarrow> None
              | Some (ic, c2, sp2) \<Rightarrow> parse_icfs alloc c2 (icfs @ [ic]) sp2)))"
  by pat_completeness auto
termination
  by (relation "measure (\<lambda>(_, cursor, _, _). length cursor)")
    (auto dest!: get_interned_shorter parse_icf_shorter)

declare parse_icfs.simps [simp del]

section \<open>Address-taken functions, aliases, virtual tables\<close>

function parse_fats :: "(nat \<Rightarrow> name) \<Rightarrow> string \<Rightarrow> name adj \<Rightarrow> pool \<Rightarrow> (name adj \<times> pool) option" where
  "parse_fats alloc cursor fats sp =
     (if cursor = [] then Some (fats, sp)
      else
        (case get_interned alloc sp cursor NUL of
           None \<Rightarrow> None
         | Some (fat, _, rest, sp') \<Rightarrow>
             parse_fats alloc rest (if dict_find fats fat = None then dict_put fats fat () else fats) sp'))"
  by pat_completeness auto
termination
  by (relation "measure (\<lambda>(_, cursor, _, _). length cursor)") (auto dest!: get_interned_shorter)

function parse_aliases :: "(nat \<Rightarrow> name) \<Rightarrow> string \<Rightarrow> name graph \<Rightarrow> pool \<Rightarrow> (name graph \<times> pool) option" where
  "parse_aliases alloc cursor aliases sp =
     (if cursor = [] then Some (aliases, sp)
      else
        (case get_interned alloc sp cursor (CHR '' '') of
           None \<Rightarrow> None
         | Some (nm, _, c1, sp1) \<Rightarrow>
             (case get_interned alloc sp1 c1 (CHR '' '') of
                None \<Rightarrow> None
              | Some (aliasee, _, c2, sp2) \<Rightarrow> parse_aliases alloc c2 (g_add_edge aliases nm aliasee) sp2)))"
  by pat_completeness auto
termination
  by (relation "measure (\<lambda>(_, cursor, _, _). length cursor)") (auto dest!: get_interned_shorter)

text \<open>\<open>add_node_list\<close> splits a string that was cut off before, so its terminator is there.\<close>

function add_node_list ::
  "(nat \<Rightarrow> name) \<Rightarrow> string \<Rightarrow> char \<Rightarrow> name list \<Rightarrow> pool \<Rightarrow> (name list \<times> pool) option" where
  "add_node_list alloc cursor s nodes sp =
     (case get_interned alloc sp cursor s of
        None \<Rightarrow> None
      | Some (nm, stop, rest, sp') \<Rightarrow>
          if stop then Some (nodes @ [nm], sp') else add_node_list alloc rest s (nodes @ [nm]) sp')"
  by pat_completeness auto
termination
  by (relation "measure (\<lambda>(_, cursor, _, _, _). length cursor)") (auto dest!: get_interned_shorter)

function parse_vtable ::
  "(nat \<Rightarrow> name) \<Rightarrow> string \<Rightarrow> (name, name list) dict \<Rightarrow> pool \<Rightarrow> ((name, name list) dict \<times> pool) option" where
  "parse_vtable alloc cursor vtable sp =
     (if cursor = [] then Some (vtable, sp)
      else
        (case get_interned alloc sp cursor (CHR ''#'') of
           None \<Rightarrow> None
         | Some (ctor, _, c1, sp1) \<Rightarrow>
             (case get_string_before_symbol c1 (CHR 0x0A) of
                None \<Rightarrow> None
              | Some (local, _, c2) \<Rightarrow>
                  (case add_node_list alloc (local @ [NUL]) (CHR ''#'') [] sp1 of
                     None \<Rightarrow> None
                   | Some (vmtd, sp2) \<Rightarrow>
                       parse_vtable alloc c2
                         (if dict_find vtable ctor = None then dict_put vtable ctor vmtd else vtable) sp2))))"
  by pat_completeness auto
termination
  by (relation "measure (\<lambda>(_, cursor, _, _). length cursor)")
    (auto dest!: get_interned_shorter get_string_shorter)

declare parse_fats.simps [simp del] parse_aliases.simps [simp del] add_node_list.simps [simp del]
  parse_vtable.simps [simp del]

section \<open>Functions\<close>

definition alloc_function :: func where
  "alloc_function = \<lparr> f_name = 0, f_class_name = 0, f_method_name = 0, f_type = 0, f_offset = 0,
     f_returns = [], f_dtails = [], f_itails = [] \<rparr>"

text \<open>State of the loop: the function under construction, the finished functions, the constructors
  and the pool.\<close>

type_synonym fstate = "func option \<times> func list \<times> (name, name) dict \<times> pool"

definition parse_nodes ::
  "(nat \<Rightarrow> name) \<Rightarrow> string \<Rightarrow> name list \<Rightarrow> pool \<Rightarrow> (name list \<times> bool \<times> string \<times> pool) option" where
  "parse_nodes alloc cursor nodes sp = do {
     (local, stop, rest) \<leftarrow> get_string_before_symbol cursor (CHR 0x0A);
     (nodes', sp') \<leftarrow> add_node_list alloc (local @ [NUL]) (CHR '' '') nodes sp;
     Some (nodes', stop, rest, sp') }"

text \<open>One round of the switch: the flag \<open>stop\<close>, the cursor and the state after it. Lines about a
  function outside of one dereference the null pointer.\<close>

definition parse_function_line :: "(nat \<Rightarrow> name) \<Rightarrow> string \<Rightarrow> fstate \<Rightarrow> (bool \<times> string \<times> fstate) option" where
  "parse_function_line alloc cursor st =
     (case cursor of
        [] \<Rightarrow> None
      | k # _ \<Rightarrow>
        (let cur = drop 2 cursor; (fo, fs, ctor, sp) = st in
           if k = CHR ''{'' then do {
             (nm, stop, c1, sp1) \<leftarrow> get_interned alloc sp cur (CHR 0x0A);
             Some (stop, c1, Some (alloc_function\<lparr> f_name := nm \<rparr>), fs, ctor, sp1) }
           else (case fo of None \<Rightarrow> None | Some f \<Rightarrow>
           if k = CHR ''N'' then do {
             (cls, _, c1, sp1) \<leftarrow> get_interned alloc sp cur (CHR ''#'');
             (method, stop, c2, sp2) \<leftarrow> get_interned alloc sp1 c1 (CHR 0x0A);
             Some (stop, c2, Some (f\<lparr> f_class_name := cls, f_method_name := method \<rparr>), fs, ctor, sp2) }
           else if k = CHR ''D'' then do {
             (cls, stop, c1, sp1) \<leftarrow> get_interned alloc sp cur (CHR 0x0A);
             let (method, sp2) = sp_intern_string alloc sp1 ''~'';
             Some (stop, c1, Some (f\<lparr> f_class_name := cls, f_method_name := method \<rparr>), fs, ctor, sp2) }
           else if k = CHR ''Y'' then do {
             (ty, stop, c1, sp1) \<leftarrow> get_interned alloc sp cur (CHR 0x0A);
             Some (stop, c1, Some (f\<lparr> f_type := ty \<rparr>), fs, ctor, sp1) }
           else if k = CHR ''T'' then do {
             (ns, stop, c1, sp1) \<leftarrow> parse_nodes alloc cur (f_dtails f) sp;
             Some (stop, c1, Some (f\<lparr> f_dtails := ns \<rparr>), fs, ctor, sp1) }
           else if k = CHR ''I'' then do {
             (ns, stop, c1, sp1) \<leftarrow> parse_nodes alloc cur (f_itails f) sp;
             Some (stop, c1, Some (f\<lparr> f_itails := ns \<rparr>), fs, ctor, sp1) }
           else if k = CHR ''R'' then do {
             (ns, stop, c1, sp1) \<leftarrow> parse_nodes alloc cur (f_returns f) sp;
             Some (stop, c1, Some (f\<lparr> f_returns := ns \<rparr>), fs, ctor, sp1) }
           else if k = CHR ''C'' then do {
             (nm, stop, c1, sp1) \<leftarrow> get_interned alloc sp cur (CHR 0x0A);
             Some (stop, c1, Some f, fs,
                   (if dict_find ctor (f_name f) = None then dict_put ctor (f_name f) nm else ctor), sp1) }
           else if k = CHR ''}'' then Some (True, cur, None, fs @ [f], ctor, sp)
           else None)))"

lemma parse_nodes_shorter:
  "parse_nodes alloc cursor nodes sp = Some (ns, stop, rest, sp') \<Longrightarrow> length rest < length cursor"
  by (auto simp: parse_nodes_def bind_eq_Some_conv dest!: get_string_shorter)

lemma parse_function_line_shorter:
  "parse_function_line alloc cursor st = Some (stop, rest, st') \<Longrightarrow> length rest < length cursor"
  by (auto simp: parse_function_line_def bind_eq_Some_conv Let_def split_beta split: list.splits if_splits option.splits
      dest!: get_interned_shorter parse_nodes_shorter)

text \<open>The two nested loops: the end of the section is tested only after \<open>stop\<close>.\<close>

function parse_functions_loop ::
  "(nat \<Rightarrow> name) \<Rightarrow> string \<Rightarrow> bool \<Rightarrow> fstate \<Rightarrow> fstate option" where
  "parse_functions_loop alloc cursor stop st =
     (if stop \<and> cursor = [] then Some st
      else
        (case parse_function_line alloc cursor st of
           None \<Rightarrow> None
         | Some (stop', rest, st') \<Rightarrow> parse_functions_loop alloc rest stop' st'))"
  by pat_completeness auto
termination
  by (relation "measure (\<lambda>(_, cursor, _, _). length cursor)") (auto dest: parse_function_line_shorter)

declare parse_functions_loop.simps [simp del]

definition parse_functions ::
  "(nat \<Rightarrow> name) \<Rightarrow> string \<Rightarrow> func list \<Rightarrow> (name, name) dict \<Rightarrow> pool \<Rightarrow> (func list \<times> (name, name) dict \<times> pool) option" where
  "parse_functions alloc content functions ctor sp =
     map_option snd (parse_functions_loop alloc content True (None, functions, ctor, sp))"

section \<open>The pool\<close>

text \<open>Every entry of the pool is the copy made for it, and no string has two.\<close>

definition pool_wf :: "(nat \<Rightarrow> name) \<Rightarrow> pool \<Rightarrow> bool" where
  "pool_wf alloc sp \<longleftrightarrow> dict_wf sp \<and> map snd sp = map alloc [0..<length sp]"

definition pool_le :: "pool \<Rightarrow> pool \<Rightarrow> bool" where
  "pool_le sp sp' \<longleftrightarrow> (\<exists>ext. sp' = sp @ ext)"

lemma pool_le_refl [simp]: "pool_le sp sp" by (simp add: pool_le_def)

lemma pool_le_trans: "pool_le a b \<Longrightarrow> pool_le b c \<Longrightarrow> pool_le a c" by (auto simp: pool_le_def)

lemma pool_le_find: "pool_le sp sp' \<Longrightarrow> dict_find sp s = Some h \<Longrightarrow> dict_find sp' s = Some h"
  by (auto simp: pool_le_def dict_find_def map_add_def)

lemma intern_le [simp]: "pool_le sp (snd (sp_intern_string alloc sp s))"
  by (auto simp: pool_le_def sp_intern_string_def sp_add_cpy_or_nothing_def sp_add_cpy_def dict_put_def Let_def
      split: option.splits)

lemma intern_find [simp]: "dict_find (snd (sp_intern_string alloc sp s)) s = Some (fst (sp_intern_string alloc sp s))"
  by (auto simp: sp_intern_string_def sp_add_cpy_or_nothing_def sp_add_cpy_def dict_put_def Let_def sp_str_handle_def
      dict_find_def map_add_def split: option.splits)

lemma intern_length: "length (snd (sp_intern_string alloc sp s)) \<le> Suc (length sp)"
  by (auto simp: sp_intern_string_def sp_add_cpy_or_nothing_def sp_add_cpy_def dict_put_def Let_def split: option.splits)

lemma intern_wf: "pool_wf alloc sp \<Longrightarrow> pool_wf alloc (snd (sp_intern_string alloc sp s))"
  by (auto simp: pool_wf_def sp_intern_string_def sp_add_cpy_or_nothing_def sp_add_cpy_def dict_put_def Let_def
      sp_str_handle_def dict_find_def dict_wf_def map_of_eq_None_iff image_iff split: option.splits)

lemma pool_handles_inj:
  assumes "pool_wf alloc sp" and "inj_on alloc {..<length sp}" and "dict_find sp s = Some h" and "dict_find sp s' = Some h"
  shows "s = s'"
proof -
  have "distinct (map snd sp)" using assms(1,2) by (simp add: pool_wf_def distinct_map atLeast0LessThan)
  moreover have "(s, h) \<in> set sp" "(s', h) \<in> set sp"
    using assms(3,4) by (auto simp: dict_find_def dest: map_of_SomeD)
  ultimately show ?thesis
    by (metis distinct_map inj_on_eq_iff prod.inject snd_conv)
qed

text \<open>C26. Interning: two strings get the same pointer exactly when they are equal, pointers that were handed
  out before keep their strings, and the pool stays well-formed.\<close>

theorem sp_intern_string_injective:
  assumes wf: "pool_wf alloc sp" and inj: "inj_on alloc {..<length sp + 2}"
    and s: "sp_intern_string alloc sp s = (h, sp1)" and s': "sp_intern_string alloc sp1 s' = (h', sp2)"
  shows "pool_wf alloc sp2 \<and> (h = h' \<longleftrightarrow> s = s') \<and>
    (\<forall>t k. dict_find sp t = Some k \<longrightarrow> dict_find sp2 t = Some k)"
proof (intro conjI iffI allI impI)
  have wf1: "pool_wf alloc sp1" and le1: "pool_le sp sp1" and f1: "dict_find sp1 s = Some h"
    using intern_wf [OF wf, of s] intern_le [of sp alloc s] intern_find [of alloc sp s] s by simp_all
  show wf2: "pool_wf alloc sp2" using intern_wf [OF wf1, of s'] s' by simp
  have le2: "pool_le sp1 sp2" and f2: "dict_find sp2 s' = Some h'"
    using intern_le [of sp1 alloc s'] intern_find [of alloc sp1 s'] s' by simp_all
  have "length sp2 \<le> length sp + 2"
    using intern_length [of alloc sp s] intern_length [of alloc sp1 s'] s s' by simp
  then have inj2: "inj_on alloc {..<length sp2}" using inj by (auto intro: inj_on_subset)
  show "s = s'" if "h = h'" using pool_handles_inj [OF wf2 inj2 pool_le_find [OF le2 f1]] f2 that by simp
  show "h = h'" if "s = s'" using pool_le_find [OF le2 f1] f2 that by simp
  show "dict_find sp2 t = Some k" if "dict_find sp t = Some k" for t k
    using pool_le_find [OF pool_le_trans [OF le1 le2] that] .
qed

theorem sp_intern_string_injective_witness:
  "sp_intern_string (\<lambda>k. of_nat (8 * k + 8)) [(''a'', 8)] ''b'' = (16, [(''a'', 8), (''b'', 16)]) \<and>
   sp_intern_string (\<lambda>k. of_nat (8 * k + 8)) [(''a'', 8), (''b'', 16)] ''a'' = (8, [(''a'', 8), (''b'', 16)]) \<and>
   ((16 :: name) = 8 \<longleftrightarrow> ''b'' = ''a'')"
proof -
  let ?alloc = "\<lambda>k. of_nat (8 * k + 8) :: name"
  have s: "sp_intern_string ?alloc [(''a'', 8)] ''b'' = (16, [(''a'', 8), (''b'', 16)])"
    "sp_intern_string ?alloc [(''a'', 8), (''b'', 16)] ''a'' = (8, [(''a'', 8), (''b'', 16)])"
    by (simp_all add: sp_intern_string_def sp_add_cpy_or_nothing_def sp_str_handle_def sp_add_cpy_def dict_find_def dict_put_def)
  have wf: "pool_wf ?alloc [(''a'', 8)]" by (simp add: pool_wf_def dict_wf_def)
  have inj: "inj_on ?alloc {..<length [(''a'', 8 :: name)] + 2}"
    by (auto simp: inj_on_def less_Suc_eq)
  show ?thesis using sp_intern_string_injective [OF wf inj s] s by blast
qed

section \<open>Cutting and interning\<close>

lemma get_interned_append:
  assumes "\<forall>c \<in> set str. c \<noteq> s \<and> c \<noteq> NUL" and "d = s \<or> d = NUL"
  shows "get_interned alloc sp (str @ d # rest) s =
    Some (fst (sp_intern_string alloc sp str), d = NUL, rest, snd (sp_intern_string alloc sp str))"
  using get_string_append [OF assms] by (simp add: get_interned_def split: prod.split)

fun sep :: "char \<Rightarrow> string list \<Rightarrow> string" where
  "sep s [] = []"
| "sep s [w] = w"
| "sep s (w # ws) = w @ s # sep s ws"

lemma add_node_list_sep:
  assumes "ws \<noteq> []" and "\<forall>w \<in> set ws. \<forall>c \<in> set w. c \<noteq> s \<and> c \<noteq> NUL" and "s \<noteq> NUL"
  shows "\<exists>hs sp'. add_node_list alloc (sep s ws @ [NUL]) s nodes sp = Some (nodes @ hs, sp') \<and> pool_le sp sp' \<and>
    list_all2 (\<lambda>w h. dict_find sp' w = Some h) ws hs"
  using assms
proof (induction s ws arbitrary: nodes sp rule: sep.induct)
  case (1 s)
  then show ?case by simp
next
  case (2 s w)
  then show ?case
    by (subst add_node_list.simps) (simp add: get_interned_append)
next
  case (3 s w w' ws)
  let ?h = "fst (sp_intern_string alloc sp w)" and ?sp = "snd (sp_intern_string alloc sp w)"
  obtain hs sp' where IH: "add_node_list alloc (sep s (w' # ws) @ [NUL]) s (nodes @ [?h]) ?sp = Some ((nodes @ [?h]) @ hs, sp')"
    "pool_le ?sp sp'" "list_all2 (\<lambda>w h. dict_find sp' w = Some h) (w' # ws) hs"
    using "3.IH" [of "nodes @ [?h]" ?sp] "3.prems" by auto
  have "add_node_list alloc (sep s (w # w' # ws) @ [NUL]) s nodes sp = Some (nodes @ ?h # hs, sp')"
    using "3.prems" IH(1) get_interned_append [of w s s alloc sp "sep s (w' # ws) @ [NUL]"]
    by (subst add_node_list.simps) simp
  moreover have "dict_find sp' w = Some ?h" using IH(2) pool_le_find by auto
  moreover have "pool_le sp sp'" using pool_le_trans [OF intern_le IH(2)] .
  ultimately show ?case using IH(3) by (intro exI [of _ "?h # hs"] exI [of _ sp']) simp
qed

section \<open>Lines of a function description\<close>

abbreviation nl :: char where "nl \<equiv> CHR 0x0A"

definition plain :: "string \<Rightarrow> bool" where
  "plain w \<longleftrightarrow> (\<forall>c \<in> set w. c \<noteq> nl \<and> c \<noteq> CHR '' '' \<and> c \<noteq> CHR ''#'' \<and> c \<noteq> NUL)"

text \<open>A string that fits on a line.\<close>

definition one_line :: "string \<Rightarrow> bool" where
  "one_line w \<longleftrightarrow> nl \<notin> set w \<and> NUL \<notin> set w"

lemma list_all2_le:
  "pool_le sp sp' \<Longrightarrow> list_all2 (\<lambda>w h. dict_find sp w = Some h) ws hs \<Longrightarrow>
     list_all2 (\<lambda>w h. dict_find sp' w = Some h) ws hs"
  by (erule list_all2_mono) (rule pool_le_find)

lemma plainD:
  "plain w \<Longrightarrow> \<forall>c \<in> set w. c \<noteq> nl \<and> c \<noteq> NUL"
  "plain w \<Longrightarrow> \<forall>c \<in> set w. c \<noteq> CHR ''#'' \<and> c \<noteq> NUL"
  "plain w \<Longrightarrow> \<forall>c \<in> set w. c \<noteq> CHR '' '' \<and> c \<noteq> NUL"
  by (auto simp: plain_def)

lemma delimiters_NUL [simp]: "nl \<noteq> NUL" "CHR ''#'' \<noteq> NUL" "CHR '' '' \<noteq> NUL"
  by (simp_all add: NUL_def)

lemma sep_plain: "\<forall>w \<in> set ws. plain w \<Longrightarrow> \<forall>c \<in> set (sep (CHR '' '') ws). c \<noteq> nl \<and> c \<noteq> NUL"
proof (induction ws rule: induct_list012)
  case (3 w w' ws)
  then have "\<forall>c \<in> set w. c \<noteq> nl \<and> c \<noteq> NUL" using plainD(1) [of w] by simp
  then show ?case using 3 by (simp add: ball_Un)
qed (simp_all add: plainD)

lemma loop_line:
  "parse_function_line alloc cursor st = Some (stop', rest, st') \<Longrightarrow>
     parse_functions_loop alloc cursor stop st = parse_functions_loop alloc rest stop' st'"
  by (subst parse_functions_loop.simps) (auto simp: parse_function_line_def split: if_splits list.splits)

lemma parse_nodes_line:
  assumes "ws \<noteq> []" and "\<forall>w \<in> set ws. plain w"
  shows "\<exists>hs sp'. parse_nodes alloc (sep (CHR '' '') ws @ nl # rest) nodes sp = Some (nodes @ hs, False, rest, sp') \<and>
    pool_le sp sp' \<and> list_all2 (\<lambda>w h. dict_find sp' w = Some h) ws hs"
proof -
  have "\<forall>w \<in> set ws. \<forall>c \<in> set w. c \<noteq> CHR '' '' \<and> c \<noteq> NUL" using assms(2) plainD(3) by blast
  from add_node_list_sep [OF assms(1) this delimiters_NUL(3), of alloc nodes sp]
  show ?thesis
    using get_string_append [OF sep_plain [OF assms(2)], of nl rest] by (auto simp: parse_nodes_def)
qed

lemma one_line_cut: "one_line w \<Longrightarrow> \<forall>c \<in> set w. c \<noteq> nl \<and> c \<noteq> NUL"
  by (auto simp: one_line_def)

lemma line_name:
  assumes "one_line nm"
  shows "parse_functions_loop alloc (''{ '' @ nm @ nl # rest) stop (fo, fs, ctor, sp) =
    parse_functions_loop alloc rest False
      (Some (alloc_function\<lparr> f_name := fst (sp_intern_string alloc sp nm) \<rparr>), fs, ctor, snd (sp_intern_string alloc sp nm))"
  using get_interned_append [OF one_line_cut [OF assms], of nl alloc sp rest]
  by (intro loop_line) (simp add: parse_function_line_def)

lemma line_type:
  assumes "one_line ty"
  shows "parse_functions_loop alloc (''Y '' @ ty @ nl # rest) stop (Some f, fs, ctor, sp) =
    parse_functions_loop alloc rest False
      (Some (f\<lparr> f_type := fst (sp_intern_string alloc sp ty) \<rparr>), fs, ctor, snd (sp_intern_string alloc sp ty))"
  using get_interned_append [OF one_line_cut [OF assms], of nl alloc sp rest]
  by (intro loop_line) (simp add: parse_function_line_def)

lemma line_dtor:
  assumes "one_line c"
  shows "\<exists>h1 h2 sp'. parse_functions_loop alloc (''D '' @ c @ nl # rest) stop (Some f, fs, ctor, sp) =
    parse_functions_loop alloc rest False (Some (f\<lparr> f_class_name := h1, f_method_name := h2 \<rparr>), fs, ctor, sp') \<and>
    pool_le sp sp' \<and> dict_find sp' c = Some h1 \<and> dict_find sp' ''~'' = Some h2"
proof -
  let ?sp1 = "snd (sp_intern_string alloc sp c)"
  let ?sp2 = "snd (sp_intern_string alloc ?sp1 ''~'')"
  have "parse_functions_loop alloc (''D '' @ c @ nl # rest) stop (Some f, fs, ctor, sp) =
    parse_functions_loop alloc rest False (Some (f\<lparr> f_class_name := fst (sp_intern_string alloc sp c),
      f_method_name := fst (sp_intern_string alloc ?sp1 ''~'') \<rparr>), fs, ctor, ?sp2)"
    using get_interned_append [OF one_line_cut [OF assms], of nl alloc sp rest]
    by (intro loop_line) (simp add: parse_function_line_def split_beta)
  moreover have "pool_le sp ?sp2" using pool_le_trans [OF intern_le intern_le] .
  moreover have "dict_find ?sp2 c = Some (fst (sp_intern_string alloc sp c))"
    using pool_le_find [OF intern_le intern_find] .
  ultimately show ?thesis using intern_find by blast
qed

text \<open>A constructor is entered under its function unless the function has an entry.\<close>

lemma line_ctor:
  assumes "one_line c"
  shows "parse_functions_loop alloc (''C '' @ c @ nl # rest) stop (Some f, fs, ctor, sp) =
    parse_functions_loop alloc rest False (Some f, fs,
      (if dict_find ctor (f_name f) = None then dict_put ctor (f_name f) (fst (sp_intern_string alloc sp c)) else ctor),
      snd (sp_intern_string alloc sp c))"
  using get_interned_append [OF one_line_cut [OF assms], of nl alloc sp rest]
  by (intro loop_line) (simp add: parse_function_line_def)

lemma line_method:
  assumes "CHR ''#'' \<notin> set c" and "NUL \<notin> set c" and "one_line m"
  shows "\<exists>h1 h2 sp'. parse_functions_loop alloc (''N '' @ c @ ''#'' @ m @ nl # rest) stop (Some f, fs, ctor, sp) =
    parse_functions_loop alloc rest False (Some (f\<lparr> f_class_name := h1, f_method_name := h2 \<rparr>), fs, ctor, sp') \<and>
    pool_le sp sp' \<and> dict_find sp' c = Some h1 \<and> dict_find sp' m = Some h2"
proof -
  have cls: "\<forall>x \<in> set c. x \<noteq> CHR ''#'' \<and> x \<noteq> NUL" using assms(1,2) by auto
  let ?sp1 = "snd (sp_intern_string alloc sp c)"
  let ?sp2 = "snd (sp_intern_string alloc ?sp1 m)"
  have "parse_functions_loop alloc (''N '' @ c @ ''#'' @ m @ nl # rest) stop (Some f, fs, ctor, sp) =
    parse_functions_loop alloc rest False (Some (f\<lparr> f_class_name := fst (sp_intern_string alloc sp c),
      f_method_name := fst (sp_intern_string alloc ?sp1 m) \<rparr>), fs, ctor, ?sp2)"
    using get_interned_append [OF cls, of "CHR ''#''" alloc sp "m @ nl # rest"]
      get_interned_append [OF one_line_cut [OF assms(3)], of nl alloc ?sp1 rest]
    by (intro loop_line) (simp add: parse_function_line_def)
  moreover have "pool_le sp ?sp2" using pool_le_trans [OF intern_le intern_le] .
  moreover have "dict_find ?sp2 c = Some (fst (sp_intern_string alloc sp c))"
    using pool_le_find [OF intern_le intern_find] .
  ultimately show ?thesis using intern_find by blast
qed

section \<open>Methods of a class\<close>

definition attrs_of :: "string \<Rightarrow> u8" where
  "attrs_of q = fold (\<lambda>c a. a OR qualifier c) q 0"

lemma attr_walk_quals:
  "length q \<le> counter \<Longrightarrow> CHR ''@'' \<notin> set q \<Longrightarrow>
     attr_walk (nm @ CHR ''@'' # q @ done) (length nm + length q) counter a =
       (length nm, fold (\<lambda>c a. a OR qualifier c) (rev q) a)"
proof (induction q arbitrary: counter a "done" rule: rev_induct)
  case Nil
  then show ?case by (cases nm) (simp_all add: nth_append)
next
  case (snoc c q)
  then obtain k where k: "counter = Suc k" by (cases counter) auto
  have nth: "(nm @ CHR ''@'' # (q @ [c]) @ done) ! Suc (length nm + length q) = c"
    by (simp add: nth_append)
  have "attr_walk (nm @ CHR ''@'' # q @ c # done) (length nm + length q) k (a OR qualifier c) =
      (length nm, fold (\<lambda>c a. a OR qualifier c) (rev q) (a OR qualifier c))"
    using snoc.prems k by (intro snoc.IH) auto
  then show ?case using snoc.prems k nth by auto
qed

lemma fold_or_rev: "fold (\<lambda>c a. a OR qualifier c) (rev q) a = fold (\<lambda>c a. a OR qualifier c) q a"
  by (rule fun_cong [OF fold_rev]) (auto simp: fun_eq_iff ac_simps)

lemma get_cpp_method_attr_quals:
  "length q \<le> 5 \<Longrightarrow> CHR ''@'' \<notin> set q \<Longrightarrow> get_cpp_method_attr (nm @ CHR ''@'' # q) = Some (nm, attrs_of q)"
  using attr_walk_quals [of q 5 nm "[]" 0]
  by (simp add: get_cpp_method_attr_def attrs_of_def fold_or_rev nth_append)

text \<open>The methods of a class as the compiler lists them: name and qualifiers.\<close>

type_synonym method_text = "string \<times> string"

definition unparse_method :: "method_text \<Rightarrow> string" where
  "unparse_method m = fst m @ CHR ''@'' # snd m"

definition unparse_class :: "string \<Rightarrow> method_text list \<Rightarrow> string" where
  "unparse_class c ms = sep (CHR ''#'') (c # map unparse_method ms) @ [NUL]"

definition method_ok :: "method_text \<Rightarrow> bool" where
  "method_ok m \<longleftrightarrow> plain (fst m) \<and> set (snd m) \<subseteq> set ''cosv'' \<and> length (snd m) \<le> 5"

text \<open>The qualifiers collected so far, as a map from names.\<close>

fun consistent :: "(string \<rightharpoonup> u8) \<Rightarrow> method_text list \<Rightarrow> bool" where
  "consistent D [] \<longleftrightarrow> True"
| "consistent D (m # ms) \<longleftrightarrow>
     (case D (fst m) of None \<Rightarrow> consistent (D(fst m \<mapsto> attrs_of (snd m))) ms
      | Some a \<Rightarrow> a = attrs_of (snd m) \<and> consistent D ms)"

lemma consistent_iff:
  "consistent D ms \<longleftrightarrow>
     (\<forall>m \<in> set ms. \<forall>a. D (fst m) = Some a \<longrightarrow> a = attrs_of (snd m)) \<and>
     (\<forall>m \<in> set ms. \<forall>m' \<in> set ms. fst m = fst m' \<longrightarrow> attrs_of (snd m) = attrs_of (snd m'))"
proof (induction ms arbitrary: D)
  case Nil
  then show ?case by simp
next
  case (Cons m ms)
  show ?case
  proof (cases "D (fst m)")
    case None
    have pt: "((fst m' = fst m \<longrightarrow> P) \<and> (fst m' \<noteq> fst m \<longrightarrow> (\<forall>a. D (fst m') = Some a \<longrightarrow> Q a))) \<longleftrightarrow>
        (\<forall>a. D (fst m') = Some a \<longrightarrow> Q a) \<and> (fst m' = fst m \<longrightarrow> P)" for P Q m'
      using None by (cases "fst m' = fst m") simp_all
    show ?thesis using None by (simp add: Cons.IH pt ball_conj_distrib) (rule iffI; elim conjE; intro conjI; (assumption | metis))
  next
    case (Some a)
    have "attrs_of (snd m') = a"
      if "\<forall>m \<in> set ms. \<forall>a. D (fst m) = Some a \<longrightarrow> a = attrs_of (snd m)" "m' \<in> set ms" "fst m' = fst m" for m'
      using that Some by fastforce
    then show ?thesis using Some by (simp add: Cons.IH) (rule iffI; elim conjE; intro conjI ballI; (assumption | metis))
  qed
qed

definition represents :: "pool \<Rightarrow> (name, u8) dict \<Rightarrow> (string \<rightharpoonup> u8) \<Rightarrow> bool" where
  "represents sp M D \<longleftrightarrow>
     (\<forall>n a. D n = Some a \<longrightarrow> (\<exists>h. dict_find sp n = Some h \<and> dict_find M h = Some a)) \<and>
     (\<forall>h a. dict_find M h = Some a \<longrightarrow> (\<exists>n. dict_find sp n = Some h \<and> D n = Some a))"

lemma represents_intern:
  assumes "represents sp M D" shows "represents (snd (sp_intern_string alloc sp s)) M D"
  using assms pool_le_find [OF intern_le [of sp alloc s]] unfolding represents_def by meson

lemma represents_find:
  assumes "represents sp M D" and "pool_wf alloc sp" and "inj_on alloc {..<length sp}" and "dict_find sp n = Some h"
  shows "dict_find M h = D n"
proof (cases "D n")
  case None
  show ?thesis
  proof (rule ccontr)
    assume "dict_find M h \<noteq> D n"
    then obtain a where "dict_find M h = Some a" using None by auto
    then obtain n' where "dict_find sp n' = Some h" "D n' = Some a" using assms(1) unfolding represents_def by blast
    then show False using pool_handles_inj [OF assms(2,3)] assms(4) None by force
  qed
next
  case (Some a)
  then show ?thesis using assms(1,4) by (fastforce simp: represents_def)
qed

lemma represents_put:
  assumes "represents sp M D" and "dict_find sp n = Some h" and "dict_find M h = None"
  shows "represents sp (dict_put M h a) (D(n \<mapsto> a))"
proof -
  have find: "dict_find (dict_put M h a) = (dict_find M)(h \<mapsto> a)"
    using assms(3) by (intro dict_find_add_new) (simp add: dict_find_None_iff)
  have none: "D n = None"
  proof (rule ccontr)
    assume "D n \<noteq> None"
    then obtain h' where "dict_find sp n = Some h'" "dict_find M h' = D n" using assms(1) by (fastforce simp: represents_def)
    then show False using assms(2,3) \<open>D n \<noteq> None\<close> by simp
  qed
  show ?thesis unfolding represents_def find
  proof (intro conjI allI impI)
    fix n' a' assume *: "(D(n \<mapsto> a)) n' = Some a'"
    show "\<exists>h'. dict_find sp n' = Some h' \<and> ((dict_find M)(h \<mapsto> a)) h' = Some a'"
    proof (cases "n' = n")
      case True
      then show ?thesis using * assms(2) by simp
    next
      case False
      then have "D n' = Some a'" using * by simp
      then obtain h' where "dict_find sp n' = Some h'" "dict_find M h' = Some a'" using assms(1) unfolding represents_def by blast
      then show ?thesis using assms(3) by (intro exI [of _ h']) auto
    qed
  next
    fix h' a' assume *: "((dict_find M)(h \<mapsto> a)) h' = Some a'"
    show "\<exists>n'. dict_find sp n' = Some h' \<and> (D(n \<mapsto> a)) n' = Some a'"
    proof (cases "h' = h")
      case True
      then show ?thesis using * assms(2) by (intro exI [of _ n]) simp
    next
      case False
      then have "dict_find M h' = Some a'" using * by simp
      then obtain n' where "dict_find sp n' = Some h'" "D n' = Some a'" using assms(1) unfolding represents_def by blast
      then show ?thesis using none by (intro exI [of _ n']) auto
    qed
  qed
qed

definition collect :: "(string \<rightharpoonup> u8) \<Rightarrow> method_text list \<Rightarrow> (string \<rightharpoonup> u8)" where
  "collect D ms = fold (\<lambda>m D. D(fst m \<mapsto> attrs_of (snd m))) ms D"

lemma collect_simps [simp]: "collect D [] = D" "collect D (m # ms) = collect (D(fst m \<mapsto> attrs_of (snd m))) ms"
  by (simp_all add: collect_def)

lemma method_text_plain:
  assumes "method_ok m" shows "\<forall>c \<in> set (unparse_method m). c \<noteq> CHR ''#'' \<and> c \<noteq> NUL"
proof -
  have q: "set (snd m) \<subseteq> set ''cosv''" and p: "plain (fst m)" using assms by (auto simp: method_ok_def)
  have "\<forall>c \<in> set ''cosv''. c \<noteq> CHR ''#'' \<and> c \<noteq> NUL" by (simp add: NUL_def)
  then have "\<forall>c \<in> set (snd m). c \<noteq> CHR ''#'' \<and> c \<noteq> NUL" using q by blast
  moreover have "CHR ''@'' \<noteq> NUL" by (simp add: NUL_def)
  ultimately show ?thesis using plainD(2) [OF p] by (simp add: unparse_method_def ball_Un)
qed

lemma method_text_attr: "method_ok m \<Longrightarrow> get_cpp_method_attr (unparse_method m) = Some (fst m, attrs_of (snd m))"
  unfolding unparse_method_def by (rule get_cpp_method_attr_quals) (auto simp: method_ok_def)

lemma methods_loop_step:
  assumes "method_ok m" and "d = CHR ''#'' \<or> d = NUL" and "dict_find classes cls = Some M"
  shows "methods_loop alloc cls False (unparse_method m @ d # cs) classes sp =
      (case sp_intern_string alloc sp (fst m) of (h, sp1) \<Rightarrow>
         (case dict_find M h of
            None \<Rightarrow> methods_loop alloc cls (d = NUL) cs (dict_set classes cls (dict_put M h (attrs_of (snd m)))) sp1
          | Some a \<Rightarrow> if a \<noteq> attrs_of (snd m) then None else methods_loop alloc cls (d = NUL) cs classes sp1))"
  using get_string_append [OF method_text_plain [OF assms(1)] assms(2), of cs] method_text_attr [OF assms(1)] assms(3)
  by (subst methods_loop.simps) (simp split: prod.split option.split)

lemma methods_loop_le:
  "methods_loop alloc cls stop cursor classes sp = Some (r, classes', sp') \<Longrightarrow> pool_le sp sp'"
proof (induction alloc cls stop cursor classes sp rule: methods_loop.induct)
  case (1 alloc cls stop cursor classes sp)
  show ?case
  proof (cases stop)
    case True
    then show ?thesis using "1.prems" by (subst (asm) methods_loop.simps) simp
  next
    case False
    then obtain str stop' rest where g: "get_string_before_symbol cursor (CHR ''#'') = Some (str, stop', rest)"
      using "1.prems" by (subst (asm) methods_loop.simps) (auto split: option.splits)
    then obtain nm attrs where a: "get_cpp_method_attr str = Some (nm, attrs)"
      using "1.prems" False by (subst (asm) methods_loop.simps) (auto split: option.splits)
    obtain h sp1 where h: "sp_intern_string alloc sp nm = (h, sp1)" by fastforce
    obtain M where M: "dict_find classes cls = Some M"
      using "1.prems" False g a h by (subst (asm) methods_loop.simps) (auto split: option.splits)
    have "pool_le sp sp1" using intern_le [of sp alloc nm] h by simp
    moreover have "pool_le sp1 sp'"
      using "1.IH" [OF False g refl refl a refl h [symmetric] M] "1.prems" False g a h M
      by (subst (asm) (3) methods_loop.simps) (auto split: option.splits if_splits)
    ultimately show ?thesis by (rule pool_le_trans)
  qed
qed

lemma sep_Cons: "sep s (w # ws) @ z = w @ (case ws of [] \<Rightarrow> z | _ \<Rightarrow> s # sep s ws @ z)"
  by (cases ws) simp_all

lemma methods_loop_methods:
  assumes "pool_wf alloc sp" and "inj_on alloc {..<length sp + length ms}" and "ms \<noteq> []" and "\<forall>m \<in> set ms. method_ok m"
    and "dict_find classes cls = Some M" and "represents sp M D"
  shows "case methods_loop alloc cls False (sep (CHR ''#'') (map unparse_method ms) @ NUL # rest) classes sp of
      None \<Rightarrow> \<not> consistent D ms
    | Some (r, classes', sp') \<Rightarrow> consistent D ms \<and> r = rest \<and>
        (\<exists>M'. dict_find classes' cls = Some M' \<and> represents sp' M' (collect D ms))"
  using assms
proof (induction ms arbitrary: sp classes M D)
  case Nil
  then show ?case by simp
next
  case (Cons m ms)
  obtain h sp1 where h: "sp_intern_string alloc sp (fst m) = (h, sp1)" by fastforce
  have wf1: "pool_wf alloc sp1" and f1: "dict_find sp1 (fst m) = Some h" and len: "length sp1 \<le> Suc (length sp)"
    using intern_wf [OF Cons.prems(1), of "fst m"] intern_find [of alloc sp "fst m"] intern_length [of alloc sp "fst m"] h by simp_all
  have inj1: "inj_on alloc {..<length sp1}" and inj2: "inj_on alloc {..<length sp1 + length ms}"
    using len by (auto intro: inj_on_subset [OF Cons.prems(2)])
  have rep1: "represents sp1 M D" using represents_intern [OF Cons.prems(6), of alloc "fst m"] h by simp
  have find: "dict_find M h = D (fst m)" using represents_find [OF rep1 wf1 inj1 f1] .
  define d where "d = (if ms = [] then NUL else CHR ''#'')"
  define cs where "cs = (if ms = [] then rest else sep (CHR ''#'') (map unparse_method ms) @ NUL # rest)"
  have d: "d = CHR ''#'' \<or> d = NUL" "d = NUL \<longleftrightarrow> ms = []" by (simp_all add: d_def)
  have "sep (CHR ''#'') (map unparse_method (m # ms)) @ NUL # rest = unparse_method m @ d # cs"
    by (simp add: sep_Cons d_def cs_def split: list.split)
  then have step: "methods_loop alloc cls False (sep (CHR ''#'') (map unparse_method (m # ms)) @ NUL # rest) classes sp =
      (case D (fst m) of
         None \<Rightarrow> methods_loop alloc cls (ms = []) cs (dict_set classes cls (dict_put M h (attrs_of (snd m)))) sp1
       | Some a \<Rightarrow> if a \<noteq> attrs_of (snd m) then None else methods_loop alloc cls (ms = []) cs classes sp1)"
    using methods_loop_step [OF _ d(1) Cons.prems(5), of m alloc cs sp] Cons.prems(4) unfolding d(2)
    by (simp add: h find)
  have fin: "case methods_loop alloc cls (ms = []) cs classes1 sp1 of
      None \<Rightarrow> \<not> consistent D1 ms
    | Some (r, classes', sp') \<Rightarrow> consistent D1 ms \<and> r = rest \<and>
        (\<exists>M'. dict_find classes' cls = Some M' \<and> represents sp' M' (collect D1 ms))"
    if "dict_find classes1 cls = Some M1" "represents sp1 M1 D1" for classes1 M1 D1
  proof (cases "ms = []")
    case True
    then show ?thesis using that by (subst methods_loop.simps) (simp add: cs_def collect_def)
  next
    case False
    then show ?thesis using Cons.IH [OF wf1 inj2 False _ that] Cons.prems(4) by (simp add: cs_def)
  qed
  show ?case
  proof (cases "D (fst m)")
    case None
    let ?M1 = "dict_put M h (attrs_of (snd m))"
    have find1: "dict_find (dict_set classes cls ?M1) cls = Some ?M1"
      using dict_find_SomeD [OF Cons.prems(5)] by (simp add: dict_simps)
    have rep2: "represents sp1 ?M1 (D(fst m \<mapsto> attrs_of (snd m)))"
      using represents_put [OF rep1 f1] find None by simp
    have cons: "consistent D (m # ms) \<longleftrightarrow> consistent (D(fst m \<mapsto> attrs_of (snd m))) ms" using None by simp
    show ?thesis using fin [OF find1 rep2] unfolding step None collect_simps cons by simp
  next
    case (Some a)
    have "D(fst m \<mapsto> a) = D" using Some by (simp add: fun_upd_idem)
    then show ?thesis unfolding step using Some fin [OF Cons.prems(5) rep1] by (auto split: option.splits)
  qed
qed

lemma collect_iff:
  "consistent D ms \<Longrightarrow> collect D ms n = Some a \<longleftrightarrow> D n = Some a \<or> (\<exists>m \<in> set ms. fst m = n \<and> attrs_of (snd m) = a)"
proof (induction ms arbitrary: D)
  case Nil
  then show ?case by simp
next
  case (Cons m ms)
  let ?D = "D(fst m \<mapsto> attrs_of (snd m))"
  have c: "consistent ?D ms" and u: "D (fst m) \<noteq> None \<Longrightarrow> ?D = D"
    using Cons.prems by (auto simp: fun_upd_idem split: option.splits)
  have "collect D (m # ms) n = Some a \<longleftrightarrow> ?D n = Some a \<or> (\<exists>m \<in> set ms. fst m = n \<and> attrs_of (snd m) = a)"
    unfolding collect_simps by (rule Cons.IH [OF c])
  moreover have "?D n = Some a \<longleftrightarrow> D n = Some a \<or> fst m = n \<and> attrs_of (snd m) = a"
    using u by (cases "D (fst m) = None") (auto simp: fun_upd_def fun_eq_iff split: if_splits)
  ultimately show ?case by auto
qed

text \<open>C25. A class of the hierarchy section is rejected exactly when it lists one method with two different
  sets of qualifiers; otherwise its dictionary maps the pointers of exactly its methods to their
  qualifiers.\<close>

theorem parse_classes_methods:
  assumes "pool_wf alloc sp" and "inj_on alloc {..<Suc (length sp + length ms)}"
    and "plain c" and "ms \<noteq> []" and "\<forall>m \<in> set ms. method_ok m"
  shows "case parse_classes alloc (unparse_class c ms @ rest) [] sp of
      None \<Rightarrow> \<exists>m \<in> set ms. \<exists>m' \<in> set ms. fst m = fst m' \<and> attrs_of (snd m) \<noteq> attrs_of (snd m')
    | Some (r, classes, sp') \<Rightarrow>
        r = rest \<and> (\<forall>m \<in> set ms. \<forall>m' \<in> set ms. fst m = fst m' \<longrightarrow> attrs_of (snd m) = attrs_of (snd m')) \<and>
        (\<exists>h M. dict_find sp' c = Some h \<and> dict_find classes h = Some M \<and>
           (\<forall>m \<in> set ms. \<exists>k. dict_find sp' (fst m) = Some k \<and> dict_find M k = Some (attrs_of (snd m))) \<and>
           (\<forall>k a. dict_find M k = Some a \<longrightarrow> (\<exists>m \<in> set ms. dict_find sp' (fst m) = Some k \<and> attrs_of (snd m) = a)))"
proof -
  obtain h sp1 where h: "sp_intern_string alloc sp c = (h, sp1)" by fastforce
  have wf1: "pool_wf alloc sp1" and f1: "dict_find sp1 c = Some h" and len: "length sp1 \<le> Suc (length sp)"
    using intern_wf [OF assms(1), of c] intern_find [of alloc sp c] intern_length [of alloc sp c] h by simp_all
  have inj1: "inj_on alloc {..<length sp1 + length ms}"
    using len by (auto intro: inj_on_subset [OF assms(2)])
  define cs where "cs = sep (CHR ''#'') (map unparse_method ms) @ NUL # rest"
  have "unparse_class c ms @ rest = c @ CHR ''#'' # cs"
    using assms(4) by (cases ms) (simp_all add: unparse_class_def cs_def)
  then have cls: "parse_classes alloc (unparse_class c ms @ rest) [] sp = methods_loop alloc h False cs [(h, [])] sp1"
    using get_interned_append [OF plainD(2) [OF assms(3)], of "CHR ''#''" alloc sp cs] h
    by (simp add: parse_classes_def dict_in_def dict_put_def)
  have M: "dict_find [(h, [] :: (name, u8) dict)] h = Some []" by (simp add: dict_find_def)
  have rep: "represents sp1 [] Map.empty" by (simp add: represents_def)
  have res: "case methods_loop alloc h False cs [(h, [])] sp1 of
      None \<Rightarrow> \<not> consistent Map.empty ms
    | Some (r, classes', sp') \<Rightarrow> consistent Map.empty ms \<and> r = rest \<and>
        (\<exists>M'. dict_find classes' h = Some M' \<and> represents sp' M' (collect Map.empty ms))"
    using methods_loop_methods [OF wf1 inj1 assms(4,5) M rep] unfolding cs_def .
  show ?thesis
  proof (cases "methods_loop alloc h False cs [(h, [])] sp1")
    case None
    then have "\<not> consistent Map.empty ms" using res by simp
    then have "\<exists>m \<in> set ms. \<exists>m' \<in> set ms. fst m = fst m' \<and> attrs_of (snd m) \<noteq> attrs_of (snd m')"
      unfolding consistent_iff by simp
    moreover have "parse_classes alloc (unparse_class c ms @ rest) [] sp = None" using cls None by simp
    ultimately show ?thesis by simp
  next
    case (Some x)
    obtain r classes sp' where x: "x = (r, classes, sp')" by (cases x)
    then obtain M' where M': "consistent Map.empty ms" "r = rest" "dict_find classes h = Some M'"
      "represents sp' M' (collect Map.empty ms)" using res Some by auto
    have "pool_le sp1 sp'" using Some unfolding x by (rule methods_loop_le)
    then have c: "dict_find sp' c = Some h" using f1 by (rule pool_le_find)
    have D: "collect Map.empty ms n = Some a \<longleftrightarrow> (\<exists>m \<in> set ms. fst m = n \<and> attrs_of (snd m) = a)" for n a
      using collect_iff [OF M'(1), of n a] by simp
    have to: "\<forall>m \<in> set ms. \<exists>k. dict_find sp' (fst m) = Some k \<and> dict_find M' k = Some (attrs_of (snd m))"
      using M'(4) D unfolding represents_def by blast
    have only: "\<forall>k a. dict_find M' k = Some a \<longrightarrow> (\<exists>m \<in> set ms. dict_find sp' (fst m) = Some k \<and> attrs_of (snd m) = a)"
    proof (intro allI impI)
      fix k a assume "dict_find M' k = Some a"
      then obtain n where n: "dict_find sp' n = Some k" "collect Map.empty ms n = Some a"
        using M'(4) unfolding represents_def by blast
      then obtain m where "m \<in> set ms" "fst m = n" "attrs_of (snd m) = a" unfolding D by blast
      then show "\<exists>m \<in> set ms. dict_find sp' (fst m) = Some k \<and> attrs_of (snd m) = a" using n(1) by blast
    qed
    have con: "\<forall>m \<in> set ms. \<forall>m' \<in> set ms. fst m = fst m' \<longrightarrow> attrs_of (snd m) = attrs_of (snd m')"
      using M'(1) unfolding consistent_iff by (elim conjE)
    have res: "parse_classes alloc (unparse_class c ms @ rest) [] sp = Some (rest, classes, sp')"
      using cls Some x M'(2) by simp
    show ?thesis unfolding res option.case prod.case
      by (rule conjI [OF refl conjI [OF con]], intro exI conjI, fact c, fact M'(3), fact to, fact only)
  qed
qed

theorem parse_classes_methods_witness:
  "parse_classes (\<lambda>k. of_nat (8 * k + 8)) (unparse_class ''A'' [(''f'', ''v''), (''f'', ''cv'')] @ ''x'') [] [] = None"
proof -
  let ?alloc = "\<lambda>k. of_nat (8 * k + 8) :: name" and ?ms = "[(''f'', ''v''), (''f'', ''cv'')]"
  have wf: "pool_wf ?alloc []" by (simp add: pool_wf_def)
  have inj: "inj_on ?alloc {..<Suc (length ([] :: pool) + length ?ms)}"
    by (auto simp: inj_on_def less_Suc_eq)
  have ok: "plain ''A''" "?ms \<noteq> []" "\<forall>m \<in> set ?ms. method_ok m"
    by (simp_all add: plain_def NUL_def method_ok_def)
  have "attrs_of ''v'' \<noteq> attrs_of ''cv''"
    by (simp add: attrs_of_def qualifier_def CONSTANT_def VIRTUAL_def)
  then show ?thesis
    using parse_classes_methods [OF wf inj ok, of "''x''"] by (auto split: option.splits)
qed

end
