(* ===== verification/Elf.thy ===== *)
theory Elf
  imports Parser
begin

unbundle bit_operations_syntax

text \<open>
  The structures of an ELF file (\<open>src/runtime/include/elf.h\<close>) and how they are read from the
  bytes of a mapped file. A file is a byte memory addressed from its start, together with the
  number of bytes that are mapped.
\<close>

section \<open>Reads and writes of halves and words\<close>

definition read16 :: "mem \<Rightarrow> nat \<Rightarrow> u16" where
  "read16 t a = ucast (read_le t a 2)"

definition read32 :: "mem \<Rightarrow> nat \<Rightarrow> u32" where
  "read32 t a = ucast (read_le t a 4)"

definition write32 :: "mem \<Rightarrow> nat \<Rightarrow> u32 \<Rightarrow> mem" where
  "write32 t a v = (\<lambda>x. if a \<le> x \<and> x < a + 4 then byte_of (x - a) (ucast v) else t x)"

lemma read32_write32_same [mem_simps, simp]: "read32 (write32 t a v) a = v"
proof (rule bit_word_eqI)
  fix n assume n: "n < LENGTH(32)"
  have e: "8 * (n div 8) + n mod 8 = n" by simp
  show "bit (read32 (write32 t a v) a) n = bit v n"
    using n unfolding read32_def bit_ucast_iff bit_read_le write32_def
    by (simp add: bit_byte_of div_less_iff_less_mult e bit_simps)
qed

lemma read64_write32_other [mem_simps]:
  "b + 8 \<le> a \<or> a + 4 \<le> b \<Longrightarrow> read64 (write32 t a v) b = read64 t b"
  by (rule read64_cong) (auto simp: write32_def)

lemma read32_cong: "(\<And>i. i < 4 \<Longrightarrow> t (a + i) = t' (a + i)) \<Longrightarrow> read32 t a = read32 t' a"
  by (rule bit_eqI) (simp add: read32_def bit_simps bit_read_le div_less_iff_less_mult)

section \<open>Structures\<close>

definition EI_NIDENT :: nat where "EI_NIDENT = 16"

record ehdr =
  e_ident :: "u8 list"
  e_type :: u16
  e_machine :: u16
  e_version :: u32
  e_entry :: u64
  e_phoff :: u64
  e_shoff :: u64
  e_flags :: u32
  e_ehsize :: u16
  e_phentsize :: u16
  e_phnum :: u16
  e_shentsize :: u16
  e_shnum :: u16
  e_shstrndx :: u16

definition read_ehdr :: "mem \<Rightarrow> ehdr" where
  "read_ehdr t = \<lparr> e_ident = map t [0..<EI_NIDENT], e_type = read16 t 16, e_machine = read16 t 18,
     e_version = read32 t 20, e_entry = read64 t 24, e_phoff = read64 t 32, e_shoff = read64 t 40,
     e_flags = read32 t 48, e_ehsize = read16 t 52, e_phentsize = read16 t 54, e_phnum = read16 t 56,
     e_shentsize = read16 t 58, e_shnum = read16 t 60, e_shstrndx = read16 t 62 \<rparr>"

record shdr =
  sh_name :: u32
  sh_type :: u32
  sh_flags :: u64
  sh_addr :: u64
  sh_offset :: u64
  sh_size :: u64
  sh_link :: u32
  sh_info :: u32
  sh_addralign :: u64
  sh_entsize :: u64

text \<open>Element \<open>i\<close> of an array of section headers at \<open>a\<close>; the other arrays alike.\<close>

definition read_shdr :: "mem \<Rightarrow> nat \<Rightarrow> nat \<Rightarrow> shdr" where
  "read_shdr t a i =
     (let p = a + 64 * i
      in \<lparr> sh_name = read32 t p, sh_type = read32 t (p + 4), sh_flags = read64 t (p + 8), sh_addr = read64 t (p + 16),
           sh_offset = read64 t (p + 24), sh_size = read64 t (p + 32), sh_link = read32 t (p + 40),
           sh_info = read32 t (p + 44), sh_addralign = read64 t (p + 48), sh_entsize = read64 t (p + 56) \<rparr>)"

record elf_sym =
  st_name :: u32
  st_info :: u8
  st_other :: u8
  st_shndx :: u16
  st_value :: u64
  st_size :: u64

definition read_sym :: "mem \<Rightarrow> nat \<Rightarrow> nat \<Rightarrow> elf_sym" where
  "read_sym t a i =
     (let p = a + 24 * i
      in \<lparr> st_name = read32 t p, st_info = t (p + 4), st_other = t (p + 5), st_shndx = read16 t (p + 6),
           st_value = read64 t (p + 8), st_size = read64 t (p + 16) \<rparr>)"

record rela =
  r_offset :: u64
  r_info :: u64
  r_addend :: u64

definition read_rela :: "mem \<Rightarrow> nat \<Rightarrow> nat \<Rightarrow> rela" where
  "read_rela t a i =
     (let p = a + 24 * i in \<lparr> r_offset = read64 t p, r_info = read64 t (p + 8), r_addend = read64 t (p + 16) \<rparr>)"

record phdr =
  p_type :: u32
  p_flags :: u32
  p_offset :: u64
  p_vaddr :: u64
  p_paddr :: u64
  p_filesz :: u64
  p_memsz :: u64
  p_align :: u64

definition read_phdr :: "mem \<Rightarrow> nat \<Rightarrow> nat \<Rightarrow> phdr" where
  "read_phdr t a i =
     (let p = a + 56 * i
      in \<lparr> p_type = read32 t p, p_flags = read32 t (p + 4), p_offset = read64 t (p + 8), p_vaddr = read64 t (p + 16),
           p_paddr = read64 t (p + 24), p_filesz = read64 t (p + 32), p_memsz = read64 t (p + 40),
           p_align = read64 t (p + 48) \<rparr>)"

definition ET_EXEC :: u16 where "ET_EXEC = 2"

definition PT_LOAD :: u32 where "PT_LOAD = 1"

definition PF_X :: u32 where "PF_X = 1"

definition PF_W :: u32 where "PF_W = 2"

definition PF_R :: u32 where "PF_R = 4"

definition STB_GLOBAL :: u8 where "STB_GLOBAL = 1"

definition STB_WEAK :: u8 where "STB_WEAK = 2"

definition STT_FUNC :: u8 where "STT_FUNC = 2"

definition SHN_UNDEF :: u16 where "SHN_UNDEF = 0"

definition ELF64_ST_BIND :: "u8 \<Rightarrow> u8" where "ELF64_ST_BIND v = drop_bit 4 v"

definition ELF64_ST_TYPE :: "u8 \<Rightarrow> u8" where "ELF64_ST_TYPE v = v AND 0xf"

definition ELF64_R_SYM :: "u64 \<Rightarrow> u64" where "ELF64_R_SYM i = drop_bit 32 i"

section \<open>Strings in the file\<close>

text \<open>The bytes of a section as characters, and the string that starts at an address. \<open>None\<close> is a
  string that has no terminator inside of the mapping.\<close>

definition content :: "mem \<Rightarrow> nat \<Rightarrow> nat \<Rightarrow> string" where
  "content t a n = map (\<lambda>i. char_of (unat (t i))) [a..<a + n]"

definition c_string :: "mem \<Rightarrow> nat \<Rightarrow> nat \<Rightarrow> string option" where
  "c_string t fsz a =
     (let s = content t a (fsz - a)
      in if NUL \<in> set s then Some (takeWhile (\<lambda>c. c \<noteq> NUL) s) else None)"

text \<open>The comparisons with a literal: what \<open>strcmp\<close> and \<open>strncmp\<close> decide about such strings.\<close>

lemma of_char_pos [simp]: "0 < (of_char c :: nat) \<longleftrightarrow> c \<noteq> CHR 0x00"
proof -
  have "(of_char c :: nat) = of_char (CHR 0x00) \<longleftrightarrow> c = CHR 0x00" by (simp only: of_char_eq_iff)
  then show ?thesis by auto
qed

lemma strcmp_zero_iff:
  "NUL \<notin> set s \<Longrightarrow> NUL \<notin> set w \<Longrightarrow> strcmp (s @ NUL # r) (w @ NUL # r') = Some 0 \<longleftrightarrow> s = w"
proof (induction s arbitrary: w)
  case Nil
  then show ?case by (cases w) (auto simp: NUL_def)
next
  case (Cons c s)
  then show ?case by (cases w) (auto simp: NUL_def)
qed

lemma strncmp_zero_iff:
  "NUL \<notin> set s \<Longrightarrow> NUL \<notin> set w \<Longrightarrow> n \<le> length w \<Longrightarrow>
    strncmp (s @ NUL # r) (w @ NUL # r') n = Some 0 \<longleftrightarrow> take n s = take n w"
proof (induction n arbitrary: s w)
  case 0
  then show ?case by simp
next
  case (Suc n)
  then obtain d w' where w: "w = d # w'" by (cases w) auto
  show ?case
  proof (cases s)
    case Nil
    then show ?thesis using Suc.prems w by (auto simp: NUL_def)
  next
    case (Cons c s')
    then show ?thesis using Suc.prems w Suc.IH [of s' w'] by (cases "n = 0") (auto simp: NUL_def)
  qed
qed

definition isalnum :: "char \<Rightarrow> bool" where
  "isalnum c \<longleftrightarrow> (let ch = (of_char c :: nat) in (48 \<le> ch \<and> ch \<le> 57) \<or> (97 \<le> ch \<and> ch \<le> 122) \<or> (65 \<le> ch \<and> ch \<le> 90))"

definition eat_hex_and_udscore :: "string \<Rightarrow> string" where
  "eat_hex_and_udscore c =
     (let c = dropWhile isalnum c in case c of [] \<Rightarrow> [] | x # r \<Rightarrow> if x = CHR ''_'' then r else c)"

end
