(* ===== verification/Dyncode.thy ===== *)
theory Dyncode
  imports Memory Elf
begin

unbundle bit_operations_syntax

text \<open>
  Code that appears at run time (\<open>src/runtime/src/runtime.c\<close>): the creation of a code heap, the
  registration of the control-flow metadata of generated code, and the check of a lazily bound
  \<open>.got.plt\<close> entry. A pointer to a module is its index in the list of modules.
\<close>

section \<open>Creating a code heap\<close>

text \<open>\<open>ph\<close> is the place that receives the handle; a bitmap is a fresh mapping of zero bytes.\<close>

definition map_bitmap :: "kernel \<Rightarrow> u64 \<Rightarrow> sandbox \<Rightarrow> (mem \<times> sandbox) option" where
  "map_bitmap kern sz sb = do {
     let (b, sb) = mmap kern 0 (RoundToPage (sz div 8)) PROT_WRITE (MAP_ANONYMOUS OR MAP_PRIVATE) (- 1) 0 sb;
     CHECK (b \<noteq> - 1);
     Some (\<lambda>_. 0, sb) }"

definition create_code_heap ::
  "kernel \<Rightarrow> u64 \<Rightarrow> u64 \<Rightarrow> verifier option \<Rightarrow> sandbox \<Rightarrow> (u64 \<times> nat \<times> sandbox) option" where
  "create_code_heap kern ph sz vrf sb = do {
     CHECK (vrf \<noteq> None);
     CHECK (\<not> (ph = 0 \<or> ph > FourGB));
     (page, vm) \<leftarrow> VmmapFindSpace (drop_bit PAGESHIFT sz) (VM sb);
     CHECK (page \<noteq> 0);
     let sb = sb\<lparr> VM := VmmapAdd page (drop_bit PAGESHIFT sz) (PROT_READ OR PROT_EXEC)
                         (PROT_READ OR PROT_EXEC) VMMAP_ENTRY_ANONYMOUS vm \<rparr>;
     let base = push_bit PAGESHIFT page;
     (osb_base, sb) \<leftarrow> create_parallel_mapping kern base sz PROT_NONE sb;
     (cdbmp, sb) \<leftarrow> map_bitmap kern sz sb;
     (dbtbmp, sb) \<leftarrow> map_bitmap kern sz sb;
     let m = alloc_code_module\<lparr> osb_base_addr := osb_base, base_addr := base, m_sz := sz,
       activated := True, code_heap := True, m_verifier := vrf, code_data_bitmap := cdbmp,
       internal_dbt_bitmap := dbtbmp \<rparr>;
     let rt = sb_rt sb;
     Some (base, length (rt_modules rt), sb\<lparr> sb_rt := rt\<lparr> rt_modules := rt_modules rt @ [m] \<rparr> \<rparr>) }"

section \<open>Lookups\<close>

definition query_function_name :: "codemodule list \<Rightarrow> u64 \<Rightarrow> name option" where
  "query_function_name modules addr =
     (case List.find (\<lambda>m. addr \<ge> base_addr m \<and> addr < base_addr m + m_sz m) modules of
        None \<Rightarrow> None
      | Some m \<Rightarrow> map_option s_name (List.find (\<lambda>s. s_offset s = addr - base_addr m) (m_funcsyms m)))"

fun query_rad :: "codemodule list \<Rightarrow> name \<Rightarrow> u64 option" where
  "query_rad [] nm = None"
| "query_rad (m # ms) nm =
     (case List.find (\<lambda>r. nm = s_name r) (m_rad m) of
        Some r \<Rightarrow> Some (s_offset r + base_addr m)
      | None \<Rightarrow> query_rad ms nm)"

fun query_function :: "codemodule list \<Rightarrow> name \<Rightarrow> func option" where
  "query_function [] nm = None"
| "query_function (m # ms) nm =
     (case List.find (\<lambda>f. nm = f_name f) (m_functions m) of
        Some f \<Rightarrow> Some f
      | None \<Rightarrow> query_function ms nm)"

fun query_icfsym :: "codemodule list \<Rightarrow> name \<Rightarrow> symbol option" where
  "query_icfsym [] nm = None"
| "query_icfsym (m # ms) nm =
     (case List.find (\<lambda>s. nm = s_name s) (m_icfsyms m) of
        Some s \<Rightarrow> Some s
      | None \<Rightarrow> query_icfsym ms nm)"

section \<open>Registration\<close>

text \<open>The runtime with the static variables of the registration: the next branch slot and the four
  dictionaries.\<close>

record registry =
  reg_rt :: runtime
  reg_pool :: pool
  bid_slot :: u32
  static_bid_slot_end :: u32
  icj_target :: "(name, u64) dict"
  icj_target_ret :: "(name, u64) dict"
  ret_name :: "(u64, name) dict"
  ret_offset :: "(u64, u64) dict"

abbreviation reg_modules :: "registry \<Rightarrow> codemodule list" where
  "reg_modules g \<equiv> rt_modules (reg_rt g)"

abbreviation reg_table :: "registry \<Rightarrow> mem" where
  "reg_table g \<equiv> rt_table (reg_rt g)"

definition alloc_bid_slot :: "registry \<Rightarrow> u32 \<times> registry" where
  "alloc_bid_slot g = (bid_slot g, g\<lparr> bid_slot := bid_slot g + 8 \<rparr>)"

definition put_module :: "nat \<Rightarrow> codemodule \<Rightarrow> registry \<Rightarrow> registry" where
  "put_module i m g = g\<lparr> reg_rt := (reg_rt g)\<lparr> rt_modules := (reg_modules g)[i := m] \<rparr> \<rparr>"

definition put_table :: "mem \<Rightarrow> registry \<Rightarrow> registry" where
  "put_table t g = g\<lparr> reg_rt := (reg_rt g)\<lparr> rt_table := t \<rparr> \<rparr>"

definition put_osb :: "mem \<Rightarrow> registry \<Rightarrow> registry" where
  "put_osb b g = g\<lparr> reg_rt := (reg_rt g)\<lparr> osb := b \<rparr> \<rparr>"

text \<open>An address inside the heap.\<close>

definition in_heap :: "codemodule \<Rightarrow> u64 \<Rightarrow> bool" where
  "in_heap m addr \<longleftrightarrow> \<not> (addr < base_addr m \<or> addr \<ge> base_addr m + m_sz m)"

text \<open>\<open>*p = *q\<close> in the table region.\<close>

definition copy_id :: "u64 \<Rightarrow> u64 \<Rightarrow> mem \<Rightarrow> mem" where
  "copy_id p q t = write64 t (unat p) (read64 t (unat q))"

definition reg_func_sym :: "nat \<Rightarrow> u64 \<Rightarrow> u64 \<Rightarrow> registry \<Rightarrow> registry option" where
  "reg_func_sym i new_addr addr g = do {
     let m = reg_modules g ! i;
     CHECK (in_heap m new_addr \<and> new_addr mod 8 = 0);
     CHECK (\<not> (addr \<ge> FourGB \<or> addr mod 8 \<noteq> 0));
     nm \<leftarrow> query_function_name (reg_modules g) addr;
     let g = put_table (copy_id new_addr addr (reg_table g)) g;
     Some (put_module i (m\<lparr> m_funcsyms := m_funcsyms m @ [\<lparr> s_name = nm, s_offset = new_addr - base_addr m \<rparr>] \<rparr>) g) }"

text \<open>The name and the branch slot of the returns of the function at \<open>fa\<close>.\<close>

definition ret_entry :: "u64 \<Rightarrow> registry \<Rightarrow> (name \<times> u32 \<times> registry) option" where
  "ret_entry fa g =
     (case dict_find (ret_name g) fa of
        None \<Rightarrow> do {
          nm \<leftarrow> query_function_name (reg_modules g) fa;
          f \<leftarrow> query_function (reg_modules g) nm;
          CHECK (f_returns f \<noteq> []);
          let nm = hd (f_returns f);
          names \<leftarrow> dict_add (ret_name g) fa nm;
          s \<leftarrow> query_icfsym (reg_modules g) nm;
          let slot = (ucast (s_offset s) :: u32);
          offsets \<leftarrow> dict_add (ret_offset g) fa (ucast slot);
          Some (nm, slot, g\<lparr> ret_name := names, ret_offset := offsets \<rparr>) }
      | Some nm \<Rightarrow> do {
          v \<leftarrow> dict_find (ret_offset g) fa;
          Some (nm, ucast v, g) })"

definition reg_ret :: "nat \<Rightarrow> u64 \<Rightarrow> u64 \<Rightarrow> registry \<Rightarrow> registry option" where
  "reg_ret i addr fa g = do {
     (nm, slot, g) \<leftarrow> ret_entry fa g;
     let m = reg_modules g ! i;
     CHECK (in_heap m addr);
     let g = put_osb (write32 (osb (reg_rt g)) (unat (osb_base_addr m + (addr - base_addr m - 4))) slot) g;
     Some (put_module i (m\<lparr> m_icfsyms := m_icfsyms m @ [\<lparr> s_name = nm, s_offset = ucast slot \<rparr>] \<rparr>) g) }"

definition reg_icj :: "(nat \<Rightarrow> name) \<Rightarrow> nat \<Rightarrow> string \<Rightarrow> u64 \<Rightarrow> registry \<Rightarrow> registry option" where
  "reg_icj alloc i md fa g = do {
     let (nm, sp) = sp_intern_string alloc (reg_pool g) md;
     let g = g\<lparr> reg_pool := sp \<rparr>;
     let m = reg_modules g ! i;
     if List.find (\<lambda>ic. icf_id ic = nm) (m_icfs m) \<noteq> None then Some g
     else do {
       fname \<leftarrow> query_function_name (reg_modules g) fa;
       f \<leftarrow> query_function (reg_modules g) fname;
       let ic = alloc_icf\<lparr> icf_id := nm, ity := NormalCall, icf_type := f_type f \<rparr>;
       let g = put_module i (m\<lparr> m_icfs := m_icfs m @ [ic] \<rparr>) g;
       targets \<leftarrow> dict_add (icj_target g) nm fa;
       ra \<leftarrow> query_rad (reg_modules g) fname;
       rets \<leftarrow> dict_add (icj_target_ret g) nm ra;
       Some (g\<lparr> icj_target := targets, icj_target_ret := rets \<rparr>) } }"

text \<open>The branch slot of a call in this heap, allocated and filled at the first use.\<close>

definition heap_slot :: "nat \<Rightarrow> name \<Rightarrow> registry \<Rightarrow> (u32 \<times> registry) option" where
  "heap_slot i nm g =
     (let m = reg_modules g ! i in
      case dict_find (bid_slot_in_codeheap m) nm of
        None \<Rightarrow> do {
          let (slot, g) = alloc_bid_slot g;
          cached \<leftarrow> dict_add (bid_slot_in_codeheap m) nm (ucast slot);
          let g = put_module i (m\<lparr> bid_slot_in_codeheap := cached \<rparr>) g;
          icj \<leftarrow> dict_find (icj_target g) nm;
          Some (slot, put_table (copy_id (ucast slot) icj (reg_table g)) g) }
      | Some v \<Rightarrow> Some (ucast v, g))"

definition reg_icj_sym :: "(nat \<Rightarrow> name) \<Rightarrow> nat \<Rightarrow> string \<Rightarrow> u64 \<Rightarrow> registry \<Rightarrow> registry option" where
  "reg_icj_sym alloc i md addr g = do {
     CHECK (in_heap (reg_modules g ! i) addr);
     let (nm, sp) = sp_intern_string alloc (reg_pool g) md;
     (slot, g) \<leftarrow> heap_slot i nm (g\<lparr> reg_pool := sp \<rparr>);
     let m = reg_modules g ! i;
     let g = put_osb (write32 (osb (reg_rt g)) (unat (osb_base_addr m + (addr - base_addr m - 4))) slot) g;
     Some (put_module i (m\<lparr> m_icfsyms := m_icfsyms m @ [\<lparr> s_name = nm, s_offset = ucast slot \<rparr>] \<rparr>) g) }"

definition reg_rai :: "(nat \<Rightarrow> name) \<Rightarrow> nat \<Rightarrow> string \<Rightarrow> u64 \<Rightarrow> registry \<Rightarrow> registry option" where
  "reg_rai alloc i md addr g = do {
     let (nm, sp) = sp_intern_string alloc (reg_pool g) md;
     let g = g\<lparr> reg_pool := sp \<rparr>;
     let m = reg_modules g ! i;
     CHECK (in_heap m addr \<and> addr mod 8 = 0);
     let g = put_module i (m\<lparr> m_rai := m_rai m @ [\<lparr> s_name = nm, s_offset = addr - base_addr m \<rparr>] \<rparr>) g;
     ra \<leftarrow> dict_find (icj_target_ret g) nm;
     let t = copy_id addr ra (reg_table g);
     Some (put_table (write64 t (unat addr) (read64 t (unat addr) OR 1)) g) }"

definition unreg_icj_sym :: "(nat \<Rightarrow> name) \<Rightarrow> nat \<Rightarrow> string \<Rightarrow> registry \<Rightarrow> registry option" where
  "unreg_icj_sym alloc i md g =
     (let (nm, sp) = sp_intern_string alloc (reg_pool g) md;
          m = reg_modules g ! i
      in Some (put_module i (m\<lparr> m_icfsyms := filter (\<lambda>s. nm \<noteq> s_name s) (m_icfsyms m) \<rparr>) (g\<lparr> reg_pool := sp \<rparr>)))"

definition unreg_rai :: "nat \<Rightarrow> u64 \<Rightarrow> registry \<Rightarrow> registry option" where
  "unreg_rai i addr g = do {
     let m = reg_modules g ! i;
     CHECK (in_heap m addr \<and> addr mod 8 = 0);
     let g = put_table (write64 (reg_table g) (unat addr) 0) g;
     Some (put_module i (m\<lparr> m_rai := filter (\<lambda>s. s_offset s \<noteq> addr - base_addr m) (m_rai m) \<rparr>) g) }"

text \<open>There is no \<open>break\<close> at the end of this case: the next one runs too.\<close>

definition unreg_func_sym :: "nat \<Rightarrow> u64 \<Rightarrow> registry \<Rightarrow> registry option" where
  "unreg_func_sym i addr g = do {
     let m = reg_modules g ! i;
     CHECK (in_heap m addr \<and> addr mod 8 = 0);
     let g = put_table (write64 (reg_table g) (unat addr) 0) g;
     let g = put_module i (m\<lparr> m_funcsyms := filter (\<lambda>s. s_offset s \<noteq> addr - base_addr m) (m_funcsyms m) \<rparr>) g;
     unreg_rai i addr g }"

definition ROCK_FUNC_SYM :: int where "ROCK_FUNC_SYM = 0"

definition ROCK_ICJ :: int where "ROCK_ICJ = 1"

definition ROCK_ICJ_SYM :: int where "ROCK_ICJ_SYM = 2"

definition ROCK_RAI :: int where "ROCK_RAI = 3"

definition ROCK_ICJ_SYM_UNREG :: int where "ROCK_ICJ_SYM_UNREG = 5"

definition ROCK_RAI_UNREG :: int where "ROCK_RAI_UNREG = 6"

definition ROCK_FUNC_SYM_UNREG :: int where "ROCK_FUNC_SYM_UNREG = 7"

definition ROCK_RET :: int where "ROCK_RET = 8"

text \<open>\<open>md\<close> is the metadata as an address and \<open>md_str\<close> the string it points to; the type says which
  of them is used.\<close>

definition reg_cfg_metadata ::
  "(nat \<Rightarrow> name) \<Rightarrow> nat option \<Rightarrow> int \<Rightarrow> u64 \<Rightarrow> string \<Rightarrow> u64 \<Rightarrow> registry \<Rightarrow> registry option" where
  "reg_cfg_metadata alloc h ty md md_str extra g = do {
     i \<leftarrow> get_code_heap (reg_modules g) h;
     let (slot, g) = alloc_bid_slot g;
     let g = g\<lparr> static_bid_slot_end := slot \<rparr>;
     (if ty = ROCK_FUNC_SYM then reg_func_sym i md extra g
      else if ty = ROCK_RET then reg_ret i md extra g
      else if ty = ROCK_ICJ then reg_icj alloc i md_str extra g
      else if ty = ROCK_ICJ_SYM then reg_icj_sym alloc i md_str extra g
      else if ty = ROCK_RAI then reg_rai alloc i md_str extra g
      else if ty = ROCK_ICJ_SYM_UNREG then unreg_icj_sym alloc i md_str g
      else if ty = ROCK_FUNC_SYM_UNREG then unreg_func_sym i md g
      else if ty = ROCK_RAI_UNREG then unreg_rai i md g
      else None) }"

section \<open>Lazy binding\<close>

text \<open>One module of the loop of \<open>set_gotplt\<close>: the module whose \<open>.got.plt\<close> holds the entry, the
  value relative to the modules it was found in, the functions at that offset, and whether any
  were found.\<close>

type_synonym gotplt_search = "codemodule option \<times> u64 \<times> name adj option \<times> bool"

definition search_gotplt :: "u64 \<Rightarrow> codemodule \<Rightarrow> gotplt_search \<Rightarrow> gotplt_search" where
  "search_gotplt addr m =
     (\<lambda>(am, func_addr, fnl, foundv).
       let am = (if addr \<ge> gotplt m \<and> addr < gotplt m + gotpltsz m then Some m else am) in
       if func_addr \<ge> base_addr m \<and> func_addr < base_addr m + m_sz m then
         let func_addr = func_addr - base_addr m in
         (case dict_find (dynfuncs m) func_addr of
            Some l \<Rightarrow> (am, func_addr, Some l, True)
          | None \<Rightarrow>
              (case dict_find (weakfuncs m) func_addr of
                 Some l \<Rightarrow> (am, func_addr, Some l, True)
               | None \<Rightarrow> (am, func_addr, None, foundv)))
       else (am, func_addr, fnl, foundv))"

definition set_gotplt :: "u64 \<Rightarrow> u64 \<Rightarrow> sandbox \<Rightarrow> sandbox option" where
  "set_gotplt addr v sb = do {
     let (found, _, fnl, foundv) = fold (search_gotplt addr) (sb_modules sb) (None, v, None, False);
     am \<leftarrow> found;
     CHECK foundv;
     nm \<leftarrow> dict_find (gpfuncs am) (addr - gotplt am);
     names \<leftarrow> fnl;
     CHECK (dict_find names nm \<noteq> None);
     Some (if instrumented am
           then sb\<lparr> sb_rt := (sb_rt sb)\<lparr> osb := write64 (osb (sb_rt sb)) (unat (osb_gotplt am + addr - gotplt am)) v \<rparr> \<rparr>
           else emit (Store addr v) sb) }"

end
