(* ===== verification/Loader.thy ===== *)
theory Loader
  imports Dyncode
begin

unbundle bit_operations_syntax

text \<open>
  Loading a module (\<open>src/runtime/src/main.c\<close>): \<open>load_mcfi_metadata\<close> reads the metadata sections
  and the symbol table of a mapped ELF file into a code module, gives every instrumented branch its
  slot and patches the call sites, and \<open>load_elf\<close> maps the segments into the sandbox. The bytes of
  the file are a memory that the loading rewrites; \<open>alloc\<close> gives the addresses of interned strings.
\<close>

section \<open>The metadata sections\<close>

text \<open>The local variables of the scan; a pointer into the file is an offset, the null pointer 0.\<close>

record scan =
  l_sym :: nat
  l_numsym :: nat
  l_strtab :: nat
  l_dynsym :: nat
  l_numdynsym :: nat
  l_dynstr :: nat
  l_relaplt :: nat
  l_numrelaplt :: nat
  l_plt_offset :: u64
  l_icfs :: "icf list"
  l_functions :: "func list"
  l_classes :: classes
  l_cha :: "name graph"
  l_aliases :: "name graph"
  l_fats_in_code :: "name adj"
  l_fats_in_data :: "name adj"
  l_ctor :: "(name, name) dict"
  l_vtable :: "(name, name list) dict"
  l_pool :: pool
  l_cm :: codemodule

definition init_scan :: "pool \<Rightarrow> scan" where
  "init_scan sp = \<lparr> l_sym = 0, l_numsym = 0, l_strtab = 0, l_dynsym = 0, l_numdynsym = 0, l_dynstr = 0,
     l_relaplt = 0, l_numrelaplt = 0, l_plt_offset = 0, l_icfs = [], l_functions = [], l_classes = [],
     l_cha = [], l_aliases = [], l_fats_in_code = [], l_fats_in_data = [], l_ctor = [], l_vtable = [],
     l_pool = sp, l_cm = alloc_code_module \<rparr>"

definition set_instrumented :: "scan \<Rightarrow> scan" where
  "set_instrumented sc = sc\<lparr> l_cm := (l_cm sc)\<lparr> instrumented := True \<rparr> \<rparr>"

definition load_section :: "(nat \<Rightarrow> name) \<Rightarrow> mem \<Rightarrow> nat \<Rightarrow> nat \<Rightarrow> shdr \<Rightarrow> scan \<Rightarrow> scan option" where
  "load_section alloc elf fsz shstrpool sh sc = do {
     shname \<leftarrow> c_string elf fsz (shstrpool + unat (sh_name sh));
     let off = unat (sh_offset sh);
     let sz = unat (sh_size sh);
     let text = content elf off sz;
     if shname = ''.symtab'' then Some (sc\<lparr> l_sym := off, l_numsym := sz div 24 \<rparr>)
     else if shname = ''.strtab'' then Some (sc\<lparr> l_strtab := off \<rparr>)
     else if shname = ''.MCFIIndirectCalls'' then do {
       (icfs, sp) \<leftarrow> parse_icfs alloc text (l_icfs sc) (l_pool sc);
       Some (set_instrumented (sc\<lparr> l_icfs := icfs, l_pool := sp \<rparr>)) }
     else if shname = ''.MCFIFuncInfo'' then do {
       (fs, ctor, sp) \<leftarrow> parse_functions alloc text (l_functions sc) (l_ctor sc) (l_pool sc);
       Some (set_instrumented (sc\<lparr> l_functions := fs, l_ctor := ctor, l_pool := sp \<rparr>)) }
     else if shname = ''.MCFICHA'' then do {
       (classes, cha, sp) \<leftarrow> parse_cha alloc text (l_classes sc) (l_cha sc) (l_pool sc);
       Some (set_instrumented (sc\<lparr> l_classes := classes, l_cha := cha, l_pool := sp \<rparr>)) }
     else if shname = ''.MCFIAliases'' then do {
       (aliases, sp) \<leftarrow> parse_aliases alloc text (l_aliases sc) (l_pool sc);
       Some (set_instrumented (sc\<lparr> l_aliases := aliases, l_pool := sp \<rparr>)) }
     else if shname = ''.MCFIAddrTaken'' then do {
       (fats, sp) \<leftarrow> parse_fats alloc text (l_fats_in_data sc) (l_pool sc);
       Some (set_instrumented (sc\<lparr> l_fats_in_data := fats, l_pool := sp \<rparr>)) }
     else if shname = ''.MCFIAddrTakenInCode'' then do {
       (fats, sp) \<leftarrow> parse_fats alloc text (l_fats_in_code sc) (l_pool sc);
       Some (set_instrumented (sc\<lparr> l_fats_in_code := fats, l_pool := sp \<rparr>)) }
     else if shname = ''.MCFIVtable'' then do {
       (vtable, sp) \<leftarrow> parse_vtable alloc text (l_vtable sc) (l_pool sc);
       Some (set_instrumented (sc\<lparr> l_vtable := vtable, l_pool := sp \<rparr>)) }
     else if shname = ''.MCFIDtorCxaAtExit'' \<or> shname = ''.MCFIDtorCxaThrow'' then Some (set_instrumented sc)
     else if shname = ''.rela.plt'' then Some (sc\<lparr> l_relaplt := off, l_numrelaplt := sz div 24 \<rparr>)
     else if shname = ''.plt'' then Some (sc\<lparr> l_plt_offset := sh_offset sh \<rparr>)
     else if shname = ''.dynsym'' then Some (sc\<lparr> l_dynsym := off, l_numdynsym := sz div 24 \<rparr>)
     else if shname = ''.dynstr'' then Some (sc\<lparr> l_dynstr := off \<rparr>)
     else if shname = ''.got.plt'' then
       Some (sc\<lparr> l_cm := (l_cm sc)\<lparr> gotplt := sh_addr sh, gotpltsz := RoundToPage (sh_size sh) \<rparr> \<rparr>)
     else Some sc }"

definition load_sections :: "(nat \<Rightarrow> name) \<Rightarrow> mem \<Rightarrow> nat \<Rightarrow> ehdr \<Rightarrow> pool \<Rightarrow> scan option" where
  "load_sections alloc elf fsz eh sp =
     (let shoff = unat (e_shoff eh);
          shstrtbl = read_shdr elf shoff (unat (e_shstrndx eh))
      in foldM (\<lambda>cnt sc. if cnt = unat (e_shstrndx eh) then Some sc
                         else load_section alloc elf fsz (unat (sh_offset shstrtbl)) (read_shdr elf shoff cnt) sc)
           [0..<unat (e_shnum eh)] (init_scan sp))"

text \<open>The functions that every executable gets; \<open>lit\<close> is the address of the literal
  \<open>"__gxx_personality_v0"\<close> in the runtime, which is added without interning it.\<close>

definition add_exe_functions :: "(nat \<Rightarrow> name) \<Rightarrow> name \<Rightarrow> ehdr \<Rightarrow> scan \<Rightarrow> scan option" where
  "add_exe_functions alloc lit eh sc =
     (if e_type eh = ET_EXEC then do {
        let cm = (l_cm sc)\<lparr> base_addr := X64ABIBASE \<rparr>;
        let (entry, sp) = sp_intern_string alloc (l_pool sc) ''__exe_elf_entry'';
        let (entry_type, sp) = sp_intern_string alloc sp ''ExeElfEntry'';
        fats \<leftarrow> dict_add (l_fats_in_data sc) entry ();
        let cm = cm\<lparr> m_funcsyms := m_funcsyms cm @ [\<lparr> s_name = entry, s_offset = e_entry eh - base_addr cm \<rparr>] \<rparr>;
        let (pers, sp) = sp_intern_string alloc sp ''__gxx_personality_v0'';
        let (pers_type, sp) = sp_intern_string alloc sp
              ''i32!i32@i32@i64@%struct._Unwind_Exception*@%struct._Unwind_Context*@'';
        fats \<leftarrow> dict_add fats lit ();
        Some (sc\<lparr> l_functions := l_functions sc @ [alloc_function\<lparr> f_name := entry, f_type := entry_type \<rparr>,
                                                    alloc_function\<lparr> f_name := pers, f_type := pers_type \<rparr>],
                  l_fats_in_data := fats, l_pool := sp, l_cm := cm \<rparr>) }
      else Some sc)"

definition fill_module :: "nat \<Rightarrow> scan \<Rightarrow> codemodule option" where
  "fill_module fsz sc = do {
     let cm = (l_cm sc)\<lparr> m_icfs := l_icfs sc, m_functions := l_functions sc, m_classes := l_classes sc,
       m_cha := l_cha sc, m_aliases := l_aliases sc,
       m_fats_in_code := map (\<lambda>kv. (fst kv, [])) (l_fats_in_code sc), m_fats_in_data := l_fats_in_data sc \<rparr>;
     fats \<leftarrow> merge_dicts (m_fats cm) (l_fats_in_code sc);
     fats \<leftarrow> merge_dicts fats (l_fats_in_data sc);
     Some (cm\<lparr> m_fats := fats, m_vtable := l_vtable sc, m_sz := of_nat fsz \<rparr>) }"

section \<open>The symbol table\<close>

record symscan =
  y_cm :: codemodule
  y_elf :: mem
  y_pool :: pool
  y_bid :: u32
  y_flp :: "name graph"
  y_patch_call :: u32

text \<open>The key of the last entry of \<open>ra_orig\<close> is marked after it was added.\<close>

definition mark_last :: "(u64, u64) dict \<Rightarrow> (u64, u64) dict" where
  "mark_last d = butlast d @ [(mark_ra_ic (fst (last d)), snd (last d))]"

text \<open>A constructor whose virtual methods are not in the graph yet.\<close>

definition add_ctor :: "(name, name) dict \<Rightarrow> name adj \<Rightarrow> mem \<Rightarrow> name \<Rightarrow> u64 \<Rightarrow> codemodule \<Rightarrow> codemodule option" where
  "add_ctor ctor vtt elf n off cm =
     (case dict_find ctor n of
        None \<Rightarrow> Some cm
      | Some cls \<Rightarrow>
          if dict_find vtt cls = None \<and> dict_find (m_vtable cm) cls \<noteq> None then do {
            fo \<leftarrow> dict_add (func_orig cm) off (read64 elf (unat off));
            ct \<leftarrow> dict_add (m_ctor cm) off cls;
            dc \<leftarrow> (if dict_find (m_defined_ctors cm) cls = None then dict_add (m_defined_ctors cm) cls ()
                   else Some (m_defined_ctors cm));
            Some (cm\<lparr> func_orig := fo, m_ctor := ct, m_defined_ctors := dc \<rparr>) }
          else Some cm)"

definition load_symbol ::
  "(nat \<Rightarrow> name) \<Rightarrow> nat \<Rightarrow> nat \<Rightarrow> (name, name) dict \<Rightarrow> name adj \<Rightarrow> name \<Rightarrow> elf_sym \<Rightarrow> symscan \<Rightarrow> symscan option" where
  "load_symbol alloc fsz strtab ctor vtt pcn sy y = do {
     nm \<leftarrow> c_string (y_elf y) fsz (strtab + unat (st_name sy));
     let cm = y_cm y;
     let elf = y_elf y;
     let off = st_value sy - base_addr cm;
     if take 11 nm = ''__mcfi_dcj_'' then do {
       let (n, sp) = sp_intern_string alloc (y_pool y) (eat_hex_and_udscore (drop 11 nm));
       ra \<leftarrow> dict_add (ra_orig cm) off (read64 elf (unat (off - 8)));
       Some (y\<lparr> y_pool := sp, y_cm := cm\<lparr> m_rad := m_rad cm @ [\<lparr> s_name = n, s_offset = off \<rparr>], ra_orig := ra \<rparr> \<rparr>) }
     else if take 11 nm = ''__mcfi_icj_'' then do {
       let (n, sp) = sp_intern_string alloc (y_pool y) (eat_hex_and_udscore (drop 11 nm));
       ra \<leftarrow> dict_add (ra_orig cm) off (read64 elf (unat (off - 8)));
       Some (y\<lparr> y_pool := sp,
                y_cm := cm\<lparr> m_rai := m_rai cm @ [\<lparr> s_name = n, s_offset = off \<rparr>], ra_orig := mark_last ra \<rparr> \<rparr>) }
     else if take 10 nm = ''__mcfi_at_'' then do {
       let (n, sp) = sp_intern_string alloc (y_pool y) (eat_hex_and_udscore (drop 10 nm));
       at \<leftarrow> dict_add (at_func cm) off n;
       Some (y\<lparr> y_pool := sp, y_cm := cm\<lparr> at_func := at \<rparr> \<rparr>) }
     else if take 10 nm = ''__mcfi_lp_'' then do {
       let (n, sp) = sp_intern_string alloc (y_pool y) (eat_hex_and_udscore (drop 10 nm));
       Some (y\<lparr> y_pool := sp, y_cm := cm\<lparr> m_lp := m_lp cm @ [\<lparr> s_name = 0, s_offset = off \<rparr>] \<rparr>,
                y_flp := g_add_directed_edge (y_flp y) n off \<rparr>) }
     else if take 12 nm = ''__mcfi_bary_'' then do {
       let (n, sp) = sp_intern_string alloc (y_pool y) (drop 12 nm);
       let bid = y_bid y;
       Some (y\<lparr> y_pool := sp, y_bid := bid + 8, y_elf := write32 elf (unat (off - 4)) bid,
                y_cm := cm\<lparr> m_icfsyms := m_icfsyms cm @ [\<lparr> s_name = n, s_offset = ucast bid \<rparr>] \<rparr> \<rparr>) }
     else if ELF64_ST_TYPE (st_info sy) = STT_FUNC \<and> st_shndx sy \<noteq> SHN_UNDEF then do {
       let (n, sp) = sp_intern_string alloc (y_pool y) nm;
       cm \<leftarrow> add_ctor ctor vtt elf n off (cm\<lparr> m_funcsyms := m_funcsyms cm @ [\<lparr> s_name = n, s_offset = off \<rparr>] \<rparr>);
       Some (y\<lparr> y_pool := sp,
                y_patch_call := (if n = pcn then ucast off else y_patch_call y),
                y_cm := (if ELF64_ST_BIND (st_info sy) = STB_WEAK
                         then cm\<lparr> weakfuncs := g_add_directed_edge (weakfuncs cm) off n \<rparr> else cm) \<rparr>) }
     else Some y }"

text \<open>The landing pads of a function, and the original bytes of its entry.\<close>

definition add_landing_pads :: "mem \<Rightarrow> name graph \<Rightarrow> symbol \<Rightarrow> codemodule \<Rightarrow> codemodule option" where
  "add_landing_pads elf flp f cm =
     (case dict_find flp (s_name f) of
        None \<Rightarrow> Some cm
      | Some pads \<Rightarrow> do {
          let cm = cm\<lparr> m_flp := fold (\<lambda>v g. g_add_edge g (s_offset f) (fst v)) pads (m_flp cm) \<rparr>;
          fo \<leftarrow> (if dict_find (func_orig cm) (s_offset f) = None
                 then dict_add (func_orig cm) (s_offset f) (read64 elf (unat (s_offset f)))
                 else Some (func_orig cm));
          Some (cm\<lparr> func_orig := fo \<rparr>) })"

definition load_dynsym ::
  "(nat \<Rightarrow> name) \<Rightarrow> mem \<Rightarrow> nat \<Rightarrow> nat \<Rightarrow> name graph \<Rightarrow> elf_sym \<Rightarrow> codemodule \<times> pool \<Rightarrow> (codemodule \<times> pool) option" where
  "load_dynsym alloc elf fsz dynstr aliases_tc sy s =
     (let (cm, sp) = s in
      if ELF64_ST_BIND (st_info sy) = STB_GLOBAL \<and> ELF64_ST_TYPE (st_info sy) = STT_FUNC \<and> st_shndx sy \<noteq> 0 then do {
        nm \<leftarrow> c_string elf fsz (dynstr + unat (st_name sy));
        let (fname, sp) = sp_intern_string alloc sp nm;
        let addr = st_value sy - base_addr cm;
        let names = (case dict_find aliases_tc fname of None \<Rightarrow> [fname] | Some adj \<Rightarrow> map fst adj);
        Some (cm\<lparr> dynfuncs := fold (\<lambda>n g. g_add_directed_edge g addr n) names (dynfuncs cm) \<rparr>, sp) }
      else Some s)"

text \<open>An entry of the procedure linkage table; the last two components are the offsets of
  \<open>__patch_call\<close> and \<open>__patch_entry\<close>, \<open>-1\<close> when unknown.\<close>

definition load_plt_entry ::
  "(nat \<Rightarrow> name) \<Rightarrow> mem \<Rightarrow> nat \<Rightarrow> scan \<Rightarrow> name \<Rightarrow> name \<Rightarrow> nat \<Rightarrow> codemodule \<times> pool \<times> u32 \<times> u32
     \<Rightarrow> (codemodule \<times> pool \<times> u32 \<times> u32) option" where
  "load_plt_entry alloc elf fsz sc pcn pen cnt s = do {
     let (cm, sp, pco, peo) = s;
     let r = read_rela elf (l_relaplt sc) cnt;
     let dsym = read_sym elf (l_dynsym sc) (unat (ELF64_R_SYM (r_info r)));
     nm \<leftarrow> c_string elf fsz (l_dynstr sc + unat (st_name dsym));
     let (n, sp) = sp_intern_string alloc sp nm;
     let off = l_plt_offset sc + of_nat (cnt + 1) * (if instrumented cm then 32 else 16);
     gp \<leftarrow> dict_add (gpfuncs cm) (r_offset r - gotplt cm) n;
     Some (cm\<lparr> m_funcsyms := m_funcsyms cm @ [\<lparr> s_name = n, s_offset = off \<rparr>], gpfuncs := gp \<rparr>, sp,
       (if n = pcn then ucast off else pco),
       (if n \<noteq> pcn \<and> n = pen then ucast off else peo)) }"

section \<open>Patching call sites\<close>

text \<open>One call site, given by its return address: a direct call gets a new target; an indirect
  call, three or two bytes long behind a nop, is overlaid by a call. The marks of indirect calls are
  taken off.\<close>

definition patch_site :: "u32 \<Rightarrow> u64 \<times> u64 \<Rightarrow> mem \<times> (u64, u64) dict \<Rightarrow> mem \<times> (u64, u64) dict" where
  "patch_site pco kv s =
     (let (elf, ra) = s in
      if is_marked_ra_ic (fst kv) then
        let k = unmark_ptr (fst kv);
            callsite_offset = (ucast k :: u32);
            p = unat (ucast callsite_offset - 8 :: u64);
            (nop_offset, callsite_offset) =
              (if elf (p + 5) \<noteq> 0 then (0, callsite_offset - 3) else (1, callsite_offset - 2));
            elf = write8 elf (p + nop_offset) 0xe8;
            elf = write32 elf (p + nop_offset + 1) (pco - callsite_offset)
        in (elf, ra @ [(k, snd kv)])
      else
        let callsite_offset = (ucast (fst kv) :: u32);
            elf = write32 elf (unat (ucast callsite_offset - 4 :: u64)) (pco - callsite_offset)
        in (elf, ra @ [kv]))"

definition patch_sites :: "u32 \<Rightarrow> mem \<Rightarrow> (u64, u64) dict \<Rightarrow> mem \<times> (u64, u64) dict" where
  "patch_sites pco elf ra = fold (patch_site pco) ra (elf, [])"

text \<open>A function that begins right behind a patched call site: its original bytes are the patched
  ones.\<close>

definition order_patches :: "mem \<Rightarrow> (u64, u64) dict \<Rightarrow> (u64, u64) dict \<Rightarrow> (u64, u64) dict" where
  "order_patches elf ra fo =
     map (\<lambda>kv. (fst kv, if dict_find ra (fst kv + 8) \<noteq> None then read64 elf (unat (fst kv)) else snd kv)) fo"

definition patch_entries :: "u32 \<Rightarrow> (u64, u64) dict \<Rightarrow> mem \<Rightarrow> mem" where
  "patch_entries peo fo elf =
     fold (\<lambda>kv elf.
        let callsite = (ucast (fst kv) :: u32); p = unat callsite
        in write32 (write8 elf p 0xe8) (p + 1) (peo - (callsite + 5))) fo elf"

definition patch_module :: "bool \<Rightarrow> u32 \<Rightarrow> u32 \<Rightarrow> codemodule \<times> mem \<Rightarrow> codemodule \<times> mem" where
  "patch_module nop pco peo s =
     (if nop then s
      else
        let (cm, elf) = s;
            (elf, ra) = (if pco \<noteq> - 1 then patch_sites pco elf (ra_orig cm) else (elf, ra_orig cm));
            fo = order_patches elf ra (func_orig cm);
            elf = (if peo \<noteq> - 1 then patch_entries peo fo elf else elf)
        in (cm\<lparr> ra_orig := ra, func_orig := fo \<rparr>, elf))"

section \<open>Loading the metadata\<close>

text \<open>The result is the module, the rewritten file, the string pool and the next branch slot.\<close>

definition load_mcfi_metadata ::
  "(nat \<Rightarrow> name) \<Rightarrow> name \<Rightarrow> bool \<Rightarrow> name adj \<Rightarrow> mem \<Rightarrow> nat \<Rightarrow> pool \<Rightarrow> u32 \<Rightarrow> (codemodule \<times> mem \<times> pool \<times> u32) option" where
  "load_mcfi_metadata alloc lit nop vtt elf fsz sp bid = do {
     let eh = read_ehdr elf;
     sc \<leftarrow> load_sections alloc elf fsz eh sp;
     sc \<leftarrow> add_exe_functions alloc lit eh sc;
     cm \<leftarrow> fill_module fsz sc;
     aliases_tc \<leftarrow> g_transitive_closure (l_aliases sc);
     let (pcn, sp) = sp_intern_string alloc (l_pool sc) ''__patch_call'';
     let (pen, sp) = sp_intern_string alloc sp ''__patch_entry'';
     y \<leftarrow> foldM (\<lambda>cnt y. load_symbol alloc fsz (l_strtab sc) (l_ctor sc) vtt pcn (read_sym (y_elf y) (l_sym sc) cnt) y)
            [0..<l_numsym sc]
            \<lparr> y_cm = cm, y_elf = elf, y_pool = sp, y_bid = bid, y_flp = [], y_patch_call = - 1 \<rparr>;
     let elf = y_elf y;
     cm \<leftarrow> foldM (add_landing_pads elf (y_flp y)) (m_funcsyms (y_cm y)) (y_cm y);
     (cm, sp) \<leftarrow> foldM (\<lambda>cnt. load_dynsym alloc elf fsz (l_dynstr sc) aliases_tc (read_sym elf (l_dynsym sc) cnt))
                  [0..<l_numdynsym sc] (cm, y_pool y);
     (cm, sp, pco, peo) \<leftarrow> foldM (load_plt_entry alloc elf fsz sc pcn pen) [0..<l_numrelaplt sc]
                              (cm, sp, y_patch_call y, - 1);
     let (cm, elf) = patch_module nop pco peo (cm, elf);
     Some (cm, elf, sp, y_bid y) }"

section \<open>Mapping a module\<close>

definition prot_of :: "u32 \<Rightarrow> u32" where
  "prot_of x = (if x AND PF_X \<noteq> 0 then PROT_EXEC else 0) OR (if x AND PF_W \<noteq> 0 then PROT_WRITE else 0)
     OR (if x AND PF_R \<noteq> 0 then PROT_READ else 0)"

definition load_elf_content :: "kernel \<Rightarrow> u32 \<Rightarrow> u64 \<Rightarrow> sandbox \<Rightarrow> (u64 \<times> u64 \<times> sandbox) option" where
  "load_elf_content kern fd st_sz sb = do {
     let sz = (st_sz + PAGE_SIZE - 1) div PAGE_SIZE * PAGE_SIZE;
     let (elf, sb) = mmap kern 0 sz (PROT_READ OR PROT_WRITE) MAP_PRIVATE fd 0 sb;
     CHECK (elf \<noteq> MAP_FAILED);
     Some (elf, sz, sb) }"

definition trampoline_names :: "string list" where
  "trampoline_names = [''trampoline_mmap'', ''trampoline_mremap'', ''trampoline_mprotect'', ''trampoline_munmap'',
     ''trampoline_brk'', ''trampoline_set_tcb'', ''trampoline_allocset_tcb'', ''trampoline_free_tcb'',
     ''trampoline_load_native_code'', ''trampoline_gen_cfg'']"

text \<open>The static set \<open>tramps\<close> is built at the first call and kept.\<close>

definition remove_trampoline_type ::
  "(nat \<Rightarrow> name) \<Rightarrow> codemodule \<Rightarrow> name adj \<times> pool \<Rightarrow> codemodule \<times> name adj \<times> pool" where
  "remove_trampoline_type alloc m s =
     (let (tramps, sp) =
            (if fst s = [] then fold (\<lambda>w (g, sp). let (n, sp) = sp_intern_string alloc sp w in (g_add_vertex () g n, sp))
                                  trampoline_names s
             else s)
      in (m\<lparr> m_functions := map (\<lambda>f. if g_in tramps (f_name f) then f\<lparr> f_type := 0 \<rparr> else f) (m_functions m) \<rparr>,
          tramps, sp))"

definition phdrs :: "mem \<Rightarrow> phdr list" where
  "phdrs elf = map (read_phdr elf (unat (e_phoff (read_ehdr elf)))) [0..<unat (e_phnum (read_ehdr elf))]"

definition phdr_vaddr_end :: "phdr list \<Rightarrow> u64" where
  "phdr_vaddr_end phs =
     RoundToPage (fold (\<lambda>ph e. if p_type ph = PT_LOAD \<and> p_vaddr ph + p_memsz ph > e then p_vaddr ph + p_memsz ph else e) phs 0)"

definition VADDR :: "u64 \<Rightarrow> bool \<Rightarrow> u64" where
  "VADDR vaddr exe = (if exe then vaddr - X64ABIBASE else vaddr)"

definition load_segment ::
  "kernel \<Rightarrow> bool \<Rightarrow> u64 \<Rightarrow> u64 \<Rightarrow> phdr \<Rightarrow> codemodule \<times> sandbox \<Rightarrow> (codemodule \<times> sandbox) option" where
  "load_segment kern exe base elf_addr ph s =
     (if p_type ph = PT_LOAD then do {
        let (cm, sb) = s;
        let curpage = CurPage (base + VADDR (p_vaddr ph) exe);
        let sz = RoundToPage (base + VADDR (p_vaddr ph) exe + p_memsz ph) - curpage;
        let pr = prot_of (p_flags ph);
        (content, cm, sb) \<leftarrow>
          (if pr AND PROT_EXEC \<noteq> 0 then do {
             (osb_base, sb) \<leftarrow> create_parallel_mapping kern base sz PROT_EXEC sb;
             Some (osb_base, cm\<lparr> osb_base_addr := osb_base, m_sz := sz \<rparr>, sb) }
           else do {
             let (p, sb) = mmap kern curpage sz (PROT_READ OR PROT_WRITE)
                             (MAP_ANONYMOUS OR MAP_PRIVATE OR MAP_FIXED) (- 1) 0 sb;
             CHECK (p = curpage);
             Some (p, cm, sb) });
        let sb = emit (Memcpy (content + (p_vaddr ph AND (PAGE_SIZE - 1))) (elf_addr + p_offset ph) (p_filesz ph)) sb;
        Some (cm, sb\<lparr> VM := VmmapAdd (drop_bit PAGESHIFT curpage) (drop_bit PAGESHIFT sz) pr pr
                              VMMAP_ENTRY_ANONYMOUS (VM sb) \<rparr>) }
      else Some s)"

text \<open>The \<open>.got.plt\<close> of an instrumented module is mapped again, read-only in the sandbox; its contents
  are kept in the buffer \<open>buf\<close> meanwhile.\<close>

definition remap_gotplt :: "kernel \<Rightarrow> bool \<Rightarrow> u64 \<Rightarrow> u64 \<Rightarrow> codemodule \<times> sandbox \<Rightarrow> (codemodule \<times> sandbox) option" where
  "remap_gotplt kern exe base buf s = do {
     let (cm, sb) = s;
     let addr = base + VADDR (gotplt cm) exe;
     if instrumented cm then do {
       let sb = emit (Memcpy buf addr (gotpltsz cm)) sb;
       let (rc, sb) = munmap kern addr (gotpltsz cm) sb;
       CHECK (rc = 0);
       (osb_gp, sb) \<leftarrow> create_parallel_mapping kern addr (gotpltsz cm) PROT_READ sb;
       Some (cm\<lparr> gotplt := addr, osb_gotplt := osb_gp \<rparr>, emit (Memcpy osb_gp buf (gotpltsz cm)) sb) }
     else Some (cm\<lparr> gotplt := addr \<rparr>, sb) }"

record loader =
  ld_sb :: sandbox
  ld_pool :: pool
  ld_bid :: u32
  ld_tramps :: "name adj"
  COMPAT_MODE :: bool

text \<open>\<open>file\<close> is the file behind the descriptor \<open>fd\<close> and \<open>st_sz\<close> its size; the results are the base
  address and the entry point.\<close>

definition load_elf ::
  "kernel \<Rightarrow> (nat \<Rightarrow> name) \<Rightarrow> name \<Rightarrow> bool \<Rightarrow> u64 \<Rightarrow> u32 \<Rightarrow> mem \<Rightarrow> u64 \<Rightarrow> bool \<Rightarrow> loader \<Rightarrow> (u64 \<times> u64 \<times> loader) option" where
  "load_elf kern alloc lit nop buf fd file st_sz exe ld = do {
     (elf_addr, elf_size, sb) \<leftarrow> load_elf_content kern fd st_sz (ld_sb ld);
     let sb = emit (Close fd) sb;
     (cm, elf, sp, bid) \<leftarrow> load_mcfi_metadata alloc lit nop (vtabletaken (sb_rt sb)) file (unat elf_size) (ld_pool ld) (ld_bid ld);
     let (cm, tramps, sp) = remove_trampoline_type alloc cm (ld_tramps ld, sp);
     let cm = cm\<lparr> is_exe := exe \<rparr>;
     let phs = phdrs elf;
     (base, vm) \<leftarrow> (if \<not> exe then do {
                      (pa, vm) \<leftarrow> VmmapFindSpace (drop_bit PAGESHIFT (phdr_vaddr_end phs)) (VM sb);
                      CHECK (pa \<noteq> 0);
                      Some (push_bit PAGESHIFT pa, vm) }
                    else Some (X64ABIBASE, VM sb));
     (cm, sb) \<leftarrow> foldM (load_segment kern exe base elf_addr) phs (cm, sb\<lparr> VM := vm \<rparr>);
     (cm, sb) \<leftarrow> remap_gotplt kern exe base buf (cm, sb);
     let cm = cm\<lparr> base_addr := base \<rparr>;
     let (_, sb) = munmap kern elf_addr elf_size sb;
     let rt = sb_rt sb;
     Some (base, base + e_entry (read_ehdr elf),
       ld\<lparr> ld_sb := sb\<lparr> sb_rt := rt\<lparr> rt_modules := rt_modules rt @ [cm] \<rparr> \<rparr>, ld_pool := sp, ld_bid := bid,
           ld_tramps := tramps, COMPAT_MODE := (COMPAT_MODE ld \<or> \<not> instrumented cm) \<rparr>) }"

definition vtabletaken_names :: "string list" where
  "vtabletaken_names = [''__cxxabiv1::__shim_type_info'', ''__cxxabiv1::__fundamental_type_info'',
     ''__cxxabiv1::__array_type_info'', ''__cxxabiv1::__function_type_info'', ''__cxxabiv1::__enum_type_info'',
     ''__cxxabiv1::__class_type_info'', ''__cxxabiv1::__si_class_type_info'', ''__cxxabiv1::__vmi_class_type_info'',
     ''__cxxabiv1::__pbase_type_info'', ''__cxxabiv1::__pointer_type_info'',
     ''__cxxabiv1::__pointer_to_member_type_info'']"

definition populate_vtabletaken :: "(nat \<Rightarrow> name) \<Rightarrow> loader \<Rightarrow> loader option" where
  "populate_vtabletaken alloc ld = do {
     (vtt, sp) \<leftarrow> foldM (\<lambda>w (d, sp). do {
                      let (n, sp) = sp_intern_string alloc sp w;
                      d \<leftarrow> dict_add d n ();
                      Some (d, sp) }) vtabletaken_names (vtabletaken (sb_rt (ld_sb ld)), ld_pool ld);
     let sb = ld_sb ld;
     Some (ld\<lparr> ld_sb := sb\<lparr> sb_rt := (sb_rt sb)\<lparr> vtabletaken := vtt \<rparr> \<rparr>, ld_pool := sp \<rparr>) }"

definition load_native_code ::
  "kernel \<Rightarrow> (nat \<Rightarrow> name) \<Rightarrow> name \<Rightarrow> bool \<Rightarrow> u64 \<Rightarrow> u32 \<Rightarrow> mem \<Rightarrow> u64 \<Rightarrow> loader \<Rightarrow> (u64 \<times> loader) option" where
  "load_native_code kern alloc lit nop buf fd file st_sz ld =
     map_option (\<lambda>(base, _, ld). (base, ld)) (load_elf kern alloc lit nop buf fd file st_sz False ld)"

end
