(* ===== verification/Loader_Correct.thy ===== *)
theory Loader_Correct
  imports Loader Gencfg
begin

unbundle bit_operations_syntax

text \<open>
  What the loader guarantees. Whatever an ELF file contains, a module that \<open>load_mcfi_metadata\<close>
  returns has the shape that the generation of the control-flow graph relies on, and its branch
  slots are fresh; the patched call sites all call the patch routine, which restores them.
\<close>

section \<open>The parsers\<close>

text \<open>Interned strings live in user space, so their pointers can be marked.\<close>

definition allocs_ok :: "(nat \<Rightarrow> name) \<Rightarrow> bool" where
  "allocs_ok alloc \<longleftrightarrow> (\<forall>n. user_ptr (alloc n))"

definition pool_ok :: "pool \<Rightarrow> bool" where
  "pool_ok sp \<longleftrightarrow> (\<forall>e \<in> set sp. user_ptr (snd e))"

lemma intern_ok:
  "sp_intern_string alloc sp s = (h, sp') \<Longrightarrow> allocs_ok alloc \<Longrightarrow> pool_ok sp \<Longrightarrow> user_ptr h \<and> pool_ok sp'"
  by (auto simp: sp_intern_string_def sp_add_cpy_or_nothing_def sp_add_cpy_def sp_str_handle_def dict_put_def Let_def
      pool_ok_def allocs_ok_def dict_find_def split: option.splits dest!: map_of_SomeD)

lemma get_interned_ok:
  "get_interned alloc sp c s = Some (h, stop, r, sp') \<Longrightarrow> allocs_ok alloc \<Longrightarrow> pool_ok sp \<Longrightarrow> user_ptr h \<and> pool_ok sp'"
  by (auto simp: get_interned_def split: option.splits prod.splits dest!: intern_ok)

text \<open>Each parser keeps the pool; what it interns are user pointers.\<close>

lemma parse_icf_ok:
  assumes "parse_icf alloc ic cursor sp = Some (ic', rest, sp')" and "allocs_ok alloc" and "pool_ok sp"
  shows "icf_id ic' = icf_id ic \<and> pool_ok sp'"
  using assms by (auto simp: parse_icf_def bind_eq_Some_conv Let_def split_beta split: list.splits if_splits
      dest!: get_interned_ok) (metis intern_ok prod.collapse)

lemma parse_icfs_ok:
  "parse_icfs alloc cursor icfs sp = Some (icfs', sp') \<Longrightarrow> allocs_ok alloc \<Longrightarrow> pool_ok sp \<Longrightarrow>
    \<forall>ic \<in> set icfs. user_ptr (icf_id ic) \<Longrightarrow> (\<forall>ic \<in> set icfs'. user_ptr (icf_id ic)) \<and> pool_ok sp'"
proof (induction alloc cursor icfs sp rule: parse_icfs.induct)
  case (1 alloc cursor icfs sp)
  show ?case
  proof (cases "cursor = []")
    case True
    with 1 show ?thesis by (simp add: parse_icfs.simps)
  next
    case False
    with 1(2) obtain i stop c1 sp1 ic c2 sp2 where
      g: "get_interned alloc sp cursor (CHR ''#'') = Some (i, stop, c1, sp1)"
      and p: "parse_icf alloc (alloc_icf\<lparr> icf_id := i \<rparr>) c1 sp1 = Some (ic, c2, sp2)"
      and r: "parse_icfs alloc c2 (icfs @ [ic]) sp2 = Some (icfs', sp')"
      by (subst (asm) parse_icfs.simps) (auto split: option.splits prod.splits)
    have h: "user_ptr i" "pool_ok sp1" using get_interned_ok [OF g 1(3,4)] by auto
    have ic: "icf_id ic = i" "pool_ok sp2" using parse_icf_ok [OF p 1(3) h(2)] by auto
    show ?thesis
      using 1(1) [OF False g refl refl refl p refl refl r 1(3) ic(2)] 1(5) h(1) ic(1) by auto
  qed
qed

lemma parse_fats_ok:
  "parse_fats alloc cursor fats sp = Some (fats', sp') \<Longrightarrow> allocs_ok alloc \<Longrightarrow> pool_ok sp \<Longrightarrow> pool_ok sp'"
proof (induction alloc cursor fats sp rule: parse_fats.induct)
  case (1 alloc cursor fats sp)
  then show ?case
    by (subst (asm) (2) parse_fats.simps) (auto split: if_splits option.splits prod.splits dest: get_interned_ok)
qed

lemma parse_aliases_ok:
  "parse_aliases alloc cursor aliases sp = Some (aliases', sp') \<Longrightarrow> allocs_ok alloc \<Longrightarrow> pool_ok sp \<Longrightarrow>
    g_sym aliases \<Longrightarrow> \<forall>a \<in> keys aliases. user_ptr a \<Longrightarrow>
    g_sym aliases' \<and> (\<forall>a \<in> keys aliases'. user_ptr a) \<and> pool_ok sp'"
proof (induction alloc cursor aliases sp rule: parse_aliases.induct)
  case (1 alloc cursor aliases sp)
  show ?case
  proof (cases "cursor = []")
    case True
    with 1 show ?thesis by (simp add: parse_aliases.simps)
  next
    case False
    with 1(2) obtain a s1 c1 sp1 b s2 c2 sp2 where
      g: "get_interned alloc sp cursor (CHR '' '') = Some (a, s1, c1, sp1)"
      and g2: "get_interned alloc sp1 c1 (CHR '' '') = Some (b, s2, c2, sp2)"
      and r: "parse_aliases alloc c2 (g_add_edge aliases a b) sp2 = Some (aliases', sp')"
      by (subst (asm) parse_aliases.simps) (auto split: option.splits prod.splits)
    have h: "user_ptr a" "pool_ok sp1" using get_interned_ok [OF g 1(3,4)] by auto
    have h2: "user_ptr b" "pool_ok sp2" using get_interned_ok [OF g2 1(3) h(2)] by auto
    have "g_sym (g_add_edge aliases a b)" "\<forall>x \<in> keys (g_add_edge aliases a b). user_ptr x"
      using 1(5,6) h(1) h2(1) by (auto intro: inv_intros simp: graph_simps)
    with 1(1) [OF False g refl refl refl g2 refl refl refl r 1(3) h2(2)] show ?thesis by blast
  qed
qed


lemma add_node_list_ok:
  "add_node_list alloc cursor s nodes sp = Some (nodes', sp') \<Longrightarrow> allocs_ok alloc \<Longrightarrow> pool_ok sp \<Longrightarrow> pool_ok sp'"
proof (induction alloc cursor s nodes sp rule: add_node_list.induct)
  case (1 alloc cursor s nodes sp)
  then show ?case
    by (subst (asm) (2) add_node_list.simps) (auto split: if_splits option.splits prod.splits dest: get_interned_ok)
qed

lemma parse_vtable_ok:
  "parse_vtable alloc cursor vtable sp = Some (vtable', sp') \<Longrightarrow> allocs_ok alloc \<Longrightarrow> pool_ok sp \<Longrightarrow> pool_ok sp'"
proof (induction alloc cursor vtable sp rule: parse_vtable.induct)
  case (1 alloc cursor vtable sp)
  show ?case
  proof (cases "cursor = []")
    case True
    with 1 show ?thesis by (simp add: parse_vtable.simps)
  next
    case False
    with 1(2) obtain ctor s1 c1 sp1 local s2 c2 vmtd sp2 where
      g: "get_interned alloc sp cursor (CHR ''#'') = Some (ctor, s1, c1, sp1)"
      and g2: "get_string_before_symbol c1 (CHR 0x0A) = Some (local, s2, c2)"
      and n: "add_node_list alloc (local @ [NUL]) (CHR ''#'') [] sp1 = Some (vmtd, sp2)"
      and r: "parse_vtable alloc c2 (if dict_find vtable ctor = None then dict_put vtable ctor vmtd else vtable) sp2
                = Some (vtable', sp')"
      by (subst (asm) parse_vtable.simps) (auto split: option.splits prod.splits)
    have "pool_ok sp2" using get_interned_ok [OF g 1(3,4)] add_node_list_ok [OF n 1(3)] by blast
    then show ?thesis using 1(1) [OF False g refl refl refl g2 refl refl n refl r 1(3)] by blast
  qed
qed

lemma parse_nodes_ok:
  "parse_nodes alloc cursor nodes sp = Some (ns, stop, rest, sp') \<Longrightarrow> allocs_ok alloc \<Longrightarrow> pool_ok sp \<Longrightarrow> pool_ok sp'"
  by (auto simp: parse_nodes_def bind_eq_Some_conv dest: add_node_list_ok)

definition fstate_ok :: "fstate \<Rightarrow> bool" where
  "fstate_ok st \<longleftrightarrow> (\<forall>f \<in> set_option (fst st) \<union> set (fst (snd st)). user_ptr (f_name f)) \<and> pool_ok (snd (snd (snd st)))"

lemma parse_function_line_ok:
  "parse_function_line alloc cursor st = Some (stop, rest, st') \<Longrightarrow> allocs_ok alloc \<Longrightarrow> fstate_ok st \<Longrightarrow> fstate_ok st'"
  by (auto simp: parse_function_line_def bind_eq_Some_conv Let_def split_beta fstate_ok_def
      split: list.splits if_splits option.splits dest: get_interned_ok parse_nodes_ok)
    (metis get_interned_ok intern_ok prod.collapse)+

lemma parse_functions_loop_ok:
  "parse_functions_loop alloc cursor stop st = Some st' \<Longrightarrow> allocs_ok alloc \<Longrightarrow> fstate_ok st \<Longrightarrow> fstate_ok st'"
proof (induction alloc cursor stop st rule: parse_functions_loop.induct)
  case (1 alloc cursor stop st)
  then show ?case
    by (subst (asm) (2) parse_functions_loop.simps)
      (auto split: if_splits option.splits prod.splits dest: parse_function_line_ok)
qed

lemma parse_functions_ok:
  assumes "parse_functions alloc text fs ctor sp = Some (fs', ctor', sp')" and "allocs_ok alloc" and "pool_ok sp"
    and "\<forall>f \<in> set fs. user_ptr (f_name f)"
  shows "(\<forall>f \<in> set fs'. user_ptr (f_name f)) \<and> pool_ok sp'"
proof -
  obtain fo where "parse_functions_loop alloc text True (None, fs, ctor, sp) = Some (fo, fs', ctor', sp')"
    using assms(1) by (auto simp: parse_functions_def)
  from parse_functions_loop_ok [OF this assms(2)] show ?thesis using assms(3,4) by (simp add: fstate_ok_def)
qed

lemma inherit_loop_ok:
  "inherit_loop alloc sub stop cursor cha sp = Some (rest, cha', sp') \<Longrightarrow> allocs_ok alloc \<Longrightarrow> pool_ok sp \<Longrightarrow>
    g_sym cha \<Longrightarrow> g_sym cha' \<and> pool_ok sp'"
proof (induction alloc sub stop cursor cha sp rule: inherit_loop.induct)
  case (1 alloc sub stop cursor cha sp)
  show ?case
  proof (cases stop)
    case True
    with 1 show ?thesis by (simp add: inherit_loop.simps)
  next
    case False
    with 1(2) obtain super s1 r sp1 where
      g: "get_interned alloc sp cursor (CHR ''#'') = Some (super, s1, r, sp1)"
      and l: "inherit_loop alloc sub s1 r (g_add_edge cha sub super) sp1 = Some (rest, cha', sp')"
      by (subst (asm) inherit_loop.simps) (auto split: option.splits prod.splits)
    have "pool_ok sp1" using get_interned_ok [OF g 1(3,4)] by blast
    moreover have "g_sym (g_add_edge cha sub super)" using 1(5) by (intro inv_intros)
    ultimately show ?thesis using 1(1) [OF False g refl refl refl l 1(3)] by blast
  qed
qed

lemma methods_loop_ok:
  "methods_loop alloc cls stop cursor classes sp = Some (rest, classes', sp') \<Longrightarrow> allocs_ok alloc \<Longrightarrow> pool_ok sp \<Longrightarrow>
    classes_wf classes \<Longrightarrow> classes_wf classes' \<and> pool_ok sp'"
proof (induction alloc cls stop cursor classes sp rule: methods_loop.induct)
  case (1 alloc cls stop cursor classes sp)
  show ?case
  proof (cases stop)
    case True
    with 1 show ?thesis by (simp add: methods_loop.simps)
  next
    case False
    with 1(3) obtain str s1 r nm attrs m sp1 ms where
      g: "get_string_before_symbol cursor (CHR ''#'') = Some (str, s1, r)"
      and a: "get_cpp_method_attr str = Some (nm, attrs)" and i: "sp_intern_string alloc sp nm = (m, sp1)"
      and c: "dict_find classes cls = Some ms"
      by (subst (asm) methods_loop.simps) (auto split: option.splits prod.splits)
    have sp1: "pool_ok sp1" using intern_ok [OF i 1(4,5)] by blast
    have ms: "dict_wf ms" using 1(6) c by (simp add: classes_wf_def)
    show ?thesis
    proof (cases "dict_find ms m")
      case None
      have wf: "classes_wf (dict_set classes cls (dict_put ms m attrs))"
        using 1(6) ms None c by (auto simp: classes_wf_def dict_simps dict_find_None_iff dict_find_set split: if_splits)
      have r: "methods_loop alloc cls s1 r (dict_set classes cls (dict_put ms m attrs)) sp1 = Some (rest, classes', sp')"
        using 1(3) False g a i c None by (subst (asm) methods_loop.simps) simp
      show ?thesis using 1(1) [OF False g refl refl a refl i [symmetric] c None r 1(4) sp1 wf] .
    next
      case (Some a')
      have r: "methods_loop alloc cls s1 r classes sp1 = Some (rest, classes', sp')" and e: "\<not> a' \<noteq> attrs"
        using 1(3) False g a i c Some by (subst (asm) methods_loop.simps, simp split: if_splits)+
      show ?thesis using 1(2) [OF False g refl refl a refl i [symmetric] c Some e r 1(4) sp1 1(6)] .
    qed
  qed
qed


lemma parse_classes_ok:
  assumes "parse_classes alloc cursor classes sp = Some (rest, classes', sp')" and a: "allocs_ok alloc" "pool_ok sp"
    and wf: "classes_wf classes"
  shows "classes_wf classes' \<and> pool_ok sp'"
proof -
  obtain cls stop r sp1 where g: "get_interned alloc sp cursor (CHR ''#'') = Some (cls, stop, r, sp1)"
    and m: "methods_loop alloc cls stop r (if dict_in classes cls then classes else dict_put classes cls []) sp1
              = Some (rest, classes', sp')"
    using assms(1) by (auto simp: parse_classes_def split: option.splits)
  have "classes_wf (if dict_in classes cls then classes else dict_put classes cls [])"
    using wf by (auto simp: classes_wf_def dict_find_put dict_simps split: if_splits)
  with methods_loop_ok [OF m a(1)] get_interned_ok [OF g a] show ?thesis by blast
qed

lemma parse_inheritance_ok:
  assumes "parse_inheritance alloc cursor cha sp = Some (rest, cha', sp')" and a: "allocs_ok alloc" "pool_ok sp"
    and "g_sym cha"
  shows "g_sym cha' \<and> pool_ok sp'"
  using assms by (auto simp: parse_inheritance_def split: option.splits dest!: get_interned_ok inherit_loop_ok)

lemma parse_cha_ok:
  "parse_cha alloc cursor classes cha sp = Some (classes', cha', sp') \<Longrightarrow> allocs_ok alloc \<Longrightarrow> pool_ok sp \<Longrightarrow>
    g_sym cha \<Longrightarrow> classes_wf classes \<Longrightarrow> g_sym cha' \<and> classes_wf classes' \<and> pool_ok sp'"
proof (induction alloc cursor classes cha sp rule: parse_cha.induct)
  case (1 alloc cursor classes cha sp)
  consider (nil) "cursor = []"
    | (inh) r g p where "cursor \<noteq> []" "hd cursor = CHR ''I''" "parse_inheritance alloc (drop 2 cursor) cha sp = Some (r, g, p)"
        "parse_cha alloc r classes g p = Some (classes', cha', sp')"
    | (cls) r c p where "cursor \<noteq> []" "hd cursor \<noteq> CHR ''I''" "hd cursor = CHR ''M''"
        "parse_classes alloc (drop 2 cursor) classes sp = Some (r, c, p)"
        "parse_cha alloc r c cha p = Some (classes', cha', sp')"
    using 1(3) by (subst (asm) parse_cha.simps) (auto split: if_splits option.splits)
  then show ?case
  proof cases
    case nil
    with 1 show ?thesis by (simp add: parse_cha.simps)
  next
    case inh
    with 1(1) [OF inh(1-3) refl refl inh(4) 1(4)] parse_inheritance_ok [OF inh(3) 1(4-6)] 1(7) show ?thesis by blast
  next
    case cls
    with 1(2) [OF cls(1-4) refl refl cls(5) 1(4)] parse_classes_ok [OF cls(4) 1(4,5,7)] 1(6) show ?thesis by blast
  qed
qed

section \<open>The metadata of a loaded module\<close>

definition scan_ok :: "scan \<Rightarrow> bool" where
  "scan_ok sc \<longleftrightarrow> pool_ok (l_pool sc) \<and> m_icfsyms (l_cm sc) = [] \<and> \<not> cfggened (l_cm sc)
     \<and> cg_input_ok (l_icfs sc) (l_functions sc) (l_classes sc) (l_cha sc) (l_aliases sc)"

lemma init_scan_ok: "pool_ok sp \<Longrightarrow> scan_ok (init_scan sp)"
  by (simp add: scan_ok_def init_scan_def cg_input_ok_def classes_wf_def alloc_code_module_def)

lemma if_SomeE: "(if c then a else b) = Some x \<Longrightarrow> (a = Some x \<Longrightarrow> P) \<Longrightarrow> (b = Some x \<Longrightarrow> P) \<Longrightarrow> P"
  by (auto split: if_splits)

lemma load_section_ok:
  assumes "load_section alloc elf fsz strs sh sc = Some sc'" and "allocs_ok alloc" and "scan_ok sc"
  shows "scan_ok sc'"
  using assms(1) unfolding load_section_def bind_eq_Some_conv Let_def
  apply (elim exE conjE if_SomeE)
                  apply (use assms(2,3) in \<open>auto simp: bind_eq_Some_conv scan_ok_def set_instrumented_def cg_input_ok_def
      dest: parse_icfs_ok parse_functions_ok parse_cha_ok parse_aliases_ok parse_fats_ok parse_vtable_ok\<close>)
  done

lemma load_sections_ok:
  assumes "load_sections alloc elf fsz eh sp = Some sc" and "allocs_ok alloc" and "pool_ok sp"
  shows "scan_ok sc"
  using assms(1) unfolding load_sections_def Let_def
  by (rule foldM_invariant [where P = scan_ok])
    (use assms in \<open>auto intro: init_scan_ok load_section_ok split: if_splits\<close>)

lemma add_exe_functions_ok:
  assumes "add_exe_functions alloc lit eh sc = Some sc'" and "allocs_ok alloc" and "scan_ok sc"
  shows "scan_ok sc'"
proof (cases "e_type eh = ET_EXEC")
  case True
  define i1 where "i1 = sp_intern_string alloc (l_pool sc) ''__exe_elf_entry''"
  define i2 where "i2 = sp_intern_string alloc (snd i1) ''ExeElfEntry''"
  define i3 where "i3 = sp_intern_string alloc (snd i2) ''__gxx_personality_v0''"
  define i4 where "i4 = sp_intern_string alloc (snd i3) ''i32!i32@i32@i64@%struct._Unwind_Exception*@%struct._Unwind_Context*@''"
  note i = i1_def [symmetric] i2_def [symmetric] i3_def [symmetric] i4_def [symmetric]
  have p: "pool_ok (l_pool sc)" using assms(3) by (simp add: scan_ok_def)
  have u1: "user_ptr (fst i1) \<and> pool_ok (snd i1)" using intern_ok [OF _ assms(2) p] i1_def by (metis prod.collapse)
  have u2: "user_ptr (fst i2) \<and> pool_ok (snd i2)" using intern_ok [OF _ assms(2)] u1 i2_def by (metis prod.collapse)
  have u3: "user_ptr (fst i3) \<and> pool_ok (snd i3)" using intern_ok [OF _ assms(2)] u2 i3_def by (metis prod.collapse)
  have u4: "user_ptr (fst i4) \<and> pool_ok (snd i4)" using intern_ok [OF _ assms(2)] u3 i4_def by (metis prod.collapse)
  show ?thesis using assms(1,3) True u1 u3 u4
    by (auto simp: add_exe_functions_def Let_def split_beta i bind_eq_Some_conv scan_ok_def cg_input_ok_def)
qed (use assms in \<open>simp add: add_exe_functions_def\<close>)

definition meta_of :: "codemodule \<Rightarrow> icf list \<times> func list \<times> classes \<times> name graph \<times> name graph \<times> bool" where
  "meta_of cm = (m_icfs cm, m_functions cm, m_classes cm, m_cha cm, m_aliases cm, cfggened cm)"

lemma module_ok_meta: "meta_of cm = meta_of cm' \<Longrightarrow> module_ok cm \<longleftrightarrow> module_ok cm'"
  by (simp add: meta_of_def module_ok_def)

lemma fill_module_ok:
  assumes "fill_module fsz sc = Some cm" and "scan_ok sc"
  shows "module_ok cm \<and> m_icfsyms cm = [] \<and> \<not> cfggened cm"
  using assms by (auto simp: fill_module_def bind_eq_Some_conv module_ok_def scan_ok_def)

section \<open>Branch slots\<close>

text \<open>Slot \<open>i\<close> of a module whose first slot is \<open>bid\<close>.\<close>

definition slots_from :: "u32 \<Rightarrow> symbol list \<Rightarrow> bool" where
  "slots_from bid syms \<longleftrightarrow> map s_offset syms = map (\<lambda>i. ucast (bid + 8 * of_nat i)) [0..<length syms]"

text \<open>What no later step of the loading touches.\<close>

lemma meta_of_update [simp]:
  "meta_of (cm\<lparr> m_rad := a \<rparr>) = meta_of cm" "meta_of (cm\<lparr> m_rai := a \<rparr>) = meta_of cm"
  "meta_of (cm\<lparr> ra_orig := b \<rparr>) = meta_of cm" "meta_of (cm\<lparr> at_func := c \<rparr>) = meta_of cm"
  "meta_of (cm\<lparr> m_lp := a \<rparr>) = meta_of cm" "meta_of (cm\<lparr> m_icfsyms := a \<rparr>) = meta_of cm"
  "meta_of (cm\<lparr> m_funcsyms := a \<rparr>) = meta_of cm" "meta_of (cm\<lparr> weakfuncs := d \<rparr>) = meta_of cm"
  "meta_of (cm\<lparr> func_orig := b \<rparr>) = meta_of cm" "meta_of (cm\<lparr> m_ctor := c \<rparr>) = meta_of cm"
  "meta_of (cm\<lparr> m_defined_ctors := e \<rparr>) = meta_of cm" "meta_of (cm\<lparr> m_flp := f \<rparr>) = meta_of cm"
  "meta_of (cm\<lparr> dynfuncs := d \<rparr>) = meta_of cm" "meta_of (cm\<lparr> gpfuncs := c \<rparr>) = meta_of cm"
  by (simp_all add: meta_of_def)

lemma add_ctor_meta:
  "add_ctor ctor vtt elf n off cm = Some cm' \<Longrightarrow> meta_of cm' = meta_of cm \<and> m_icfsyms cm' = m_icfsyms cm"
  by (auto simp: add_ctor_def bind_eq_Some_conv split: option.splits if_splits)

lemma load_symbol_meta:
  assumes "load_symbol alloc fsz strtab ctor vtt pcn sy y = Some y'"
  shows "meta_of (y_cm y') = meta_of (y_cm y)"
  using assms unfolding load_symbol_def bind_eq_Some_conv Let_def split_beta
  apply (elim exE conjE if_SomeE)
        apply (auto simp: bind_eq_Some_conv dest!: add_ctor_meta)
  done

lemma load_symbol_slot:
  assumes "load_symbol alloc fsz strtab ctor vtt pcn sy y = Some y'"
  shows "m_icfsyms (y_cm y') = m_icfsyms (y_cm y) \<and> y_bid y' = y_bid y \<or>
    (\<exists>n. m_icfsyms (y_cm y') = m_icfsyms (y_cm y) @ [\<lparr> s_name = n, s_offset = ucast (y_bid y) \<rparr>]) \<and> y_bid y' = y_bid y + 8"
  using assms unfolding load_symbol_def bind_eq_Some_conv Let_def split_beta
  apply (elim exE conjE if_SomeE)
        apply (auto simp: bind_eq_Some_conv dest!: add_ctor_meta)
  done


lemma load_symbols_slots:
  assumes run: "foldM (\<lambda>cnt y. load_symbol alloc fsz strtab ctor vtt pcn (read_sym (y_elf y) symtab cnt) y) ns y = Some y'"
    and start: "m_icfsyms (y_cm y) = []"
  shows "meta_of (y_cm y') = meta_of (y_cm y) \<and> slots_from (y_bid y) (m_icfsyms (y_cm y'))
    \<and> y_bid y' = y_bid y + 8 * of_nat (length (m_icfsyms (y_cm y')))" (is "?P y'")
  using run
proof (rule foldM_invariant [where P = ?P])
  show "?P y" using start by (simp add: slots_from_def)
next
  fix cnt s s'
  assume inv: "?P s" and step: "load_symbol alloc fsz strtab ctor vtt pcn (read_sym (y_elf s) symtab cnt) s = Some s'"
  show "?P s'" using load_symbol_slot [OF step] load_symbol_meta [OF step] inv
    by (auto simp: slots_from_def algebra_simps)
qed

lemma add_landing_pads_meta:
  "add_landing_pads elf flp f cm = Some cm' \<Longrightarrow> meta_of cm' = meta_of cm \<and> m_icfsyms cm' = m_icfsyms cm"
  by (auto simp: add_landing_pads_def bind_eq_Some_conv Let_def split: option.splits if_splits)

lemma load_dynsym_meta:
  "load_dynsym alloc elf fsz dynstr tc sy s = Some s' \<Longrightarrow>
    meta_of (fst s') = meta_of (fst s) \<and> m_icfsyms (fst s') = m_icfsyms (fst s)"
  by (auto simp: load_dynsym_def bind_eq_Some_conv Let_def split_beta split: if_splits)

lemma load_plt_entry_meta:
  "load_plt_entry alloc elf fsz sc pcn pen cnt s = Some s' \<Longrightarrow>
    meta_of (fst s') = meta_of (fst s) \<and> m_icfsyms (fst s') = m_icfsyms (fst s)"
  by (auto simp: load_plt_entry_def bind_eq_Some_conv Let_def split_beta)

lemma patch_module_meta:
  "patch_module nop pco peo (cm, elf) = (cm', elf') \<Longrightarrow> meta_of cm' = meta_of cm \<and> m_icfsyms cm' = m_icfsyms cm"
  by (auto simp: patch_module_def Let_def split_beta split: if_splits)

lemma foldM_meta:
  assumes "foldM f xs s = Some s'"
    and "\<And>x s s'. f x s = Some s' \<Longrightarrow> meta_of (g s') = meta_of (g s) \<and> m_icfsyms (g s') = m_icfsyms (g s)"
  shows "meta_of (g s') = meta_of (g s) \<and> m_icfsyms (g s') = m_icfsyms (g s)"
  by (rule foldM_invariant [where P = "\<lambda>s'. meta_of (g s') = meta_of (g s) \<and> m_icfsyms (g s') = m_icfsyms (g s)", OF assms(1)])
    (use assms(2) in auto)

lemma load_mcfi_metadata_type:
  assumes run: "load_mcfi_metadata alloc lit nop vtt elf fsz sp bid = Some (cm, elf', sp', bid')"
    and ok: "allocs_ok alloc" "pool_ok sp"
  shows "module_ok cm \<and> \<not> cfggened cm \<and> slots_from bid (m_icfsyms cm)
    \<and> bid' = bid + 8 * of_nat (length (m_icfsyms cm))"
proof -
  obtain sc sc' cm0 tc pcn pen y cm1 cm2 sp2 cm3 sp3 pco peo where
    p1: "load_sections alloc elf fsz (read_ehdr elf) sp = Some sc"
    and p2: "add_exe_functions alloc lit (read_ehdr elf) sc = Some sc'" and p3: "fill_module fsz sc' = Some cm0"
    and p4: "foldM (\<lambda>cnt y. load_symbol alloc fsz (l_strtab sc') (l_ctor sc') vtt pcn (read_sym (y_elf y) (l_sym sc') cnt) y)
            [0..<l_numsym sc'] \<lparr> y_cm = cm0, y_elf = elf, y_pool = pen, y_bid = bid, y_flp = [], y_patch_call = - 1 \<rparr> = Some y"
    and p5: "foldM (add_landing_pads (y_elf y) (y_flp y)) (m_funcsyms (y_cm y)) (y_cm y) = Some cm1"
    and p6: "foldM (\<lambda>cnt. load_dynsym alloc (y_elf y) fsz (l_dynstr sc') tc (read_sym (y_elf y) (l_dynsym sc') cnt))
                  [0..<l_numdynsym sc'] (cm1, y_pool y) = Some (cm2, sp2)"
    and p7: "foldM (load_plt_entry alloc (y_elf y) fsz sc' pcn (fst (sp_intern_string alloc (snd (sp_intern_string alloc (l_pool sc') ''__patch_call'')) ''__patch_entry''))) [0..<l_numrelaplt sc'] (cm2, sp2, y_patch_call y, - 1) = Some (cm3, sp3, pco, peo)"
    and p8: "patch_module nop pco peo (cm3, y_elf y) = (cm, elf')" and p9: "bid' = y_bid y"
    using run unfolding load_mcfi_metadata_def bind_eq_Some_conv Let_def split_beta
    by (elim exE conjE) (auto simp: prod_eq_iff)
  have "scan_ok sc'" using load_sections_ok [OF p1 ok] add_exe_functions_ok [OF p2 ok(1)] by blast
  note cm0 = fill_module_ok [OF p3 this]
  have y: "meta_of (y_cm y) = meta_of cm0 \<and> slots_from bid (m_icfsyms (y_cm y)) \<and>
      y_bid y = bid + 8 * of_nat (length (m_icfsyms (y_cm y)))"
    using load_symbols_slots [OF p4] cm0 by simp
  have "meta_of cm1 = meta_of (y_cm y) \<and> m_icfsyms cm1 = m_icfsyms (y_cm y)"
    using foldM_meta [OF p5, of "\<lambda>x. x"] add_landing_pads_meta by blast
  moreover have "meta_of cm2 = meta_of cm1 \<and> m_icfsyms cm2 = m_icfsyms cm1"
    using foldM_meta [OF p6, of fst] load_dynsym_meta by fastforce
  moreover have "meta_of cm3 = meta_of cm2 \<and> m_icfsyms cm3 = m_icfsyms cm2"
    using foldM_meta [OF p7, of fst] load_plt_entry_meta by fastforce
  moreover note patch_module_meta [OF p8]
  ultimately have "meta_of cm = meta_of cm0 \<and> m_icfsyms cm = m_icfsyms (y_cm y)" using y by simp
  then show ?thesis using y cm0 p9 module_ok_meta [of cm cm0] by (simp add: meta_of_def)
qed

lemma unat_ucast_u32: "unat (ucast (w :: u32) :: u64) = unat w"
proof -
  have "unat w < 2 ^ LENGTH(32)" by (rule unsigned_less)
  then show ?thesis by (simp add: unsigned_ucast_eq take_bit_nat_eq_self)
qed

lemma slots_apart:
  assumes "slots_from bid syms" and "unat bid + 8 * length syms \<le> 2 ^ 32"
  shows "sorted_wrt words_apart (map (\<lambda>s. unat (s_offset s)) syms)"
proof -
  have slot: "unat (s_offset (syms ! i)) = unat bid + 8 * i" if "i < length syms" for i
  proof -
    have "s_offset (syms ! i) = map s_offset syms ! i" using that by simp
    also have "\<dots> = ucast (bid + 8 * of_nat i)" using that assms(1) by (simp add: slots_from_def)
    finally have "unat (s_offset (syms ! i)) = unat (bid + 8 * of_nat i)" by (simp add: unat_ucast_u32)
    also have "\<dots> = unat bid + 8 * i"
    proof -
      have "i < 2 ^ 32" "8 * i < 2 ^ 32" "unat bid + 8 * i < 2 ^ 32" using that assms(2) by auto
      then show ?thesis by (simp add: unat_word_ariths unat_of_nat)
    qed
    finally show ?thesis .
  qed
  show ?thesis by (simp add: sorted_wrt_iff_nth_less slot words_apart_def)
qed

text \<open>C36. Loading always produces a module that fits the rest of the runtime. Whatever the bytes of
  the file are, if \<open>load_mcfi_metadata\<close> accepts it then the module satisfies the assumptions of the
  generation of the control-flow graph, is not part of a generated graph yet, and its branches own
  consecutive eight-byte slots from the first free one on, apart from each other and from the
  slots of later modules.\<close>

theorem load_mcfi_metadata_well_formed:
  assumes run: "load_mcfi_metadata alloc lit nop vtt elf fsz sp bid = Some (cm, elf', sp', bid')"
    and ok: "allocs_ok alloc" "pool_ok sp" and space: "unat bid + 8 * length (m_icfsyms cm) \<le> 2 ^ 32"
  shows "module_ok cm \<and> \<not> cfggened cm
    \<and> map s_offset (m_icfsyms cm) = map (\<lambda>i. ucast (bid + 8 * of_nat i)) [0..<length (m_icfsyms cm)]
    \<and> bid' = bid + 8 * of_nat (length (m_icfsyms cm))
    \<and> sorted_wrt words_apart (map (\<lambda>s. unat (s_offset s)) (m_icfsyms cm))"
  using load_mcfi_metadata_type [OF run ok] slots_apart [OF _ space] by (simp add: slots_from_def)

text \<open>A file with a symbol table of one branch, named \<open>7\<close>, whose slot number ends at byte 12.\<close>

definition ex_strings :: string where
  "ex_strings = NUL # ''__mcfi_bary_7'' @ NUL # NUL # ''.symtab'' @ NUL # ''.strtab'' @ [NUL]"

definition ex_words :: "(nat \<times> u64) list" where
  "ex_words = [(40, 64), (56, 0x0002000300000000),
     (64, 1), (88, 256), (96, 24),
     (128, 9), (152, 280), (160, 15),
     (216, 295), (224, 17),
     (256, 1), (264, 12)]"

definition ex_elf :: mem where
  "ex_elf = (\<lambda>a. if a < 280 then fold (\<lambda>(p, v) t. write64 t p v) ex_words (\<lambda>_. 0) a
      else of_char (ex_strings ! (a - 280)))"



lemma ex_ehdr: "read_ehdr ex_elf = \<lparr> e_ident = replicate 16 0, e_type = 0, e_machine = 0, e_version = 0, e_entry = 0,
    e_phoff = 0, e_shoff = 64, e_flags = 0, e_ehsize = 0, e_phentsize = 0, e_phnum = 0, e_shentsize = 0, e_shnum = 3,
    e_shstrndx = 2 \<rparr>"
  by code_simp

lemma ex_shdr:
  "read_shdr ex_elf 64 0 = \<lparr> sh_name = 1, sh_type = 0, sh_flags = 0, sh_addr = 0, sh_offset = 256, sh_size = 24,
     sh_link = 0, sh_info = 0, sh_addralign = 0, sh_entsize = 0 \<rparr>"
  "read_shdr ex_elf 64 1 = \<lparr> sh_name = 9, sh_type = 0, sh_flags = 0, sh_addr = 0, sh_offset = 280, sh_size = 15,
     sh_link = 0, sh_info = 0, sh_addralign = 0, sh_entsize = 0 \<rparr>"
  "read_shdr ex_elf 64 2 = \<lparr> sh_name = 0, sh_type = 0, sh_flags = 0, sh_addr = 0, sh_offset = 295, sh_size = 17,
     sh_link = 0, sh_info = 0, sh_addralign = 0, sh_entsize = 0 \<rparr>"
  by code_simp+

lemma ex_sym: "read_sym ex_elf 256 0 = \<lparr> st_name = 1, st_info = 0, st_other = 0, st_shndx = 0, st_value = 12, st_size = 0 \<rparr>"
  by code_simp

lemma ex_names:
  "c_string ex_elf 312 281 = Some ''__mcfi_bary_7''" "c_string ex_elf 312 296 = Some ''.symtab''"
  "c_string ex_elf 312 304 = Some ''.strtab''"
  by code_simp+

lemma ex_load:
  "map_option (\<lambda>(cm, elf, sp, bid). (m_icfsyms cm, read32 elf 8, bid))
     (load_mcfi_metadata (\<lambda>n. 0x1000 + of_nat n mod 0x1000) 0x900 False [] ex_elf 312 [] 0x11000)
   = Some ([\<lparr> s_name = 0x1002, s_offset = 0x11000 \<rparr>], 0x11000, 0x11008)"
  by (simp add: load_mcfi_metadata_def load_sections_def ex_ehdr ex_shdr ex_shdr [unfolded One_nat_def] ex_names ex_sym upt_rec init_scan_def
      load_section_def alloc_code_module_def add_exe_functions_def ET_EXEC_def fill_module_def merge_dicts_def
      g_transitive_closure_def g_get_lcc_def sp_intern_string_def sp_add_cpy_or_nothing_def sp_add_cpy_def sp_str_handle_def
      dict_find_def dict_put_def load_symbol_def patch_module_def order_patches_def)

theorem load_mcfi_metadata_well_formed_witness:
  "\<exists>cm elf' sp'. load_mcfi_metadata (\<lambda>n. 0x1000 + of_nat n mod 0x1000) 0x900 False [] ex_elf 312 [] 0x11000
       = Some (cm, elf', sp', 0x11008) \<and> module_ok cm \<and> map s_offset (m_icfsyms cm) = [0x11000]"
proof -
  let ?alloc = "\<lambda>n. 0x1000 + of_nat n mod 0x1000 :: name"
  obtain cm elf' sp' bid' where run: "load_mcfi_metadata ?alloc 0x900 False [] ex_elf 312 [] 0x11000 = Some (cm, elf', sp', bid')"
    and syms: "m_icfsyms cm = [\<lparr> s_name = 0x1002, s_offset = 0x11000 \<rparr>]" and bid': "bid' = 0x11008"
    using ex_load by auto
  have "allocs_ok ?alloc" unfolding allocs_ok_def user_ptr_def
  proof
    fix n
    have "(of_nat n mod 0x1000 :: u64) < 0x1000" by (simp add: word_mod_less_divisor)
    then have "unat (0x1000 + of_nat n mod 0x1000 :: u64) < 0x2000"
      by (simp add: unat_word_ariths word_less_nat_alt)
    then have "unat (take_bit 47 (0x1000 + of_nat n mod 0x1000 :: u64)) = unat (0x1000 + of_nat n mod 0x1000 :: u64)"
      unfolding unsigned_take_bit_eq by (simp add: take_bit_nat_eq_self)
    then show "take_bit 47 (0x1000 + of_nat n mod 0x1000 :: u64) = 0x1000 + of_nat n mod 0x1000"
      by (simp only: word_unat_eq_iff)
  qed
  from load_mcfi_metadata_well_formed [OF run this] syms show ?thesis using run bid' by (simp add: pool_ok_def)
qed

section \<open>Divergences\<close>

text \<open>The personality routine is not among the functions whose address is taken: what is added is the
  address of a literal, not the interned name.\<close>

lemma personality_not_taken:
  assumes "add_exe_functions alloc lit eh sc = Some sc'" and "e_type eh = ET_EXEC"
    and "dict_find (l_pool sc') ''__gxx_personality_v0'' = Some n" and "n \<noteq> lit"
    and "dict_find (l_pool sc') ''__exe_elf_entry'' \<noteq> Some n"
  shows "n \<in> keys (l_fats_in_data sc') \<longleftrightarrow> n \<in> keys (l_fats_in_data sc)"
proof -
  define i1 where "i1 = sp_intern_string alloc (l_pool sc) ''__exe_elf_entry''"
  define i2 where "i2 = sp_intern_string alloc (snd i1) ''ExeElfEntry''"
  define i3 where "i3 = sp_intern_string alloc (snd i2) ''__gxx_personality_v0''"
  define i4 where "i4 = sp_intern_string alloc (snd i3) ''i32!i32@i32@i64@%struct._Unwind_Exception*@%struct._Unwind_Context*@''"
  note i = i1_def [symmetric] i2_def [symmetric] i3_def [symmetric] i4_def [symmetric]
  obtain d where d: "dict_add (l_fats_in_data sc) (fst i1) () = Some d" "dict_add d lit () = Some (l_fats_in_data sc')"
    and k2: "l_pool sc' = snd i4"
    using assms(1,2) by (auto simp: add_exe_functions_def Let_def split_beta i bind_eq_Some_conv)
  have k: "keys (l_fats_in_data sc') = {lit, fst i1} \<union> keys (l_fats_in_data sc)" "l_pool sc' = snd i4"
    using d k2 by (auto simp: dict_add_eq_Some)
  have f: "dict_find (snd i1) ''__exe_elf_entry'' = Some (fst i1)" unfolding i1_def by (rule intern_find)
  have "pool_le (snd i1) (l_pool sc')"
    unfolding k2 i4_def i3_def i2_def by (intro pool_le_trans [OF intern_le pool_le_trans [OF intern_le intern_le]])
  then have "dict_find (l_pool sc') ''__exe_elf_entry'' = Some (fst i1)" using f by (rule pool_le_find)
  then show ?thesis using k(1) assms(4,5) by auto
qed

text \<open>A name without a hexadecimal prefix loses its first word.\<close>

lemma eat_hex_eats_names: "eat_hex_and_udscore ''main_loop'' = ''loop''"
  by code_simp

section \<open>Patched call sites\<close>

text \<open>A call site is known by its return address, a multiple of 8; its instruction is in the eight
  bytes before it. After the patch a call instruction ends at the site's return address, which for
  an indirect call, shorter than the patch, is two or three bytes further down.\<close>

definition site_key :: "u64 \<times> u64 \<Rightarrow> u64" where
  "site_key kv = (if is_marked_ra_ic (fst kv) then unmark_ptr (fst kv) else fst kv)"

definition site_return :: "mem \<Rightarrow> u64 \<times> u64 \<Rightarrow> u64" where
  "site_return elf kv =
     (if \<not> is_marked_ra_ic (fst kv) then site_key kv
      else if elf (unat (site_key kv) - 3) \<noteq> 0 then site_key kv - 3 else site_key kv - 2)"

definition site_ok :: "mem \<Rightarrow> u64 \<times> u64 \<Rightarrow> bool" where
  "site_ok elf kv \<longleftrightarrow> site_key kv mod 8 = 0 \<and> 8 \<le> site_key kv \<and> site_key kv < 2 ^ 32
     \<and> snd kv = read64 elf (unat (site_key kv) - 8)
     \<and> (\<not> is_marked_ra_ic (fst kv) \<longrightarrow> elf (unat (site_key kv) - 5) = 0xe8)"

text \<open>A five-byte call at \<open>a\<close> whose target is \<open>tgt\<close>, relative to the end of the instruction.\<close>

definition call_at :: "mem \<Rightarrow> nat \<Rightarrow> u32 \<Rightarrow> bool" where
  "call_at elf a tgt \<longleftrightarrow> elf a = 0xe8 \<and> of_nat (a + 5) + read32 elf (a + 1) = tgt"

lemma call_at_cong: "(\<And>x. a \<le> x \<Longrightarrow> x < a + 5 \<Longrightarrow> t x = t' x) \<Longrightarrow> call_at t a tgt = call_at t' a tgt"
  using read32_cong [of t "a + 1" t'] by (simp add: call_at_def)

lemma call_at_write32:
  "t a = 0xe8 \<Longrightarrow> v = tgt - of_nat (a + 5) \<Longrightarrow> call_at (write32 t (a + 1) v) a tgt"
proof -
  assume a: "t a = 0xe8" and v: "v = tgt - of_nat (a + 5)"
  have "write32 t (a + 1) v a = 0xe8" using a by (simp add: write32_def)
  then show ?thesis using v by (simp add: call_at_def del: One_nat_def add_Suc_right)
qed

lemma site_nat:
  assumes "site_ok elf kv"
  shows "unat (site_key kv) mod 8 = 0" "8 \<le> unat (site_key kv)"
    "ucast (ucast (site_key kv) :: u32) = site_key kv"
    "unat (site_key kv - 8) = unat (site_key kv) - 8" "unat (site_key kv - 4) = unat (site_key kv) - 4"
proof -
  let ?k = "site_key kv"
  have k: "?k mod 8 = 0" "8 \<le> ?k" "?k < 2 ^ 32" using assms by (auto simp: site_ok_def)
  show "unat ?k mod 8 = 0" using arg_cong [OF k(1), of unat] by (simp add: unat_mod)
  show "8 \<le> unat ?k" using k(2) by (simp add: word_le_nat_alt)
  then show "unat (?k - 8) = unat ?k - 8" "unat (?k - 4) = unat ?k - 4"
    by (simp_all add: unat_sub word_le_nat_alt)
  have "unat (take_bit 32 ?k) = unat ?k"
    using k(3) unfolding unsigned_take_bit_eq by (simp add: take_bit_nat_eq_self word_less_nat_alt)
  then have "unat (ucast (ucast ?k :: u32) :: u64) = unat ?k" by (simp add: unsigned_ucast_eq)
  then show "ucast (ucast ?k :: u32) = ?k" by (simp only: word_unat_eq_iff)
qed


lemma patch_site_spec:
  assumes ok: "site_ok elf kv" and run: "patch_site pco kv (elf1, ra) = (elf2, ra2)"
    and agree: "\<forall>x. unat (site_key kv) - 8 \<le> x \<and> x < unat (site_key kv) \<longrightarrow> elf1 x = elf x"
  shows "ra2 = ra @ [(site_key kv, snd kv)]
    \<and> (\<forall>x. x < unat (site_key kv) - 8 \<or> unat (site_key kv) \<le> x \<longrightarrow> elf2 x = elf1 x)
    \<and> call_at elf2 (unat (site_return elf kv) - 5) pco"
proof -
  let ?k = "site_key kv"
  let ?a = "unat ?k"
  note nat = site_nat [OF ok]
  show ?thesis
  proof (cases "is_marked_ra_ic (fst kv)")
    case False
    have k: "fst kv = ?k" using False by (simp add: site_key_def)
    have e2: "elf2 = write32 elf1 (?a - 4) (pco - ucast ?k)" and "ra2 = ra @ [(?k, snd kv)]"
      using run False k nat by (auto simp: patch_site_def Let_def) (metis prod.collapse)
    moreover have "elf1 (?a - 5) = 0xe8" using ok False agree nat(2) by (simp add: site_ok_def)
    then have "call_at elf2 (?a - 5) pco"
      using call_at_write32 [of elf1 "?a - 5" "pco - ucast ?k" pco] nat(2) e2 Suc_diff_le [OF order_trans [OF _ nat(2)], of 5]
      by (simp add: of_nat_diff Suc_diff_Suc numeral_eq_Suc)
    ultimately show ?thesis using False nat(2) by (auto simp: write32_def site_return_def)
  next
    case True
    define n :: nat where "n = (if elf (?a - 3) \<noteq> 0 then 0 else 1)"
    have k: "unmark_ptr (fst kv) = ?k" using True by (simp add: site_key_def)
    have p: "?a - 8 + 5 = ?a - 3" "elf1 (?a - 3) = elf (?a - 3)" using nat(2) agree by auto
    have w: "(of_nat ?a :: u32) = ucast ?k" by simp
    have c: "(if elf (?a - 3) \<noteq> 0 then (0 :: nat, ucast ?k - 3) else (1, ucast ?k - 2)) = (n, of_nat (?a - 8 + n + 5) :: u32)"
      using nat(2) w by (auto simp: n_def of_nat_diff)
    have e2: "elf2 = write32 (write8 elf1 (?a - 8 + n) 0xe8) (?a - 8 + n + 1) (pco - of_nat (?a - 8 + n + 5))"
      and ra2: "ra2 = ra @ [(?k, snd kv)]"
      using run by (simp_all add: patch_site_def Let_def True k nat(3,4) p c)
    have r: "unat (site_return elf kv) - 5 = ?a - 8 + n"
      using True nat(2) by (auto simp: site_return_def n_def unat_sub word_le_nat_alt)
    have "call_at elf2 (?a - 8 + n) pco"
      using call_at_write32 [of "write8 elf1 (?a - 8 + n) 0xe8" "?a - 8 + n" _ pco] e2 by (simp add: write8_def)
    moreover have "n \<le> 1" by (simp add: n_def)
    ultimately show ?thesis using r ra2 e2 nat(2) by (auto simp: write32_def write8_def)
  qed
qed


lemma sites_apart:
  assumes "site_ok elf kv" "site_ok elf kv'" "site_key kv \<noteq> site_key kv'"
  shows "unat (site_key kv) \<le> unat (site_key kv') - 8 \<or> unat (site_key kv') \<le> unat (site_key kv) - 8"
proof -
  have "unat (site_key kv) \<noteq> unat (site_key kv')" using assms(3) by (simp add: word_unat_eq_iff)
  with site_nat(1,2) [OF assms(1)] site_nat(1,2) [OF assms(2)] show ?thesis by presburger
qed

lemma site_return_window:
  assumes "site_ok elf kv"
  shows "unat (site_key kv) - 8 \<le> unat (site_return elf kv) - 5" "unat (site_return elf kv) \<le> unat (site_key kv)"
    "5 \<le> unat (site_return elf kv)"
  using site_nat(2) [OF assms] by (auto simp: site_return_def unat_sub word_le_nat_alt)

lemma patch_sites_spec:
  assumes "\<forall>kv \<in> set kvs. site_ok elf kv" and "distinct (map site_key kvs)"
    and "fold (patch_site pco) kvs (elf1, ra) = (elf2, ra2)"
    and "\<forall>kv \<in> set kvs. \<forall>x. unat (site_key kv) - 8 \<le> x \<and> x < unat (site_key kv) \<longrightarrow> elf1 x = elf x"
  shows "ra2 = ra @ map (\<lambda>kv. (site_key kv, snd kv)) kvs
    \<and> (\<forall>x. (\<forall>kv \<in> set kvs. x < unat (site_key kv) - 8 \<or> unat (site_key kv) \<le> x) \<longrightarrow> elf2 x = elf1 x)
    \<and> (\<forall>kv \<in> set kvs. call_at elf2 (unat (site_return elf kv) - 5) pco)"
  using assms
proof (induction kvs arbitrary: elf1 ra)
  case Nil
  then show ?case by simp
next
  case (Cons kv kvs)
  obtain e r where s: "patch_site pco kv (elf1, ra) = (e, r)" by fastforce
  have ok: "site_ok elf kv" and oks: "\<forall>kv \<in> set kvs. site_ok elf kv" using Cons.prems(1) by auto
  have apart: "unat (site_key kv) \<le> unat (site_key kv') - 8 \<or> unat (site_key kv') \<le> unat (site_key kv) - 8"
    if "kv' \<in> set kvs" for kv' using sites_apart [OF ok, of kv'] oks that Cons.prems(2) by (metis distinct.simps(2) image_eqI list.simps(9) set_map)
  have "\<forall>x. unat (site_key kv) - 8 \<le> x \<and> x < unat (site_key kv) \<longrightarrow> elf1 x = elf x" using Cons.prems(4) by simp
  note one = patch_site_spec [OF ok s this]
  have agree: "\<forall>kv' \<in> set kvs. \<forall>x. unat (site_key kv') - 8 \<le> x \<and> x < unat (site_key kv') \<longrightarrow> e x = elf x"
  proof (intro ballI allI impI)
    fix kv' x assume kv': "kv' \<in> set kvs" and x: "unat (site_key kv') - 8 \<le> x \<and> x < unat (site_key kv')"
    have "x < unat (site_key kv) - 8 \<or> unat (site_key kv) \<le> x" using apart [OF kv'] x by linarith
    then show "e x = elf x" using one Cons.prems(4) kv' x by auto
  qed
  have run: "fold (patch_site pco) kvs (e, r) = (elf2, ra2)" using Cons.prems(3) s by simp
  have dis: "distinct (map site_key kvs)" using Cons.prems(2) by simp
  note rest = Cons.IH [OF oks dis run agree]
  have "call_at elf2 (unat (site_return elf kv) - 5) pco = call_at e (unat (site_return elf kv) - 5) pco"
  proof (rule call_at_cong)
    fix x assume x: "unat (site_return elf kv) - 5 \<le> x" "x < unat (site_return elf kv) - 5 + 5"
    have "x < unat (site_key kv') - 8 \<or> unat (site_key kv') \<le> x" if "kv' \<in> set kvs" for kv'
      using apart [OF that] x site_return_window [OF ok] by linarith
    then show "elf2 x = e x" using rest by blast
  qed
  then show ?case using one rest by auto
qed


text \<open>The patches of the function entries.\<close>

lemma patch_entries_frame:
  assumes "\<forall>kv \<in> set fo. x < unat (ucast (fst kv) :: u32) \<or> unat (ucast (fst kv) :: u32) + 5 \<le> x"
  shows "patch_entries peo fo elf x = elf x"
  using assms unfolding patch_entries_def
proof (induction fo arbitrary: elf)
  case Nil
  then show ?case by simp
next
  case (Cons kv fo)
  then show ?case by (auto simp: Let_def write32_def write8_def)
qed

lemma order_patches_keys: "map fst (order_patches elf ra fo) = map fst fo"
  by (simp add: order_patches_def comp_def)

definition entry_apart :: "u64 \<times> u64 \<Rightarrow> u64 \<times> u64 \<Rightarrow> bool" where
  "entry_apart f kv \<longleftrightarrow>
     unat (ucast (fst f) :: u32) + 5 \<le> unat (site_key kv) - 8 \<or> unat (site_key kv) \<le> unat (ucast (fst f) :: u32)"

lemma patch_module_sites:
  assumes run: "patch_module False pco peo (cm0, elf) = (cm, elf')" and pco: "pco \<noteq> - 1"
    and ok: "\<forall>kv \<in> set (ra_orig cm0). site_ok elf kv" "distinct (map site_key (ra_orig cm0))"
    and apart: "\<forall>f \<in> set (func_orig cm0). \<forall>kv \<in> set (ra_orig cm0). entry_apart f kv"
  shows "ra_orig cm = map (\<lambda>kv. (site_key kv, snd kv)) (ra_orig cm0)
    \<and> (\<forall>kv \<in> set (ra_orig cm0). call_at elf' (unat (site_return elf kv) - 5) pco)"
proof -
  obtain e ra where s: "patch_sites pco elf (ra_orig cm0) = (e, ra)" by fastforce
  note spec = patch_sites_spec [OF ok, of pco elf "[]" e ra] s [unfolded patch_sites_def]
  define fo where "fo = order_patches e ra (func_orig cm0)"
  have cm: "ra_orig cm = ra" and elf': "elf' = (if peo \<noteq> - 1 then patch_entries peo fo e else e)"
    using run pco s by (auto simp: patch_module_def fo_def Let_def)
  have "call_at elf' (unat (site_return elf kv) - 5) pco" if kv: "kv \<in> set (ra_orig cm0)" for kv
  proof -
    have "fst ` set fo = fst ` set (func_orig cm0)" by (metis fo_def order_patches_keys set_map)
    then have "entry_apart f kv" if "f \<in> set fo" for f
      using apart kv that unfolding entry_apart_def by (metis (no_types, lifting) imageE imageI)
    then have "elf' x = e x" if "unat (site_key kv) - 8 \<le> x" "x < unat (site_key kv)" for x
      using that patch_entries_frame [of fo x peo e] elf' unfolding entry_apart_def by fastforce
    then have "call_at elf' (unat (site_return elf kv) - 5) pco = call_at e (unat (site_return elf kv) - 5) pco"
      using site_return_window [of elf kv] ok(1) kv by (intro call_at_cong) auto
    then show ?thesis using spec kv by auto
  qed
  then show ?thesis using cm spec by auto
qed


text \<open>Running the patched call at one of the sites.\<close>

lemma site_return_round:
  assumes site: "site_ok elf kv" and base: "b mod 8 = 0" "b < 2 ^ 32"
  shows "(b + site_return elf kv + 7) div 8 * 8 = b + site_key kv
    \<and> ((b + site_return elf kv) mod 8 = 0 \<or> (b + site_return elf kv + 3) mod 8 = 0 \<or> (b + site_return elf kv + 2) mod 8 = 0)"
proof -
  let ?a = "unat (site_key kv)"
  note nat = site_nat [OF site]
  have b: "unat b mod 8 = 0" "unat b < 2 ^ 32"
    using arg_cong [OF base(1), of unat] base(2) by (simp_all add: unat_mod word_less_nat_alt)
  have a: "?a < 2 ^ 32" using site by (simp add: site_ok_def word_less_nat_alt)
  obtain d where d: "d = 0 \<or> d = 2 \<or> d = 3" and r: "unat (site_return elf kv) = ?a - d"
    and r': "site_return elf kv = site_key kv - of_nat d"
  proof -
    define d :: nat where "d = (if \<not> is_marked_ra_ic (fst kv) then 0 else if elf (?a - 3) \<noteq> 0 then 3 else 2)"
    show thesis by (rule that [of d]) (use nat(2) in \<open>auto simp: d_def site_return_def unat_sub word_le_nat_alt\<close>)
  qed
  have e: "unat (b + site_return elf kv) = unat b + (?a - d)"
    using r a b(2) by (simp add: unat_word_ariths)
  obtain p q where pq: "unat b = 8 * p" "?a = 8 * q" using b(1) nat(1) by (metis mod_0_imp_dvd dvdE)
  have "unat b + (?a - d) + 7 = 8 * (p + q) + (7 - d)" using pq d nat(2) by auto
  moreover have "(8 * (p + q) + (7 - d)) div 8 = p + q" using d by auto
  ultimately have "((unat b + (?a - d) + 7) div 8) * 8 = unat b + ?a" by (simp only: pq) (simp add: algebra_simps)
  moreover have "unat ((b + site_return elf kv + 7) div 8 * 8) = ((unat b + (?a - d) + 7) div 8) * 8"
    using e a b(2) by (simp add: unat_word_ariths unat_div)
  moreover have "unat (b + site_key kv) = unat b + ?a" using a b(2) by (simp add: unat_word_ariths)
  ultimately have "(b + site_return elf kv + 7) div 8 * 8 = b + site_key kv" by (simp only: word_unat_eq_iff)
  moreover have e2: "b + site_return elf kv + of_nat d = b + site_key kv" using r' by simp
  have "(b + site_key kv) mod 8 = 0"
  proof -
    have "(unat b + ?a) mod 8 = 0" using pq by simp
    then have "unat ((b + site_key kv) mod 8) = unat (0 :: u64)"
      using \<open>unat (b + site_key kv) = unat b + ?a\<close> by (simp add: unat_mod)
    then show ?thesis by (simp only: word_unat_eq_iff)
  qed
  then have "(b + site_return elf kv + of_nat d) mod 8 = 0" by (simp only: e2)
  then have "(b + site_return elf kv) mod 8 = 0 \<or> (b + site_return elf kv + 3) mod 8 = 0 \<or> (b + site_return elf kv + 2) mod 8 = 0"
    using d by (elim disjE) simp_all
  ultimately show ?thesis by blast
qed

text \<open>C37. A patched call site activates and restores itself. In a module whose call sites have been
  patched, every site, direct or indirect, holds a call to the patch routine; when that call is
  executed, its return address is accepted by \<open>patch_call\<close>, which puts back the eight bytes that
  the file had before the return address of the site.\<close>

theorem patched_site_restored:
  assumes run: "patch_module False pco peo (cm0, elf) = (cm, elf')" "pco \<noteq> - 1"
    and ok: "\<forall>kv \<in> set (ra_orig cm0). site_ok elf kv" "distinct (map site_key (ra_orig cm0))"
    and apart: "\<forall>f \<in> set (func_orig cm0). \<forall>kv \<in> set (ra_orig cm0). entry_apart f kv"
    and kv: "kv \<in> set (ra_orig cm0)" and pp: "pp = base_addr m + site_return elf kv"
    and m: "find_module pp (rt_modules rt) = Some i" "m = rt_modules rt ! i" "ra_orig m = ra_orig cm"
    and base: "base_addr m mod 8 = 0" "base_addr m < 2 ^ 32"
    and new: "dict_find (patched_ra rt) pp = None"
    and comp: "rt_cfggened rt \<or> dict_find (patch_compensate rt) (base_addr m + site_key kv) = None"
  shows "call_at elf' (unat (site_return elf kv) - 5) pco
    \<and> (\<exists>rt'. patch_call False pp rt = Some rt'
          \<and> read64 (osb rt') (unat (osb_base_addr m + site_key kv - 8)) = read64 elf (unat (site_key kv) - 8))"
proof -
  let ?k = "site_key kv"
  have site: "site_ok elf kv" using ok(1) kv by blast
  note sites = patch_module_sites [OF run ok apart]
  have k8: "?k mod 8 = 0" and k32: "?k < 2 ^ 32" and v: "snd kv = read64 elf (unat ?k - 8)"
    using site by (auto simp: site_ok_def)
  have up: "(pp + 7) div 8 * 8 = base_addr m + ?k" and al: "pp mod 8 = 0 \<or> (pp + 3) mod 8 = 0 \<or> (pp + 2) mod 8 = 0"
    using site_return_round [OF site base] pp by simp_all
  have key: "(pp + 7) div 8 * 8 - base_addr m = ?k" using up by simp
  have "dict_find (ra_orig m) ?k = Some (snd kv)"
    using kv ok(2) sites m(3) by (auto simp: dict_find_def intro!: map_of_is_SomeI simp: comp_def)
  then show ?thesis
    using sites kv m al new key v comp up
    by (auto simp: patch_call_def Let_def dict_add_def dict_in_def bind_eq_Some_conv)
qed

definition ex_patch_elf :: mem where
  "ex_patch_elf = write8 (\<lambda>_. 0) 0x1b 0xe8"

definition ex_unpatched :: codemodule where
  "ex_unpatched = alloc_code_module\<lparr> ra_orig := [(0x20, 0xe8000000)] \<rparr>"

definition ex_patched :: codemodule where
  "ex_patched = (fst (patch_module False 0x100 (- 1) (ex_unpatched, ex_patch_elf)))
     \<lparr> base_addr := 0x400000, m_sz := 0x1000, osb_base_addr := 0x900000 \<rparr>"

theorem patched_site_restored_witness:
  "\<exists>rt'. call_at (snd (patch_module False 0x100 (- 1) (ex_unpatched, ex_patch_elf))) 0x1b 0x100
     \<and> patch_call False 0x400020 (ex_runtime\<lparr> rt_modules := [ex_patched] \<rparr>) = Some rt'
     \<and> read64 (osb rt') 0x900018 = 0xe8000000"
proof -
  obtain cm elf' where run: "patch_module False 0x100 (- 1) (ex_unpatched, ex_patch_elf) = (cm, elf')" by fastforce
  have r: "read64 ex_patch_elf 0x18 = 0xe8000000" by code_simp
  have k: "site_key (0x20, 0xe8000000) = 0x20" "site_return ex_patch_elf (0x20, 0xe8000000) = 0x20"
    by (simp_all add: site_key_def site_return_def is_marked_ra_ic_def)
  have "site_ok ex_patch_elf (0x20, 0xe8000000)"
    by (simp add: site_ok_def k r) (simp add: ex_patch_elf_def write8_def)
  moreover have "ra_orig ex_unpatched = [(0x20, 0xe8000000)]" "func_orig ex_unpatched = []"
    by (simp_all add: ex_unpatched_def alloc_code_module_def)
  ultimately show ?thesis
    using patched_site_restored [OF run, of "(0x20, 0xe8000000)" "0x400020" ex_patched "ex_runtime\<lparr> rt_modules := [ex_patched] \<rparr>" 0] run
    by (simp add: k r ex_patched_def find_module_def ex_runtime_def)
qed

end
