(* ===== verification/Memory_Correct.thy ===== *)
theory Memory_Correct
  imports Memory
begin

unbundle bit_operations_syntax

text \<open>
  What the memory services guarantee: whatever calls the sandboxed program makes, the runtime never
  asks the kernel for a page that is writable and executable, never for an executable page outside
  of the code heaps, and never for write access to the code or the \<open>.got.plt\<close> of a loaded module; it unmaps
  only pages of the sandbox and changes protections only in the sandbox and the guard region behind it. That requests stay inside of
  the sandbox altogether is not so, as the section on divergences shows.
\<close>

section \<open>Pages of a range\<close>

text \<open>The numbers of the pages that a byte range touches; the kernel works on whole pages.\<close>

definition page_span :: "u64 \<Rightarrow> u64 \<Rightarrow> nat set" where
  "page_span a len = {unat a div 4096 ..< (unat a + unat len + 4095) div 4096}"

lemma range_overlap_span:
  assumes "\<not> range_overlap a len b sz" and "unat a + unat len < 2 ^ 64" and "unat b + unat sz < 2 ^ 64"
    and "unat b mod 4096 = 0" and "unat sz mod 4096 = 0"
  shows "page_span a len \<inter> page_span b sz = {}"
proof -
  have len: "unat (a + len) = unat a + unat len" "unat (b + sz) = unat b + unat sz"
    using assms(2,3) by (simp_all add: unat_word_ariths)
  have "unat a + unat len \<le> unat b \<or> unat b + unat sz \<le> unat a"
    using assms(1) len by (auto simp: range_overlap_def word_less_nat_alt word_le_nat_alt word_unat_eq_iff split: if_splits)
  moreover obtain p q where pq: "unat b = 4096 * p" "unat sz = 4096 * q" using assms(4,5) by (metis mod_0_imp_dvd dvdE)
  ultimately consider "unat a + unat len \<le> 4096 * p" | "4096 * (p + q) \<le> unat a" by (auto simp: algebra_simps)
  then show ?thesis
  proof cases
    case 1
    then have "(unat a + unat len + 4095) div 4096 \<le> p" by linarith
    then show ?thesis using pq by (auto simp: page_span_def)
  next
    case 2
    then have "p + q \<le> unat a div 4096" by (simp add: less_eq_div_iff_mult_less_eq mult.commute)
    moreover have "(4096 * p + 4096 * q + 4095) div 4096 = p + q" by linarith
    ultimately show ?thesis using pq by (auto simp: page_span_def)
  qed
qed

section \<open>Safe requests\<close>

text \<open>The pages that must stay read-only, and where modules may lie: page by page inside of the
  sandbox, code heaps apart from the others.\<close>

definition rdonly_pages :: "codemodule list \<Rightarrow> nat set" where
  "rdonly_pages ms = (\<Union>m \<in> {m \<in> set ms. \<not> code_heap m}. page_span (base_addr m) (m_sz m) \<union> page_span (gotplt m) (gotpltsz m))"

definition page_range :: "u64 \<Rightarrow> u64 \<Rightarrow> bool" where
  "page_range a len \<longleftrightarrow> unat a mod 4096 = 0 \<and> unat len mod 4096 = 0 \<and> unat a + unat len \<le> 2 ^ 32"

definition modules_placed :: "codemodule list \<Rightarrow> bool" where
  "modules_placed ms \<longleftrightarrow> (\<forall>m \<in> set ms. page_range (base_addr m) (m_sz m) \<and> (code_heap m \<or> page_range (gotplt m) (gotpltsz m)))
     \<and> (\<forall>m \<in> set ms. code_heap m \<longrightarrow> page_span (base_addr m) (m_sz m) \<inter> rdonly_pages ms = {})"

text \<open>The requests to the kernel that cannot break the separation of code and data; the kernel refuses a
  mapping that wraps around the address space. The sandbox is \<open>2 ^ 32\<close> bytes long, as is the guard region behind it.\<close>

definition event_safe :: "codemodule list \<Rightarrow> event \<Rightarrow> bool" where
  "event_safe ms e =
     (case e of
        Mmap a len pr _ _ _ \<Rightarrow> unat len \<le> 2 ^ 32 \<and> pr AND PROT_EXEC = 0 \<and>
          (pr AND PROT_WRITE \<noteq> 0 \<and> unat a + unat len < 2 ^ 64 \<longrightarrow> page_span a len \<inter> rdonly_pages ms = {})
      | Mprotect a len pr \<Rightarrow> unat a + unat len \<le> 2 ^ 33 \<and> (pr AND PROT_EXEC = 0 \<or> pr AND PROT_WRITE = 0) \<and>
          (pr AND PROT_WRITE \<noteq> 0 \<longrightarrow> page_span a len \<inter> rdonly_pages ms = {}) \<and>
          (pr AND PROT_EXEC \<noteq> 0 \<longrightarrow>
             (\<exists>m \<in> set ms. code_heap m \<and> page_span a len \<subseteq> page_span (base_addr m) (m_sz m)))
      | Munmap a len \<Rightarrow> unat a + unat len \<le> 2 ^ 32
      | Brk a \<Rightarrow> unat a < 2 ^ 32
      | _ \<Rightarrow> True)"

lemma secure_range_pages:
  assumes "\<not> insecure_overlap_rdonly ms a len pr" and "modules_placed ms" and "unat a + unat len < 2 ^ 64"
    and "pr AND PROT_WRITE \<noteq> 0"
  shows "page_span a len \<inter> rdonly_pages ms = {}"
proof -
  have "page_span a len \<inter> (page_span (base_addr m) (m_sz m) \<union> page_span (gotplt m) (gotpltsz m)) = {}"
    if m: "m \<in> set ms" "\<not> code_heap m" for m
  proof -
    have "\<not> range_overlap a len (base_addr m) (m_sz m)" "\<not> range_overlap a len (gotplt m) (gotpltsz m)"
      using assms(1,4) m by (auto simp: insecure_overlap_rdonly_def list_ex_iff)
    moreover have "page_range (base_addr m) (m_sz m)" "page_range (gotplt m) (gotpltsz m)"
      using assms(2) m by (auto simp: modules_placed_def)
    ultimately show ?thesis using range_overlap_span [OF _ assms(3)] by (auto simp: page_range_def Int_Un_distrib)
  qed
  then show ?thesis by (auto simp: rdonly_pages_def)
qed

lemma unat_page_start: "unat ((x :: u64) AND - 4096) = unat x div 4096 * 4096"
proof -
  have "x AND NOT (mask 12) = push_bit 12 (drop_bit 12 x)" by (auto intro!: bit_word_eqI simp: bit_simps)
  moreover have "(- 4096 :: u64) = NOT (mask 12)" by (simp add: mask_eq_exp_minus_1 not_eq_complement)
  ultimately have "x AND - 4096 = x div 4096 * 4096" by (simp add: push_bit_eq_mult drop_bit_eq_div)
  moreover have "unat x div 4096 * 4096 < 2 ^ 64"
    using unsigned_less [of x, where ?'a = nat] div_times_less_eq_dividend [of "unat x" 4096] by simp
  ultimately show ?thesis by (simp add: unat_word_ariths unat_div)
qed

section \<open>The services\<close>

text \<open>What a service may do to the state beside the page map: append safe requests.\<close>

definition safe_ext :: "sandbox \<Rightarrow> sandbox \<Rightarrow> bool" where
  "safe_ext s t \<longleftrightarrow> sb_rt t = sb_rt s \<and>
     (\<exists>es. events t = events s @ es \<and> list_all (event_safe (sb_modules s)) es)"

lemma safe_ext_refl [simp]: "safe_ext s s"
  by (simp add: safe_ext_def)

lemma safe_ext_trans [trans]: "safe_ext s t \<Longrightarrow> safe_ext t u \<Longrightarrow> safe_ext s u"
  by (fastforce simp: safe_ext_def)

lemma safe_ext_VM [simp]: "safe_ext s (t\<lparr> VM := vm \<rparr>) = safe_ext s t" "safe_ext (s\<lparr> VM := vm \<rparr>) t = safe_ext s t"
  by (simp_all add: safe_ext_def)

lemma safe_ext_emit: "event_safe (sb_modules s) e \<Longrightarrow> safe_ext s (emit e s)"
  by (simp add: safe_ext_def emit_def)

lemma safe_ext_events:
  "safe_ext s t \<Longrightarrow> sb_modules t = sb_modules s \<and> set (events t) \<subseteq> set (events s) \<union> {e. event_safe (sb_modules s) e}"
  by (auto simp: safe_ext_def list_all_iff)

lemma mprotect_safe:
  assumes "mprotect kern a len pr s = (r, t)" and bound: "unat a + unat len \<le> 2 ^ 33"
    and "pr AND PROT_EXEC = 0 \<or> pr AND PROT_WRITE = 0"
    and "pr AND PROT_WRITE \<noteq> 0 \<longrightarrow> page_span a len \<inter> rdonly_pages (sb_modules s) = {}"
    and "pr AND PROT_EXEC \<noteq> 0 \<longrightarrow>
        (\<exists>m \<in> set (sb_modules s). code_heap m \<and> page_span a len \<subseteq> page_span (base_addr m) (m_sz m))"
  shows "safe_ext s t"
proof -
  let ?st = "a AND - 4096" and ?en = "(a + len + 4095) AND - 4096"
  have st: "unat ?st = unat a div 4096 * 4096" by (rule unat_page_start)
  have en: "unat ?en = (unat a + unat len + 4095) div 4096 * 4096"
    using bound by (simp add: unat_page_start unat_word_ariths)
  have end_le: "unat ?en \<le> 2 ^ 33"
  proof -
    have "(unat a + unat len + 4095) div 4096 \<le> (2 ^ 33 + 4095) div 4096" using bound by (intro div_le_mono) simp
    also have "\<dots> = 2 ^ 21" by simp
    finally show ?thesis unfolding en by simp
  qed
  have le: "unat ?st \<le> unat ?en" unfolding st en by (intro mult_le_mono1 div_le_mono) simp
  have "unat (?en - ?st) = unat ?en - unat ?st" using le by (simp add: unat_sub word_le_nat_alt)
  then have "unat ?st + unat (?en - ?st) = unat ?en" using le by simp
  then have "page_span ?st (?en - ?st) = page_span a len"
    using st en by (simp add: page_span_def)
  then have "event_safe (sb_modules s) (Mprotect ?st (?en - ?st) pr)"
    using assms(3-5) end_le \<open>unat ?st + unat (?en - ?st) = unat ?en\<close> by (simp add: event_safe_def)
  then have "safe_ext s (emit (Mprotect ?st (?en - ?st) pr) s)" by (rule safe_ext_emit)
  moreover have "t = emit (Mprotect ?st (?en - ?st) pr) s" using assms(1) by (auto simp: mprotect_def Let_def algebra_simps)
  ultimately show ?thesis by simp
qed

lemma in_code_heap_span:
  assumes "in_code_heap ms start len = Some m" and "modules_placed ms" and "start \<le> FourGB" "len \<le> FourGB"
  shows "m \<in> set ms \<and> code_heap m \<and> page_span start len \<subseteq> page_span (base_addr m) (m_sz m)
    \<and> page_span (base_addr m) (m_sz m) \<inter> rdonly_pages ms = {}"
proof -
  have m: "m \<in> set ms" "code_heap m" "base_addr m \<le> start" "start + len \<le> base_addr m + m_sz m"
    using assms(1) by (auto simp: in_code_heap_def find_Some_iff)
  then have r: "page_range (base_addr m) (m_sz m)" and d: "page_span (base_addr m) (m_sz m) \<inter> rdonly_pages ms = {}"
    using assms(2) by (auto simp: modules_placed_def)
  have "unat start \<le> 2 ^ 32" "unat len \<le> 2 ^ 32" using assms(3,4) by (simp_all add: FourGB_eq word_le_nat_alt)
  then have "unat (start + len) = unat start + unat len" by (simp add: unat_word_ariths)
  moreover have "unat (base_addr m + m_sz m) = unat (base_addr m) + unat (m_sz m)"
    using r by (simp add: page_range_def unat_word_ariths)
  ultimately have "unat (base_addr m) \<le> unat start" "unat start + unat len \<le> unat (base_addr m) + unat (m_sz m)"
    using m(3,4) by (simp_all add: word_le_nat_alt)
  then have "page_span start len \<subseteq> page_span (base_addr m) (m_sz m)"
    unfolding page_span_def by (intro ivl_subset [THEN iffD2] disjI2 conjI div_le_mono) simp_all
  then show ?thesis using m d by blast
qed

lemma map_in_heap_safe:
  assumes "map_in_heap kern m start len pr s = Some (r, t)" and "in_code_heap (sb_modules s) start len = Some m"
    and "modules_placed (sb_modules s)" and "start \<le> FourGB" "len \<le> FourGB"
  shows "safe_ext s t"
proof -
  obtain rs where run: "mprotect kern start len pr s = (rs, t)" and wx: "pr AND PROT_EXEC = 0 \<or> pr AND PROT_WRITE = 0"
    using assms(1) by (auto simp: map_in_heap_def bind_eq_Some_conv split: prod.splits)
  have "unat start \<le> 2 ^ 32" "unat len \<le> 2 ^ 32" using assms(4,5) by (simp_all add: FourGB_eq word_le_nat_alt)
  then show ?thesis using in_code_heap_span [OF assms(2-5)] by (intro mprotect_safe [OF run _ wx]) auto
qed

lemma choose_page_ext: "choose_page start len flags npg s = Some (c, t) \<Longrightarrow> safe_ext s t \<and> sb_modules t = sb_modules s"
  by (auto simp: choose_page_def bind_eq_Some_conv Let_def split: if_splits)

lemma map_pages_safe:
  assumes "map_pages kern page len npg pr flags fd off s = Some (r, t)" and "modules_placed (sb_modules s)"
    and "pr AND PROT_EXEC = 0" and "len \<le> FourGB"
  shows "safe_ext s t"
proof -
  let ?e = "Mmap (push_bit PAGESHIFT page) len pr (flags OR MAP_FIXED) fd off"
  have "\<not> insecure_overlap_rdonly (sb_modules s) (push_bit PAGESHIFT page) len pr"
    using assms(1) by (auto simp: map_pages_def Let_def)
  then have "event_safe (sb_modules s) ?e"
    using assms(2-4) secure_range_pages by (auto simp: event_safe_def FourGB_eq word_le_nat_alt)
  then have "safe_ext s (emit ?e s)" by (rule safe_ext_emit)
  then show ?thesis using assms(1)
    by (auto simp: map_pages_def mmap_def Let_def bind_eq_Some_conv split: if_splits)
qed

lemma rock_mmap_safe:
  assumes "rock_mmap kern start len pr flags fd off s = Some (r, t)" and "modules_placed (sb_modules s)"
  shows "safe_ext s t"
proof (cases "start AND (push_bit PAGESHIFT 1 - 1) \<noteq> 0 \<or> start > FourGB \<and> flags AND MAP_FIXED \<noteq> 0 \<or> len > FourGB")
  case True
  then show ?thesis using assms(1) by (auto simp: rock_mmap_def Let_def split: if_splits)
next
  case False
  show ?thesis
  proof (cases "if start \<noteq> 0 \<and> flags AND MAP_FIXED \<noteq> 0 then in_code_heap (sb_modules s) start len else None")
    case (Some m)
    then have "in_code_heap (sb_modules s) start len = Some m" "start \<le> FourGB" "len \<le> FourGB"
      using False by (auto split: if_splits)
    moreover have "map_in_heap kern m start len pr s = Some (r, t)"
      using assms(1) False Some by (auto simp: rock_mmap_def Let_def)
    ultimately show ?thesis using map_in_heap_safe assms(2) by blast
  next
    case None
    then obtain c s1 where pr: "pr AND PROT_EXEC = 0"
      and c: "choose_page start len flags (drop_bit PAGESHIFT (RoundToPage len)) s = Some (c, s1)"
      and r: "(case c of Inl err \<Rightarrow> Some (err, s1)
                | Inr page \<Rightarrow> map_pages kern page len (drop_bit PAGESHIFT (RoundToPage len)) pr flags fd off s1) = Some (r, t)"
      using assms(1) False by (auto simp: rock_mmap_def Let_def bind_eq_Some_conv)
    note s1 = choose_page_ext [OF c]
    have len: "len \<le> FourGB" using False by (simp add: not_less)
    show ?thesis
    proof (cases c)
      case (Inr page)
      then show ?thesis using map_pages_safe [of kern page len _ pr flags fd off s1 r t] r s1 assms(2) pr len safe_ext_trans by fastforce
    qed (use r s1 in auto)
  qed
qed

lemma rock_mprotect_safe:
  assumes "rock_mprotect kern addr len pr s = Some (r, t)" and "modules_placed (sb_modules s)"
  shows "safe_ext s t"
proof -
  have c: "addr \<le> FourGB" "len \<le> FourGB" "pr AND PROT_EXEC = 0" "\<not> insecure_overlap_rdonly (sb_modules s) addr len pr"
    and run: "mprotect kern addr len pr s = (r, t)"
    using assms(1) by (auto simp: rock_mprotect_def)
  have "unat addr \<le> 2 ^ 32" "unat len \<le> 2 ^ 32" using c(1,2) by (simp_all add: FourGB_eq word_le_nat_alt)
  then show ?thesis using c secure_range_pages [OF c(4) assms(2)] by (intro mprotect_safe [OF run]) auto
qed

lemma rock_munmap_safe:
  assumes "rock_munmap kern start len s = Some (r, t)"
  shows "safe_ext s t"
proof -
  have c: "start \<le> FourGB" "len \<le> FourGB" "start + len \<le> FourGB" using assms by (auto simp: rock_munmap_def Let_def)
  then have "unat (start + len) = unat start + unat len" by (simp add: FourGB_eq word_le_nat_alt unat_word_ariths)
  then have "event_safe (sb_modules s) (Munmap start len)" using c(3) by (simp add: event_safe_def FourGB_eq word_le_nat_alt)
  then show ?thesis using safe_ext_emit assms
    by (auto simp: rock_munmap_def munmap_def Let_def bind_eq_Some_conv split: if_splits)
qed

lemma rock_mremap_safe:
  assumes "rock_mremap kern old old_len new_len s = Some (r, t)" and "modules_placed (sb_modules s)"
  shows "safe_ext s t"
proof -
  obtain p s1 where m: "rock_mmap kern 0 new_len (PROT_READ OR PROT_WRITE) (MAP_ANONYMOUS OR MAP_PRIVATE) (- 1) 0 s = Some (p, s1)"
    and r: "s1 = t \<or> (\<exists>v. rock_munmap kern old old_len (emit (Memcpy p old (if old_len > new_len then new_len else old_len)) s1) = Some (v, t))"
    using assms(1) by (auto simp: rock_mremap_def bind_eq_Some_conv Let_def split: if_splits)
  have s1: "safe_ext s s1" by (rule rock_mmap_safe [OF m assms(2)])
  have "safe_ext s1 (emit (Memcpy p old n) s1)" for n by (rule safe_ext_emit) (simp add: event_safe_def)
  then show ?thesis using r s1 rock_munmap_safe safe_ext_trans by blast
qed

lemma init_brk_safe: "init_brk kern s = Some t \<Longrightarrow> safe_ext s t"
  using safe_ext_emit [of s "Brk 0"]
  by (auto simp: init_brk_def brk_def Let_def event_safe_def safe_ext_def split: if_splits)

lemma rock_brk_safe:
  assumes "rock_brk kern newbrk s = Some (r, t)"
  shows "safe_ext s t"
proof -
  obtain s1 where i: "init_brk kern s = Some s1" and lt: "newbrk < FourGB"
    using assms by (auto simp: rock_brk_def bind_eq_Some_conv)
  then have "event_safe (sb_modules s1) (Brk newbrk)" by (simp add: event_safe_def FourGB_eq word_less_nat_alt)
  from safe_ext_emit [OF this] have "safe_ext s1 t" using assms i
    by (auto simp: rock_brk_def brk_def Let_def bind_eq_Some_conv safe_ext_def split: if_splits)
  then show ?thesis using init_brk_safe [OF i] safe_ext_trans by blast
qed

section \<open>Runs\<close>

text \<open>One call of a memory service, and the states that a program can reach by such calls.\<close>

inductive service :: "kernel \<Rightarrow> sandbox \<Rightarrow> sandbox \<Rightarrow> bool" for kern where
  mmap: "rock_mmap kern start len pr flags fd off s = Some (r, t) \<Longrightarrow> service kern s t"
| mprotect: "rock_mprotect kern addr len pr s = Some (c, t) \<Longrightarrow> service kern s t"
| munmap: "rock_munmap kern start len s = Some (c, t) \<Longrightarrow> service kern s t"
| mremap: "rock_mremap kern old_addr old_len new_len s = Some (r, t) \<Longrightarrow> service kern s t"
| brk: "rock_brk kern newbrk s = Some (r, t) \<Longrightarrow> service kern s t"

inductive services :: "kernel \<Rightarrow> sandbox \<Rightarrow> sandbox \<Rightarrow> bool" for kern where
  none: "services kern s s"
| one_more: "services kern s t \<Longrightarrow> service kern t u \<Longrightarrow> services kern s u"

lemma service_safe: "service kern s t \<Longrightarrow> modules_placed (sb_modules s) \<Longrightarrow> safe_ext s t"
  by (induction rule: service.induct)
    (blast intro: rock_mmap_safe rock_mprotect_safe rock_munmap_safe rock_mremap_safe rock_brk_safe)+

lemma services_safe: "services kern s t \<Longrightarrow> modules_placed (sb_modules s) \<Longrightarrow> safe_ext s t"
proof (induction rule: services.induct)
  case (one_more s t u)
  then have st: "safe_ext s t" by blast
  then have "sb_modules t = sb_modules s" using safe_ext_events by blast
  with one_more have "safe_ext t u" using service_safe by metis
  with st show ?case by (rule safe_ext_trans)
qed simp

text \<open>C38. The memory services keep code and data apart. After any number of calls, with any
  arguments and any answers of the kernel, every request that the runtime has made is safe: no
  mapping is executable, no protection is writable and executable, executable protections are only
  given to pages inside of code heaps, and no request gives write access to a page of the code or of
  the \<open>.got.plt\<close> of a loaded module. Pages are unmapped and the break is placed only inside of the sandbox, and protections are
  changed only in the sandbox and the guard region behind it.\<close>

theorem memory_services_separate:
  assumes run: "services kern s t" and placed: "modules_placed (sb_modules s)"
    and start: "\<forall>e \<in> set (events s). event_safe (sb_modules s) e"
  shows "sb_modules t = sb_modules s \<and> (\<forall>e \<in> set (events t). event_safe (sb_modules t) e)"
  using safe_ext_events [OF services_safe [OF run placed]] start by auto

definition ex_sandbox :: sandbox where
  "ex_sandbox = \<lparr> sb_rt = ex_runtime\<lparr> rt_modules := [alloc_code_module\<lparr> base_addr := 0x400000, m_sz := 0x1000,
       gotplt := 0x500000, gotpltsz := 0x1000 \<rparr>] \<rparr>, VM = ex_vm, prog_brk = 0x700000, max_brk = 0x800000, events = [] \<rparr>"

theorem memory_services_separate_witness:
  "\<exists>t. services (\<lambda>_ _. 0) ex_sandbox t \<and> events t = [Mprotect 0x501000 0x2000 3]
     \<and> (\<forall>e \<in> set (events t). event_safe (sb_modules t) e)"
proof -
  obtain t c where run: "rock_mprotect (\<lambda>_ _. 0) 0x501000 0x1800 3 ex_sandbox = Some (c, t)"
    and ev: "events t = [Mprotect 0x501000 0x2000 3]"
    by (simp add: rock_mprotect_def ex_sandbox_def insecure_overlap_rdonly_def range_overlap_def FourGB_eq PROT_EXEC_def
        alloc_code_module_def mprotect_def emit_def ex_runtime_def)
  have "services (\<lambda>_ _. 0) ex_sandbox t" by (rule services.one_more [OF services.none service.mprotect [OF run]])
  moreover have "modules_placed (sb_modules ex_sandbox)"
    by (simp add: modules_placed_def ex_sandbox_def page_range_def alloc_code_module_def ex_runtime_def)
  moreover have "\<forall>e \<in> set (events ex_sandbox). event_safe (sb_modules ex_sandbox) e" by (simp add: ex_sandbox_def)
  ultimately show ?thesis using memory_services_separate [of "\<lambda>_ _. 0" ex_sandbox t] ev by blast
qed

section \<open>Divergences\<close>

text \<open>The guard region behind the sandbox can be made accessible: its start passes the test.\<close>

lemma rock_mprotect_guard:
  assumes "modules_placed (sb_modules sb)" and "\<forall>m \<in> set (sb_modules sb). base_addr m < FourGB \<and> gotplt m < FourGB"
  shows "rock_mprotect kern FourGB FourGB PROT_WRITE sb = Some (mprotect kern FourGB FourGB PROT_WRITE sb)"
proof -
  have no: "\<not> range_overlap FourGB FourGB b sz" if "page_range b sz" "b < FourGB" for b sz
  proof -
    have "unat (b + sz) = unat b + unat sz" using that(1) by (simp add: page_range_def unat_word_ariths)
    then have "b + sz \<le> FourGB" using that(1) by (simp add: page_range_def word_le_nat_alt FourGB_eq)
    then show ?thesis using that(2) by (auto simp: range_overlap_def)
  qed
  have "\<not> insecure_overlap_rdonly (sb_modules sb) FourGB FourGB PROT_WRITE"
    using assms no by (auto simp: insecure_overlap_rdonly_def list_ex_iff modules_placed_def)
  then show ?thesis by (simp add: rock_mprotect_def PROT_EXEC_def PROT_WRITE_def)
qed

text \<open>A fixed mapping whose start is in the sandbox may reach four gigabytes beyond it.\<close>

lemma rock_mmap_fixed_end:
  assumes "in_code_heap (sb_modules sb) 0xfffff000 FourGB = None"
  shows "rock_mmap kern 0xfffff000 FourGB PROT_WRITE MAP_FIXED fd off sb =
    map_pages kern 0xfffff FourGB 0x100000 PROT_WRITE MAP_FIXED fd off sb"
  using assms
  by (simp add: rock_mmap_def choose_page_def PAGESHIFT_def FourGB_eq MAP_FIXED_def PROT_WRITE_def PROT_EXEC_def RoundToPage_def)

text \<open>When the break is raised again after it was lowered, the pages it takes back stay free in the
  page map, because the recorded maximum was not lowered.\<close>

lemma rock_brk_shrink_forgets:
  assumes "rock_brk kern lo sb = Some (lo, sb1)" and "rock_brk kern hi sb1 = Some (hi, sb2)"
    and "prog_brk sb \<noteq> 0" "lo \<noteq> 0" "lo \<le> max_brk sb" "hi \<le> max_brk sb"
    and "CurPage (max_brk sb) - RoundToPage hi < BRK_LEAP"
  shows "max_brk sb1 = max_brk sb \<and> VM sb2 = VM sb1"
proof -
  have 1: "max_brk sb1 = max_brk sb" "prog_brk sb1 = lo"
    using assms(1,3,5) by (auto simp: rock_brk_def init_brk_def brk_def emit_def Let_def bind_eq_Some_conv split: if_splits)
  have "VM sb2 = VM sb1" using assms(2,4,6,7) 1
    by (auto simp: rock_brk_def init_brk_def brk_def emit_def Let_def bind_eq_Some_conv split: if_splits)
  with 1 show ?thesis by simp
qed

end
