(* ===== verification/Startup.thy ===== *)
theory Startup
  imports Loader
begin

unbundle bit_operations_syntax

text \<open>
  The initial stack of the sandboxed program (\<open>src/runtime/src/main.c\<close>:
  \<open>extract_elf_load_data\<close>, \<open>build_stack\<close>): the arguments, the environment and the auxiliary vector
  that the kernel passed to the runtime are copied behind the top of the sandbox stack.
\<close>

section \<open>What the kernel passes\<close>

text \<open>A string is the list of its characters in front of the terminator. An entry of the auxiliary
  vector has the value of its union and, when that is a pointer, the bytes it points to; the vector
  is listed without its terminating entry.\<close>

record auxv =
  a_type :: u32
  a_val :: u64
  a_data :: string

definition AT_BASE :: u32 where "AT_BASE = 7"

definition AT_PLATFORM :: u32 where "AT_PLATFORM = 15"

definition AT_HWCAP :: u32 where "AT_HWCAP = 16"

definition AT_RANDOM :: u32 where "AT_RANDOM = 25"

definition AT_EXECFN :: u32 where "AT_EXECFN = 31"

definition AT_SYSINFO_EHDR :: u32 where "AT_SYSINFO_EHDR = 33"

definition AUX_CNT :: nat where "AUX_CNT = 38"

text \<open>\<open>strlen\<close> of a string in memory; it counts the terminator.\<close>

definition slen :: "string \<Rightarrow> nat" where
  "slen s = the (strlen (s @ [NUL]))"

record load_data =
  lt_argv :: "string list"
  lt_envp :: "string list"
  lt_auxv :: "auxv list"
  aux :: "u64 list"
  lt_stack_size :: nat
  lt_array_area_size :: nat
  MCFI_SDK :: "string option"
  HOME :: "string option"

definition MCFI_SDK_NAME :: string where "MCFI_SDK_NAME = ''MCFI_SDK''"

definition scan_env :: "string \<Rightarrow> load_data \<Rightarrow> load_data" where
  "scan_env e d =
     (let d = (if strncmp (e @ [NUL]) (MCFI_SDK_NAME @ [NUL]) (slen MCFI_SDK_NAME) = Some 0
               then d\<lparr> MCFI_SDK := Some (drop (slen MCFI_SDK_NAME + 1) e) \<rparr>
               else if strncmp (e @ [NUL]) (''HOME'' @ [NUL]) 4 = Some 0
               then d\<lparr> HOME := Some (drop 5 e) \<rparr> else d)
      in d\<lparr> lt_stack_size := lt_stack_size d + (slen e + 1) \<rparr>)"

text \<open>The array \<open>aux\<close> has 38 elements; a greater type is written behind it.\<close>

definition scan_aux :: "auxv \<Rightarrow> load_data \<Rightarrow> load_data option" where
  "scan_aux a d = do {
     CHECK (unat (a_type a) < AUX_CNT);
     let d = d\<lparr> aux := (aux d)[unat (a_type a) := a_val a] \<rparr>;
     Some (if a_type a = AT_PLATFORM \<or> a_type a = AT_EXECFN
           then d\<lparr> lt_stack_size := lt_stack_size d + (slen (a_data a) + 1) \<rparr>
           else if a_type a = AT_RANDOM then d\<lparr> lt_stack_size := lt_stack_size d + 16 \<rparr>
           else d) }"

definition extract_elf_load_data :: "string list \<Rightarrow> string list \<Rightarrow> auxv list \<Rightarrow> load_data option" where
  "extract_elf_load_data argv envp auxs = do {
     let d = \<lparr> lt_argv = argv, lt_envp = envp, lt_auxv = auxs, aux = replicate AUX_CNT 0, lt_stack_size = 8,
               lt_array_area_size = 8, MCFI_SDK = None, HOME = None \<rparr>;
     let d = fold (\<lambda>s d. d\<lparr> lt_stack_size := lt_stack_size d + (slen s + 1) \<rparr>) argv d;
     let d = d\<lparr> lt_stack_size := lt_stack_size d + (length argv + 1) * 8,
                lt_array_area_size := lt_array_area_size d + (length argv + 1) * 8 \<rparr>;
     let d = fold scan_env envp d;
     let d = d\<lparr> lt_stack_size := lt_stack_size d + (length envp + 1) * 8,
                lt_array_area_size := lt_array_area_size d + (length envp + 1) * 8 \<rparr>;
     d \<leftarrow> foldM scan_aux auxs d;
     Some (d\<lparr> lt_stack_size := lt_stack_size d + (length auxs + 1) * 16,
              lt_array_area_size := lt_array_area_size d + (length auxs + 1) * 16 \<rparr>) }"

section \<open>Building the stack\<close>

text \<open>The memory, the next word of the arrays and the next free byte of the strings.\<close>

type_synonym stack_state = "mem \<times> nat \<times> nat"

definition string_mem :: "string \<Rightarrow> mem" where
  "string_mem s = of_bytes (map of_char s)"

definition writeval :: "u64 \<Rightarrow> stack_state \<Rightarrow> stack_state" where
  "writeval v = (\<lambda>(t, top, pool). (write64 t top v, top + 8, pool))"

definition copystr :: "string \<Rightarrow> stack_state \<Rightarrow> stack_state" where
  "copystr s = (\<lambda>(t, top, pool).
     let len = slen s in (memcpy t pool (string_mem (s @ [NUL])) 0 len, top, pool + (len + 1)))"

text \<open>\<open>writeval(pool)\<close>.\<close>

definition writepool :: "stack_state \<Rightarrow> stack_state" where
  "writepool st = writeval (of_nat (snd (snd st))) st"

definition copy_random :: "string \<Rightarrow> stack_state \<Rightarrow> stack_state" where
  "copy_random r = (\<lambda>(t, top, pool).
     (write64 (write64 t pool (read64 (string_mem r) 0)) (pool + 8) (read64 (string_mem r) 8), top, pool + 16))"

definition write_aux :: "u64 \<Rightarrow> auxv \<Rightarrow> stack_state \<Rightarrow> stack_state" where
  "write_aux libc_base a st =
     (if a_type a = AT_SYSINFO_EHDR \<or> a_type a = AT_HWCAP then st
      else if a_type a = AT_BASE then writeval libc_base (writeval (scast (a_type a)) st)
      else if a_type a = AT_RANDOM then copy_random (a_data a) (writepool (writeval (scast (a_type a)) st))
      else if a_type a = AT_PLATFORM \<or> a_type a = AT_EXECFN
      then copystr (a_data a) (writepool (writeval (scast (a_type a)) st))
      else writeval (a_val a) (writeval (scast (a_type a)) st))"

definition build_stack :: "load_data \<Rightarrow> u64 \<Rightarrow> u64 \<Rightarrow> mem \<Rightarrow> mem \<times> nat" where
  "build_stack d libc_base stack_top t =
     (let top = unat ((stack_top - of_nat (lt_stack_size d)) AND NOT 15);
          t = memset t top 0 (lt_stack_size d);
          st = (t, top, top + lt_array_area_size d);
          st = writeval (of_nat (length (lt_argv d))) st;
          st = fold (\<lambda>s st. copystr s (writepool st)) (lt_argv d) st;
          st = writeval 0 st;
          st = fold (\<lambda>s st. copystr s (writepool st)) (lt_envp d) st;
          st = writeval 0 st;
          st = fold (write_aux libc_base) (lt_auxv d) st
      in (fst st, top))"

end
