(* ===== verification/Startup_Correct.thy ===== *)
theory Startup_Correct
  imports Startup
begin

unbundle bit_operations_syntax

text \<open>
  What \<open>build_stack\<close> leaves for the sandboxed program: an aligned stack below the given top whose arrays
  hold the arguments, the environment and the auxiliary vector as the ABI wants them, every pointer
  leading to a copy of its string within the stack, and no other byte of memory changed.
\<close>

section \<open>States of the construction\<close>

lemma slen_eq: "NUL \<notin> set s \<Longrightarrow> slen s = Suc (length s)"
proof -
  have "NUL \<notin> set s \<Longrightarrow> strlen (s @ [NUL]) = Some (Suc (length s))" by (induction s) (auto simp: NUL_def)
  then show "NUL \<notin> set s \<Longrightarrow> slen s = Suc (length s)" by (simp add: slen_def)
qed

abbreviation st_top :: "stack_state \<Rightarrow> nat" where "st_top st \<equiv> fst (snd st)"

abbreviation st_pool :: "stack_state \<Rightarrow> nat" where "st_pool st \<equiv> snd (snd st)"

text \<open>A later state keeps what is in the arrays and, from \<open>p0\<close> on, in the pool, and has not touched what
  is in front of \<open>p0\<close> behind the arrays.\<close>

definition later :: "nat \<Rightarrow> stack_state \<Rightarrow> stack_state \<Rightarrow> bool" where
  "later p0 st st' \<longleftrightarrow> st_top st \<le> st_top st' \<and> st_pool st \<le> st_pool st' \<and>
     (\<forall>x. x < st_top st \<or> p0 \<le> x \<and> x < st_pool st \<or> st_top st' \<le> x \<and> x < p0 \<or> st_pool st' \<le> x \<longrightarrow> fst st' x = fst st x)"

lemma later_refl [simp]: "later p0 st st"
  by (simp add: later_def)

lemma later_trans: "later p0 a b \<Longrightarrow> later p0 b c \<Longrightarrow> later p0 a c"
  by (auto simp: later_def)

definition cstr_at :: "mem \<Rightarrow> nat \<Rightarrow> string \<Rightarrow> bool" where
  "cstr_at t a s \<longleftrightarrow> (\<forall>i \<le> length s. t (a + i) = of_char ((s @ [NUL]) ! i))"

definition holds_word :: "stack_state \<Rightarrow> nat \<Rightarrow> u64 \<Rightarrow> bool" where
  "holds_word st a v \<longleftrightarrow> a + 8 \<le> st_top st \<and> read64 (fst st) a = v"

text \<open>The word at \<open>a\<close> points to \<open>n\<close> bytes of the pool that satisfy \<open>P\<close>.\<close>

definition holds_ptr :: "nat \<Rightarrow> stack_state \<Rightarrow> nat \<Rightarrow> (mem \<Rightarrow> nat \<Rightarrow> bool) \<Rightarrow> nat \<Rightarrow> bool" where
  "holds_ptr p0 st a P n \<longleftrightarrow> a + 8 \<le> st_top st \<and>
     (let p = unat (read64 (fst st) a) in p0 \<le> p \<and> p + n \<le> st_pool st \<and> P (fst st) p)"

lemma holds_word_later: "holds_word st a v \<Longrightarrow> later p0 st st' \<Longrightarrow> holds_word st' a v"
proof -
  assume h: "holds_word st a v" and l: "later p0 st st'"
  have "read64 (fst st') a = read64 (fst st) a" using h l by (intro read64_cong) (auto simp: holds_word_def later_def)
  then show "holds_word st' a v" using h l by (auto simp: holds_word_def later_def)
qed

lemma holds_ptr_later:
  assumes "holds_ptr p0 st a P n" and "later p0 st st'"
    and "\<And>t t' p. (\<And>x. p \<le> x \<Longrightarrow> x < p + n \<Longrightarrow> t' x = t x) \<Longrightarrow> P t p \<Longrightarrow> P t' p"
  shows "holds_ptr p0 st' a P n"
proof -
  have r: "read64 (fst st') a = read64 (fst st) a"
    using assms(1,2) by (intro read64_cong) (auto simp: holds_ptr_def later_def)
  show ?thesis
    using assms(1,2) assms(3) [of "unat (read64 (fst st) a)" "fst st'" "fst st"] unfolding holds_ptr_def later_def r Let_def
    by auto
qed

lemma cstr_at_cong: "(\<And>x. p \<le> x \<Longrightarrow> x < p + (length s + 1) \<Longrightarrow> t' x = t x) \<Longrightarrow> cstr_at t p s \<Longrightarrow> cstr_at t' p s"
  by (simp add: cstr_at_def)

abbreviation holds_string :: "nat \<Rightarrow> stack_state \<Rightarrow> nat \<Rightarrow> string \<Rightarrow> bool" where
  "holds_string p0 st a s \<equiv> holds_ptr p0 st a (\<lambda>t p. cstr_at t p s) (length s + 1)"

lemma holds_string_later: "holds_string p0 st a s \<Longrightarrow> later p0 st st' \<Longrightarrow> holds_string p0 st' a s"
  by (erule (1) holds_ptr_later) (rule cstr_at_cong)

section \<open>The steps\<close>

lemma writeval_spec:
  assumes "st_top st + 8 \<le> p0" and "p0 \<le> st_pool st"
  shows "later p0 st (writeval v st) \<and> st_top (writeval v st) = st_top st + 8 \<and> st_pool (writeval v st) = st_pool st
    \<and> holds_word (writeval v st) (st_top st) v"
proof -
  have "fst (writeval v st) = write64 (fst st) (st_top st) v" "st_top (writeval v st) = st_top st + 8"
    "st_pool (writeval v st) = st_pool st" by (simp_all add: writeval_def split_beta)
  then show ?thesis using assms by (auto simp: later_def holds_word_def) (simp_all add: write64_def)
qed

lemma copystr_spec:
  assumes "st_top st \<le> p0" and "p0 \<le> st_pool st" and "NUL \<notin> set s"
  shows "later p0 st (copystr s st) \<and> st_top (copystr s st) = st_top st
    \<and> st_pool (copystr s st) = st_pool st + (length s + 2) \<and> cstr_at (fst (copystr s st)) (st_pool st) s"
  using assms
  by (auto simp: copystr_def split_beta Let_def slen_eq memcpy_eq later_def cstr_at_def string_mem_def of_bytes_def nth_append)

text \<open>A pointer to the pool, and the string behind it.\<close>

lemma string_step:
  assumes top: "st_top st + 8 \<le> p0" and p0: "p0 \<le> st_pool st" and s: "NUL \<notin> set s" and small: "st_pool st < 2 ^ 64"
  shows "later p0 st (copystr s (writepool st)) \<and> st_top (copystr s (writepool st)) = st_top st + 8
    \<and> st_pool (copystr s (writepool st)) = st_pool st + (length s + 2)
    \<and> holds_string p0 (copystr s (writepool st)) (st_top st) s"
proof -
  define st1 where "st1 = writepool st"
  have w: "later p0 st st1" "st_top st1 = st_top st + 8" "st_pool st1 = st_pool st"
    "holds_word st1 (st_top st) (of_nat (st_pool st))"
    using writeval_spec [OF top p0] by (simp_all add: st1_def writepool_def)
  note c = copystr_spec [of st1 p0 s, unfolded w(2,3), OF top p0 s]
  have "holds_word (copystr s st1) (st_top st) (of_nat (st_pool st))" using holds_word_later [OF w(4)] c by blast
  then have "holds_string p0 (copystr s st1) (st_top st) s"
    using c p0 small by (simp add: holds_ptr_def holds_word_def Let_def unat_of_nat)
  then show ?thesis using c w later_trans unfolding st1_def by (metis (no_types, lifting))
qed

lemma strings_spec:
  assumes "st_top st + 8 * length ss \<le> p0" and "p0 \<le> st_pool st" and "\<forall>s \<in> set ss. NUL \<notin> set s"
    and "st_pool st + (\<Sum>s\<leftarrow>ss. length s + 2) < 2 ^ 64"
  shows "let st' = fold (\<lambda>s st. copystr s (writepool st)) ss st
    in later p0 st st' \<and> st_top st' = st_top st + 8 * length ss \<and> st_pool st' = st_pool st + (\<Sum>s\<leftarrow>ss. length s + 2)
      \<and> (\<forall>i < length ss. holds_string p0 st' (st_top st + 8 * i) (ss ! i))"
  using assms
proof (induction ss rule: rev_induct)
  case Nil
  then show ?case by simp
next
  case (snoc s ss)
  define st1 where "st1 = fold (\<lambda>s st. copystr s (writepool st)) ss st"
  have 1: "later p0 st st1" "st_top st1 = st_top st + 8 * length ss" "st_pool st1 = st_pool st + (\<Sum>s\<leftarrow>ss. length s + 2)"
    "\<forall>i < length ss. holds_string p0 st1 (st_top st + 8 * i) (ss ! i)"
    using snoc by (simp_all add: Let_def st1_def)
  have 2: "later p0 st1 (copystr s (writepool st1)) \<and> st_top (copystr s (writepool st1)) = st_top st1 + 8
    \<and> st_pool (copystr s (writepool st1)) = st_pool st1 + (length s + 2)
    \<and> holds_string p0 (copystr s (writepool st1)) (st_top st1) s"
    using snoc.prems 1 by (intro string_step) auto
  have "holds_string p0 (copystr s (writepool st1)) (st_top st + 8 * i) ((ss @ [s]) ! i)" if "i < length (ss @ [s])" for i
    using that 1 2 holds_string_later [of p0 st1 _ _ "copystr s (writepool st1)"] by (cases "i = length ss") (auto simp: nth_append)
  moreover have "later p0 st (copystr s (writepool st1))" using later_trans 1(1) 2 by blast
  moreover have "fold (\<lambda>s st. copystr s (writepool st)) (ss @ [s]) st = copystr s (writepool st1)" by (simp add: st1_def)
  ultimately show ?case using 1 2 by (simp add: Let_def)
qed


section \<open>The auxiliary vector\<close>

definition random_at :: "mem \<Rightarrow> nat \<Rightarrow> string \<Rightarrow> bool" where
  "random_at t p r \<longleftrightarrow> (\<forall>j < 16. t (p + j) = of_char (r ! j))"

lemma copy_random_spec:
  assumes "st_top st \<le> p0" and "p0 \<le> st_pool st" and "16 \<le> length r"
  shows "later p0 st (copy_random r st) \<and> st_top (copy_random r st) = st_top st
    \<and> st_pool (copy_random r st) = st_pool st + 16 \<and> random_at (fst (copy_random r st)) (st_pool st) r"
proof -
  let ?p = "st_pool st" and ?v = "read64 (string_mem r) 0" and ?w = "read64 (string_mem r) 8"
  have e: "fst (copy_random r st) = write64 (write64 (fst st) ?p ?v) (?p + 8) ?w"
    "st_top (copy_random r st) = st_top st" "st_pool (copy_random r st) = ?p + 16"
    by (simp_all add: copy_random_def split_beta)
  have "fst (copy_random r st) (?p + j) = of_char (r ! j)" if "j < 16" for j
  proof (cases "j < 8")
    case True
    then have "byte_of j ?v = of_char (r ! j)" using assms(3) by (simp add: byte_of_read64 string_mem_def of_bytes_def)
    then show ?thesis using True by (simp add: e write64_def)
  next
    case False
    then have "byte_of (j - 8) ?w = of_char (r ! j)"
      using assms(3) that by (simp add: byte_of_read64 string_mem_def of_bytes_def)
    then show ?thesis using False that by (simp add: e write64_def)
  qed
  moreover have "later p0 st (copy_random r st)" using assms(1,2) by (auto simp: later_def e write64_def)
  ultimately show ?thesis using e by (simp add: random_at_def)
qed

definition aux_kept :: "auxv \<Rightarrow> bool" where
  "aux_kept x \<longleftrightarrow> a_type x \<noteq> AT_SYSINFO_EHDR \<and> a_type x \<noteq> AT_HWCAP"

definition aux_pool :: "auxv \<Rightarrow> nat" where
  "aux_pool x = (if a_type x = AT_RANDOM then 16
     else if a_type x = AT_PLATFORM \<or> a_type x = AT_EXECFN then length (a_data x) + 2 else 0)"

definition aux_ok :: "auxv \<Rightarrow> bool" where
  "aux_ok x \<longleftrightarrow> (a_type x = AT_RANDOM \<longrightarrow> length (a_data x) = 16) \<and>
     (a_type x = AT_PLATFORM \<or> a_type x = AT_EXECFN \<longrightarrow> NUL \<notin> set (a_data x))"

text \<open>The entry of the copied vector at \<open>a\<close>.\<close>

definition holds_aux :: "nat \<Rightarrow> u64 \<Rightarrow> stack_state \<Rightarrow> nat \<Rightarrow> auxv \<Rightarrow> bool" where
  "holds_aux p0 libc_base st a x \<longleftrightarrow> holds_word st a (scast (a_type x)) \<and>
     (if a_type x = AT_BASE then holds_word st (a + 8) libc_base
      else if a_type x = AT_RANDOM then holds_ptr p0 st (a + 8) (\<lambda>t p. random_at t p (a_data x)) 16
      else if a_type x = AT_PLATFORM \<or> a_type x = AT_EXECFN then holds_string p0 st (a + 8) (a_data x)
      else holds_word st (a + 8) (a_val x))"

lemma aux_types [simp]:
  "AT_BASE \<noteq> AT_RANDOM" "AT_BASE \<noteq> AT_PLATFORM" "AT_BASE \<noteq> AT_EXECFN" "AT_RANDOM \<noteq> AT_PLATFORM" "AT_RANDOM \<noteq> AT_EXECFN"
  "AT_SYSINFO_EHDR \<noteq> AT_RANDOM" "AT_SYSINFO_EHDR \<noteq> AT_PLATFORM" "AT_SYSINFO_EHDR \<noteq> AT_EXECFN"
  "AT_HWCAP \<noteq> AT_RANDOM" "AT_HWCAP \<noteq> AT_PLATFORM" "AT_HWCAP \<noteq> AT_EXECFN"
  by (simp_all add: AT_BASE_def AT_RANDOM_def AT_PLATFORM_def AT_EXECFN_def AT_SYSINFO_EHDR_def AT_HWCAP_def)

lemmas aux_types_sym [simp] = aux_types [symmetric]

lemma holds_random_later:
  "holds_ptr p0 st a (\<lambda>t p. random_at t p r) 16 \<Longrightarrow> later p0 st st' \<Longrightarrow> holds_ptr p0 st' a (\<lambda>t p. random_at t p r) 16"
  by (erule (1) holds_ptr_later) (simp add: random_at_def)

lemma holds_aux_later:
  assumes "holds_aux p0 lb st a x" and "later p0 st st'"
  shows "holds_aux p0 lb st' a x"
  using assms holds_word_later [OF _ assms(2)] holds_string_later [OF _ assms(2)] holds_random_later [OF _ assms(2)]
  unfolding holds_aux_def by (simp split: if_splits)

lemma write_aux_spec:
  assumes top: "st_top st + 16 \<le> p0" and p0: "p0 \<le> st_pool st" and ok: "aux_ok x" and small: "st_pool st < 2 ^ 64"
    and k: "aux_kept x"
  shows "later p0 st (write_aux lb x st) \<and> st_top (write_aux lb x st) = st_top st + 16
    \<and> st_pool (write_aux lb x st) = st_pool st + aux_pool x \<and> holds_aux p0 lb (write_aux lb x st) (st_top st) x"
proof -
  define st1 where "st1 = writeval (scast (a_type x)) st"
  have 1: "later p0 st st1" "st_top st1 = st_top st + 8" "st_pool st1 = st_pool st" "holds_word st1 (st_top st) (scast (a_type x))"
    using writeval_spec [of st p0] top p0 by (simp_all add: st1_def)
  have w: "later p0 st1 (writeval v st1) \<and> st_top (writeval v st1) = st_top st + 16 \<and> st_pool (writeval v st1) = st_pool st
    \<and> holds_word (writeval v st1) (st_top st + 8) v" for v
    using writeval_spec [of st1 p0 v] 1 top p0 by simp
  consider (base) "a_type x = AT_BASE" | (random) "a_type x = AT_RANDOM"
    | (str) "a_type x = AT_PLATFORM \<or> a_type x = AT_EXECFN"
    | (plain) "a_type x \<noteq> AT_BASE" "a_type x \<noteq> AT_RANDOM" "a_type x \<noteq> AT_PLATFORM" "a_type x \<noteq> AT_EXECFN" by blast
  then show ?thesis
  proof cases
    case base
    then have "write_aux lb x st = writeval lb st1" using k by (simp add: write_aux_def aux_kept_def st1_def)
    then show ?thesis using w [of lb] 1 base
      by (auto simp: holds_aux_def aux_pool_def intro: later_trans holds_word_later)
  next
    case random
    define st2 where "st2 = writepool st1"
    note w2 = w [of "of_nat (st_pool st1)", folded writepool_def, folded st2_def]
    have e: "write_aux lb x st = copy_random (a_data x) st2"
      using k random by (simp add: write_aux_def aux_kept_def st1_def st2_def)
    have c: "later p0 st2 (copy_random (a_data x) st2) \<and> st_top (copy_random (a_data x) st2) = st_top st2
        \<and> st_pool (copy_random (a_data x) st2) = st_pool st2 + 16
        \<and> random_at (fst (copy_random (a_data x) st2)) (st_pool st2) (a_data x)"
      using w2 top p0 ok random by (intro copy_random_spec) (auto simp: aux_ok_def)
    have h: "holds_word (copy_random (a_data x) st2) (st_top st + 8) (of_nat (st_pool st))"
      using w2 c 1 holds_word_later by metis
    have "holds_ptr p0 (copy_random (a_data x) st2) (st_top st + 8) (\<lambda>t p. random_at t p (a_data x)) 16"
      using h c w2 p0 small by (simp add: holds_ptr_def holds_word_def Let_def unat_of_nat)
    moreover have "later p0 st (copy_random (a_data x) st2)" using 1 w2 c later_trans by meson
    moreover have "holds_word (copy_random (a_data x) st2) (st_top st) (scast (a_type x))"
      using 1 w2 c holds_word_later by meson
    ultimately show ?thesis using w2 c e random by (simp add: holds_aux_def aux_pool_def)
  next
    case str
    have e: "write_aux lb x st = copystr (a_data x) (writepool st1)"
      using k str by (auto simp: write_aux_def aux_kept_def st1_def)
    have c: "later p0 st1 (copystr (a_data x) (writepool st1)) \<and> st_top (copystr (a_data x) (writepool st1)) = st_top st1 + 8
        \<and> st_pool (copystr (a_data x) (writepool st1)) = st_pool st1 + (length (a_data x) + 2)
        \<and> holds_string p0 (copystr (a_data x) (writepool st1)) (st_top st1) (a_data x)"
      using 1 top p0 ok str small by (intro string_step) (auto simp: aux_ok_def)
    have t: "a_type x \<noteq> AT_BASE \<and> a_type x \<noteq> AT_RANDOM"
      using str by (auto simp: AT_BASE_def AT_RANDOM_def AT_PLATFORM_def AT_EXECFN_def)
    have "holds_word (copystr (a_data x) (writepool st1)) (st_top st) (scast (a_type x))"
      using holds_word_later 1(4) c by blast
    moreover have "later p0 st (copystr (a_data x) (writepool st1))" using later_trans 1(1) c by blast
    ultimately show ?thesis using c e 1 str t by (auto simp: holds_aux_def aux_pool_def)
  next
    case plain
    then have "write_aux lb x st = writeval (a_val x) st1" using k by (simp add: write_aux_def aux_kept_def st1_def)
    then show ?thesis using w [of "a_val x"] 1 plain
      by (auto simp: holds_aux_def aux_pool_def intro: later_trans holds_word_later)
  qed
qed


lemma auxs_spec:
  assumes "st_top st + 16 * length (filter aux_kept xs) \<le> p0" and "p0 \<le> st_pool st" and "\<forall>x \<in> set xs. aux_ok x"
    and "st_pool st + (\<Sum>x\<leftarrow>xs. aux_pool x) < 2 ^ 64"
  shows "let st' = fold (write_aux lb) xs st
    in later p0 st st' \<and> st_top st' = st_top st + 16 * length (filter aux_kept xs)
      \<and> st_pool st' = st_pool st + (\<Sum>x\<leftarrow>xs. aux_pool x)
      \<and> (\<forall>i < length (filter aux_kept xs). holds_aux p0 lb st' (st_top st + 16 * i) (filter aux_kept xs ! i))"
  using assms
proof (induction xs rule: rev_induct)
  case Nil
  then show ?case by simp
next
  case (snoc x xs)
  define st1 where "st1 = fold (write_aux lb) xs st"
  let ?ys = "filter aux_kept xs"
  have 1: "later p0 st st1" "st_top st1 = st_top st + 16 * length ?ys" "st_pool st1 = st_pool st + (\<Sum>x\<leftarrow>xs. aux_pool x)"
    "\<forall>i < length ?ys. holds_aux p0 lb st1 (st_top st + 16 * i) (?ys ! i)"
    using snoc by (simp_all add: Let_def st1_def split: if_splits)
  have f: "fold (write_aux lb) (xs @ [x]) st = write_aux lb x st1" by (simp add: st1_def)
  show ?case
  proof (cases "aux_kept x")
    case False
    then have "write_aux lb x st1 = st1" "aux_pool x = 0"
      by (auto simp: write_aux_def aux_kept_def aux_pool_def)
    then show ?thesis using 1 False unfolding f by (simp add: Let_def)
  next
    case True
    have 2: "later p0 st1 (write_aux lb x st1) \<and> st_top (write_aux lb x st1) = st_top st1 + 16
      \<and> st_pool (write_aux lb x st1) = st_pool st1 + aux_pool x \<and> holds_aux p0 lb (write_aux lb x st1) (st_top st1) x"
      using snoc.prems 1 True by (intro write_aux_spec) auto
    have "holds_aux p0 lb (write_aux lb x st1) (st_top st + 16 * i) ((?ys @ [x]) ! i)" if "i < length (?ys @ [x])" for i
      using that 1 2 holds_aux_later [of p0 lb st1 _ _ "write_aux lb x st1"]
      by (cases "i = length ?ys") (auto simp: nth_append)
    moreover have "later p0 st (write_aux lb x st1)" using later_trans 1(1) 2 by blast
    ultimately show ?thesis using 1 2 True unfolding f by (simp add: Let_def)
  qed
qed

section \<open>The sizes\<close>

lemma scan_env_sizes:
  assumes "\<forall>e \<in> set es. NUL \<notin> set e"
  shows "lt_stack_size (fold scan_env es d) = lt_stack_size d + (\<Sum>s\<leftarrow>es. length s + 2)
    \<and> lt_array_area_size (fold scan_env es d) = lt_array_area_size d \<and> lt_argv (fold scan_env es d) = lt_argv d
    \<and> lt_envp (fold scan_env es d) = lt_envp d \<and> lt_auxv (fold scan_env es d) = lt_auxv d"
  using assms
proof (induction es arbitrary: d)
  case (Cons e es)
  have "lt_stack_size (scan_env e d) = lt_stack_size d + (length e + 2)"
    "lt_array_area_size (scan_env e d) = lt_array_area_size d" "lt_argv (scan_env e d) = lt_argv d"
    "lt_envp (scan_env e d) = lt_envp d" "lt_auxv (scan_env e d) = lt_auxv d"
    using Cons.prems by (simp_all add: scan_env_def Let_def slen_eq)
  then show ?case using Cons.IH [of "scan_env e d"] Cons.prems by simp
qed simp

lemma scan_aux_sizes:
  assumes "foldM scan_aux xs d = Some d'" and "\<forall>x \<in> set xs. aux_ok x"
  shows "lt_stack_size d' = lt_stack_size d + (\<Sum>x\<leftarrow>xs. aux_pool x)
    \<and> lt_array_area_size d' = lt_array_area_size d \<and> lt_argv d' = lt_argv d \<and> lt_envp d' = lt_envp d \<and> lt_auxv d' = lt_auxv d"
  using assms
proof (induction xs arbitrary: d)
  case (Cons x xs)
  then obtain d1 where s: "scan_aux x d = Some d1" and r: "foldM scan_aux xs d1 = Some d'" by (auto simp: bind_eq_Some_conv)
  have "lt_stack_size d1 = lt_stack_size d + aux_pool x" "lt_array_area_size d1 = lt_array_area_size d"
    "lt_argv d1 = lt_argv d" "lt_envp d1 = lt_envp d" "lt_auxv d1 = lt_auxv d"
    using s Cons.prems(2) by (auto simp: scan_aux_def aux_pool_def Let_def slen_eq aux_ok_def)
  then show ?case using Cons.IH [OF r] Cons.prems(2) by simp
qed simp

lemma argv_sizes:
  assumes "\<forall>s \<in> set ss. NUL \<notin> set s"
  shows "fold (\<lambda>s d. d\<lparr> lt_stack_size := lt_stack_size d + (slen s + 1) \<rparr>) ss d =
    d\<lparr> lt_stack_size := lt_stack_size d + (\<Sum>s\<leftarrow>ss. length s + 2) \<rparr>"
  using assms by (induction ss arbitrary: d) (simp_all add: slen_eq add.assoc)

lemma extract_sizes:
  assumes "extract_elf_load_data argv envp auxs = Some d"
    and "\<forall>s \<in> set argv \<union> set envp. NUL \<notin> set s" and "\<forall>x \<in> set auxs. aux_ok x"
  shows "lt_argv d = argv \<and> lt_envp d = envp \<and> lt_auxv d = auxs
    \<and> lt_array_area_size d = 8 * (length argv + length envp + 3) + 16 * (length auxs + 1)
    \<and> lt_stack_size d = lt_array_area_size d + (\<Sum>s\<leftarrow>argv. length s + 2) + (\<Sum>s\<leftarrow>envp. length s + 2) + (\<Sum>x\<leftarrow>auxs. aux_pool x)"
proof -
  define d0 where "d0 = \<lparr> lt_argv = argv, lt_envp = envp, lt_auxv = auxs, aux = replicate AUX_CNT 0, lt_stack_size = 8,
               lt_array_area_size = 8, MCFI_SDK = None, HOME = None \<rparr>"
  define da where "da = fold (\<lambda>s d. d\<lparr> lt_stack_size := lt_stack_size d + (slen s + 1) \<rparr>) argv d0"
  define d1 where "d1 = da\<lparr> lt_stack_size := lt_stack_size da + (length argv + 1) * 8,
      lt_array_area_size := lt_array_area_size da + (length argv + 1) * 8 \<rparr>"
  define d2 where "d2 = fold scan_env envp d1"
  obtain d3 where d3: "foldM scan_aux auxs (d2\<lparr> lt_stack_size := lt_stack_size d2 + (length envp + 1) * 8,
                lt_array_area_size := lt_array_area_size d2 + (length envp + 1) * 8 \<rparr>) = Some d3"
    and d: "d = d3\<lparr> lt_stack_size := lt_stack_size d3 + (length auxs + 1) * 16,
              lt_array_area_size := lt_array_area_size d3 + (length auxs + 1) * 16 \<rparr>"
    using assms(1) by (auto simp: extract_elf_load_data_def Let_def bind_eq_Some_conv d0_def da_def d1_def d2_def)
  have da: "da = d0\<lparr> lt_stack_size := lt_stack_size d0 + (\<Sum>s\<leftarrow>argv. length s + 2) \<rparr>"
    unfolding da_def using assms(2) by (intro argv_sizes) auto
  have "\<forall>e \<in> set envp. NUL \<notin> set e" using assms(2) by auto
  note s2 = scan_env_sizes [OF this, of d1, folded d2_def]
  note s3 = scan_aux_sizes [OF d3 assms(3)]
  show ?thesis using s2 s3 by (simp add: d d1_def da d0_def)
qed

section \<open>The stack\<close>

text \<open>The word at \<open>a\<close> points to a copy of \<open>s\<close> between \<open>lo\<close> and \<open>hi\<close>.\<close>

definition string_at :: "nat \<Rightarrow> nat \<Rightarrow> mem \<Rightarrow> nat \<Rightarrow> string \<Rightarrow> bool" where
  "string_at lo hi t a s \<longleftrightarrow> (let p = unat (read64 t a) in lo \<le> p \<and> p + length s + 1 \<le> hi \<and> cstr_at t p s)"

definition aux_at :: "nat \<Rightarrow> nat \<Rightarrow> u64 \<Rightarrow> mem \<Rightarrow> nat \<Rightarrow> auxv \<Rightarrow> bool" where
  "aux_at lo hi libc_base t a x \<longleftrightarrow> read64 t a = scast (a_type x) \<and>
     (if a_type x = AT_BASE then read64 t (a + 8) = libc_base
      else if a_type x = AT_RANDOM
      then (let p = unat (read64 t (a + 8)) in lo \<le> p \<and> p + 16 \<le> hi \<and> random_at t p (a_data x))
      else if a_type x = AT_PLATFORM \<or> a_type x = AT_EXECFN then string_at lo hi t (a + 8) (a_data x)
      else read64 t (a + 8) = a_val x)"

lemma holds_string_at: "holds_string p0 st a s \<Longrightarrow> st_pool st \<le> hi \<Longrightarrow> string_at p0 hi (fst st) a s"
  by (auto simp: holds_ptr_def string_at_def Let_def)

lemma holds_aux_at: "holds_aux p0 lb st a x \<Longrightarrow> st_pool st \<le> hi \<Longrightarrow> aux_at p0 hi lb (fst st) a x"
  using holds_string_at [of p0 st "a + 8" "a_data x" hi]
  by (auto simp: holds_aux_def aux_at_def holds_word_def holds_ptr_def Let_def split: if_splits)

lemma later_memory: "later p0 st st' \<Longrightarrow> x < st_top st \<or> st_pool st' \<le> x \<Longrightarrow> fst st' x = fst st x"
  unfolding later_def by blast

text \<open>The stack pointer: \<open>(top - size) & ~15\<close>.\<close>

lemma align_down:
  fixes w :: u64
  shows "unat (w AND NOT 15) mod 16 = 0" and "unat (w AND NOT 15) \<le> unat w"
proof -
  have m: "(15 :: u64) = mask 4" by (simp add: mask_eq_exp_minus_1)
  have "take_bit 4 (w AND NOT 15) = 0" unfolding m by (rule bit_word_eqI) (auto simp: bit_simps)
  then have "take_bit 4 (unat (w AND NOT 15)) = 0" by (metis unsigned_take_bit_eq unsigned_0)
  then show "unat (w AND NOT 15) mod 16 = 0" by (simp add: take_bit_eq_mod)
  show "unat (w AND NOT 15) \<le> unat w" by (metis word_and_le2 word_le_nat_alt)
qed

lemma stack_pointer:
  assumes "n \<le> unat (stack_top :: u64)"
  defines "sp \<equiv> unat ((stack_top - of_nat n) AND NOT 15)"
  shows "sp mod 16 = 0" and "sp + n \<le> unat stack_top"
proof -
  have n: "unat (of_nat n :: u64) = n" using assms(1) by (metis le_unat_uoi)
  have "unat (stack_top - of_nat n) = unat stack_top - n" using assms(1) n by (simp add: unat_sub word_le_nat_alt)
  then show "sp mod 16 = 0" "sp + n \<le> unat stack_top"
    using align_down [of "stack_top - of_nat n"] assms(1) by (auto simp: sp_def)
qed

lemma zero_word:
  assumes "\<And>x. a \<le> x \<Longrightarrow> x < a + 8 \<Longrightarrow> t x = 0"
  shows "read64 t a = 0"
proof -
  have "read64 t a = read64 (write64 t a 0) a" using assms by (intro read64_cong) (simp add: write64_def byte_of_def)
  then show ?thesis by simp
qed
text \<open>The state that \<open>build_stack\<close> ends with, from the zeroed stack on.\<close>

lemma build_stack_arrays:
  assumes z: "lt_argv d = argv \<and> lt_envp d = envp \<and> lt_auxv d = auxs
    \<and> lt_array_area_size d = 8 * (length argv + length envp + 3) + 16 * (length auxs + 1)
    \<and> lt_stack_size d = lt_array_area_size d + (\<Sum>s\<leftarrow>argv. length s + 2) + (\<Sum>s\<leftarrow>envp. length s + 2) + (\<Sum>x\<leftarrow>auxs. aux_pool x)"
    and nul: "\<forall>s \<in> set argv \<union> set envp. NUL \<notin> set s" and ok: "\<forall>x \<in> set auxs. aux_ok x"
    and b: "build_stack d libc_base stack_top t = (t', sp)" and small: "sp + lt_stack_size d < 2 ^ 64"
  defines "envs \<equiv> sp + 8 * (length argv + 2)" and "auxp \<equiv> sp + 8 * (length argv + length envp + 3)"
    and "lo \<equiv> sp + lt_array_area_size d" and "kept \<equiv> filter aux_kept auxs"
  shows "\<exists>st. fst st = t' \<and> st_top st = auxp + 16 * length kept \<and> st_pool st = sp + lt_stack_size d
    \<and> later lo (memset t sp 0 (lt_stack_size d), sp, lo) st \<and> holds_word st sp (of_nat (length argv))
    \<and> (\<forall>i < length argv. holds_string lo st (sp + 8 + 8 * i) (argv ! i)) \<and> holds_word st (sp + 8 + 8 * length argv) 0
    \<and> (\<forall>i < length envp. holds_string lo st (envs + 8 * i) (envp ! i)) \<and> holds_word st (envs + 8 * length envp) 0
    \<and> (\<forall>i < length kept. holds_aux lo libc_base st (auxp + 16 * i) (kept ! i))"
proof -
  let ?put = "\<lambda>s st. copystr s (writepool st)"
  define s0 where "s0 = (memset t sp 0 (lt_stack_size d), sp, lo)"
  define s1 where "s1 = writeval (of_nat (length argv)) s0"
  define s2 where "s2 = fold ?put argv s1"
  define s3 where "s3 = writeval 0 s2"
  define s4 where "s4 = fold ?put envp s3"
  define s5 where "s5 = writeval 0 s4"
  define s6 where "s6 = fold (write_aux libc_base) auxs s5"
  have sp: "sp = unat ((stack_top - of_nat (lt_stack_size d)) AND NOT 15)" using b by (simp add: build_stack_def Let_def)
  have t': "fst s6 = t'"
    using b unfolding s0_def s1_def s2_def s3_def s4_def s5_def s6_def lo_def build_stack_def Let_def sp [symmetric]
    by (simp only: z prod.inject)
  have kept: "length kept \<le> length auxs" by (simp add: kept_def)
  have 1: "later lo s0 s1 \<and> st_top s1 = sp + 8 \<and> st_pool s1 = lo \<and> holds_word s1 sp (of_nat (length argv))"
    using writeval_spec [of s0 lo] z by (simp add: s1_def s0_def lo_def)
  have 2: "later lo s1 s2 \<and> st_top s2 = sp + 8 + 8 * length argv \<and> st_pool s2 = lo + (\<Sum>s\<leftarrow>argv. length s + 2)
      \<and> (\<forall>i < length argv. holds_string lo s2 (sp + 8 + 8 * i) (argv ! i))"
    using strings_spec [of s1 argv lo] 1 z nul small by (simp add: s2_def Let_def lo_def)
  have 3: "later lo s2 s3 \<and> st_top s3 = envs \<and> st_pool s3 = st_pool s2 \<and> holds_word s3 (sp + 8 + 8 * length argv) 0"
    using writeval_spec [of s2 lo 0] 2 z by (simp add: s3_def lo_def envs_def)
  have 4: "later lo s3 s4 \<and> st_top s4 = envs + 8 * length envp \<and> st_pool s4 = st_pool s2 + (\<Sum>s\<leftarrow>envp. length s + 2)
      \<and> (\<forall>i < length envp. holds_string lo s4 (envs + 8 * i) (envp ! i))"
    using strings_spec [of s3 envp lo] 2 3 z nul small by (simp add: s4_def Let_def lo_def envs_def)
  have 5: "later lo s4 s5 \<and> st_top s5 = auxp \<and> st_pool s5 = st_pool s4 \<and> holds_word s5 (envs + 8 * length envp) 0"
    using writeval_spec [of s4 lo 0] 4 2 z by (simp add: s5_def lo_def envs_def auxp_def)
  have 6: "later lo s5 s6 \<and> st_top s6 = auxp + 16 * length kept \<and> st_pool s6 = sp + lt_stack_size d
      \<and> (\<forall>i < length kept. holds_aux lo libc_base s6 (auxp + 16 * i) (kept ! i))"
    using auxs_spec [of s5 auxs lo libc_base, folded s6_def kept_def] 5 4 2 z ok small kept
    by (simp add: Let_def lo_def auxp_def)
  have l46: "later lo s4 s6" using 5 6 later_trans by blast
  have l36: "later lo s3 s6" using 4 l46 later_trans by blast
  have l26: "later lo s2 s6" using 3 l36 later_trans by blast
  have l16: "later lo s1 s6" using 2 l26 later_trans by blast
  have l06: "later lo s0 s6" using 1 l16 later_trans by blast
  show ?thesis
    using 1 2 3 4 5 6 t' l06 holds_word_later [OF _ l16] holds_word_later [OF _ l36] holds_string_later [OF _ l26]
      holds_string_later [OF _ l46]
    unfolding s0_def by (intro exI [of _ s6] conjI) (blast intro: holds_word_later)+
qed

lemma All_less_Suc: "(\<forall>i < Suc n. P i) \<longleftrightarrow> (\<forall>i < n. P i) \<and> P n"
  by (auto simp: less_Suc_eq)

text \<open>C40. The program finds its stack as the ABI describes it. Take arguments, environment and
  auxiliary vector whose strings are terminated and a stack top that leaves room for the size that
  \<open>extract_elf_load_data\<close> computes. Then \<open>build_stack\<close> returns a 16-byte aligned pointer; behind it are the
  number of arguments, a pointer to each argument, a zero word, a pointer to each environment
  string, a zero word, and the entries of the auxiliary vector (without the vdso and the hardware
  capabilities, with the base of libc for \<open>AT_BASE\<close>) ended by a zero word. Every pointer leads to a terminated copy of
  its string behind the arrays and below the top, so no two parts overlap, and no byte outside of the
  computed size is changed.\<close>

theorem build_stack_image:
  assumes e: "extract_elf_load_data argv envp auxs = Some d"
    and nul: "\<forall>s \<in> set argv \<union> set envp. NUL \<notin> set s" and ok: "\<forall>x \<in> set auxs. aux_ok x"
    and room: "lt_stack_size d \<le> unat stack_top" and b: "build_stack d libc_base stack_top t = (t', sp)"
  defines "envs \<equiv> sp + 8 * (length argv + 2)" and "auxp \<equiv> sp + 8 * (length argv + length envp + 3)"
    and "lo \<equiv> sp + lt_array_area_size d" and "hi \<equiv> sp + lt_stack_size d" and "kept \<equiv> filter aux_kept auxs"
  shows "sp mod 16 = 0 \<and> hi \<le> unat stack_top \<and> (\<forall>x. x < sp \<or> hi \<le> x \<longrightarrow> t' x = t x)
    \<and> read64 t' sp = of_nat (length argv)
    \<and> (\<forall>i < length argv. string_at lo hi t' (sp + 8 + 8 * i) (argv ! i)) \<and> read64 t' (sp + 8 + 8 * length argv) = 0
    \<and> (\<forall>i < length envp. string_at lo hi t' (envs + 8 * i) (envp ! i)) \<and> read64 t' (envs + 8 * length envp) = 0
    \<and> (\<forall>i < length kept. aux_at lo hi libc_base t' (auxp + 16 * i) (kept ! i)) \<and> read64 t' (auxp + 16 * length kept) = 0"
proof -
  note z = extract_sizes [OF e nul ok]
  have sp: "sp = unat ((stack_top - of_nat (lt_stack_size d)) AND NOT 15)" using b by (simp add: build_stack_def Let_def)
  note p = stack_pointer [OF room, folded sp]
  have "unat stack_top < 2 ^ LENGTH(64)" by (rule unsigned_less)
  then have small: "sp + lt_stack_size d < 2 ^ 64" using p(2) by simp
  obtain st where st: "fst st = t'" "st_top st = auxp + 16 * length kept" "st_pool st = hi"
      "later lo (memset t sp 0 (lt_stack_size d), sp, lo) st" "holds_word st sp (of_nat (length argv))"
      "\<forall>i < length argv. holds_string lo st (sp + 8 + 8 * i) (argv ! i)" "holds_word st (sp + 8 + 8 * length argv) 0"
      "\<forall>i < length envp. holds_string lo st (envs + 8 * i) (envp ! i)" "holds_word st (envs + 8 * length envp) 0"
      "\<forall>i < length kept. holds_aux lo libc_base st (auxp + 16 * i) (kept ! i)"
    using build_stack_arrays [OF z nul ok b small] unfolding envs_def auxp_def lo_def hi_def kept_def by blast
  have kept: "length kept \<le> length auxs" by (simp add: kept_def)
  have outside: "t' x = t x" if "x < sp \<or> hi \<le> x" for x
    using later_memory [OF st(4), of x] that by (simp only: st(1,3) memset_def hi_def fst_conv snd_conv) auto
  have "read64 t' (auxp + 16 * length kept) = 0"
  proof (rule zero_word)
    fix x assume "auxp + 16 * length kept \<le> x" and "x < auxp + 16 * length kept + 8"
    then show "t' x = 0" using st(4) z kept by (simp add: later_def st(1,2,3) memset_def lo_def auxp_def)
  qed
  moreover have "\<forall>i < length argv. string_at lo hi t' (sp + 8 + 8 * i) (argv ! i)"
    "\<forall>i < length envp. string_at lo hi t' (envs + 8 * i) (envp ! i)"
    "\<forall>i < length kept. aux_at lo hi libc_base t' (auxp + 16 * i) (kept ! i)"
    using st(6,8,10) holds_string_at [of lo st _ _ hi] holds_aux_at [of lo libc_base st _ _ hi] unfolding st(1,3) by blast+
  moreover have "read64 t' sp = of_nat (length argv)" "read64 t' (sp + 8 + 8 * length argv) = 0"
    "read64 t' (envs + 8 * length envp) = 0" using st(5,7,9) by (simp_all only: holds_word_def st(1))
  moreover have "hi \<le> unat stack_top" using p(2) by (simp only: hi_def)
  ultimately show ?thesis using p(1) outside by blast
qed

theorem build_stack_image_witness:
  "\<exists>d t' sp. extract_elf_load_data [''a'', ''bc''] [''x=1''] [\<lparr> a_type = 16, a_val = 5, a_data = [] \<rparr>,
      \<lparr> a_type = 6, a_val = 4096, a_data = [] \<rparr>, \<lparr> a_type = AT_EXECFN, a_val = 0, a_data = ''/p'' \<rparr>] = Some d \<and>
    build_stack d 0 0x10000 (\<lambda>_. 0xff) = (t', sp) \<and> sp mod 16 = 0 \<and> read64 t' sp = 2 \<and>
    string_at (sp + 112) (sp + lt_stack_size d) t' (sp + 16) ''bc'' \<and> read64 t' (sp + 24) = 0 \<and>
    string_at (sp + 112) (sp + lt_stack_size d) t' (sp + 32) ''x=1'' \<and>
    string_at (sp + 112) (sp + lt_stack_size d) t' (sp + 72) ''/p'' \<and> t' (sp + lt_stack_size d) = 0xff"
proof -
  let ?argv = "[''a'', ''bc'']" and ?envp = "[''x=1'']" and ?auxs = "[\<lparr> a_type = 16, a_val = 5, a_data = [] \<rparr>,
      \<lparr> a_type = 6, a_val = 4096, a_data = [] \<rparr>, \<lparr> a_type = AT_EXECFN, a_val = 0, a_data = ''/p'' \<rparr>]"
  have nul: "\<forall>s \<in> set ?argv \<union> set ?envp. NUL \<notin> set s" by (simp add: NUL_def)
  have ok: "\<forall>x \<in> set ?auxs. aux_ok x" by (simp add: aux_ok_def AT_RANDOM_def AT_PLATFORM_def AT_EXECFN_def NUL_def)
  have "extract_elf_load_data ?argv ?envp ?auxs \<noteq> None"
    by (simp add: extract_elf_load_data_def scan_aux_def CHECK_def AT_EXECFN_def AUX_CNT_def Let_def)
  then obtain d where d: "extract_elf_load_data ?argv ?envp ?auxs = Some d" by blast
  note z = extract_sizes [OF d nul ok]
  have room: "lt_stack_size d \<le> unat (0x10000 :: u64)"
    using z by (simp add: aux_pool_def AT_RANDOM_def AT_PLATFORM_def AT_EXECFN_def)
  obtain t' sp where b: "build_stack d 0 0x10000 (\<lambda>_. 0xff) = (t', sp)" by fastforce
  have kept: "filter aux_kept ?auxs = [\<lparr> a_type = 6, a_val = 4096, a_data = [] \<rparr>, \<lparr> a_type = AT_EXECFN, a_val = 0, a_data = ''/p'' \<rparr>]"
    by (simp add: aux_kept_def AT_SYSINFO_EHDR_def AT_HWCAP_def AT_EXECFN_def)
  have "lt_array_area_size d = 112" using z by simp
  note m = build_stack_image [OF d nul ok room b, unfolded kept this]
  have "sp mod 16 = 0" "read64 t' sp = 2" "t' (sp + lt_stack_size d) = 0xff" "read64 t' (sp + 24) = 0"
    using m by (simp_all add: add.commute)
  moreover have "string_at (sp + 112) (sp + lt_stack_size d) t' (sp + 16) ''bc''"
    "string_at (sp + 112) (sp + lt_stack_size d) t' (sp + 32) ''x=1''"
    "string_at (sp + 112) (sp + lt_stack_size d) t' (sp + 72) ''/p''"
    using m by (simp_all add: All_less_Suc aux_at_def add.commute)
  ultimately show ?thesis using d b by (intro exI conjI) assumption+
qed

text \<open>The comparison of \<open>extract_elf_load_data\<close> with \<open>MCFI_SDK\<close> covers the terminator of the name,
  since \<open>strlen\<close> counts it: only an entry without a value matches.\<close>

lemma strncmp_whole: "NUL \<notin> set w \<Longrightarrow> NUL \<notin> set s \<Longrightarrow> strncmp (s @ NUL # r) (w @ NUL # r') (Suc (length w)) = Some 0 \<longleftrightarrow> s = w"
proof (induction w arbitrary: s)
  case Nil
  then show ?case by (cases s) (auto simp: NUL_def)
next
  case (Cons c w)
  then show ?case by (cases s) (auto simp: NUL_def)
qed

lemma mcfi_sdk_ignored:
  assumes "NUL \<notin> set v"
  shows "MCFI_SDK (scan_env (''MCFI_SDK='' @ v) d) = MCFI_SDK d"
proof -
  have n: "NUL \<notin> set MCFI_SDK_NAME" by (simp add: MCFI_SDK_NAME_def NUL_def)
  have "strncmp ((''MCFI_SDK='' @ v) @ [NUL]) (MCFI_SDK_NAME @ [NUL]) (slen MCFI_SDK_NAME) \<noteq> Some 0"
    using strncmp_whole [OF n, of "''MCFI_SDK='' @ v"] assms slen_eq [OF n] by (auto simp: MCFI_SDK_NAME_def NUL_def)
  then show ?thesis by (simp add: scan_env_def Let_def)
qed

end
