(* ===== verification/Mcfi_Text.thy ===== *)
theory Mcfi_Text
  imports Elf
begin

text \<open>
  The metadata that the compiler pass writes
  (\<open>src/compiler/llvm-3.5.0.src/lib/Target/X86/X86MCFI.cpp\<close>, \<open>X86AsmPrinter.cpp\<close>): names of branches, type strings,
  the description of a function and the section that collects the descriptions. A type is given by what LLVM prints
  for its parts, and the demangler of the C++ runtime is a parameter.
\<close>

section \<open>Names and types\<close>

text \<open>A function type as its printed return and parameter types.\<close>

record fn_type =
  ret_type :: string
  param_types :: "string list"
  is_vararg :: bool

fun hex_digits :: "nat \<Rightarrow> string" where
  "hex_digits n = (if n < 16 then [''0123456789abcdef'' ! n] else hex_digits (n div 16) @ [''0123456789abcdef'' ! (n mod 16)])"

declare hex_digits.simps [simp del]

definition to_hex :: "u64 \<Rightarrow> string" where
  "to_hex num = hex_digits (unat num)"

fun starts_with :: "string \<Rightarrow> string \<Rightarrow> bool" where
  "starts_with u [] \<longleftrightarrow> True"
| "starts_with [] (d # v) \<longleftrightarrow> False"
| "starts_with (c # u) (d # v) \<longleftrightarrow> c = d \<and> starts_with u v"

text \<open>\<open>std::string::find(w, pos)\<close>.\<close>

definition find_from :: "string \<Rightarrow> string \<Rightarrow> nat \<Rightarrow> nat option" where
  "find_from s w pos = List.find (\<lambda>i. starts_with (drop i s) w) [pos..<length s + 1]"

definition skip_while :: "(char \<Rightarrow> bool) \<Rightarrow> string \<Rightarrow> nat \<Rightarrow> nat" where
  "skip_while P s pos = pos + length (takeWhile P (drop pos s))"

text \<open>\<open>SanitizeTypeStr\<close>: the second argument of \<open>substr\<close> is a length, but the code passes a position.\<close>

partial_function (option) sanitize_loop :: "string \<Rightarrow> string \<Rightarrow> nat \<Rightarrow> string \<Rightarrow> string option" where
  "sanitize_loop t w result_pos res =
     (case find_from t w result_pos of
        None \<Rightarrow> Some (res @ drop result_pos t)
      | Some pos \<Rightarrow>
          (let pos = skip_while (\<lambda>c. isalnum c \<or> c = CHR ''_'' \<or> c = CHR '':'') t (pos + length w) in
           if pos \<ge> length t then Some (res @ drop result_pos t)
           else
             let res = res @ take pos (drop result_pos t);
                 pos = (if t ! pos = CHR ''.'' then skip_while (\<lambda>c. c = CHR ''.'' \<or> isalnum c) t pos else pos)
             in sanitize_loop t w pos res))"

declare sanitize_loop.simps [code]

definition SanitizeTypeStr :: "string \<Rightarrow> string \<Rightarrow> string option" where
  "SanitizeTypeStr t w = sanitize_loop t w 0 []"

definition TypeStr :: "string \<Rightarrow> string option" where
  "TypeStr printed = Option.bind (SanitizeTypeStr printed ''%struct.'') (\<lambda>r. SanitizeTypeStr r (''%'' @ [CHR 0x22] @ ''class.''))"

definition FuncTypeStr :: "fn_type \<Rightarrow> string option" where
  "FuncTypeStr ty = do {
     r \<leftarrow> TypeStr (ret_type ty);
     s \<leftarrow> foldM (\<lambda>p s. map_option (\<lambda>q. s @ q @ ''@'') (TypeStr p)) (param_types ty) (r @ ''!'');
     Some (if is_vararg ty then s @ ''$'' else s) }"

section \<open>Method names\<close>

definition isspace :: "char \<Rightarrow> bool" where
  "isspace c \<longleftrightarrow> (let ch = (of_char c :: nat) in ch = 32 \<or> (9 \<le> ch \<and> ch \<le> 13))"

text \<open>\<open>for (; i > 0 && P(s[i]); i--)\<close>.\<close>

fun back_while :: "(char \<Rightarrow> bool) \<Rightarrow> string \<Rightarrow> nat \<Rightarrow> nat" where
  "back_while P s 0 = 0"
| "back_while P s (Suc i) = (if P (s ! Suc i) then back_while P s i else Suc i)"

text \<open>Back to the bracket \<open>o\<close> that closes a count of \<open>d\<close> open ones.\<close>

fun scan_back :: "string \<Rightarrow> char \<Rightarrow> char \<Rightarrow> nat \<Rightarrow> nat \<Rightarrow> nat" where
  "scan_back s opn cls d 0 = 0"
| "scan_back s opn cls d (Suc i) =
     (if s ! Suc i = cls then scan_back s opn cls (d + 1) i
      else if s ! Suc i = opn then (if d = 1 then Suc i else scan_back s opn cls (d - 1) i)
      else scan_back s opn cls d i)"

text \<open>The class and the method of a demangled name, joined by \<open>#\<close>. Stepping back from position 0 leaves the string.\<close>

definition splitMethodName :: "string \<Rightarrow> string option" where
  "splitMethodName s = do {
     CHECK (s \<noteq> []);
     let i = back_while (\<lambda>c. c \<noteq> CHR '')'') s (length s - 1);
     CHECK (i \<noteq> 0);
     let i = scan_back s (CHR ''('') (CHR '')'') 1 (i - 1);
     CHECK (i \<noteq> 0);
     let i = back_while isspace s (i - 1);
     i \<leftarrow> (if s ! i = CHR ''>'' then do { CHECK (i \<noteq> 0); Some (scan_back s (CHR ''<'') (CHR ''>'') 1 (i - 1)) } else Some i);
     let i = back_while (\<lambda>c. c \<noteq> CHR '':'') s i;
     Some ((if i = 0 then s else take (i - 1) s) @ ''#'' @ drop (i + 1) s) }"

definition find_last_of :: "string \<Rightarrow> char \<Rightarrow> nat option" where
  "find_last_of s c = List.find (\<lambda>i. s ! i = c) (rev [0..<length s])"

definition CXXDemangledName :: "(string \<Rightarrow> string option) \<Rightarrow> string \<Rightarrow> string" where
  "CXXDemangledName demangle nm =
     (case demangle nm of
        None \<Rightarrow> []
      | Some d \<Rightarrow>
          drop (if find_from d ''non-virtual thunk to '' 0 \<noteq> None then length ''non-virtual thunk to ''
                else if find_from d ''virtual thunk to '' 0 \<noteq> None then length ''virtual thunk to ''
                else 0) d)"

section \<open>The description of a function\<close>

datatype fn_attr = CXXCtor | NoInline | CXXInstanceMethod | SignalHandler | ThreadEntry

definition type_line :: "string list \<Rightarrow> string \<Rightarrow> fn_attr list \<Rightarrow> fn_type \<Rightarrow> string option" where
  "type_line dtors nm attrs ty =
     (if SignalHandler \<in> set attrs then Some ''SignalHandler''
      else if ThreadEntry \<in> set attrs then Some ''ThreadEntry''
      else if nm \<in> set dtors \<or> (length nm > 12 \<and> take 12 nm = ''_GLOBAL__D__'') then Some ''GblDtor''
      else if length nm > 12 \<and> take 12 nm = ''_GLOBAL__E__'' then Some ''GblExnDtor''
      else if nm = ''main'' then Some ''i32!i32@i8**@i8**@''
      else FuncTypeStr ty)"

definition add_list :: "char \<Rightarrow> string list \<Rightarrow> string" where
  "add_list k ws = (if ws \<noteq> [] then k # concat (map (\<lambda>w. CHR '' '' # w) ws) @ [CHR 0x0A] else [])"

text \<open>The lines between the name and the lists; \<open>None\<close> where the compiler exits.\<close>

definition kind_lines :: "(string \<Rightarrow> string option) \<Rightarrow> string list \<Rightarrow> string \<Rightarrow> fn_attr list \<Rightarrow> fn_type \<Rightarrow> string option" where
  "kind_lines demangle dtors nm attrs ty =
     (if CXXCtor \<in> set attrs then
        (if NoInline \<notin> set attrs then Some []
         else do {
           let d = CXXDemangledName demangle nm;
           CHECK (d \<noteq> []);
           d \<leftarrow> splitMethodName d;
           Some (''C '' @ (case find_last_of d (CHR ''#'') of None \<Rightarrow> d | Some k \<Rightarrow> take k d) @ [CHR 0x0A]) })
      else
        let d = (if CXXInstanceMethod \<in> set attrs then CXXDemangledName demangle nm else []) in
        if d \<noteq> [] \<and> find_last_of d (CHR ''~'') \<noteq> None then
          let k = the (find_last_of d (CHR ''~''))
          in Some (''D '' @ (if k < 2 then d else take (k - 2) d) @ [CHR 0x0A])
        else do {
          m \<leftarrow> (if d \<noteq> [] then map_option (\<lambda>s. ''N '' @ s @ [CHR 0x0A]) (splitMethodName d) else Some []);
          y \<leftarrow> type_line dtors nm attrs ty;
          Some (m @ ''Y '' @ y @ [CHR 0x0A]) })"

definition MCFIFuncInfo ::
  "(string \<Rightarrow> string option) \<Rightarrow> string list \<Rightarrow> string \<Rightarrow> fn_attr list \<Rightarrow> fn_type \<Rightarrow> string list \<Rightarrow> string list \<Rightarrow> string list \<Rightarrow> string option" where
  "MCFIFuncInfo demangle dtors nm attrs ty returns dtails itails =
     map_option (\<lambda>k. ''{ '' @ nm @ [CHR 0x0A] @ k @ add_list (CHR ''R'') returns @ add_list (CHR ''T'') dtails @
                     add_list (CHR ''I'') itails @ ''}'')
       (kind_lines demangle dtors nm attrs ty)"

text \<open>A section of such strings, each followed by a zero byte.\<close>

definition EmitMCFIInfo :: "string list \<Rightarrow> string" where
  "EmitMCFIInfo ws = concat (map (\<lambda>w. w @ [NUL]) ws)"

text \<open>The entry of an indirect branch; \<open>virt\<close> is its \<open>CXXVirtual\<close> metadata.\<close>

definition icf_entry :: "u64 \<Rightarrow> string option \<Rightarrow> fn_type \<Rightarrow> string option" where
  "icf_entry slot virt ty =
     (case virt of
        Some v \<Rightarrow>
          if starts_with v ''P#'' then map_option (\<lambda>t. to_hex slot @ ''#'' @ v @ ''#'' @ t) (FuncTypeStr ty)
          else Some (to_hex slot @ ''#'' @ v)
      | None \<Rightarrow> map_option (\<lambda>t. to_hex slot @ ''#N#'' @ t) (FuncTypeStr ty))"

end
