(* ===== verification/Mcfi_Pass.thy ===== *)
theory Mcfi_Pass
  imports Mcfi_Text
begin

text \<open>
  The compiler pass that instruments indirect branches
  (\<open>src/compiler/llvm-3.5.0.src/lib/Target/X86/X86MCFI.cpp\<close>, \<open>X86MCFI.h\<close>), for AMD64. A machine function is a list of
  block numbers in layout order, a body for each number, and the next free number. The
  enumerators of registers and opcodes and the flags of opcodes come from generated files: they
  are the fields of a parameter.
\<close>

section \<open>Machine code\<close>

datatype gpr = RAX | RBX | RCX | RDX | RDI | RSI | RBP | RSP | R8 | R9 | R10 | R11 | R12 | R13 | R14 | R15

datatype width = I8 | I16 | I32 | I64

datatype reg = NoRegister | GS | RIP | Gpr gpr width

datatype opcode =
    ADD64ri32 | ADD64ri8 | ADD64rm | ADD64rr | SUB64ri32 | SUB64ri8 | SUB64rm | SUB64rr
  | AND64ri32 | AND64ri8 | AND64rm | AND64rr | OR64ri32 | OR64ri8 | OR64rm | OR64rr
  | ADD32ri | ADD32ri8 | ADD32rm | ADD32rr | SUB32ri | SUB32ri8 | SUB32rm | SUB32rr
  | AND32ri | AND32ri8 | AND32rm | AND32rr | OR32ri | OR32ri8 | OR32rm | OR32rr
  | LEA64r | LEA64_32r | MOV64rr | MOV32rr | MOV64rm | MOV32rm | MOV64ri32
  | PUSH16i8 | PUSHi32 | POP16r | POPA32 | POPDS16 | POPSS32 | PUSH64r | POP64r
  | CMP64rr | CMP32rr | CMP16rr | CMP8ri | TEST8ri | JNE_1 | JE_4
  | CALL64r | CALL64m | JMP64r | JMP64m | TAILJMPr64 | TAILJMPm64 | TAILJMPd64
  | SYSCALL | RETQ | Opcode nat

datatype regstate = Define | Implicit | Undef | Tied

datatype operand = Reg reg "regstate list" | Imm int | Mbb nat | Symbol string | Global string

text \<open>The instruction of the intermediate representation behind a branch: the type that is called and
  its \<open>CXXVirtual\<close> metadata.\<close>

record ir_inst =
  ir_type :: fn_type
  CXXVirtual :: "string option"

record instr =
  i_opcode :: opcode
  i_operands :: "operand list"
  i_bary :: "u64 option"
  i_ir :: "ir_inst option"

record mblock =
  instrs :: "instr list"
  succs :: "nat list"
  live_ins :: "reg list"

record mfunction =
  mf_name :: string
  mf_attrs :: "fn_attr list"
  mf_type :: fn_type
  layout :: "nat list"
  body :: "nat \<Rightarrow> mblock"
  next_mbb :: nat

record target_info =
  reg_num :: "gpr \<Rightarrow> nat"
  opcode_num :: "opcode \<Rightarrow> nat"
  op_is_call :: "opcode \<Rightarrow> bool"
  op_is_return :: "opcode \<Rightarrow> bool"

text \<open>The fields of the pass object and the metadata of the LLVM module that it extends.\<close>

record mcfi =
  cur_module :: "nat option"
  SmallSandbox :: bool
  SmallID :: bool
  ModuleID :: u64
  BarySlot :: u32
  GlobalCtors :: "string list"
  GlobalDtors :: "string list"
  Returns :: "string list"
  IndirectTailCalls :: "string list"
  DirectTailCalls :: "string list"
  IndirectCalls :: "string list"
  md_FuncInfo :: "string list"
  md_IndirectCalls :: "string list"
  md_AddrTaken :: "string list"

definition BuildMI :: "opcode \<Rightarrow> operand list \<Rightarrow> instr" where
  "BuildMI op os = \<lparr> i_opcode = op, i_operands = os, i_bary = None, i_ir = None \<rparr>"

text \<open>The part of a register of another width.\<close>

fun getX86SubSuperRegister :: "reg \<Rightarrow> width \<Rightarrow> reg" where
  "getX86SubSuperRegister (Gpr g _) w = Gpr g w"
| "getX86SubSuperRegister r _ = r"

fun width_num :: "width \<Rightarrow> nat" where
  "width_num I8 = 8" | "width_num I16 = 16" | "width_num I32 = 32" | "width_num I64 = 64"

text \<open>\<open>definesRegister\<close>: an operand defines the register or one that contains it.\<close>

fun contains_reg :: "reg \<Rightarrow> reg \<Rightarrow> bool" where
  "contains_reg (Gpr g w) (Gpr g' w') \<longleftrightarrow> g = g' \<and> width_num w' \<le> width_num w"
| "contains_reg r r' \<longleftrightarrow> r = r'"

definition definesRegister :: "instr \<Rightarrow> reg \<Rightarrow> bool" where
  "definesRegister mi r \<longleftrightarrow>
     list_ex (\<lambda>x. case x of Reg r' st \<Rightarrow> Define \<in> set st \<and> contains_reg r' r | _ \<Rightarrow> False) (i_operands mi)"

section \<open>Blocks of a function\<close>

definition CreateMachineBasicBlock :: "mfunction \<Rightarrow> nat \<times> mfunction" where
  "CreateMachineBasicBlock mf = (next_mbb mf,
     mf\<lparr> next_mbb := next_mbb mf + 1,
         body := (body mf)(next_mbb mf := \<lparr> instrs = [], succs = [], live_ins = [] \<rparr>) \<rparr>)"

fun insert_after :: "nat \<Rightarrow> nat \<Rightarrow> nat list \<Rightarrow> nat list" where
  "insert_after a b [] = []"
| "insert_after a b (x # xs) = (if x = a then x # b # xs else x # insert_after a b xs)"

definition mf_insert :: "nat \<Rightarrow> nat \<Rightarrow> mfunction \<Rightarrow> mfunction" where
  "mf_insert a b mf = mf\<lparr> layout := insert_after a b (layout mf) \<rparr>"

definition mf_push_back :: "nat \<Rightarrow> mfunction \<Rightarrow> mfunction" where
  "mf_push_back b mf = mf\<lparr> layout := layout mf @ [b] \<rparr>"

definition upd_block :: "nat \<Rightarrow> (mblock \<Rightarrow> mblock) \<Rightarrow> mfunction \<Rightarrow> mfunction" where
  "upd_block b f mf = mf\<lparr> body := (body mf)(b := f (body mf b)) \<rparr>"

definition addSuccessor :: "nat \<Rightarrow> nat \<Rightarrow> mfunction \<Rightarrow> mfunction" where
  "addSuccessor a b = upd_block a (\<lambda>m. m\<lparr> succs := succs m @ [b] \<rparr>)"

text \<open>\<open>a->transferSuccessors(b)\<close>.\<close>

definition transferSuccessors :: "nat \<Rightarrow> nat \<Rightarrow> mfunction \<Rightarrow> mfunction" where
  "transferSuccessors a b mf =
     (let ss = succs (body mf b)
      in upd_block b (\<lambda>m. m\<lparr> succs := [] \<rparr>) (upd_block a (\<lambda>m. m\<lparr> succs := succs m @ ss \<rparr>) mf))"

definition addLiveIn :: "nat \<Rightarrow> reg \<Rightarrow> mfunction \<Rightarrow> mfunction" where
  "addLiveIn b r = upd_block b (\<lambda>m. m\<lparr> live_ins := live_ins m @ [r] \<rparr>)"

text \<open>Instructions built at the beginning of a block; the blocks they are built in are empty.\<close>

definition put_front :: "nat \<Rightarrow> instr list \<Rightarrow> mfunction \<Rightarrow> mfunction" where
  "put_front b is = upd_block b (\<lambda>m. m\<lparr> instrs := is @ instrs m \<rparr>)"

text \<open>\<open>addMBB\<close> on the last instruction of a block.\<close>

definition addMBB_back :: "nat \<Rightarrow> nat \<Rightarrow> mfunction \<Rightarrow> mfunction" where
  "addMBB_back a b = upd_block a (\<lambda>m.
     let mi = last (instrs m)
     in m\<lparr> instrs := butlast (instrs m) @ [mi\<lparr> i_operands := i_operands mi @ [Mbb b] \<rparr>] \<rparr>)"

section \<open>The blocks of a check\<close>

definition id_width :: "mcfi \<Rightarrow> width" where
  "id_width p = (if SmallID p then I32 else I64)"

definition MCFIx64IDCmp :: "mcfi \<Rightarrow> nat \<Rightarrow> reg \<Rightarrow> reg \<Rightarrow> reg \<Rightarrow> mfunction \<Rightarrow> mfunction" where
  "MCFIx64IDCmp p mbb bid_reg tid_reg target mf =
     (let mf = addLiveIn mbb target mf;
          bid_reg = (if SmallID p then getX86SubSuperRegister bid_reg I32 else bid_reg);
          tid_reg = (if SmallID p then getX86SubSuperRegister tid_reg I32 else tid_reg);
          rd = (if SmallID p then MOV32rm else MOV64rm);
          cmp = (if SmallID p then CMP32rr else CMP64rr)
      in put_front mbb
           [(BuildMI rd [Reg bid_reg [Define], Reg NoRegister [], Imm 1, Reg NoRegister [],
               Imm (uint (0x1000 + BarySlot p * (if SmallID p then 4 else 8))), Reg GS []])
              \<lparr> i_bary := Some (ModuleID p + ucast (BarySlot p)) \<rparr>,
            BuildMI rd [Reg tid_reg [Define], Reg target [], Imm 1, Reg NoRegister [], Imm 0, Reg GS []],
            BuildMI cmp [Reg bid_reg [], Reg tid_reg []],
            BuildMI JNE_1 []] mf)"

definition MCFIx64ICJ :: "mcfi \<Rightarrow> nat \<Rightarrow> opcode \<Rightarrow> reg \<Rightarrow> mfunction \<Rightarrow> mfunction" where
  "MCFIx64ICJ p mbb cj target mf =
     put_front mbb [(BuildMI cj [Reg target []])\<lparr> i_bary := Some (ModuleID p + ucast (BarySlot p)) \<rparr>]
       (addLiveIn mbb target mf)"

definition MCFIx64InteropCheck :: "mcfi \<Rightarrow> nat \<Rightarrow> reg \<Rightarrow> reg \<Rightarrow> reg \<Rightarrow> mfunction \<Rightarrow> mfunction" where
  "MCFIx64InteropCheck p mbb bid_reg tid_reg target mf =
     (let mf = addLiveIn mbb target (addLiveIn mbb bid_reg mf);
          tid_reg = (if SmallID p then getX86SubSuperRegister tid_reg I32 else tid_reg)
      in put_front mbb
           [BuildMI CMP8ri [Reg (getX86SubSuperRegister tid_reg I8) [], Imm 0xfc], BuildMI JE_4 []] mf)"

definition MCFIx64IDValidityCheck :: "mcfi \<Rightarrow> nat \<Rightarrow> reg \<Rightarrow> reg \<Rightarrow> reg \<Rightarrow> mfunction \<Rightarrow> mfunction" where
  "MCFIx64IDValidityCheck p mbb bid_reg tid_reg target mf =
     (let mf = addLiveIn mbb target (addLiveIn mbb bid_reg mf);
          tid_reg = (if SmallID p then getX86SubSuperRegister tid_reg I32 else tid_reg)
      in put_front mbb
           [BuildMI TEST8ri [Reg (getX86SubSuperRegister tid_reg I8) [], Imm 1], BuildMI JE_4 []] mf)"

definition MCFIx64IDVersionCheck :: "mcfi \<Rightarrow> nat \<Rightarrow> reg \<Rightarrow> reg \<Rightarrow> mfunction \<Rightarrow> mfunction" where
  "MCFIx64IDVersionCheck p mbb bid_reg tid_reg mf =
     (let mf = addLiveIn mbb tid_reg (addLiveIn mbb bid_reg mf);
          w = (if SmallID p then I16 else I32);
          cmp = (if SmallID p then CMP16rr else CMP32rr)
      in put_front mbb
           [BuildMI cmp [Reg (getX86SubSuperRegister bid_reg w) [], Reg (getX86SubSuperRegister tid_reg w) []],
            BuildMI JNE_1 []] mf)"

definition report_name :: "bool \<Rightarrow> string" where
  "report_name isReturn = (if isReturn then ''__report_cfi_violation_for_return'' else ''__report_cfi_violation'')"

definition MCFIx64Report :: "nat \<Rightarrow> nat \<Rightarrow> reg \<Rightarrow> bool \<Rightarrow> mfunction \<Rightarrow> mfunction" where
  "MCFIx64Report mbb idcmp target isReturn mf =
     put_front mbb
       ((if \<not> isReturn \<and> target \<noteq> Gpr RSI I64 then [BuildMI MOV64rr [Reg (Gpr RSI I64) [], Reg target []]] else []) @
        [BuildMI LEA64r [Reg (Gpr RDI I64) [Define], Reg RIP [], Imm 1, Reg NoRegister [], Mbb idcmp, Reg NoRegister []],
         BuildMI TAILJMPd64 [Symbol (report_name isReturn)]])
       (addLiveIn mbb target mf)"

text \<open>The blocks of one check, as numbers.\<close>

record check_blocks =
  IDCmpMBB :: nat
  ICJMBB :: nat
  InteropCheckMBB :: nat
  IDValidityCheckMBB :: nat
  VerCheckMBB :: nat
  ReportMBB :: nat

definition MCFIx64MBBs ::
  "mcfi \<Rightarrow> nat \<Rightarrow> reg \<Rightarrow> reg \<Rightarrow> reg \<Rightarrow> opcode \<Rightarrow> bool \<Rightarrow> mfunction \<Rightarrow> check_blocks \<times> mfunction" where
  "MCFIx64MBBs p mbb bid_reg tid_reg target cj isReturn mf =
     (let (idcmp, mf) = CreateMachineBasicBlock mf;
          mf = MCFIx64IDCmp p idcmp bid_reg tid_reg target (mf_insert mbb idcmp mf);
          (icj, mf) = CreateMachineBasicBlock mf;
          mf = MCFIx64ICJ p icj cj target (addSuccessor idcmp icj (mf_insert idcmp icj mf));
          (interop, mf) = CreateMachineBasicBlock mf;
          mf = MCFIx64InteropCheck p interop bid_reg tid_reg target (mf_push_back interop mf);
          mf = addSuccessor interop icj (addSuccessor idcmp interop mf);
          (valid, mf) = CreateMachineBasicBlock mf;
          mf = MCFIx64IDValidityCheck p valid bid_reg tid_reg target (mf_push_back valid mf);
          mf = addSuccessor interop valid mf;
          (ver, mf) = CreateMachineBasicBlock mf;
          mf = MCFIx64IDVersionCheck p ver bid_reg tid_reg (mf_push_back ver mf);
          (report, mf) = CreateMachineBasicBlock mf;
          mf = MCFIx64Report report idcmp target isReturn (mf_insert ver report mf);
          mf = addSuccessor valid report (addSuccessor valid ver mf);
          mf = addSuccessor ver report (addSuccessor ver idcmp mf);
          mf = transferSuccessors icj mbb mf;
          mf = addSuccessor mbb idcmp mf;
          mf = addMBB_back idcmp interop mf;
          mf = addMBB_back interop icj mf;
          mf = addMBB_back valid report mf;
          mf = addMBB_back ver idcmp mf
      in (\<lparr> IDCmpMBB = idcmp, ICJMBB = icj, InteropCheckMBB = interop, IDValidityCheckMBB = valid,
            VerCheckMBB = ver, ReportMBB = report \<rparr>, mf))"

section \<open>Returns\<close>

text \<open>A block is given by the instructions in front of the current one and those behind it; the result
  is the same split after the instruction was replaced.\<close>

type_synonym cursor = "instr list \<times> instr list"

text \<open>The name under which a branch appears in the metadata.\<close>

definition slot_name :: "mcfi \<Rightarrow> string" where
  "slot_name p = to_hex (ModuleID p + ucast (BarySlot p))"

definition MCFIx64Ret :: "nat \<Rightarrow> cursor \<Rightarrow> mcfi \<times> mfunction \<Rightarrow> cursor \<times> mcfi \<times> mfunction" where
  "MCFIx64Ret mbb cur s =
     (let (p, mf) = s; (pre, rest) = cur;
          target = Gpr RCX I64;
          pre = pre @ [BuildMI POP64r [Reg target [Define]]]
      in if SignalHandler \<in> set (mf_attrs mf) then
           ((pre @ [BuildMI MOV64ri32 [Reg (Gpr RAX I64) [], Imm 15], BuildMI SYSCALL []], rest), p, mf)
         else
           let pre = pre @ [BuildMI MOV32rr [Reg (getX86SubSuperRegister target I32) [Define],
                       Reg (getX86SubSuperRegister target I32) [Undef], Reg target [Implicit, Define]]];
               (_, mf) = MCFIx64MBBs p mbb (Gpr RDI I64) (Gpr RSI I64) target JMP64r True mf
           in ((pre, rest), p\<lparr> Returns := Returns p @ [slot_name p], BarySlot := BarySlot p + 1 \<rparr>, mf))"

section \<open>Indirect calls and jumps\<close>

text \<open>The general registers but for the stack and frame pointers, in the order of their numbers.\<close>

definition in_order :: "target_info \<Rightarrow> gpr list \<Rightarrow> gpr list" where
  "in_order td gs = sort_key (reg_num td) gs"

definition GRegs :: "gpr list" where
  "GRegs = [RAX, RBX, RCX, RDX, RDI, RSI, R8, R9, R10, R11, R12, R13, R14, R15]"

definition getX64ScratchReg :: "target_info \<Rightarrow> gpr \<Rightarrow> gpr \<Rightarrow> gpr" where
  "getX64ScratchReg td r1 r2 = hd (filter (\<lambda>g. r1 \<noteq> g \<and> r2 \<noteq> g) (in_order td GRegs))"

text \<open>The registers that an instruction uses, of 32, 64 or 8 bits.\<close>

definition used_gprs :: "instr \<Rightarrow> gpr list" where
  "used_gprs mi = concat (map (\<lambda>x. case x of
     Reg (Gpr g w) st \<Rightarrow> if Define \<notin> set st \<and> w \<in> {I32, I64, I8} then [g] else []
   | _ \<Rightarrow> []) (i_operands mi))"

definition scratch_regs :: "target_info \<Rightarrow> instr \<Rightarrow> gpr list" where
  "scratch_regs td mi = in_order td
     (List.insert R11 (filter (\<lambda>g. g \<notin> set (used_gprs mi)) [RAX, RCX, RDX, RDI, RSI, R8, R9, R10]))"

definition branch_op :: "opcode \<Rightarrow> opcode" where
  "branch_op op = (if op = CALL64r \<or> op = CALL64m then CALL64r
     else if op = JMP64r \<or> op = JMP64m then JMP64r else TAILJMPr64)"

text \<open>The last position in front of the final instruction, or anywhere in a list, that defines a register.\<close>

fun last_def :: "reg \<Rightarrow> instr list \<Rightarrow> nat option" where
  "last_def r [] = None"
| "last_def r (x # xs) = (case last_def r xs of Some i \<Rightarrow> Some (Suc i) | None \<Rightarrow> if definesRegister x r then Some 0 else None)"

definition preds :: "nat \<Rightarrow> mfunction \<Rightarrow> nat list" where
  "preds b mf = filter (\<lambda>a. b \<in> set (succs (body mf a))) (layout mf)"

text \<open>A load of the target becomes a load of its low half, which clears the high half.\<close>

definition narrow_load :: "reg \<Rightarrow> instr \<Rightarrow> instr" where
  "narrow_load target d =
     BuildMI MOV32rm (Reg (getX86SubSuperRegister target I32) [Define] # take 5 (drop 1 (i_operands d)))"

definition move_self :: "reg \<Rightarrow> instr" where
  "move_self target = BuildMI MOV32rr [Reg (getX86SubSuperRegister target I32) [Define],
     Reg (getX86SubSuperRegister target I32) [Undef]]"

text \<open>A target register: its definition in this block or in the only predecessor is narrowed, or it is
  moved to itself.\<close>

definition sandbox_target :: "nat \<Rightarrow> reg \<Rightarrow> instr \<Rightarrow> cursor \<Rightarrow> mfunction \<Rightarrow> cursor \<times> mfunction" where
  "sandbox_target mbb target mi cur mf =
     (let (pre, rest) = cur; whole = pre @ mi # rest in
      case last_def target (butlast whole) of
        Some i \<Rightarrow>
          (if i_opcode (whole ! i) = MOV64rm then
             let whole = whole[i := narrow_load target (whole ! i)]
             in ((take (length pre) whole, drop (length pre + 1) whole), mf)
           else ((pre @ [move_self target], rest), mf))
      | None \<Rightarrow>
          (case preds mbb mf of
             [d] \<Rightarrow>
               (let block = (if d = mbb then whole else instrs (body mf d)) in
                case last_def target block of
                  Some i \<Rightarrow>
                    (if i_opcode (block ! i) = MOV64rm then
                       (if d = mbb then
                          let whole = whole[i := narrow_load target (whole ! i)]
                          in ((take (length pre) whole, drop (length pre + 1) whole), mf)
                        else (cur, upd_block d (\<lambda>m. m\<lparr> instrs := (instrs m)[i := narrow_load target (instrs m ! i)] \<rparr>) mf))
                     else ((pre @ [move_self target], rest), mf))
                | None \<Rightarrow> ((pre @ [move_self target], rest), mf))
           | _ \<Rightarrow> ((pre @ [move_self target], rest), mf)))"

text \<open>The target register and the scratch registers that are left.\<close>

definition branch_target :: "target_info \<Rightarrow> nat \<Rightarrow> instr \<Rightarrow> cursor \<Rightarrow> mfunction \<Rightarrow> gpr \<times> gpr list \<times> cursor \<times> mfunction" where
  "branch_target td mbb mi cur mf =
     (let scratch = scratch_regs td mi in
      if i_opcode mi \<in> {JMP64r, TAILJMPr64, CALL64r} then
        (case i_operands mi of
           Reg (Gpr g w) st # _ \<Rightarrow> (let (cur, mf) = sandbox_target mbb (Gpr g w) mi cur mf in (g, scratch, cur, mf))
         | _ \<Rightarrow> (hd scratch, scratch, cur, mf))
      else
        let g = hd scratch
        in (g, tl scratch,
            (fst cur @ [BuildMI MOV32rm (Reg (Gpr g I32) [Define] # take 5 (i_operands mi))], snd cur), mf))"

text \<open>The registers for the identifiers of the branch and of the target, each with whether it is spilled.\<close>

definition id_regs :: "target_info \<Rightarrow> gpr \<Rightarrow> gpr list \<Rightarrow> (gpr \<times> bool) \<times> (gpr \<times> bool)" where
  "id_regs td target scratch =
     (case scratch of
        b # t # _ \<Rightarrow> ((b, False), (t, False))
      | [b] \<Rightarrow> ((b, False), (getX64ScratchReg td target b, True))
      | [] \<Rightarrow> (let b = getX64ScratchReg td target target in ((b, True), (getX64ScratchReg td target b, True))))"

text \<open>Indirect calls and jumps; \<open>None\<close> is a branch whose metadata cannot be written.\<close>

definition MCFIx64IndirectCall ::
  "target_info \<Rightarrow> nat \<Rightarrow> instr \<Rightarrow> ir_inst \<Rightarrow> cursor \<Rightarrow> mcfi \<times> mfunction \<Rightarrow> (cursor \<times> mcfi \<times> mfunction) option" where
  "MCFIx64IndirectCall td mbb mi ir cur s = do {
     let (p, mf) = s;
     let cj = branch_op (i_opcode mi);
     let (target, scratch, cur, mf) = branch_target td mbb mi cur mf;
     let ((b, b_spill), (t, t_spill)) = id_regs td target scratch;
     let (k, mf) = MCFIx64MBBs p mbb (Gpr b I64) (Gpr t I64) (Gpr target I64) cj False mf;
     let pre = fst cur @ (if b_spill then [BuildMI PUSH64r [Reg (Gpr b I64) []]] else [])
                       @ (if t_spill then [BuildMI PUSH64r [Reg (Gpr t I64) []]] else []);
     let pops = (if t_spill then [BuildMI POP64r [Reg (Gpr t I64) [Define]]] else [])
              @ (if b_spill then [BuildMI POP64r [Reg (Gpr b I64) [Define]]] else []);
     let mf = put_front (ICJMBB k) pops mf;
     let mf = upd_block (IDCmpMBB k) (\<lambda>m. m\<lparr> instrs := (hd (instrs m))\<lparr> i_ir := Some ir \<rparr> # tl (instrs m) \<rparr>) mf;
     entry \<leftarrow> icf_entry (ModuleID p + ucast (BarySlot p)) (CXXVirtual ir) (ir_type ir);
     let p = (if cj = TAILJMPr64 then p\<lparr> IndirectTailCalls := IndirectTailCalls p @ [slot_name p] \<rparr> else p);
     Some ((pre, snd cur), p\<lparr> IndirectCalls := IndirectCalls p @ [entry], BarySlot := BarySlot p + 1 \<rparr>, mf) }"

section \<open>The stack pointer\<close>

definition SafeStackPointerModification :: "target_info \<Rightarrow> opcode \<Rightarrow> bool" where
  "SafeStackPointerModification td op \<longleftrightarrow>
     (let n = opcode_num td in
      n PUSH16i8 \<le> n op \<and> n op \<le> n PUSHi32 \<or> n POP16r \<le> n op \<and> n op \<le> n POPA32 \<or> n POPDS16 \<le> n op \<and> n op \<le> n POPSS32)"

text \<open>\<open>None\<close> is 0.\<close>

fun RspToEspDef :: "opcode \<Rightarrow> opcode option" where
  "RspToEspDef ADD64ri32 = Some ADD32ri" | "RspToEspDef ADD64ri8 = Some ADD32ri8"
| "RspToEspDef ADD64rm = Some ADD32rm" | "RspToEspDef ADD64rr = Some ADD32rr"
| "RspToEspDef SUB64ri32 = Some SUB32ri" | "RspToEspDef SUB64ri8 = Some SUB32ri8"
| "RspToEspDef SUB64rm = Some SUB32rm" | "RspToEspDef SUB64rr = Some SUB32rr"
| "RspToEspDef AND64ri32 = Some AND32ri" | "RspToEspDef AND64ri8 = Some AND32ri8"
| "RspToEspDef AND64rm = Some AND32rm" | "RspToEspDef AND64rr = Some AND32rr"
| "RspToEspDef OR64ri32 = Some OR32ri" | "RspToEspDef OR64ri8 = Some OR32ri8"
| "RspToEspDef OR64rm = Some OR32rm" | "RspToEspDef OR64rr = Some OR32rr"
| "RspToEspDef LEA64r = Some LEA64_32r" | "RspToEspDef MOV64rr = Some MOV32rr"
| "RspToEspDef MOV64rm = Some MOV32rm" | "RspToEspDef _ = None"

definition ESP :: reg where "ESP = Gpr RSP I32"

definition esp_operand :: "operand \<Rightarrow> operand" where
  "esp_operand x = (case x of Reg r st \<Rightarrow> if r = Gpr RSP I64 \<and> Tied \<in> set st then Reg ESP [] else x | _ \<Rightarrow> x)"

text \<open>The instructions that replace one that defines the stack pointer.\<close>

definition MCFIx64StackPointer :: "target_info \<Rightarrow> instr \<Rightarrow> instr list" where
  "MCFIx64StackPointer td mi =
     (if SafeStackPointerModification td (i_opcode mi) then [mi]
      else case RspToEspDef (i_opcode mi) of
             None \<Rightarrow> [mi, BuildMI MOV32rr [Reg ESP [Define], Reg ESP []]]
           | Some op \<Rightarrow> [BuildMI op (Reg ESP [Define] # map esp_operand (drop 1 (i_operands mi)))])"

section \<open>The pass over a function\<close>

text \<open>The name of a direct tail call.\<close>

definition callee_name :: "instr \<Rightarrow> string" where
  "callee_name mi = (case i_operands mi of Global n # _ \<Rightarrow> n | Symbol n # _ \<Rightarrow> n | _ \<Rightarrow> [])"

definition indirect_ops :: "opcode list" where
  "indirect_ops = [CALL64m, CALL64r, JMP64m, JMP64r, TAILJMPm64, TAILJMPr64]"

text \<open>The block is cut behind an indirect call that is not its last instruction; the rest moves to a new
  block.\<close>

definition split_block :: "nat \<Rightarrow> instr list \<Rightarrow> mfunction \<Rightarrow> mfunction" where
  "split_block mbb rest mf =
     (let (b, mf) = CreateMachineBasicBlock mf;
          mf = transferSuccessors b mbb (mf_insert mbb b mf);
          mf = addSuccessor mbb b mf
      in put_front b rest mf)"

text \<open>One instruction: what is in front of and behind the position of the iterator afterwards, whether
  the iterator stands on the next instruction already, and the new state.\<close>

definition visit_instr ::
  "target_info \<Rightarrow> nat \<Rightarrow> instr \<Rightarrow> cursor \<Rightarrow> mcfi \<times> mfunction \<Rightarrow> (cursor \<times> bool \<times> mcfi \<times> mfunction) option" where
  "visit_instr td mbb mi cur s =
     (let (pre, rest) = cur; (p, mf) = s in
      if i_opcode mi = RETQ then (let (cur, s) = MCFIx64Ret mbb cur s in Some (cur, True, s))
      else if i_opcode mi = TAILJMPd64 then
        Some ((pre @ [mi], rest), False,
          (if callee_name mi \<noteq> report_name False \<and> callee_name mi \<noteq> report_name True
           then p\<lparr> DirectTailCalls := DirectTailCalls p @ [callee_name mi] \<rparr> else p), mf)
      else case i_ir mi of
        Some ir \<Rightarrow>
          if i_opcode mi \<in> set indirect_ops then
            (let (rest, mf) = (if i_opcode mi \<in> {CALL64m, CALL64r} \<and> rest \<noteq> [] then ([], split_block mbb rest mf) else (rest, mf))
             in map_option (\<lambda>(cur, s). (cur, True, s)) (MCFIx64IndirectCall td mbb mi ir (pre, rest) (p, mf)))
          else Some ((pre @ [mi], rest), False, s)
      | None \<Rightarrow>
          if definesRegister mi (Gpr RSP I64) \<and> \<not> op_is_call td (i_opcode mi) \<and> \<not> op_is_return td (i_opcode mi)
          then Some ((pre @ MCFIx64StackPointer td mi, rest), False, s)
          else Some ((pre @ [mi], rest), False, s))"

lemma sandbox_target_rest: "length (snd (fst (sandbox_target mbb r mi cur mf))) = length (snd cur)"
  by (cases cur) (auto simp: sandbox_target_def Let_def split: option.splits if_splits list.splits)

lemma branch_target_rest: "length (snd (fst (snd (snd (branch_target td mbb mi cur mf))))) = length (snd cur)"
  by (auto simp: branch_target_def Let_def split_beta sandbox_target_rest
      split: if_splits list.splits operand.splits reg.splits)

lemma MCFIx64IndirectCall_rest:
  "MCFIx64IndirectCall td mbb mi ir cur s = Some (cur', s') \<Longrightarrow> length (snd cur') = length (snd cur)"
  by (auto simp: MCFIx64IndirectCall_def Let_def bind_eq_Some_conv split_beta branch_target_rest)

lemma visit_instr_rest:
  "visit_instr td mbb mi (pre, rest) s = Some ((pre', rest'), n, s') \<Longrightarrow> length rest' \<le> length rest"
  by (auto simp: visit_instr_def MCFIx64Ret_def Let_def split_beta split: if_splits option.splits
      dest!: MCFIx64IndirectCall_rest)

text \<open>The rest of a block. After an erased instruction the loop steps over the next one.\<close>

function visit_instrs :: "target_info \<Rightarrow> nat \<Rightarrow> cursor \<Rightarrow> mcfi \<times> mfunction \<Rightarrow> (instr list \<times> mcfi \<times> mfunction) option" where
  "visit_instrs td mbb (pre, []) s = Some (pre, s)"
| "visit_instrs td mbb (pre, mi # rest) s =
     (case visit_instr td mbb mi (pre, rest) s of
        None \<Rightarrow> None
      | Some ((pre', rest'), at_next, s') \<Rightarrow>
          if at_next then visit_instrs td mbb (pre' @ take 1 rest', drop 1 rest') s'
          else visit_instrs td mbb (pre', rest') s')"
  by pat_completeness auto
termination by (relation "measure (\<lambda>(_, _, (_, rest), _). length rest)") (auto dest!: visit_instr_rest)

fun next_block :: "nat \<Rightarrow> nat list \<Rightarrow> nat option" where
  "next_block b (x # y # r) = (if x = b then Some y else next_block b (y # r))"
| "next_block b _ = None"

partial_function (option) visit_blocks :: "target_info \<Rightarrow> nat option \<Rightarrow> mcfi \<times> mfunction \<Rightarrow> (mcfi \<times> mfunction) option" where
  "visit_blocks td b s =
     (case b of
        None \<Rightarrow> Some s
      | Some mbb \<Rightarrow>
          (case visit_instrs td mbb ([], instrs (body (snd s) mbb)) s of
             None \<Rightarrow> None
           | Some (is, p, mf) \<Rightarrow>
               (let mf = upd_block mbb (\<lambda>m. m\<lparr> instrs := is \<rparr>) mf
                in visit_blocks td (next_block mbb (layout mf)) (p, mf))))"

definition MCFIx64 :: "target_info \<Rightarrow> (string \<Rightarrow> string option) \<Rightarrow> mcfi \<times> mfunction \<Rightarrow> (mcfi \<times> mfunction) option" where
  "MCFIx64 td demangle s = do {
     (p, mf) \<leftarrow> visit_blocks td (case layout (snd s) of [] \<Rightarrow> None | b # _ \<Rightarrow> Some b) s;
     info \<leftarrow> MCFIFuncInfo demangle (GlobalDtors p) (mf_name mf) (mf_attrs mf) (mf_type mf) (Returns p) (DirectTailCalls p)
               (IndirectTailCalls p);
     Some (p\<lparr> md_FuncInfo := md_FuncInfo p @ [info], md_IndirectCalls := md_IndirectCalls p @ IndirectCalls p,
              Returns := [], DirectTailCalls := [], IndirectTailCalls := [], IndirectCalls := [] \<rparr>, mf) }"

section \<open>Entering a module\<close>

text \<open>A module of the intermediate representation: its identity, which named metadata it has, the functions in its global
  arrays (an array may be a zero initializer) and the metadata it comes with.\<close>

record ir_module =
  m_ident :: nat
  has_named_md :: "string \<Rightarrow> bool"
  global_array :: "string \<Rightarrow> string list option option"
  m_FuncInfo :: "string list"
  m_IndirectCalls :: "string list"
  m_AddrTaken :: "string list"

text \<open>\<open>std::set<StringRef>\<close>: strings in the order of their bytes.\<close>

fun str_less :: "string \<Rightarrow> string \<Rightarrow> bool" where
  "str_less u [] \<longleftrightarrow> False"
| "str_less [] (d # v) \<longleftrightarrow> True"
| "str_less (c # u) (d # v) \<longleftrightarrow> (of_char c :: nat) < of_char d \<or> c = d \<and> str_less u v"

fun set_insert :: "string \<Rightarrow> string list \<Rightarrow> string list" where
  "set_insert w [] = [w]"
| "set_insert w (v # vs) = (if str_less w v then w # v # vs else if w = v then v # vs else v # set_insert w vs)"

definition extractGlobalArray :: "ir_module \<Rightarrow> string \<Rightarrow> string list" where
  "extractGlobalArray m nm = (case global_array m nm of Some (Some fs) \<Rightarrow> fold set_insert fs [] | _ \<Rightarrow> [])"

text \<open>The first function of another module; \<open>rnd\<close> is the random number that is drawn for it. The slots go on.\<close>

definition enter_module :: "ir_module \<Rightarrow> u64 \<Rightarrow> mcfi \<Rightarrow> mcfi" where
  "enter_module m rnd p =
     (let ctors = extractGlobalArray m ''llvm.global_ctors''; dtors = extractGlobalArray m ''llvm.global_dtors''
      in p\<lparr> cur_module := Some (m_ident m), SmallSandbox := \<not> has_named_md m ''MCFILargeSandbox'',
            SmallID := \<not> has_named_md m ''MCFILargeID'', ModuleID := rnd, GlobalCtors := ctors, GlobalDtors := dtors,
            md_FuncInfo := m_FuncInfo m, md_IndirectCalls := m_IndirectCalls m, md_AddrTaken := m_AddrTaken m @ ctors @ dtors \<rparr>)"

datatype abi = LP64 | ILP32 | Bit32 | OtherAbi

text \<open>\<open>None\<close> is a fatal error of the compiler: only LP64 is supported.\<close>

definition runOnMachineFunction ::
  "target_info \<Rightarrow> (string \<Rightarrow> string option) \<Rightarrow> bool \<Rightarrow> abi \<Rightarrow> ir_module \<Rightarrow> u64 \<Rightarrow> mcfi \<times> mfunction \<Rightarrow> (mcfi \<times> mfunction) option" where
  "runOnMachineFunction td demangle DisableCFI target m rnd s =
     (if DisableCFI then Some s
      else
        let (p, mf) = s; p = (if cur_module p \<noteq> Some (m_ident m) then enter_module m rnd p else p)
        in if target = LP64 then MCFIx64 td demangle (p, mf) else None)"

end
