(* ===== verification/Mcfi_Check.thy ===== *)
theory Mcfi_Check
  imports Mcfi_Pass Tables
begin

text \<open>
  What the inserted check does, next to the tables of the runtime. The machine instructions of the check
  are executed as the processor's manual describes them, one at a time and interleaved with the writes of a
  table update (\<open>gen_cfg\<close> in \<open>src/runtime/src/runtime.c\<close>): the branch is reached only if the graph before or
  after the update admits it. With the tables at rest the check decides within thirteen
  instructions.
\<close>

section \<open>What the pass inserts\<close>

text \<open>The operations on a function by what they do to its fields.\<close>

lemma Create_fields [simp]:
  "next_mbb (snd (CreateMachineBasicBlock mf)) = next_mbb mf + 1" "layout (snd (CreateMachineBasicBlock mf)) = layout mf"
  "body (snd (CreateMachineBasicBlock mf)) = (body mf)(next_mbb mf := \<lparr> instrs = [], succs = [], live_ins = [] \<rparr>)"
  by (simp_all add: CreateMachineBasicBlock_def)

lemma fst_Create [simp]: "fst (CreateMachineBasicBlock mf) = next_mbb mf"
  by (simp add: CreateMachineBasicBlock_def)

lemma insert_fields [simp]:
  "next_mbb (mf_insert a b mf) = next_mbb mf" "layout (mf_insert a b mf) = insert_after a b (layout mf)"
  "body (mf_insert a b mf) = body mf" "next_mbb (mf_push_back b mf) = next_mbb mf"
  "layout (mf_push_back b mf) = layout mf @ [b]" "body (mf_push_back b mf) = body mf"
  by (simp_all add: mf_insert_def mf_push_back_def)

lemma upd_block_fields [simp]:
  "next_mbb (upd_block b f mf) = next_mbb mf" "layout (upd_block b f mf) = layout mf"
  "body (upd_block b f mf) = (body mf)(b := f (body mf b))"
  by (simp_all add: upd_block_def)

lemma transfer_eq: "transferSuccessors a b mf =
    upd_block b (\<lambda>m. m\<lparr> succs := [] \<rparr>) (upd_block a (\<lambda>m. m\<lparr> succs := succs m @ succs (body mf b) \<rparr>) mf)"
  by (simp add: transferSuccessors_def Let_def)

lemma succ_fields [simp]:
  "next_mbb (addSuccessor a b mf) = next_mbb mf" "layout (addSuccessor a b mf) = layout mf"
  "instrs (body (addSuccessor a b mf) c) = instrs (body mf c)"
  "next_mbb (addLiveIn a r mf) = next_mbb mf" "layout (addLiveIn a r mf) = layout mf"
  "instrs (body (addLiveIn a r mf) c) = instrs (body mf c)"
  "next_mbb (transferSuccessors a b mf) = next_mbb mf" "layout (transferSuccessors a b mf) = layout mf"
  "instrs (body (transferSuccessors a b mf) c) = instrs (body mf c)"
  by (simp_all add: addSuccessor_def addLiveIn_def transfer_eq)

lemma front_fields [simp]:
  "next_mbb (put_front b is mf) = next_mbb mf" "layout (put_front b is mf) = layout mf"
  "instrs (body (put_front b is mf) c) = (if c = b then is @ instrs (body mf b) else instrs (body mf c))"
  "next_mbb (addMBB_back a b mf) = next_mbb mf" "layout (addMBB_back a b mf) = layout mf"
  "instrs (body (addMBB_back a b mf) c) =
     (if c = a then butlast (instrs (body mf a)) @ [last (instrs (body mf a))
        \<lparr> i_operands := i_operands (last (instrs (body mf a))) @ [Mbb b] \<rparr>] else instrs (body mf c))"
  by (simp_all add: put_front_def addMBB_back_def Let_def)

lemmas check_parts = MCFIx64IDCmp_def MCFIx64ICJ_def MCFIx64InteropCheck_def MCFIx64IDValidityCheck_def
  MCFIx64IDVersionCheck_def MCFIx64Report_def

lemma part_fields [simp]:
  "next_mbb (MCFIx64IDCmp p b br tr tg mf) = next_mbb mf" "layout (MCFIx64IDCmp p b br tr tg mf) = layout mf"
  "next_mbb (MCFIx64ICJ p b cj tg mf) = next_mbb mf" "layout (MCFIx64ICJ p b cj tg mf) = layout mf"
  "next_mbb (MCFIx64InteropCheck p b br tr tg mf) = next_mbb mf" "layout (MCFIx64InteropCheck p b br tr tg mf) = layout mf"
  "next_mbb (MCFIx64IDValidityCheck p b br tr tg mf) = next_mbb mf" "layout (MCFIx64IDValidityCheck p b br tr tg mf) = layout mf"
  "next_mbb (MCFIx64IDVersionCheck p b br tr mf) = next_mbb mf" "layout (MCFIx64IDVersionCheck p b br tr mf) = layout mf"
  "next_mbb (MCFIx64Report b i tg ret mf) = next_mbb mf" "layout (MCFIx64Report b i tg ret mf) = layout mf"
  by (simp_all add: check_parts Let_def)

lemma MCFIx64MBBs_blocks:
  "fst (MCFIx64MBBs p mbb br tr tg cj ret mf) =
    \<lparr> IDCmpMBB = next_mbb mf, ICJMBB = next_mbb mf + 1, InteropCheckMBB = next_mbb mf + 2,
      IDValidityCheckMBB = next_mbb mf + 3, VerCheckMBB = next_mbb mf + 4, ReportMBB = next_mbb mf + 5 \<rparr>"
  unfolding MCFIx64MBBs_def by (simp add: Let_def split_beta)

lemma sub_register [simp]: "getX86SubSuperRegister (getX86SubSuperRegister r w) w' = getX86SubSuperRegister r w'"
  by (cases r) auto

lemma MCFIx64MBBs_body:
  fixes p :: mcfi and br tr tg :: reg and cj :: opcode and ret :: bool
  assumes "mbb < next_mbb mf"
  defines "n \<equiv> next_mbb mf" and "mf' \<equiv> snd (MCFIx64MBBs p mbb br tr tg cj ret mf)"
    and "half \<equiv> \<lambda>r. if SmallID p then getX86SubSuperRegister r I32 else r" and "rd \<equiv> if SmallID p then MOV32rm else MOV64rm"
  shows "instrs (body mf' n) =
     [(BuildMI rd [Reg (half br) [Define], Reg NoRegister [], Imm 1, Reg NoRegister [],
               Imm (uint (0x1000 + BarySlot p * (if SmallID p then 4 else 8))), Reg GS []])
         \<lparr> i_bary := Some (ModuleID p + ucast (BarySlot p)) \<rparr>,
      BuildMI rd [Reg (half tr) [Define], Reg tg [], Imm 1, Reg NoRegister [], Imm 0, Reg GS []],
      BuildMI (if SmallID p then CMP32rr else CMP64rr) [Reg (half br) [], Reg (half tr) []], BuildMI JNE_1 [Mbb (n + 2)]]"
    and "instrs (body mf' (n + 1)) = [(BuildMI cj [Reg tg []])\<lparr> i_bary := Some (ModuleID p + ucast (BarySlot p)) \<rparr>]"
    and "instrs (body mf' (n + 2)) = [BuildMI CMP8ri [Reg (getX86SubSuperRegister tr I8) [], Imm 0xfc], BuildMI JE_4 [Mbb (n + 1)]]"
    and "instrs (body mf' (n + 3)) = [BuildMI TEST8ri [Reg (getX86SubSuperRegister tr I8) [], Imm 1], BuildMI JE_4 [Mbb (n + 5)]]"
    and "instrs (body mf' (n + 4)) =
      [BuildMI (if SmallID p then CMP16rr else CMP32rr) [Reg (getX86SubSuperRegister br (if SmallID p then I16 else I32)) [],
         Reg (getX86SubSuperRegister tr (if SmallID p then I16 else I32)) []], BuildMI JNE_1 [Mbb n]]"
    and "layout mf' = insert_after (n + 4) (n + 5) (insert_after n (n + 1) (insert_after mbb n (layout mf)) @ [n + 2, n + 3, n + 4])"
  using assms(1) by (cases "SmallID p"; simp add: mf'_def half_def rd_def MCFIx64MBBs_def n_def Let_def split_beta check_parts BuildMI_def
      eval_nat_numeral)+

lemma insert_after_notin [simp]: "a \<notin> set xs \<Longrightarrow> insert_after a b xs = xs"
  by (induction xs) auto

lemma set_insert_after [simp]: "set (insert_after a b xs) = set xs \<union> (if a \<in> set xs then {b} else {})"
  by (induction xs) auto

lemma insert_after_append: "a \<notin> set xs \<Longrightarrow> insert_after a b (xs @ ys) = xs @ insert_after a b ys"
  by (induction xs) auto

lemma next_insert_after: "a \<in> set xs \<Longrightarrow> next_block a (insert_after a b xs) = Some b"
proof (induction xs)
  case (Cons x xs)
  then show ?case by (cases xs; cases "insert_after a b xs") (auto split: if_splits)
qed simp

lemma next_insert_other: "next_block a xs = Some b \<Longrightarrow> c \<noteq> a \<Longrightarrow> d \<noteq> a \<Longrightarrow> next_block a (insert_after c d xs) = Some b"
proof (induction a xs rule: next_block.induct)
  case (1 a x y r)
  then show ?case by (cases "insert_after c d (y # r)") (auto split: if_splits)
qed auto

lemma next_append: "next_block a xs = Some b \<Longrightarrow> next_block a (xs @ ys) = Some b"
  by (induction a xs rule: next_block.induct) (auto split: if_splits)

lemma next_append_right: "a \<notin> set xs \<Longrightarrow> next_block a (xs @ ys) = next_block a ys"
proof (induction xs)
  case (Cons x xs)
  then show ?case by (cases "xs @ ys"; cases ys) auto
qed simp

lemma MCFIx64MBBs_next:
  fixes p :: mcfi and br tr tg :: reg and cj :: opcode and ret :: bool
  assumes "mbb \<in> set (layout mf)" and "\<forall>b \<in> set (layout mf). b < next_mbb mf"
  defines "n \<equiv> next_mbb mf" and "mf' \<equiv> snd (MCFIx64MBBs p mbb br tr tg cj ret mf)"
  shows "next_block mbb (layout mf') = Some n" and "next_block n (layout mf') = Some (n + 1)"
    and "next_block (n + 2) (layout mf') = Some (n + 3)"
    and "next_block (n + 3) (layout mf') = Some (n + 4)" and "next_block (n + 4) (layout mf') = Some (n + 5)"
proof -
  define l where "l = insert_after n (n + 1) (insert_after mbb n (layout mf))"
  have "set l \<subseteq> set (layout mf) \<union> {n, n + 1}" by (auto simp: l_def)
  then have new: "n + 2 \<notin> set l" "n + 3 \<notin> set l" "n + 4 \<notin> set l"
    using assms(2) unfolding n_def by (force simp del: One_nat_def)+
  have lay: "layout mf' = l @ [n + 2, n + 3, n + 4, n + 5]"
    using MCFIx64MBBs_body(6) [of mbb mf p br tr tg cj ret] assms new by (simp add: insert_after_append l_def)
  have "next_block n l = Some (n + 1)" using assms(1) by (auto simp: l_def intro!: next_insert_after)
  then show "next_block n (layout mf') = Some (n + 1)" by (simp add: lay next_append)
  show "next_block (n + 2) (layout mf') = Some (n + 3)" "next_block (n + 3) (layout mf') = Some (n + 4)"
    "next_block (n + 4) (layout mf') = Some (n + 5)" using new by (simp_all add: lay next_append_right)
  have "mbb \<noteq> n" "mbb \<noteq> n + 1" using assms(1,2) by (auto simp: n_def)
  then have "next_block mbb l = Some n" using next_insert_after [OF assms(1)] by (simp add: l_def next_insert_other)
  then show "next_block mbb (layout mf') = Some n" by (simp add: lay next_append)
qed

section \<open>Running the inserted code\<close>

text \<open>The machine as far as the inserted code needs it: the general registers, the zero flag, and the
  table region behind the segment register \<open>gs\<close>. A write of the low half of a register clears the high half.\<close>

record cpu =
  gprs :: "gpr \<Rightarrow> u64"
  ZF :: bool

fun get_reg :: "reg \<Rightarrow> cpu \<Rightarrow> u64" where
  "get_reg (Gpr g w) c = take_bit (width_num w) (gprs c g)"
| "get_reg _ c = 0"

fun set_reg :: "reg \<Rightarrow> u64 \<Rightarrow> cpu \<Rightarrow> cpu option" where
  "set_reg (Gpr g I64) v c = Some (c\<lparr> gprs := (gprs c)(g := v) \<rparr>)"
| "set_reg (Gpr g I32) v c = Some (c\<lparr> gprs := (gprs c)(g := take_bit 32 v) \<rparr>)"
| "set_reg _ v c = None"

text \<open>Data instructions; \<open>None\<close> is an instruction that is not one of the check.\<close>

definition exec_instr :: "mem \<Rightarrow> instr \<Rightarrow> cpu \<Rightarrow> cpu option" where
  "exec_instr t mi c =
     (case (i_opcode mi, i_operands mi) of
        (MOV64rm, [Reg d _, Reg base _, Imm scale, Reg idx _, Imm disp, Reg GS _]) \<Rightarrow>
          set_reg d (read64 t (unat (get_reg base c + of_int scale * get_reg idx c + of_int disp))) c
      | (MOV32rm, [Reg d _, Reg base _, Imm scale, Reg idx _, Imm disp, Reg GS _]) \<Rightarrow>
          set_reg d (take_bit 32 (read64 t (unat (get_reg base c + of_int scale * get_reg idx c + of_int disp)))) c
      | (CMP64rr, [Reg a _, Reg b _]) \<Rightarrow> Some (c\<lparr> ZF := (get_reg a c = get_reg b c) \<rparr>)
      | (CMP32rr, [Reg a _, Reg b _]) \<Rightarrow> Some (c\<lparr> ZF := (get_reg a c = get_reg b c) \<rparr>)
      | (CMP16rr, [Reg a _, Reg b _]) \<Rightarrow> Some (c\<lparr> ZF := (get_reg a c = get_reg b c) \<rparr>)
      | (CMP8ri, [Reg a _, Imm k]) \<Rightarrow> Some (c\<lparr> ZF := (get_reg a c = take_bit 8 (of_int k)) \<rparr>)
      | (TEST8ri, [Reg a _, Imm k]) \<Rightarrow> Some (c\<lparr> ZF := (get_reg a c AND take_bit 8 (of_int k) = 0) \<rparr>)
      | _ \<Rightarrow> None)"

type_synonym point = "nat \<times> nat \<times> cpu"

text \<open>One instruction at block \<open>b\<close>, position \<open>i\<close>; behind the last instruction of a block comes the
  next one in the layout.\<close>

definition check_step :: "mfunction \<Rightarrow> mem \<Rightarrow> point \<Rightarrow> point option" where
  "check_step mf t = (\<lambda>(b, i, c).
     if i < length (instrs (body mf b)) then
       (let mi = instrs (body mf b) ! i in
        case (i_opcode mi, i_operands mi) of
          (JNE_1, [Mbb d]) \<Rightarrow> Some (if \<not> ZF c then (d, 0, c) else (b, i + 1, c))
        | (JE_4, [Mbb d]) \<Rightarrow> Some (if ZF c then (d, 0, c) else (b, i + 1, c))
        | _ \<Rightarrow> map_option (\<lambda>c. (b, i + 1, c)) (exec_instr t mi c))
     else map_option (\<lambda>d. (d, 0, c)) (next_block b (layout mf)))"

text \<open>The loader writes the slot of the branch into the displacement of the instruction that
  carries its number.\<close>

definition link_slot :: "nat \<Rightarrow> instr \<Rightarrow> instr" where
  "link_slot slot mi =
     (case (i_opcode mi, i_operands mi, i_bary mi) of
        (MOV64rm, [d, base, scale, idx, Imm _, seg], Some _) \<Rightarrow> mi\<lparr> i_operands := [d, base, scale, idx, Imm (int slot), seg] \<rparr>
      | _ \<Rightarrow> mi)"

definition link_function :: "nat \<Rightarrow> nat \<Rightarrow> mfunction \<Rightarrow> mfunction" where
  "link_function b slot = upd_block b (\<lambda>m. m\<lparr> instrs := map (link_slot slot) (instrs m) \<rparr>)"

text \<open>The code of a check: its blocks, the registers for the two identifiers and for the target, and
  the slot it is linked to.\<close>

definition check_code :: "mfunction \<Rightarrow> check_blocks \<Rightarrow> gpr \<Rightarrow> gpr \<Rightarrow> gpr \<Rightarrow> nat \<Rightarrow> bool" where
  "check_code code k B T X slot \<longleftrightarrow> B \<noteq> T \<and> B \<noteq> X \<and> T \<noteq> X \<and> slot < 2 ^ 31 \<and>
     distinct [IDCmpMBB k, ICJMBB k, InteropCheckMBB k, IDValidityCheckMBB k, VerCheckMBB k, ReportMBB k] \<and>
     (\<exists>y z. instrs (body code (IDCmpMBB k)) =
       [(BuildMI MOV64rm [Reg (Gpr B I64) [Define], Reg NoRegister [], Imm 1, Reg NoRegister [], Imm (int slot), Reg GS []])
          \<lparr> i_bary := y, i_ir := z \<rparr>,
        BuildMI MOV64rm [Reg (Gpr T I64) [Define], Reg (Gpr X I64) [], Imm 1, Reg NoRegister [], Imm 0, Reg GS []],
        BuildMI CMP64rr [Reg (Gpr B I64) [], Reg (Gpr T I64) []], BuildMI JNE_1 [Mbb (InteropCheckMBB k)]]) \<and>
     instrs (body code (InteropCheckMBB k)) = [BuildMI CMP8ri [Reg (Gpr T I8) [], Imm 0xfc], BuildMI JE_4 [Mbb (ICJMBB k)]] \<and>
     instrs (body code (IDValidityCheckMBB k)) = [BuildMI TEST8ri [Reg (Gpr T I8) [], Imm 1], BuildMI JE_4 [Mbb (ReportMBB k)]] \<and>
     instrs (body code (VerCheckMBB k)) =
       [BuildMI CMP32rr [Reg (Gpr B I32) [], Reg (Gpr T I32) []], BuildMI JNE_1 [Mbb (IDCmpMBB k)]] \<and>
     next_block (IDCmpMBB k) (layout code) = Some (ICJMBB k) \<and>
     next_block (InteropCheckMBB k) (layout code) = Some (IDValidityCheckMBB k) \<and>
     next_block (IDValidityCheckMBB k) (layout code) = Some (VerCheckMBB k) \<and>
     next_block (VerCheckMBB k) (layout code) = Some (ReportMBB k)"

lemma MCFIx64MBBs_check_code:
  assumes "mbb \<in> set (layout mf)" and "\<forall>b \<in> set (layout mf). b < next_mbb mf" and "\<not> SmallID p"
    and "B \<noteq> T" and "B \<noteq> X" and "T \<noteq> X" and "slot < 2 ^ 31"
    and "MCFIx64MBBs p mbb (Gpr B I64) (Gpr T I64) (Gpr X I64) cj ret mf = (blocks, mf')"
  shows "check_code (link_function (IDCmpMBB blocks) slot mf') blocks B T X slot"
proof -
  let ?r = "MCFIx64MBBs p mbb (Gpr B I64) (Gpr T I64) (Gpr X I64) cj ret mf"
  have blk: "blocks = \<lparr> IDCmpMBB = next_mbb mf, ICJMBB = next_mbb mf + 1, InteropCheckMBB = next_mbb mf + 2,
      IDValidityCheckMBB = next_mbb mf + 3, VerCheckMBB = next_mbb mf + 4, ReportMBB = next_mbb mf + 5 \<rparr>"
    using MCFIx64MBBs_blocks [of p mbb "Gpr B I64" "Gpr T I64" "Gpr X I64" cj ret mf] assms(8) by simp
  have "mf' = snd ?r" using assms(8) by simp
  then show ?thesis
    using MCFIx64MBBs_body [of mbb mf p "Gpr B I64" "Gpr T I64" "Gpr X I64" cj ret]
      MCFIx64MBBs_next [of mbb mf p "Gpr B I64" "Gpr T I64" "Gpr X I64" cj ret] assms(1-7)
    by (simp add: check_code_def blk link_function_def link_slot_def BuildMI_def)
qed

lemma test_bit0: "take_bit 8 (w :: u64) AND 1 = 0 \<longleftrightarrow> \<not> bit w 0"
  by (simp add: and_one_eq even_take_bit_eq bit_0 flip: even_iff_mod_2_eq_zero)

lemma take_bit_64 [simp]: "take_bit 64 (w :: u64) = w"
  by (rule bit_word_eqI) (simp add: bit_take_bit_iff)

lemma unat_slot: "slot < 2 ^ 31 \<Longrightarrow> unat (of_nat slot :: u64) = slot"
  by (simp add: unat_of_nat)

lemma steps:
  assumes "check_code code k B T X slot"
  shows "check_step code t (IDCmpMBB k, 0, c) = Some (IDCmpMBB k, 1, c\<lparr> gprs := (gprs c)(B := read64 t slot) \<rparr>)"
    and "check_step code t (IDCmpMBB k, 1, c) = Some (IDCmpMBB k, 2, c\<lparr> gprs := (gprs c)(T := read64 t (unat (gprs c X))) \<rparr>)"
    and "check_step code t (IDCmpMBB k, 2, c) = Some (IDCmpMBB k, 3, c\<lparr> ZF := (gprs c B = gprs c T) \<rparr>)"
    and "check_step code t (IDCmpMBB k, 3, c) = Some (if \<not> ZF c then (InteropCheckMBB k, 0, c) else (IDCmpMBB k, 4, c))"
    and "check_step code t (IDCmpMBB k, 4, c) = Some (ICJMBB k, 0, c)"
    and "check_step code t (InteropCheckMBB k, 0, c) = Some (InteropCheckMBB k, 1, c\<lparr> ZF := (take_bit 8 (gprs c T) = 0xfc) \<rparr>)"
    and "check_step code t (InteropCheckMBB k, 1, c) = Some (if ZF c then (ICJMBB k, 0, c) else (InteropCheckMBB k, 2, c))"
    and "check_step code t (InteropCheckMBB k, 2, c) = Some (IDValidityCheckMBB k, 0, c)"
    and "check_step code t (IDValidityCheckMBB k, 0, c) = Some (IDValidityCheckMBB k, 1, c\<lparr> ZF := (\<not> bit (gprs c T) 0) \<rparr>)"
    and "check_step code t (IDValidityCheckMBB k, 1, c) = Some (if ZF c then (ReportMBB k, 0, c) else (IDValidityCheckMBB k, 2, c))"
    and "check_step code t (IDValidityCheckMBB k, 2, c) = Some (VerCheckMBB k, 0, c)"
    and "check_step code t (VerCheckMBB k, 0, c) =
      Some (VerCheckMBB k, 1, c\<lparr> ZF := (take_bit 32 (gprs c B) = take_bit 32 (gprs c T)) \<rparr>)"
    and "check_step code t (VerCheckMBB k, 1, c) = Some (if \<not> ZF c then (IDCmpMBB k, 0, c) else (VerCheckMBB k, 2, c))"
    and "check_step code t (VerCheckMBB k, 2, c) = Some (ReportMBB k, 0, c)"
  using assms by (auto simp: check_code_def check_step_def exec_instr_def BuildMI_def test_bit0 unat_slot)

section \<open>A check while the tables change\<close>

text \<open>A thread runs the check and another one performs the writes \<open>ops\<close>, in any interleaving; the
  second component counts the writes done. The check ends at the branch or at the report.\<close>

inductive checked :: "mfunction \<Rightarrow> check_blocks \<Rightarrow> op list \<Rightarrow> mem \<Rightarrow> cpu \<Rightarrow> point \<times> nat \<Rightarrow> bool"
  for code k ops t c0 where
  start: "checked code k ops t c0 ((IDCmpMBB k, 0, c0), 0)"
| update: "checked code k ops t c0 (s, j) \<Longrightarrow> j < length ops \<Longrightarrow> checked code k ops t c0 (s, Suc j)"
| thread: "checked code k ops t c0 ((b, i, c), j) \<Longrightarrow> b \<noteq> ICJMBB k \<Longrightarrow> b \<noteq> ReportMBB k \<Longrightarrow>
    check_step code (apply_ops (take j ops) t) (b, i, c) = Some s' \<Longrightarrow> checked code k ops t c0 (s', j)"

text \<open>The registers hold what the check read: first the branch identifier, later the target's.\<close>

definition read_bary :: "op list \<Rightarrow> mem \<Rightarrow> nat \<Rightarrow> gpr \<Rightarrow> cpu \<Rightarrow> nat \<Rightarrow> bool" where
  "read_bary ops t slot B c j \<longleftrightarrow> (\<exists>j1 \<le> j. gprs c B = read64 (apply_ops (take j1 ops) t) slot)"

definition read_both :: "op list \<Rightarrow> mem \<Rightarrow> nat \<Rightarrow> gpr \<Rightarrow> gpr \<Rightarrow> nat \<Rightarrow> cpu \<Rightarrow> nat \<Rightarrow> bool" where
  "read_both ops t slot B T a c j \<longleftrightarrow> (\<exists>j1 j2. j1 \<le> j2 \<and> j2 \<le> j \<and> gprs c B = read64 (apply_ops (take j1 ops) t) slot
     \<and> gprs c T = read64 (apply_ops (take j2 ops) t) a)"

definition check_inv :: "check_blocks \<Rightarrow> op list \<Rightarrow> mem \<Rightarrow> nat \<Rightarrow> gpr \<Rightarrow> gpr \<Rightarrow> gpr \<Rightarrow> u64 \<Rightarrow> point \<times> nat \<Rightarrow> bool" where
  "check_inv k ops t slot B T X a = (\<lambda>((b, i, c), j). gprs c X = a \<and>
     (let bt = read_both ops t slot B T (unat a) c j in
      b = IDCmpMBB k \<and> i = 0
      \<or> b = IDCmpMBB k \<and> i = 1 \<and> read_bary ops t slot B c j
      \<or> b = IDCmpMBB k \<and> i = 2 \<and> bt
      \<or> b = IDCmpMBB k \<and> i = 3 \<and> bt \<and> (ZF c \<longleftrightarrow> gprs c B = gprs c T)
      \<or> b = IDCmpMBB k \<and> i = 4 \<and> bt \<and> gprs c B = gprs c T
      \<or> b = InteropCheckMBB k \<and> i = 0 \<and> bt
      \<or> b = InteropCheckMBB k \<and> i = 1 \<and> bt \<and> (ZF c \<longleftrightarrow> take_bit 8 (gprs c T) = 0xfc)
      \<or> b = InteropCheckMBB k \<and> i = 2 \<and> bt
      \<or> b = IDValidityCheckMBB k \<and> i \<le> 2 \<and> bt
      \<or> b = VerCheckMBB k \<and> i \<le> 2 \<and> bt
      \<or> b = ReportMBB k \<and> i = 0
      \<or> b = ICJMBB k \<and> i = 0 \<and> bt \<and> (gprs c B = gprs c T \<or> take_bit 8 (gprs c T) = 0xfc)))"

lemma read_bary_mono: "read_bary ops t slot B c j \<Longrightarrow> read_bary ops t slot B c (Suc j)"
  unfolding read_bary_def using le_SucI by blast

lemma read_both_mono: "read_both ops t slot B T a c j \<Longrightarrow> read_both ops t slot B T a c (Suc j)"
  unfolding read_both_def using le_SucI by blast

lemma read_both_ZF: "read_both ops t slot B T a (c\<lparr> ZF := z \<rparr>) j \<longleftrightarrow> read_both ops t slot B T a c j"
  by (simp add: read_both_def)

lemma check_inv_step:
  assumes code: "check_code code k B T X slot" and inv: "check_inv k ops t slot B T X a ((b, i, c), j)"
    and b: "b \<noteq> ICJMBB k" "b \<noteq> ReportMBB k"
    and s: "check_step code (apply_ops (take j ops) t) (b, i, c) = Some s'"
  shows "check_inv k ops t slot B T X a (s', j)"
proof -
  have d: "B \<noteq> T" "B \<noteq> X" "T \<noteq> X" using code by (simp_all add: check_code_def)
  note x = steps [OF code, of "apply_ops (take j ops) t" c, unfolded One_nat_def]
  have n: "i \<le> 2 \<longleftrightarrow> i = 0 \<or> i = 1 \<or> i = 2" for i :: nat by auto
  have rb: "read_bary ops t slot B (c\<lparr> gprs := (gprs c)(B := read64 (apply_ops (take j ops) t) slot) \<rparr>) j"
    by (auto simp: read_bary_def)
  have rt: "read_bary ops t slot B c j \<Longrightarrow>
      read_both ops t slot B T m (c\<lparr> gprs := (gprs c)(T := read64 (apply_ops (take j ops) t) m) \<rparr>) j" for m
    using d by (auto simp: read_bary_def read_both_def)
  show ?thesis
    using inv s d b rb rt [of "unat a"] unfolding check_inv_def Let_def split_beta fst_conv snd_conv n
    by (elim conjE disjE) (clarsimp simp: x read_both_ZF split: if_splits)+
qed

lemma check_inv_mono: "check_inv k ops t slot B T X a (s, j) \<Longrightarrow> check_inv k ops t slot B T X a (s, Suc j)"
  unfolding check_inv_def split_beta Let_def fst_conv snd_conv
  by (elim conjE disjE) (simp_all add: read_bary_mono read_both_mono)

lemma checked_inv:
  assumes "check_code code k B T X slot" and "checked code k ops t c0 s" and "gprs c0 X = a"
  shows "check_inv k ops t slot B T X a s"
  using assms(2)
proof induction
  case start
  then show ?case using assms(3) by (simp add: check_inv_def)
next
  case (update s j)
  then show ?case using check_inv_mono by blast
next
  case (thread b i c j s')
  then show ?case using check_inv_step [OF assms(1)] by blast
qed

text \<open>The branch word is read first, then the target word: if the two agree they belong to one
  generation.\<close>

definition known_target :: "codemodule list \<Rightarrow> op list \<Rightarrow> name set \<Rightarrow> (name, u64) dict \<Rightarrow> (name, u64) dict \<Rightarrow> nat \<Rightarrow> bool" where
  "known_target modules ops K callids retids a \<longleftrightarrow>
     (\<exists>m \<in> set modules. a \<in> fst ` set (tary_ops False K callids retids m)) \<or> (\<forall>q \<in> set ops. words_apart (fst q) a)"

lemma two_reads:
  assumes lay: "layout_ok False (keys fic \<union> keys vm) callids retids others modules"
    and run: "update_tables False modules callids retids others (t, fic, vm) = (modules', t', fv)"
    and ver: "ids_version callids retids others v"
    and m: "m \<in> set modules" "cfggened m" "b \<in> set (m_icfsyms m)"
    and q: "known_target modules ops (keys fic \<union> keys vm) callids retids a"
    and old: "id_version (read64 t (unat (s_offset b))) \<noteq> v"
    and j: "j1 \<le> j2" and ops: "ops = update_ops False (keys fic \<union> keys vm) callids retids others modules"
  shows "(read64 (apply_ops (take j1 ops) t) (unat (s_offset b)) = read64 (apply_ops (take j2 ops) t) a \<longrightarrow>
      cfi_allows t (unat (s_offset b)) a \<or> cfi_allows t' (unat (s_offset b)) a) \<and>
    read64 (apply_ops (take j2 ops) t) a \<in> {read64 t a, read64 t' a}"
  using q unfolding known_target_def
proof
  assume "\<exists>m' \<in> set modules. a \<in> fst ` set (tary_ops False (keys fic \<union> keys vm) callids retids m')"
  then obtain m' f where m': "m' \<in> set modules" "(a, f) \<in> set (tary_ops False (keys fic \<union> keys vm) callids retids m')" by force
  obtain i j where ij: "i < j" and w: "\<And>n. read64 (apply_ops (take n ops) t) a = read64 (if i < n then t' else t) a"
      "\<And>n. read64 (apply_ops (take n ops) t) (unat (s_offset b)) = read64 (if j < n then t' else t) (unat (s_offset b))"
    using update_words_prefix [OF lay run m m'] unfolding ops Let_def by blast
  have "j < j1 \<Longrightarrow> i < j2" using ij j by simp
  then show ?thesis
    using update_target_version [OF lay run ver m(1,3) m'] old w by (auto simp: cfi_allows_def split: if_splits)
next
  assume apart: "\<forall>q \<in> set ops. words_apart (fst q) a"
  have sorted: "sorted_wrt (\<lambda>p q. words_apart (fst p) (fst q)) ops" using lay by (simp add: layout_ok_def ops)
  have t': "t' = apply_ops ops t" using update_tables_ops [of modules callids retids others t fic vm] lay run
    by (auto simp: layout_ok_def apply_ops_exec ops)
  have a: "read64 (apply_ops (take n ops) t) a = read64 t a" for n
    using apart unfolding apply_ops_exec by (intro tbl.rd_exec_all_apart) (auto dest: in_set_takeD)
  have "(unat (s_offset b), \<lambda>_. bary_id callids retids others b) \<in> set ops"
    using m bary_op_in_update unfolding ops by (force simp: bary_ops_def)
  then obtain i where i: "i < length ops" "ops ! i = (unat (s_offset b), \<lambda>_. bary_id callids retids others b)"
    by (metis in_set_conv_nth)
  have "read64 (apply_ops (take n ops) t) (unat (s_offset b)) = read64 (if i < n then t' else t) (unat (s_offset b))" for n
    using tbl.rd_exec_prefix [OF sorted i(1), of n t] i(2) update_bary_word [OF lay run m(1,3)] by (simp add: apply_ops_exec)
  then show ?thesis using a a [of "length ops"] by (auto simp: cfi_allows_def t')
qed

lemma inserted_check_atomic':
  assumes emit: "MCFIx64MBBs p mbb (Gpr B I64) (Gpr T I64) (Gpr X I64) cj ret mf = (k, mf')"
    and pass: "\<not> SmallID p" "mbb \<in> set (layout mf)" "\<forall>x \<in> set (layout mf). x < next_mbb mf"
    and regs: "B \<noteq> T" "B \<noteq> X" "T \<noteq> X" and slot: "slot < 2 ^ 31"
    and code: "code = link_function (IDCmpMBB k) slot mf'"
    and reach: "checked code k ops t c0 ((ICJMBB k, 0, c), j)"
  shows "gprs c X = gprs c0 X \<and> (gprs c B = gprs c T \<or> take_bit 8 (gprs c T) = NPV) \<and>
    (\<exists>j1 j2. j1 \<le> j2 \<and> j2 \<le> j \<and> gprs c B = read64 (apply_ops (take j1 ops) t) slot
      \<and> gprs c T = read64 (apply_ops (take j2 ops) t) (unat (gprs c0 X)))"
proof -
  have cc: "check_code code k B T X slot" unfolding code by (rule MCFIx64MBBs_check_code) (use emit pass regs slot in auto)
  then have d: "distinct [IDCmpMBB k, ICJMBB k, InteropCheckMBB k, IDValidityCheckMBB k, VerCheckMBB k, ReportMBB k]"
    by (simp add: check_code_def)
  show ?thesis
    using checked_inv [OF cc reach refl] d unfolding check_inv_def Let_def split_beta fst_conv snd_conv read_both_def NPV_def
    by auto
qed

section \<open>A concrete check\<close>

definition ex_mcfi :: mcfi where
  "ex_mcfi = \<lparr> cur_module = Some 0, SmallSandbox = False, SmallID = False, ModuleID = 0x1000, BarySlot = 3, GlobalCtors = [], GlobalDtors = [], Returns = [], IndirectTailCalls = [],
     DirectTailCalls = [], IndirectCalls = [], md_FuncInfo = [], md_IndirectCalls = [], md_AddrTaken = [] \<rparr>"

definition ex_function :: mfunction where
  "ex_function = \<lparr> mf_name = ''f'', mf_attrs = [], mf_type = \<lparr> ret_type = ''void'', param_types = [], is_vararg = False \<rparr>,
     layout = [0], body = (\<lambda>_. \<lparr> instrs = [], succs = [], live_ins = [] \<rparr>), next_mbb = 1 \<rparr>"

text \<open>A thread that runs without interruption after \<open>j\<close> writes and reads equal words arrives at the branch.\<close>

lemma checked_admits:
  assumes code: "check_code code k B T X slot" and at: "checked code k ops t c0 ((IDCmpMBB k, 0, c), j)"
    and eq: "read64 (apply_ops (take j ops) t) slot = read64 (apply_ops (take j ops) t) (unat (gprs c X))"
  shows "\<exists>c'. checked code k ops t c0 ((ICJMBB k, 0, c'), j)"
proof -
  have d: "B \<noteq> T" "B \<noteq> X" "T \<noteq> X" "IDCmpMBB k \<noteq> ICJMBB k" "IDCmpMBB k \<noteq> ReportMBB k"
    using code by (auto simp: check_code_def)
  note x = steps [OF code, of "apply_ops (take j ops) t"]
  note 1 = checked.thread [OF at d(4,5) x(1)]
  note 2 = checked.thread [OF 1 d(4,5) x(2)]
  note 3 = checked.thread [OF 2 d(4,5) x(3)]
  have 4: "\<exists>c'. checked code k ops t c0 ((IDCmpMBB k, 4, c'), j)"
    using checked.thread [OF 3 d(4,5) x(4)] d eq by (auto split: if_splits)
  then show ?thesis using checked.thread [OF _ d(4,5) x(5)] by blast
qed

text \<open>C2. A check that runs while the tables are updated. Take the blocks that the pass inserts for a branch, linked to the slot of
  the branch, and any interleaving of their instructions with the writes of a table update. When the branch itself is
  reached, the target register still holds the target that was checked, and the target is admitted by the
  graph before the update or by the graph after it, or it is marked as code that is not
  instrumented.\<close>

theorem inserted_check_atomic:
  assumes emit: "MCFIx64MBBs p mbb (Gpr B I64) (Gpr T I64) (Gpr X I64) cj ret mf = (k, mf')"
    and pass: "\<not> SmallID p" "mbb \<in> set (layout mf)" "\<forall>x \<in> set (layout mf). x < next_mbb mf"
    and regs: "B \<noteq> T" "B \<noteq> X" "T \<noteq> X"
    and lay: "layout_ok False (keys fic \<union> keys vm) callids retids others modules"
    and run: "update_tables False modules callids retids others (t, fic, vm) = (modules', t', fv)"
    and ver: "ids_version callids retids others v"
    and m: "m \<in> set modules" "cfggened m" "b \<in> set (m_icfsyms m)"
    and ops: "ops = update_ops False (keys fic \<union> keys vm) callids retids others modules"
    and q: "known_target modules ops (keys fic \<union> keys vm) callids retids (unat (gprs c0 X))"
    and slot: "slot = unat (s_offset b)" "slot < 2 ^ 31" and old: "id_version (read64 t slot) \<noteq> v"
    and code: "code = link_function (IDCmpMBB k) slot mf'"
    and reach: "checked code k ops t c0 ((ICJMBB k, 0, c), j)"
  shows "gprs c X = gprs c0 X \<and>
    (cfi_allows t slot (unat (gprs c X)) \<or> cfi_allows t' slot (unat (gprs c X)) \<or>
     (\<exists>w \<in> {read64 t (unat (gprs c X)), read64 t' (unat (gprs c X))}. take_bit 8 w = NPV))"
proof -
  obtain j1 j2 where j: "j1 \<le> j2" "gprs c B = read64 (apply_ops (take j1 ops) t) slot"
      "gprs c T = read64 (apply_ops (take j2 ops) t) (unat (gprs c0 X))" and x: "gprs c X = gprs c0 X"
    and eq: "gprs c B = gprs c T \<or> take_bit 8 (gprs c T) = NPV"
    using inserted_check_atomic' [OF emit pass regs slot(2) code reach] by blast
  note two = two_reads [OF lay run ver m q old [unfolded slot(1)] j(1) ops, folded slot(1), folded j(2,3)]
  show ?thesis using eq two unfolding x by blast
qed

theorem inserted_check_atomic_witness:
  "\<exists>k mf' modules' t' fv c j.
     MCFIx64MBBs ex_mcfi 0 (Gpr RDI I64) (Gpr RSI I64) (Gpr RCX I64) JMP64r True ex_function = (k, mf') \<and>
     update_tables False [ex_module] ex_callids [] 0x200000003 (\<lambda>_. 1, [], []) = (modules', t', fv) \<and>
     checked (link_function (IDCmpMBB k) 0x11000 mf') k
       (update_ops False {} ex_callids [] 0x200000003 [ex_module]) (\<lambda>_. 1)
       \<lparr> gprs = (\<lambda>_. 0x20008), ZF = False \<rparr> ((ICJMBB k, 0, c), j) \<and> gprs c RCX = 0x20008"
proof -
  obtain k mf' where emit: "MCFIx64MBBs ex_mcfi 0 (Gpr RDI I64) (Gpr RSI I64) (Gpr RCX I64) JMP64r True ex_function = (k, mf')"
    by fastforce
  obtain modules' t' fv where
    run: "update_tables False [ex_module] ex_callids [] 0x200000003 (\<lambda>_. 1, [], []) = (modules', t', fv)"
    by (metis prod_cases3)
  have pass: "\<not> SmallID ex_mcfi" "0 \<in> set (layout ex_function)" "\<forall>x \<in> set (layout ex_function). x < next_mbb ex_function"
    by (simp_all add: ex_mcfi_def ex_function_def)
  let ?ops = "update_ops False {} ex_callids [] 0x200000003 [ex_module]"
  let ?t = "\<lambda>_. 1" and ?c0 = "\<lparr> gprs = (\<lambda>_. 0x20008), ZF = False \<rparr>"
  have ops: "?ops = [(0x20008, \<lambda>w. 0x200000003), (0x11000, \<lambda>_. 0x200000003)]"
    by (simp add: update_ops_def tary_ops_def func_ops_def ret_ops_def bary_ops_def ex_module_def alloc_code_module_def
        ex_callids_def map_filter_simps dict_find_def mark_func_def mark_icj_def tary_addr_def bary_id_def)
  then have lay: "layout_ok False (keys [] \<union> keys []) ex_callids [] 0x200000003 [ex_module]"
    by (simp add: layout_ok_def words_apart_def) (simp add: ex_module_def)
  have ops0: "?ops = update_ops False (keys [] \<union> keys []) ex_callids [] 0x200000003 [ex_module]" by simp
  have ver: "ids_version ex_callids [] 0x200000003 3"
    by (auto simp: ids_version_def id_version_def ex_callids_def dict_find_def split: if_splits)
  have m: "ex_module \<in> set [ex_module]" "cfggened ex_module"
    "\<lparr> s_name = 0x4000, s_offset = 0x11000 \<rparr> \<in> set (m_icfsyms ex_module)" by (simp_all add: ex_module_def)
  have "unat (gprs ?c0 RCX) \<in> fst ` set (tary_ops False (keys [] \<union> keys []) ex_callids [] ex_module)"
    by (simp add: tary_ops_def func_ops_def ret_ops_def ex_module_def alloc_code_module_def
        ex_callids_def map_filter_simps dict_find_def mark_func_def tary_addr_def)
  then have q: "known_target [ex_module] ?ops (keys [] \<union> keys []) ex_callids [] (unat (gprs ?c0 RCX))"
    unfolding known_target_def by (intro disjI1 bexI [of _ ex_module]) auto
  define code where "code = link_function (IDCmpMBB k) 0x11000 mf'"
  have cc: "check_code code k RDI RSI RCX 0x11000" unfolding code_def
    by (rule MCFIx64MBBs_check_code [OF pass(2,3,1) _ _ _ _ emit]) simp_all
  note start = checked.start [of code k ?ops ?t ?c0]
  have "checked code k ?ops ?t ?c0 ((IDCmpMBB k, 0, ?c0), Suc (Suc 0))"
    using checked.update [OF checked.update [OF start]] unfolding ops by simp
  moreover have "apply_ops (take (Suc (Suc 0)) ?ops) ?t = write64 (write64 ?t 0x20008 0x200000003) 0x11000 0x200000003"
    unfolding ops by (simp add: apply_ops_def)
  ultimately obtain c where at: "checked code k ?ops ?t ?c0 ((ICJMBB k, 0, c), Suc (Suc 0))"
    using checked_admits [OF cc, of ?ops ?t ?c0 ?c0 "Suc (Suc 0)"] by (force simp: read64_write64_other)
  have "read64 ?t a = 0x0101010101010101" for a by (simp add: read64_def eval_nat_numeral)
  then have old: "id_version (read64 ?t 0x11000) \<noteq> 3" by (simp add: id_version_def)
  have "gprs c RCX = 0x20008"
    using inserted_check_atomic [OF emit pass _ _ _ lay run ver m ops0 q _ _ old code_def at] by simp
  then show ?thesis using emit run at unfolding code_def by blast
qed

section \<open>A check while the tables rest\<close>

fun run_check :: "mfunction \<Rightarrow> mem \<Rightarrow> nat \<Rightarrow> point \<Rightarrow> point option" where
  "run_check code t 0 s = Some s"
| "run_check code t (Suc n) s = Option.bind (check_step code t s) (run_check code t n)"

lemma run_check_numeral [simp]:
  "run_check code t (numeral v) s = Option.bind (check_step code t s) (run_check code t (pred_numeral v))"
  by (simp add: numeral_eq_Suc)

lemma check_decides:
  assumes "check_code code k B T X slot" and "i = read64 t slot" and "w = read64 t (unat (gprs c X))"
  defines "c1 \<equiv> c\<lparr> gprs := (gprs c)(B := i, T := w) \<rparr>"
  shows "i = w \<Longrightarrow> run_check code t 5 (IDCmpMBB k, 0, c) = Some (ICJMBB k, 0, c1\<lparr> ZF := True \<rparr>)"
    and "i \<noteq> w \<Longrightarrow> take_bit 8 w = NPV \<Longrightarrow> run_check code t 6 (IDCmpMBB k, 0, c) = Some (ICJMBB k, 0, c1\<lparr> ZF := True \<rparr>)"
    and "i \<noteq> w \<Longrightarrow> take_bit 8 w \<noteq> NPV \<Longrightarrow> \<not> bit w 0 \<Longrightarrow>
      run_check code t 9 (IDCmpMBB k, 0, c) = Some (ReportMBB k, 0, c1\<lparr> ZF := True \<rparr>)"
    and "i \<noteq> w \<Longrightarrow> take_bit 8 w \<noteq> NPV \<Longrightarrow> bit w 0 \<Longrightarrow> take_bit 32 i = take_bit 32 w \<Longrightarrow>
      run_check code t 13 (IDCmpMBB k, 0, c) = Some (ReportMBB k, 0, c1\<lparr> ZF := True \<rparr>)"
    and "i \<noteq> w \<Longrightarrow> take_bit 8 w \<noteq> NPV \<Longrightarrow> bit w 0 \<Longrightarrow> take_bit 32 i \<noteq> take_bit 32 w \<Longrightarrow>
      run_check code t 12 (IDCmpMBB k, 0, c) = Some (IDCmpMBB k, 0, c1\<lparr> ZF := False \<rparr>)"
proof -
  have d: "B \<noteq> T" "B \<noteq> X" "T \<noteq> X" using assms(1) by (simp_all add: check_code_def)
  note x = steps [OF assms(1), of t, unfolded One_nat_def]
  note r = x d d [symmetric] assms(2,3) NPV_def c1_def
  show "i = w \<Longrightarrow> run_check code t 5 (IDCmpMBB k, 0, c) = Some (ICJMBB k, 0, c1\<lparr> ZF := True \<rparr>)"
    using d by (simp add: r)
  show "i \<noteq> w \<Longrightarrow> take_bit 8 w = NPV \<Longrightarrow> run_check code t 6 (IDCmpMBB k, 0, c) = Some (ICJMBB k, 0, c1\<lparr> ZF := True \<rparr>)"
    using d by (simp add: r)
  show "i \<noteq> w \<Longrightarrow> take_bit 8 w \<noteq> NPV \<Longrightarrow> \<not> bit w 0 \<Longrightarrow>
      run_check code t 9 (IDCmpMBB k, 0, c) = Some (ReportMBB k, 0, c1\<lparr> ZF := True \<rparr>)" using d by (simp add: r)
  show "i \<noteq> w \<Longrightarrow> take_bit 8 w \<noteq> NPV \<Longrightarrow> bit w 0 \<Longrightarrow> take_bit 32 i = take_bit 32 w \<Longrightarrow>
      run_check code t 13 (IDCmpMBB k, 0, c) = Some (ReportMBB k, 0, c1\<lparr> ZF := True \<rparr>)" using d by (simp add: r)
  show "i \<noteq> w \<Longrightarrow> take_bit 8 w \<noteq> NPV \<Longrightarrow> bit w 0 \<Longrightarrow> take_bit 32 i \<noteq> take_bit 32 w \<Longrightarrow>
      run_check code t 12 (IDCmpMBB k, 0, c) = Some (IDCmpMBB k, 0, c1\<lparr> ZF := False \<rparr>)" using d by (simp add: r)
qed

text \<open>C11. A check that runs while the tables rest ends within thirteen instructions: at the branch when the identifiers agree or the
  target is not instrumented, at the report when the target is no identifier or one of the same version, and at its
  own beginning, to read again, when the versions differ. The target register is unchanged.\<close>

theorem inserted_check_decides:
  assumes emit: "MCFIx64MBBs p mbb (Gpr B I64) (Gpr T I64) (Gpr X I64) cj ret mf = (k, mf')"
    and pass: "\<not> SmallID p" "mbb \<in> set (layout mf)" "\<forall>x \<in> set (layout mf). x < next_mbb mf"
    and regs: "B \<noteq> T" "B \<noteq> X" "T \<noteq> X" and slot: "slot < 2 ^ 31"
    and code: "code = link_function (IDCmpMBB k) slot mf'"
    and i: "i = read64 t slot" and w: "w = read64 t (unat (gprs c X))"
  shows "\<exists>n \<le> 13. \<exists>c'. gprs c' X = gprs c X \<and> run_check code t n (IDCmpMBB k, 0, c) =
    Some (if i = w \<or> take_bit 8 w = NPV then ICJMBB k
          else if \<not> bit w 0 \<or> take_bit 32 i = take_bit 32 w then ReportMBB k else IDCmpMBB k, 0, c')"
proof -
  have cc: "check_code code k B T X slot" unfolding code by (rule MCFIx64MBBs_check_code) (use emit pass regs slot in auto)
  define c1 where "c1 = c\<lparr> gprs := (gprs c)(B := i, T := w) \<rparr>"
  have x: "gprs (c1\<lparr> ZF := z \<rparr>) X = gprs c X" for z using regs by (simp add: c1_def)
  note d = check_decides [OF cc i w, folded c1_def]
  consider "i = w" | "i \<noteq> w" "take_bit 8 w = NPV" | "i \<noteq> w" "take_bit 8 w \<noteq> NPV" "\<not> bit w 0"
    | "i \<noteq> w" "take_bit 8 w \<noteq> NPV" "bit w 0" "take_bit 32 i = take_bit 32 w"
    | "i \<noteq> w" "take_bit 8 w \<noteq> NPV" "bit w 0" "take_bit 32 i \<noteq> take_bit 32 w" by blast
  then show ?thesis
  proof cases
    case 1 then show ?thesis using d(1) x by (intro exI [of _ 5]) auto
  next
    case 2 then show ?thesis using d(2) x by (intro exI [of _ 6]) auto
  next
    case 3 then show ?thesis using d(3) x by (intro exI [of _ 9]) auto
  next
    case 4 then show ?thesis using d(4) x by (intro exI [of _ 13]) auto
  next
    case 5 then show ?thesis using d(5) x by (intro exI [of _ 12]) auto
  qed
qed

theorem inserted_check_decides_witness:
  "\<exists>k mf' n c'. MCFIx64MBBs ex_mcfi 0 (Gpr RDI I64) (Gpr RSI I64) (Gpr RCX I64) JMP64r True ex_function = (k, mf') \<and> n \<le> 13 \<and>
     run_check (link_function (IDCmpMBB k) 0x11000 mf') (write64 (\<lambda>_. 0) 0x11000 5) n
       (IDCmpMBB k, 0, \<lparr> gprs = (\<lambda>_. 0x20008), ZF = False \<rparr>) = Some (ReportMBB k, 0, c')"
proof -
  obtain k mf' where emit: "MCFIx64MBBs ex_mcfi 0 (Gpr RDI I64) (Gpr RSI I64) (Gpr RCX I64) JMP64r True ex_function = (k, mf')"
    by fastforce
  have pass: "\<not> SmallID ex_mcfi" "0 \<in> set (layout ex_function)" "\<forall>x \<in> set (layout ex_function). x < next_mbb ex_function"
    by (simp_all add: ex_mcfi_def ex_function_def)
  let ?t = "write64 (\<lambda>_. 0) 0x11000 5" and ?c = "\<lparr> gprs = (\<lambda>_. 0x20008), ZF = False \<rparr>"
  have zero: "read64 (\<lambda>_. 0) a = 0" for a by (simp add: read64_def eval_nat_numeral)
  have t: "read64 ?t 0x11000 = 5" "read64 ?t (unat (gprs ?c RCX)) = 0"
    using zero by (simp_all add: read64_write64_other)
  have c: "(if (5 :: u64) = 0 \<or> take_bit 8 0 = NPV then ICJMBB k
      else if \<not> bit (0 :: u64) 0 \<or> take_bit 32 (5 :: u64) = take_bit 32 0 then ReportMBB k else IDCmpMBB k) = ReportMBB k"
    by (simp add: NPV_def)
  obtain n c' where "n \<le> 13"
      "run_check (link_function (IDCmpMBB k) 0x11000 mf') ?t n (IDCmpMBB k, 0, ?c) = Some (ReportMBB k, 0, c')"
    using inserted_check_decides [OF emit pass _ _ _ _ refl t(1) [symmetric] t(2) [symmetric], unfolded c] by fastforce
  then show ?thesis using emit by blast
qed

end
