(* ===== verification/Mcfi_Text_Correct.thy ===== *)
theory Mcfi_Text_Correct
  imports Mcfi_Text
begin

text \<open>
  The compiler and the code generator of the runtime agree on the metadata: what \<open>MCFIFuncInfo\<close> writes for a function and
  \<open>EmitMCFIInfo\<close> puts into the section is what \<open>parse_functions\<close> reads, for plain functions, methods,
  constructors and destructors. It also holds what the text helpers of the compiler do at their limits.
\<close>

section \<open>What the lines say\<close>

text \<open>The kind of a function: a plain one with the class and name of a method and a type, a destructor of a class,
  or a constructor, which has a class only when it is not inlined.\<close>

datatype func_kind = Plain "(string \<times> string) option" string | Destructor string | Constructor "string option"

record function_text =
  ft_name :: string
  ft_kind :: func_kind
  ft_returns :: "string list"
  ft_dtails :: "string list"
  ft_itails :: "string list"

fun kind_text :: "func_kind \<Rightarrow> string" where
  "kind_text (Plain m y) = (case m of None \<Rightarrow> [] | Some (c, n) \<Rightarrow> ''N '' @ c @ ''#'' @ n @ [nl]) @ ''Y '' @ y @ [nl]"
| "kind_text (Destructor c) = ''D '' @ c @ [nl]"
| "kind_text (Constructor None) = []"
| "kind_text (Constructor (Some c)) = ''C '' @ c @ [nl]"

definition unparse_function :: "function_text \<Rightarrow> string" where
  "unparse_function ft =
     ''{ '' @ ft_name ft @ [nl] @ kind_text (ft_kind ft) @ add_list (CHR ''R'') (ft_returns ft) @
     add_list (CHR ''T'') (ft_dtails ft) @ add_list (CHR ''I'') (ft_itails ft) @ ''}''"

text \<open>The class and the name of a method stand on both sides of the first \<open>#\<close>.\<close>

definition hash_split :: "string \<Rightarrow> string \<times> string" where
  "hash_split w = (takeWhile (\<lambda>c. c \<noteq> CHR ''#'') w, tl (dropWhile (\<lambda>c. c \<noteq> CHR ''#'') w))"

definition compiled_kind :: "(string \<Rightarrow> string option) \<Rightarrow> string list \<Rightarrow> string \<Rightarrow> fn_attr list \<Rightarrow> fn_type \<Rightarrow> func_kind option" where
  "compiled_kind demangle dtors nm attrs ty =
     (let d = CXXDemangledName demangle nm in
      if CXXCtor \<in> set attrs then
        (if NoInline \<notin> set attrs then Some (Constructor None)
         else if d = [] then None
         else map_option (\<lambda>w. Constructor (Some (case find_last_of w (CHR ''#'') of None \<Rightarrow> w | Some k \<Rightarrow> take k w))) (splitMethodName d))
      else if CXXInstanceMethod \<in> set attrs \<and> d \<noteq> [] then
        (case find_last_of d (CHR ''~'') of
           Some k \<Rightarrow> Some (Destructor (if k < 2 then d else take (k - 2) d))
         | None \<Rightarrow> do { w \<leftarrow> splitMethodName d; y \<leftarrow> type_line dtors nm attrs ty; Some (Plain (Some (hash_split w)) y) })
      else map_option (Plain None) (type_line dtors nm attrs ty))"

lemma hash_split: "CHR ''#'' \<in> set w \<Longrightarrow> hash_split w = (c, n) \<Longrightarrow> w = c @ ''#'' @ n \<and> CHR ''#'' \<notin> set c"
proof (induction w arbitrary: c)
  case (Cons x w)
  then show ?case by (cases "x = CHR ''#''") (auto simp: hash_split_def)
qed simp

lemma splitMethodName_hash: "splitMethodName w = Some v \<Longrightarrow> CHR ''#'' \<in> set v"
  by (auto simp: splitMethodName_def Let_def bind_eq_Some_conv)

lemma kind_lines_compiled: "kind_lines demangle dtors nm attrs ty = map_option kind_text (compiled_kind demangle dtors nm attrs ty)"
  by (cases "splitMethodName (CXXDemangledName demangle nm)"; cases "type_line dtors nm attrs ty")
     (auto simp: kind_lines_def compiled_kind_def Let_def CHECK_def split: option.splits prod.splits
       dest: hash_split [OF splitMethodName_hash])

text \<open>A function as the compiler has it.\<close>

record source_function =
  s_name :: string
  s_attrs :: "fn_attr list"
  s_type :: fn_type
  s_returns :: "string list"
  s_dtails :: "string list"
  s_itails :: "string list"

definition func_info :: "(string \<Rightarrow> string option) \<Rightarrow> string list \<Rightarrow> source_function \<Rightarrow> string option" where
  "func_info demangle dtors x =
     MCFIFuncInfo demangle dtors (s_name x) (s_attrs x) (s_type x) (s_returns x) (s_dtails x) (s_itails x)"

definition compiled :: "(string \<Rightarrow> string option) \<Rightarrow> string list \<Rightarrow> source_function \<Rightarrow> function_text option" where
  "compiled demangle dtors x =
     map_option (\<lambda>k. \<lparr> ft_name = s_name x, ft_kind = k, ft_returns = s_returns x, ft_dtails = s_dtails x, ft_itails = s_itails x \<rparr>)
       (compiled_kind demangle dtors (s_name x) (s_attrs x) (s_type x))"

lemma func_info_compiled: "func_info demangle dtors x = map_option unparse_function (compiled demangle dtors x)"
  by (simp add: func_info_def compiled_def MCFIFuncInfo_def kind_lines_compiled unparse_function_def
      option.map_comp comp_def)

lemma add_list_sep: "ws \<noteq> [] \<Longrightarrow> add_list k ws = k # CHR '' '' # sep (CHR '' '') ws @ [nl]"
  by (induction ws rule: induct_list012) (auto simp: add_list_def)

section \<open>The pool while a section is parsed\<close>

text \<open>Every string that is interned takes at least a character of the section.\<close>

definition pool_grows :: "(nat \<Rightarrow> name) \<Rightarrow> pool \<Rightarrow> pool \<Rightarrow> nat \<Rightarrow> bool" where
  "pool_grows alloc sp sp' n \<longleftrightarrow> (pool_wf alloc sp \<longrightarrow> pool_wf alloc sp') \<and> length sp' \<le> length sp + n"

lemma pool_grows_trans:
  "pool_grows alloc sp sp1 m \<Longrightarrow> pool_grows alloc sp1 sp2 n \<Longrightarrow> m + n \<le> k \<Longrightarrow> pool_grows alloc sp sp2 k"
  by (auto simp: pool_grows_def)

lemma pool_grows_refl [simp]: "pool_grows alloc sp sp n"
  by (simp add: pool_grows_def)

lemma pool_grows_intern: "0 < n \<Longrightarrow> pool_grows alloc sp (snd (sp_intern_string alloc sp s)) n"
  using intern_length [of alloc sp s] by (simp add: pool_grows_def intern_wf)

lemma get_interned_grows:
  assumes "get_interned alloc sp cursor s = Some (h, stop, rest, sp')"
  shows "pool_grows alloc sp sp' (length cursor - length rest)" and "length rest < length cursor"
proof -
  show less: "length rest < length cursor" using get_interned_shorter [OF assms] .
  obtain str where "sp' = snd (sp_intern_string alloc sp str)"
    using assms by (auto simp: get_interned_def split: option.splits prod.splits) (metis snd_conv)
  then show "pool_grows alloc sp sp' (length cursor - length rest)" using less by (simp add: pool_grows_intern)
qed

lemma add_node_list_grows:
  "add_node_list alloc cursor s nodes sp = Some (ns, sp') \<Longrightarrow> pool_grows alloc sp sp' (length cursor)"
proof (induction alloc cursor s nodes sp arbitrary: ns sp' rule: add_node_list.induct)
  case (1 alloc cursor s nodes sp)
  from "1.prems" obtain h stop rest sp1 where g: "get_interned alloc sp cursor s = Some (h, stop, rest, sp1)"
    by (subst (asm) add_node_list.simps) (auto split: option.splits)
  note gr = get_interned_grows [OF g]
  show ?case
  proof (cases stop)
    case True
    then have "sp' = sp1" using "1.prems" g by (subst (asm) add_node_list.simps) auto
    then show ?thesis using gr by (auto simp: pool_grows_def)
  next
    case False
    then have "add_node_list alloc rest s (nodes @ [h]) sp1 = Some (ns, sp')"
      using "1.prems" g by (subst (asm) add_node_list.simps) auto
    from "1.IH" [OF g refl refl refl False this] gr show ?thesis by (auto intro: pool_grows_trans)
  qed
qed

lemma parse_nodes_grows:
  assumes "parse_nodes alloc cursor nodes sp = Some (ns, stop, rest, sp')"
  shows "pool_grows alloc sp sp' (length cursor - length rest)" and "length rest < length cursor"
proof -
  show less: "length rest < length cursor" using parse_nodes_shorter [OF assms] .
  obtain w where w: "get_string_before_symbol cursor nl = Some (w, stop, rest)"
      "add_node_list alloc (w @ [NUL]) (CHR '' '') nodes sp = Some (ns, sp')"
    using assms by (auto simp: parse_nodes_def bind_eq_Some_conv)
  have "length w + length rest < length cursor" using get_string_shorter [OF w(1)] .
  then show "pool_grows alloc sp sp' (length cursor - length rest)"
    using add_node_list_grows [OF w(2)] by (auto simp: pool_grows_def)
qed

lemma cut_grows:
  "get_interned alloc sp cursor s = Some (h, stop, rest, sp') \<Longrightarrow>
     pool_grows alloc sp sp' (length cursor - length rest) \<and> length rest < length cursor"
  "parse_nodes alloc cursor nodes sp = Some (ns, stop, rest, sp') \<Longrightarrow>
     pool_grows alloc sp sp' (length cursor - length rest) \<and> length rest < length cursor"
  by (simp_all add: get_interned_grows parse_nodes_grows)

lemma parse_function_line_grows:
  assumes "parse_function_line alloc cursor (fo, fs, ctor, sp) = Some (stop, rest, fo', fs', ctor', sp')"
  shows "pool_grows alloc sp sp' (length cursor - length rest)"
  using assms
  by (auto simp: parse_function_line_def bind_eq_Some_conv Let_def split_beta pool_grows_def intern_wf le_trans [OF intern_length]
      split: list.splits if_splits option.splits dest!: cut_grows)

lemma parse_functions_loop_grows:
  "parse_functions_loop alloc cursor stop (fo, fs, ctor, sp) = Some (fo', fs', ctor', sp') \<Longrightarrow>
     pool_grows alloc sp sp' (length cursor)"
proof (induction alloc cursor stop "(fo, fs, ctor, sp)" arbitrary: fo fs ctor sp rule: parse_functions_loop.induct)
  case (1 alloc cursor stop)
  show ?case
  proof (cases "stop \<and> cursor = []")
    case True
    then show ?thesis using "1.prems" by (subst (asm) parse_functions_loop.simps) auto
  next
    case False
    then obtain stop1 rest fo1 fs1 ctor1 sp1 where
      g: "parse_function_line alloc cursor (fo, fs, ctor, sp) = Some (stop1, rest, fo1, fs1, ctor1, sp1)"
      and l: "parse_functions_loop alloc rest stop1 (fo1, fs1, ctor1, sp1) = Some (fo', fs', ctor', sp')"
      using "1.prems" by (subst (asm) parse_functions_loop.simps) (auto split: option.splits)
    from "1.hyps" [OF False g refl refl l] parse_function_line_grows [OF g] parse_function_line_shorter [OF g]
    show ?thesis by (auto intro: pool_grows_trans)
  qed
qed

section \<open>A function read back\<close>

text \<open>A parsed function stands for a description when its pointers are those of the strings. A destructor has the
  method name \<open>~\<close>; constructors and destructors have no type.\<close>

abbreviation stands_for :: "pool \<Rightarrow> string list \<Rightarrow> name list \<Rightarrow> bool" where
  "stands_for sp \<equiv> list_all2 (\<lambda>w h. dict_find sp w = Some h)"

fun kind_denotes :: "pool \<Rightarrow> func_kind \<Rightarrow> func \<Rightarrow> bool" where
  "kind_denotes sp (Plain None y) f \<longleftrightarrow> f_class_name f = 0 \<and> f_method_name f = 0 \<and> dict_find sp y = Some (f_type f)"
| "kind_denotes sp (Plain (Some (c, m)) y) f \<longleftrightarrow>
     dict_find sp c = Some (f_class_name f) \<and> dict_find sp m = Some (f_method_name f) \<and> dict_find sp y = Some (f_type f)"
| "kind_denotes sp (Destructor c) f \<longleftrightarrow>
     dict_find sp c = Some (f_class_name f) \<and> dict_find sp ''~'' = Some (f_method_name f) \<and> f_type f = 0"
| "kind_denotes sp (Constructor c) f \<longleftrightarrow> f_class_name f = 0 \<and> f_method_name f = 0 \<and> f_type f = 0"

definition denotes :: "pool \<Rightarrow> function_text \<Rightarrow> func \<Rightarrow> bool" where
  "denotes sp ft f \<longleftrightarrow>
     dict_find sp (ft_name ft) = Some (f_name f) \<and> kind_denotes sp (ft_kind ft) f \<and>
     stands_for sp (ft_returns ft) (f_returns f) \<and> stands_for sp (ft_dtails ft) (f_dtails f) \<and>
     stands_for sp (ft_itails ft) (f_itails f)"

fun kind_lines_ok :: "func_kind \<Rightarrow> bool" where
  "kind_lines_ok (Plain None y) \<longleftrightarrow> one_line y"
| "kind_lines_ok (Plain (Some (c, m)) y) \<longleftrightarrow> CHR ''#'' \<notin> set c \<and> NUL \<notin> set c \<and> one_line m \<and> one_line y"
| "kind_lines_ok (Destructor c) \<longleftrightarrow> one_line c"
| "kind_lines_ok (Constructor None) \<longleftrightarrow> True"
| "kind_lines_ok (Constructor (Some c)) \<longleftrightarrow> one_line c"

definition text_ok :: "function_text \<Rightarrow> bool" where
  "text_ok ft \<longleftrightarrow> one_line (ft_name ft) \<and> kind_lines_ok (ft_kind ft) \<and>
     (\<forall>w \<in> set (ft_returns ft) \<union> set (ft_dtails ft) \<union> set (ft_itails ft). plain w)"

lemma kind_denotes_le: "pool_le sp sp' \<Longrightarrow> kind_denotes sp k f \<Longrightarrow> kind_denotes sp' k f"
  by (cases "(sp, k, f)" rule: kind_denotes.cases) (auto simp: pool_le_find)

lemma denotes_le: "pool_le sp sp' \<Longrightarrow> denotes sp ft f \<Longrightarrow> denotes sp' ft f"
  by (auto simp: denotes_def pool_le_find list_all2_le kind_denotes_le)

text \<open>The dictionary of the constructors: the first class that is written for a name counts.\<close>

definition ctor_of :: "function_text \<Rightarrow> (string \<times> string) list" where
  "ctor_of ft = (case ft_kind ft of Constructor (Some c) \<Rightarrow> [(ft_name ft, c)] | _ \<Rightarrow> [])"

definition ctors_denote :: "pool \<Rightarrow> (string \<times> string) list \<Rightarrow> (name, name) dict \<Rightarrow> bool" where
  "ctors_denote sp ps ctor \<longleftrightarrow>
     (\<forall>nm c. map_of ps nm = Some c \<longrightarrow>
        (\<exists>h k. dict_find sp nm = Some h \<and> dict_find sp c = Some k \<and> dict_find ctor h = Some k)) \<and>
     (\<forall>h k. dict_find ctor h = Some k \<longrightarrow> (\<exists>nm \<in> fst ` set ps. dict_find sp nm = Some h))"

definition handles_unique :: "pool \<Rightarrow> bool" where
  "handles_unique sp \<longleftrightarrow> (\<forall>s s' h. dict_find sp s = Some h \<longrightarrow> dict_find sp s' = Some h \<longrightarrow> s = s')"

lemma ctors_denote_le: "pool_le sp sp' \<Longrightarrow> ctors_denote sp ps ctor \<Longrightarrow> ctors_denote sp' ps ctor"
  unfolding ctors_denote_def by (meson pool_le_find)

lemma ctors_denote_add:
  assumes "ctors_denote sp ps ctor" and "handles_unique sp" and "dict_find sp nm = Some h" and "dict_find sp c = Some k"
  shows "ctors_denote sp (ps @ [(nm, c)]) (if dict_find ctor h = None then dict_put ctor h k else ctor)"
proof (cases "dict_find ctor h")
  case None
  then have new: "map_of ps nm = None" using assms(1,3) unfolding ctors_denote_def by fastforce
  have "h \<notin> keys ctor" using None by (simp add: dict_find_None_iff)
  then have put: "dict_find (dict_put ctor h k) = (dict_find ctor)(h \<mapsto> k)" by (rule dict_find_add_new)
  have of: "map_of (ps @ [(nm, c)]) = (map_of ps)(nm \<mapsto> c)"
    using new by (auto simp: fun_eq_iff map_add_def split: option.splits)
  have "\<exists>h' k'. dict_find sp nm' = Some h' \<and> dict_find sp c' = Some k' \<and> ((dict_find ctor)(h \<mapsto> k)) h' = Some k'"
    if "((map_of ps)(nm \<mapsto> c)) nm' = Some c'" for nm' c'
  proof (cases "nm' = nm")
    case True
    then show ?thesis using that assms(3,4) by auto
  next
    case False
    then have "map_of ps nm' = Some c'" using that by simp
    then obtain h' k' where e: "dict_find sp nm' = Some h'" "dict_find sp c' = Some k'" "dict_find ctor h' = Some k'"
      using assms(1) unfolding ctors_denote_def by blast
    then have "h' \<noteq> h" using None by auto
    then show ?thesis using e by auto
  qed
  moreover have "\<exists>nm' \<in> fst ` set (ps @ [(nm, c)]). dict_find sp nm' = Some h'"
    if "((dict_find ctor)(h \<mapsto> k)) h' = Some k'" for h' k'
  proof (cases "h' = h")
    case False
    then have "dict_find ctor h' = Some k'" using that by simp
    then show ?thesis using assms(1) unfolding ctors_denote_def by auto
  qed (use assms(3) in simp)
  ultimately show ?thesis using None unfolding ctors_denote_def of by (simp add: put)
next
  case (Some k')
  then obtain nm' where "nm' \<in> fst ` set ps" "dict_find sp nm' = Some h" using assms(1) unfolding ctors_denote_def by blast
  then have "nm \<in> fst ` set ps" using assms(2,3) unfolding handles_unique_def by blast
  then have "map_of ps nm \<noteq> None" by (simp add: map_of_eq_None_iff)
  then have "map_of (ps @ [(nm, c)]) x = map_of ps x" for x
    by (cases "map_of ps x") (auto simp: map_add_def)
  then show ?thesis using Some assms(1) unfolding ctors_denote_def by auto
qed

lemma handles_unique_le: "pool_le sp sp' \<Longrightarrow> handles_unique sp' \<Longrightarrow> handles_unique sp"
  unfolding handles_unique_def by (meson pool_le_find)

lemma pool_handles_unique: "pool_wf alloc sp \<Longrightarrow> inj_on alloc {..<length sp} \<Longrightarrow> handles_unique sp"
  unfolding handles_unique_def using pool_handles_inj by blast

lemma line_lists:
  assumes "\<forall>w \<in> set ws. plain w"
  shows "\<exists>hs sp'. parse_functions_loop alloc (add_list (CHR ''R'') ws @ rest) False (Some f, fs, ctor, sp) =
      parse_functions_loop alloc rest False (Some (f\<lparr> f_returns := f_returns f @ hs \<rparr>), fs, ctor, sp') \<and>
      pool_le sp sp' \<and> stands_for sp' ws hs" (is ?R)
    and "\<exists>hs sp'. parse_functions_loop alloc (add_list (CHR ''T'') ws @ rest) False (Some f, fs, ctor, sp) =
      parse_functions_loop alloc rest False (Some (f\<lparr> f_dtails := f_dtails f @ hs \<rparr>), fs, ctor, sp') \<and>
      pool_le sp sp' \<and> stands_for sp' ws hs" (is ?T)
    and "\<exists>hs sp'. parse_functions_loop alloc (add_list (CHR ''I'') ws @ rest) False (Some f, fs, ctor, sp) =
      parse_functions_loop alloc rest False (Some (f\<lparr> f_itails := f_itails f @ hs \<rparr>), fs, ctor, sp') \<and>
      pool_le sp sp' \<and> stands_for sp' ws hs" (is ?I)
proof -
  consider (none) "ws = []" | (some) "ws \<noteq> []" by blast
  then have "?R \<and> ?T \<and> ?I"
  proof cases
    case none
    then show ?thesis by (intro conjI exI [of _ "[]"] exI [of _ sp]) (simp_all add: add_list_def)
  next
    case some
    have line: "add_list k ws @ rest = k # CHR '' '' # sep (CHR '' '') ws @ nl # rest" for k
      using add_list_sep [OF some] by simp
    note pn = parse_nodes_line [OF some assms, of alloc rest _ sp]
    have step: "\<exists>hs sp'. parse_functions_loop alloc (k # CHR '' '' # sep (CHR '' '') ws @ nl # rest) False (Some f, fs, ctor, sp) =
        parse_functions_loop alloc rest False (Some (upd hs), fs, ctor, sp') \<and> pool_le sp sp' \<and> stands_for sp' ws hs"
      if "\<And>hs sp'. parse_nodes alloc (sep (CHR '' '') ws @ nl # rest) old sp = Some (old @ hs, False, rest, sp') \<Longrightarrow>
          parse_function_line alloc (k # CHR '' '' # sep (CHR '' '') ws @ nl # rest) (Some f, fs, ctor, sp) =
            Some (False, rest, Some (upd hs), fs, ctor, sp')" for k old upd
      using pn [of old] loop_line that by blast
    show ?thesis unfolding line
      by (intro conjI step [where old = "f_returns f"] step [where old = "f_dtails f"] step [where old = "f_itails f"])
         (simp_all add: parse_function_line_def)
  qed
  then show ?R ?T ?I by blast+
qed

text \<open>The lines of the kind. The constructor dictionary is extended under the name of the function.\<close>

fun kind_ctor :: "pool \<Rightarrow> name \<Rightarrow> func_kind \<Rightarrow> (name, name) dict \<Rightarrow> (name, name) dict" where
  "kind_ctor sp h (Constructor (Some c)) ctor =
     (if dict_find ctor h = None then dict_put ctor h (the (dict_find sp c)) else ctor)"
| "kind_ctor sp h _ ctor = ctor"

lemma line_kind:
  assumes "kind_lines_ok k" and "f_class_name f = 0" and "f_method_name f = 0" and "f_type f = 0"
  shows "\<exists>f' sp'. parse_functions_loop alloc (kind_text k @ rest) False (Some f, fs, ctor, sp) =
      parse_functions_loop alloc rest False (Some f', fs, kind_ctor sp' (f_name f) k ctor, sp') \<and>
      f_name f' = f_name f \<and> f_returns f' = f_returns f \<and> f_dtails f' = f_dtails f \<and> f_itails f' = f_itails f \<and>
      pool_le sp sp' \<and> kind_denotes sp' k f' \<and> (\<forall>c. k = Constructor (Some c) \<longrightarrow> dict_find sp' c \<noteq> None)"
  using assms(1)
proof (cases k rule: kind_lines_ok.cases)
  case (1 y)
  then show ?thesis using assms line_type [of y alloc rest False f fs ctor sp]
    by (intro exI [of _ "f\<lparr> f_type := fst (sp_intern_string alloc sp y) \<rparr>"] exI [of _ "snd (sp_intern_string alloc sp y)"]) simp
next
  case (2 c m y)
  then have ok: "CHR ''#'' \<notin> set c" "NUL \<notin> set c" "one_line m" "one_line y" using assms(1) by auto
  obtain h1 h2 s1 where m: "parse_functions_loop alloc (''N '' @ c @ ''#'' @ m @ nl # ''Y '' @ y @ nl # rest) False (Some f, fs, ctor, sp) =
      parse_functions_loop alloc (''Y '' @ y @ nl # rest) False (Some (f\<lparr> f_class_name := h1, f_method_name := h2 \<rparr>), fs, ctor, s1)"
      "pool_le sp s1" "dict_find s1 c = Some h1" "dict_find s1 m = Some h2"
    using line_method [OF ok(1-3)] by blast
  let ?s2 = "snd (sp_intern_string alloc s1 y)"
  have "pool_le s1 ?s2" by simp
  note le = this pool_le_trans [OF m(2) this]
  show ?thesis using 2 m line_type [OF ok(4), of alloc rest False "f\<lparr> f_class_name := h1, f_method_name := h2 \<rparr>" fs ctor s1] le
      pool_le_find [OF le(1)]
    by (intro exI [of _ "f\<lparr> f_class_name := h1, f_method_name := h2, f_type := fst (sp_intern_string alloc s1 y) \<rparr>"] exI [of _ ?s2]) simp
next
  case (3 c)
  with assms line_dtor [of c alloc rest False f fs ctor sp] obtain h1 h2 s1 where
    "parse_functions_loop alloc (kind_text k @ rest) False (Some f, fs, ctor, sp) =
      parse_functions_loop alloc rest False (Some (f\<lparr> f_class_name := h1, f_method_name := h2 \<rparr>), fs, ctor, s1)"
    "pool_le sp s1" "dict_find s1 c = Some h1" "dict_find s1 ''~'' = Some h2" by auto
  then show ?thesis using 3 assms(4)
    by (intro exI [of _ "f\<lparr> f_class_name := h1, f_method_name := h2 \<rparr>"] exI [of _ s1]) simp
next
  case 4
  then show ?thesis using assms by (intro exI [of _ f] exI [of _ sp]) simp
next
  case (5 c)
  then show ?thesis using assms line_ctor [of c alloc rest False f fs ctor sp]
    by (intro exI [of _ f] exI [of _ "snd (sp_intern_string alloc sp c)"]) simp
qed

lemma kind_ctor_denotes:
  assumes "ctors_denote sp ps ctor" and "handles_unique sp" and "dict_find sp (ft_name ft) = Some h"
    and "\<forall>c. ft_kind ft = Constructor (Some c) \<longrightarrow> dict_find sp c \<noteq> None"
  shows "ctors_denote sp (ps @ ctor_of ft) (kind_ctor sp h (ft_kind ft) ctor)"
proof (cases "(sp, h, ft_kind ft, ctor)" rule: kind_ctor.cases)
  case (1 _ _ c)
  then obtain k where "dict_find sp c = Some k" using assms(4) by auto
  from ctors_denote_add [OF assms(1-3) this] this 1 show ?thesis by (auto simp: ctor_of_def split: if_splits)
qed (use assms(1) in \<open>simp_all add: ctor_of_def\<close>)

lemma loop_end:
  "parse_functions_loop alloc (''}'' @ NUL # rest) False (Some f, fs, ctor, sp) =
     parse_functions_loop alloc rest True (None, fs @ [f], ctor, sp)"
  by (intro loop_line) (simp add: parse_function_line_def)

lemma unparse_function_parsed:
  assumes "text_ok ft"
  shows "\<exists>f ctor' sp'. parse_functions_loop alloc (unparse_function ft @ NUL # rest) True (None, fs, ctor, sp) =
      parse_functions_loop alloc rest True (None, fs @ [f], ctor', sp') \<and> pool_le sp sp' \<and> denotes sp' ft f \<and>
      (\<forall>ps. ctors_denote sp ps ctor \<longrightarrow> handles_unique sp' \<longrightarrow> ctors_denote sp' (ps @ ctor_of ft) ctor')"
proof -
  have ok: "one_line (ft_name ft)" "kind_lines_ok (ft_kind ft)" "\<forall>w \<in> set (ft_returns ft). plain w"
    "\<forall>w \<in> set (ft_dtails ft). plain w" "\<forall>w \<in> set (ft_itails ft). plain w"
    using assms by (auto simp: text_ok_def)
  let ?r4 = "''}'' @ NUL # rest"
  let ?r3 = "add_list (CHR ''I'') (ft_itails ft) @ ?r4"
  let ?r2 = "add_list (CHR ''T'') (ft_dtails ft) @ ?r3"
  let ?r1 = "add_list (CHR ''R'') (ft_returns ft) @ ?r2"
  let ?h = "fst (sp_intern_string alloc sp (ft_name ft))" and ?s0 = "snd (sp_intern_string alloc sp (ft_name ft))"
  let ?f0 = "alloc_function\<lparr> f_name := ?h \<rparr>"
  obtain f1 s1 where 1: "parse_functions_loop alloc (kind_text (ft_kind ft) @ ?r1) False (Some ?f0, fs, ctor, ?s0) =
      parse_functions_loop alloc ?r1 False (Some f1, fs, kind_ctor s1 ?h (ft_kind ft) ctor, s1)"
      "f_name f1 = ?h" "f_returns f1 = []" "f_dtails f1 = []" "f_itails f1 = []"
      "pool_le ?s0 s1" "kind_denotes s1 (ft_kind ft) f1" "\<forall>c. ft_kind ft = Constructor (Some c) \<longrightarrow> dict_find s1 c \<noteq> None"
    using line_kind [OF ok(2), of ?f0 alloc ?r1 fs ctor ?s0] by (auto simp: alloc_function_def)
  let ?ctor = "kind_ctor s1 ?h (ft_kind ft) ctor"
  obtain hr s2 where 2: "parse_functions_loop alloc ?r1 False (Some f1, fs, ?ctor, s1) =
      parse_functions_loop alloc ?r2 False (Some (f1\<lparr> f_returns := hr \<rparr>), fs, ?ctor, s2)"
      "pool_le s1 s2" "stands_for s2 (ft_returns ft) hr"
    using line_lists(1) [OF ok(3), of alloc ?r2 f1 fs ?ctor s1] 1(3) by auto
  let ?f2 = "f1\<lparr> f_returns := hr \<rparr>"
  obtain hd s3 where 3: "parse_functions_loop alloc ?r2 False (Some ?f2, fs, ?ctor, s2) =
      parse_functions_loop alloc ?r3 False (Some (?f2\<lparr> f_dtails := hd \<rparr>), fs, ?ctor, s3)"
      "pool_le s2 s3" "stands_for s3 (ft_dtails ft) hd"
    using line_lists(2) [OF ok(4), of alloc ?r3 ?f2 fs ?ctor s2] 1(4) by auto
  let ?f3 = "?f2\<lparr> f_dtails := hd \<rparr>"
  obtain hi s4 where 4: "parse_functions_loop alloc ?r3 False (Some ?f3, fs, ?ctor, s3) =
      parse_functions_loop alloc ?r4 False (Some (?f3\<lparr> f_itails := hi \<rparr>), fs, ?ctor, s4)"
      "pool_le s3 s4" "stands_for s4 (ft_itails ft) hi"
    using line_lists(3) [OF ok(5), of alloc ?r4 ?f3 fs ?ctor s3] 1(5) by auto
  let ?f4 = "?f3\<lparr> f_itails := hi \<rparr>"
  have le24: "pool_le s2 s4" using pool_le_trans [OF 3(2) 4(2)] .
  have le14: "pool_le s1 s4" using pool_le_trans [OF 2(2) le24] .
  have le04: "pool_le sp s4" using pool_le_trans [OF intern_le pool_le_trans [OF 1(6) le14]] .
  have nm: "dict_find s1 (ft_name ft) = Some ?h" using pool_le_find [OF 1(6) intern_find] .
  have "kind_denotes s4 (ft_kind ft) ?f4"
    using kind_denotes_le [OF le14 1(7)] by (cases "(s4, ft_kind ft, f1)" rule: kind_denotes.cases) auto
  then have "denotes s4 ft ?f4"
    using 1(2) pool_le_find [OF le14 nm] list_all2_le [OF le24 2(3)] list_all2_le [OF 4(2) 3(3)] 4(3)
    by (simp add: denotes_def)
  moreover have "ctors_denote s4 (ps @ ctor_of ft) ?ctor" if "ctors_denote sp ps ctor" "handles_unique s4" for ps
    using ctors_denote_le [OF le14 kind_ctor_denotes
        [OF ctors_denote_le [OF pool_le_trans [OF intern_le 1(6)] that(1)] handles_unique_le [OF le14 that(2)] nm 1(8)]] .
  moreover have "parse_functions_loop alloc (unparse_function ft @ NUL # rest) True (None, fs, ctor, sp) =
      parse_functions_loop alloc rest True (None, fs @ [?f4], ?ctor, s4)"
    using line_name [OF ok(1), of alloc "kind_text (ft_kind ft) @ ?r1" True None fs ctor sp]
    unfolding 1(1) 2(1) 3(1) 4(1) loop_end by (simp add: unparse_function_def)
  ultimately show ?thesis using le04 by blast
qed

lemma emitted_texts_parsed:
  assumes "\<forall>ft \<in> set fts. text_ok ft"
  shows "\<exists>fs' ctor' sp'. parse_functions_loop alloc (EmitMCFIInfo (map unparse_function fts)) True (None, fs, ctor, sp) =
      Some (None, fs @ fs', ctor', sp') \<and> list_all2 (denotes sp') fts fs' \<and> pool_le sp sp' \<and>
      (\<forall>ps. ctors_denote sp ps ctor \<longrightarrow> handles_unique sp' \<longrightarrow>
         ctors_denote sp' (ps @ concat (map ctor_of fts)) ctor')"
  using assms
proof (induction fts arbitrary: fs ctor sp)
  case Nil
  then show ?case by (subst parse_functions_loop.simps) (auto simp: EmitMCFIInfo_def)
next
  case (Cons ft fts)
  let ?rest = "EmitMCFIInfo (map unparse_function fts)"
  have emit: "EmitMCFIInfo (map unparse_function (ft # fts)) = unparse_function ft @ NUL # ?rest"
    by (simp add: EmitMCFIInfo_def)
  have "text_ok ft" using Cons.prems by simp
  from unparse_function_parsed [OF this, of alloc ?rest fs ctor sp] obtain f ctor1 s1 where
    1: "parse_functions_loop alloc (unparse_function ft @ NUL # ?rest) True (None, fs, ctor, sp) =
      parse_functions_loop alloc ?rest True (None, fs @ [f], ctor1, s1)" "pool_le sp s1" "denotes s1 ft f"
      "\<And>ps. ctors_denote sp ps ctor \<Longrightarrow> handles_unique s1 \<Longrightarrow> ctors_denote s1 (ps @ ctor_of ft) ctor1" by blast
  from Cons.IH [of "fs @ [f]" ctor1 s1] Cons.prems obtain fs' ctor2 s2 where
    2: "parse_functions_loop alloc ?rest True (None, fs @ [f], ctor1, s1) = Some (None, (fs @ [f]) @ fs', ctor2, s2)"
      "list_all2 (denotes s2) fts fs'" "pool_le s1 s2"
      "\<And>ps. ctors_denote s1 ps ctor1 \<Longrightarrow> handles_unique s2 \<Longrightarrow> ctors_denote s2 (ps @ concat (map ctor_of fts)) ctor2" by auto
  have "ctors_denote s2 (ps @ concat (map ctor_of (ft # fts))) ctor2" if "ctors_denote sp ps ctor" "handles_unique s2" for ps
    using 2(4) [OF 1(4) [OF that(1) handles_unique_le [OF 2(3) that(2)]] that(2)] by simp
  then show ?case unfolding emit 1(1) 2(1)
    using 2(2) denotes_le [OF 2(3) 1(3)] pool_le_trans [OF 1(2) 2(3)]
    by (intro exI [of _ "f # fs'"] exI [of _ ctor2] exI [of _ s2]) simp
qed

text \<open>C24. The compiler and the runtime agree on the description of functions: whatever plain functions, methods,
  destructors and constructors the compiler describes (as long as their names fit on a line), the runtime reads the section
  without error and gets the same functions in the same order, with every string replaced by its pointer in the
  pool; the dictionary of the constructors maps exactly the names of the described constructors, each to the
  class written for it first.\<close>

theorem emitted_functions_parsed:
  assumes src: "map (compiled demangle dtors) xs = map Some fts" and ok: "\<forall>ft \<in> set fts. text_ok ft"
    and wf: "pool_wf alloc sp" and inj: "inj_on alloc {..<length sp + length (EmitMCFIInfo (map unparse_function fts))}"
  shows "\<exists>ws fs ctor sp'. map (func_info demangle dtors) xs = map Some ws \<and>
    parse_functions alloc (EmitMCFIInfo ws) [] [] sp = Some (fs, ctor, sp') \<and>
    list_all2 (denotes sp') fts fs \<and> ctors_denote sp' (concat (map ctor_of fts)) ctor \<and> pool_wf alloc sp' \<and> pool_le sp sp'"
proof -
  let ?ws = "map unparse_function fts"
  have "map (func_info demangle dtors) xs = map (map_option unparse_function) (map (compiled demangle dtors) xs)"
    by (simp add: func_info_compiled)
  then have ws: "map (func_info demangle dtors) xs = map Some ?ws" unfolding src by simp
  obtain fs ctor sp' where p: "parse_functions_loop alloc (EmitMCFIInfo ?ws) True (None, [], [], sp) = Some (None, fs, ctor, sp')"
      "list_all2 (denotes sp') fts fs" "pool_le sp sp'"
    and c: "\<And>ps. ctors_denote sp ps [] \<Longrightarrow> handles_unique sp' \<Longrightarrow> ctors_denote sp' (ps @ concat (map ctor_of fts)) ctor"
    using emitted_texts_parsed [OF ok, of alloc "[]" "[]" sp] by auto
  have grows: "pool_wf alloc sp'" "length sp' \<le> length sp + length (EmitMCFIInfo ?ws)"
    using parse_functions_loop_grows [OF p(1)] wf by (simp_all add: pool_grows_def)
  then have "inj_on alloc {..<length sp'}" using inj by (auto intro: inj_on_subset)
  then have "handles_unique sp'" using pool_handles_unique grows(1) by blast
  then have "ctors_denote sp' (concat (map ctor_of fts)) ctor" using c [of "[]"] by (simp add: ctors_denote_def)
  moreover have "parse_functions alloc (EmitMCFIInfo ?ws) [] [] sp = Some (fs, ctor, sp')"
    using p(1) by (simp add: parse_functions_def)
  ultimately show ?thesis using ws p(2,3) grows(1) by blast
qed

definition ex_demangle :: "string \<Rightarrow> string option" where
  "ex_demangle nm = (if nm = ''_ZN1A1fEi'' then Some ''A::f(int)'' else if nm = ''_ZN1AD2Ev'' then Some ''A::~A()''
     else if nm = ''_ZN1AC2Ev'' then Some ''A::A()'' else None)"

definition ex_source :: "source_function list" where
  "ex_source =
     [\<lparr> s_name = ''main'', s_attrs = [], s_type = \<lparr> ret_type = ''i32'', param_types = [], is_vararg = False \<rparr>,
        s_returns = [''a0'', ''a1''], s_dtails = [], s_itails = [] \<rparr>,
      \<lparr> s_name = ''_ZN1A1fEi'', s_attrs = [CXXInstanceMethod],
        s_type = \<lparr> ret_type = ''void'', param_types = [''i32''], is_vararg = False \<rparr>,
        s_returns = [''a2''], s_dtails = [''puts''], s_itails = [''a3''] \<rparr>,
      \<lparr> s_name = ''_ZN1AD2Ev'', s_attrs = [CXXInstanceMethod],
        s_type = \<lparr> ret_type = ''void'', param_types = [], is_vararg = False \<rparr>, s_returns = [], s_dtails = [], s_itails = [] \<rparr>,
      \<lparr> s_name = ''_ZN1AC2Ev'', s_attrs = [CXXCtor, NoInline],
        s_type = \<lparr> ret_type = ''void'', param_types = [], is_vararg = False \<rparr>, s_returns = [], s_dtails = [], s_itails = [] \<rparr>]"

definition ex_texts :: "function_text list" where
  "ex_texts =
     [\<lparr> ft_name = ''main'', ft_kind = Plain None ''i32!i32@i8**@i8**@'', ft_returns = [''a0'', ''a1''], ft_dtails = [], ft_itails = [] \<rparr>,
      \<lparr> ft_name = ''_ZN1A1fEi'', ft_kind = Plain (Some (''A'', ''f(int)'')) ''void!i32@'', ft_returns = [''a2''], ft_dtails = [''puts''],
        ft_itails = [''a3''] \<rparr>,
      \<lparr> ft_name = ''_ZN1AD2Ev'', ft_kind = Destructor ''A'', ft_returns = [], ft_dtails = [], ft_itails = [] \<rparr>,
      \<lparr> ft_name = ''_ZN1AC2Ev'', ft_kind = Constructor (Some ''A''), ft_returns = [], ft_dtails = [], ft_itails = [] \<rparr>]"

lemma ex_compiled: "map (compiled ex_demangle []) ex_source = map Some ex_texts"
  by code_simp


lemma ex_texts_ok: "\<forall>ft \<in> set ex_texts. text_ok ft"
  by code_simp

lemma ex_section_length: "length (EmitMCFIInfo (map unparse_function ex_texts)) < 1000"
  by code_simp

lemma of_nat_distinct:
  assumes "n < 2 ^ 64"
  shows "inj_on (\<lambda>k. of_nat (Suc k) :: name) {..<n}"
proof (rule inj_onI)
  fix a b assume ab: "a \<in> {..<n}" "b \<in> {..<n}" and eq: "(of_nat (Suc a) :: name) = of_nat (Suc b)"
  have u: "unat (of_nat (Suc k) :: name) = Suc k" if "k < n" for k
    using assms that by (simp add: unsigned_of_nat take_bit_nat_eq_self del: of_nat_Suc)
  show "a = b" using u [of a] u [of b] ab unfolding eq by simp
qed

theorem emitted_functions_parsed_witness:
  "\<exists>ws fs ctor sp'. map (func_info ex_demangle []) ex_source = map Some ws \<and>
    parse_functions (\<lambda>k. of_nat (Suc k)) (EmitMCFIInfo ws) [] [] [] = Some (fs, ctor, sp') \<and> list_all2 (denotes sp') ex_texts fs \<and>
    dict_find ctor (the (dict_find sp' ''_ZN1AC2Ev'')) = dict_find sp' ''A''"
proof -
  have "\<exists>ws fs ctor sp'. map (func_info ex_demangle []) ex_source = map Some ws \<and>
      parse_functions (\<lambda>k. of_nat (Suc k)) (EmitMCFIInfo ws) [] [] [] = Some (fs, ctor, sp') \<and> list_all2 (denotes sp') ex_texts fs \<and>
      ctors_denote sp' (concat (map ctor_of ex_texts)) ctor \<and> pool_wf (\<lambda>k. of_nat (Suc k)) sp' \<and> pool_le [] sp'"
    by (rule emitted_functions_parsed [OF ex_compiled ex_texts_ok])
       (use ex_section_length in \<open>simp_all add: pool_wf_def dict_wf_def of_nat_distinct del: of_nat_Suc\<close>)
  then obtain ws fs ctor sp' where r: "map (func_info ex_demangle []) ex_source = map Some ws"
      "parse_functions (\<lambda>k. of_nat (Suc k)) (EmitMCFIInfo ws) [] [] [] = Some (fs, ctor, sp')" "list_all2 (denotes sp') ex_texts fs"
      "ctors_denote sp' (concat (map ctor_of ex_texts)) ctor" by blast
  have "map_of (concat (map ctor_of ex_texts)) ''_ZN1AC2Ev'' = Some ''A''" by code_simp
  then obtain h k where "dict_find sp' ''_ZN1AC2Ev'' = Some h" "dict_find sp' ''A'' = Some k" "dict_find ctor h = Some k"
    using r(4) unfolding ctors_denote_def by blast
  then show ?thesis using r(1-3) by (intro exI [of _ ws] exI [of _ fs] exI [of _ ctor] exI [of _ sp'] conjI) simp_all
qed

section \<open>The text helpers at their limits\<close>

text \<open>A suffix is only cut from the first structure of a type. A later one keeps it and what follows is copied twice, since
  the part to copy is measured from the start of the string.\<close>

lemma SanitizeTypeStr_first: "SanitizeTypeStr ''%struct.a.1 *'' ''%struct.'' = Some ''%struct.a *''"
  by code_simp

lemma SanitizeTypeStr_second:
  "SanitizeTypeStr ''%struct.a.1 (%struct.b.2)'' ''%struct.'' = Some ''%struct.a (%struct.b.2))''"
  by code_simp

text \<open>The name of an operator that ends with an angle is cut inside of it.\<close>

lemma splitMethodName_arrow: "splitMethodName ''A::operator->()'' = Some ''A::operator->()#::operator->()''"
  by code_simp

lemma splitMethodName_method: "splitMethodName ''ns::A::f(int)'' = Some ''ns::A#f(int)''"
  by code_simp

end
