(* ===== verification/Mcfi_Mediation.thy ===== *)
theory Mcfi_Mediation
  imports Mcfi_Check Mcfi_Text_Correct
begin

text \<open>
  The pass leaves no indirect branch without a check (\<open>MCFIx64\<close> in
  \<open>src/compiler/llvm-3.5.0.src/lib/Target/X86/X86MCFI.cpp\<close>). The loop over the blocks of a function, which grow while it
  runs, ends; afterwards the only indirect branches are those at the end of the branch blocks of inserted checks,
  and each of these checks is still the code that \<open>Mcfi_Check\<close> is about.
\<close>

section \<open>Instructions and blocks\<close>

text \<open>What the pass rewrites: returns, and indirect branches with their IR instruction.\<close>

definition trigger :: "instr \<Rightarrow> bool" where
  "trigger mi \<longleftrightarrow> i_opcode mi = RETQ \<or> i_ir mi \<noteq> None \<and> i_opcode mi \<in> set indirect_ops"

text \<open>What it leaves alone.\<close>

definition quiet :: "instr \<Rightarrow> bool" where
  "quiet mi \<longleftrightarrow> \<not> trigger mi \<and> (i_opcode mi = TAILJMPd64 \<longrightarrow> callee_name mi \<in> range report_name) \<and>
     (i_ir mi = None \<longrightarrow> \<not> definesRegister mi (Gpr RSP I64))"

text \<open>What the result depends on besides the checks: the indirect branches without an IR instruction (jump tables), which
  the pass leaves where they are, whether a branch goes through \<open>R11\<close>, and whether identifiers are small.\<close>

record pass_env =
  left_alone :: "instr set"
  via_R11 :: bool
  small_id :: bool

definition clean :: "pass_env \<Rightarrow> instr \<Rightarrow> bool" where
  "clean E mi \<longleftrightarrow> i_opcode mi \<noteq> RETQ \<and> (i_opcode mi \<in> set indirect_ops \<longrightarrow> i_ir mi = None \<and> mi \<in> left_alone E)"

abbreviation reg_ops :: "opcode set" where
  "reg_ops \<equiv> {CALL64r, JMP64r, TAILJMPr64}"

text \<open>Code that reaches the pass: a branch through a register, if it has its IR instruction, names a general register.\<close>

definition source_instr :: "pass_env \<Rightarrow> instr \<Rightarrow> bool" where
  "source_instr E mi \<longleftrightarrow> (i_opcode mi \<in> set indirect_ops \<and> i_ir mi = None \<longrightarrow> mi \<in> left_alone E) \<and>
     (i_opcode mi \<in> reg_ops \<and> i_ir mi \<noteq> None \<longrightarrow>
        (\<exists>g st os. i_operands mi = Reg (Gpr g I64) st # os \<and> Define \<notin> set st \<and> (g = R11 \<longrightarrow> via_R11 E)))"

text \<open>Returns and indirect jumps that are rewritten end their block.\<close>

definition ends_block :: "instr \<Rightarrow> bool" where
  "ends_block mi \<longleftrightarrow> i_opcode mi = RETQ \<or> i_ir mi \<noteq> None \<and> i_opcode mi \<in> {JMP64m, JMP64r, TAILJMPm64, TAILJMPr64}"

definition source_block :: "pass_env \<Rightarrow> instr list \<Rightarrow> bool" where
  "source_block E is \<longleftrightarrow> list_all (source_instr E) is \<and> list_all (\<lambda>mi. \<not> ends_block mi) (butlast is)"

text \<open>Instructions that are no return and no indirect branch.\<close>

definition plain :: "instr \<Rightarrow> bool" where
  "plain mi \<longleftrightarrow> i_opcode mi \<noteq> RETQ \<and> i_opcode mi \<notin> set indirect_ops"

lemma plain_clean: "plain mi \<Longrightarrow> clean E mi"
  by (simp add: plain_def clean_def)

abbreviation triggers :: "instr list \<Rightarrow> nat" where
  "triggers is \<equiv> length (filter trigger is)"

lemma indirect_op: "op \<in> set indirect_ops \<longleftrightarrow> op \<in> {CALL64m, CALL64r, JMP64m, JMP64r, TAILJMPm64, TAILJMPr64}"
  by (auto simp: indirect_ops_def)

lemma source_block_suffix: "source_block E (xs @ ys) \<Longrightarrow> source_block E ys"
  by (cases "ys = []") (auto simp: source_block_def butlast_append)

lemma clean_source: "list_all (clean E) is \<Longrightarrow> source_block E is"
  unfolding source_block_def list_all_iff
  by (auto simp: clean_def source_instr_def ends_block_def indirect_op dest: in_set_butlastD)

lemma RspToEspDef_clean: "RspToEspDef op = Some op' \<Longrightarrow> op' \<noteq> RETQ \<and> op' \<notin> set indirect_ops"
  unfolding indirect_op by (cases op) auto

lemma visit_quiet:
  assumes "quiet mi"
  shows "visit_instr td mbb mi (pre, rest) s = Some ((pre @ [mi], rest), False, s)"
proof -
  obtain p mf where s: "s = (p, mf)" by (cases s)
  have q: "i_opcode mi \<noteq> RETQ" "i_ir mi \<noteq> None \<Longrightarrow> i_opcode mi \<notin> set indirect_ops"
      "i_ir mi = None \<Longrightarrow> \<not> definesRegister mi (Gpr RSP I64)"
    using assms by (auto simp: quiet_def trigger_def)
  show ?thesis
  proof (cases "i_opcode mi = TAILJMPd64")
    case True
    then have "callee_name mi = report_name False \<or> callee_name mi = report_name True"
      using assms unfolding quiet_def by (metis (full_types) imageE)
    then show ?thesis using q(1) True by (auto simp: visit_instr_def s)
  next
    case False
    then show ?thesis using q by (cases "i_ir mi") (simp_all add: visit_instr_def s)
  qed
qed

lemma visit_quiets: "list_all quiet is \<Longrightarrow> visit_instrs td mbb (pre, is) s = Some (pre @ is, s)"
  by (induction "is" arbitrary: pre) (auto simp: visit_quiet)

text \<open>An instruction that is no trigger is kept or replaced by such ones; the function is unchanged.\<close>

lemma visit_other:
  assumes "\<not> trigger mi" and "source_instr E mi"
  shows "\<exists>xs p'. visit_instr td mbb mi (pre, rest) (p, mf) = Some ((pre @ xs, rest), False, p', mf) \<and>
    list_all (clean E) xs \<and> SmallID p' = SmallID p"
proof -
  have mi: "clean E mi" using assms by (auto simp: trigger_def source_instr_def clean_def)
  have sp: "list_all (clean E) (MCFIx64StackPointer td mi)"
    using mi RspToEspDef_clean
    by (auto simp: MCFIx64StackPointer_def clean_def BuildMI_def indirect_op split: option.splits)
  show ?thesis using mi sp assms(1)
    by (cases "i_ir mi") (auto simp: visit_instr_def trigger_def clean_def Let_def)
qed

lemma visit_others:
  assumes "\<forall>mi \<in> set is. \<not> trigger mi \<and> source_instr E mi"
  shows "\<exists>xs p'. visit_instrs td mbb (pre, is @ rest) (p, mf) = visit_instrs td mbb (pre @ xs, rest) (p', mf) \<and>
    list_all (clean E) xs \<and> SmallID p' = SmallID p"
  using assms
proof (induction "is" arbitrary: pre p)
  case Nil
  then show ?case by (intro exI [of _ "[]"] exI [of _ p]) simp
next
  case (Cons mi "is")
  obtain xs p1 where 1: "visit_instr td mbb mi (pre, is @ rest) (p, mf) = Some ((pre @ xs, is @ rest), False, p1, mf)"
      "list_all (clean E) xs" "SmallID p1 = SmallID p" using visit_other Cons.prems by (metis list.set_intros(1))
  obtain ys p2 where "visit_instrs td mbb (pre @ xs, is @ rest) (p1, mf) = visit_instrs td mbb ((pre @ xs) @ ys, rest) (p2, mf)"
      "list_all (clean E) ys" "SmallID p2 = SmallID p1" using Cons.IH [of "pre @ xs" p1] Cons.prems by auto
  then show ?case using 1 by (intro exI [of _ "xs @ ys"] exI [of _ p2]) simp
qed

section \<open>Loads of the target\<close>

lemma clean_narrow: "clean E (narrow_load r d)" "\<not> trigger (narrow_load r d)"
  by (simp_all add: clean_def trigger_def narrow_load_def BuildMI_def indirect_op)

lemma clean_move_self: "clean E (move_self r)"
  by (simp add: clean_def move_self_def BuildMI_def indirect_op)

lemma last_def_less: "last_def r is = Some i \<Longrightarrow> i < length is"
  by (induction "is" arbitrary: i) (auto split: option.splits if_splits)

lemma clean_update: "list_all (clean E) is \<Longrightarrow> list_all (clean E) (is[i := narrow_load r d])"
  using set_update_subset_insert [of "is" i "narrow_load r d"] clean_narrow(1) [of E r d] by (auto simp: list_all_iff)

lemma triggers_update:
  "i < length is \<Longrightarrow> i_opcode (is ! i) = MOV64rm \<Longrightarrow> triggers (is[i := narrow_load r d]) = triggers is"
proof (induction "is" arbitrary: i)
  case (Cons x xs)
  have "\<not> trigger x" if "i_opcode x = MOV64rm" using that by (simp add: trigger_def indirect_op)
  then show ?case using Cons by (cases i) (auto simp: clean_narrow)
qed simp

lemma source_update:
  assumes "source_block E is" and "i < length is" and "i_opcode (is ! i) = MOV64rm"
  shows "source_block E (is[i := narrow_load r d])"
proof -
  have n: "source_instr E (narrow_load r d)" "\<not> ends_block (narrow_load r d)"
    by (simp_all add: narrow_load_def BuildMI_def source_instr_def indirect_op ends_block_def)
  have "set (is[i := narrow_load r d]) \<subseteq> insert (narrow_load r d) (set is)" by (rule set_update_subset_insert)
  moreover have "set (butlast (is[i := narrow_load r d])) \<subseteq> insert (narrow_load r d) (set (butlast is))"
    by (simp add: butlast_list_update set_update_subset_insert subset_insertI)
  ultimately show ?thesis using assms(1) n unfolding source_block_def list_all_iff by blast
qed

section \<open>The successors of an inserted check\<close>

lemma succs_parts [simp]:
  "succs (body (addSuccessor a b mf) c) = (if c = a then succs (body mf a) @ [b] else succs (body mf c))"
  "succs (body (addLiveIn a r mf) c) = succs (body mf c)"
  "succs (body (put_front a is mf) c) = succs (body mf c)"
  "succs (body (addMBB_back a b mf) c) = succs (body mf c)"
  by (simp_all add: addSuccessor_def addLiveIn_def put_front_def addMBB_back_def Let_def)

lemma succs_transfer [simp]:
  "a \<noteq> b \<Longrightarrow> succs (body (transferSuccessors a b mf) c) =
     (if c = b then [] else if c = a then succs (body mf a) @ succs (body mf b) else succs (body mf c))"
  by (simp add: transfer_eq)

lemma body_parts [simp]:
  "c \<noteq> a \<Longrightarrow> body (addSuccessor a b mf) c = body mf c" "c \<noteq> a \<Longrightarrow> body (addLiveIn a r mf) c = body mf c"
  "c \<noteq> a \<Longrightarrow> body (put_front a is mf) c = body mf c" "c \<noteq> a \<Longrightarrow> body (addMBB_back a b mf) c = body mf c"
  "c \<noteq> a \<Longrightarrow> c \<noteq> b \<Longrightarrow> body (transferSuccessors a b mf) c = body mf c"
  by (simp_all add: addSuccessor_def addLiveIn_def put_front_def addMBB_back_def transfer_eq)

lemma body_check_parts [simp]:
  "c \<noteq> b \<Longrightarrow> body (MCFIx64IDCmp p b br tr tg mf) c = body mf c" "c \<noteq> b \<Longrightarrow> body (MCFIx64ICJ p b cj tg mf) c = body mf c"
  "c \<noteq> b \<Longrightarrow> body (MCFIx64InteropCheck p b br tr tg mf) c = body mf c"
  "c \<noteq> b \<Longrightarrow> body (MCFIx64IDValidityCheck p b br tr tg mf) c = body mf c"
  "c \<noteq> b \<Longrightarrow> body (MCFIx64IDVersionCheck p b br tr mf) c = body mf c"
  "c \<noteq> b \<Longrightarrow> body (MCFIx64Report b i tg ret mf) c = body mf c"
  by (simp_all add: check_parts Let_def)

lemma succs_check_parts [simp]:
  "succs (body (MCFIx64IDCmp p b br tr tg mf) c) = succs (body mf c)" "succs (body (MCFIx64ICJ p b cj tg mf) c) = succs (body mf c)"
  "succs (body (MCFIx64InteropCheck p b br tr tg mf) c) = succs (body mf c)"
  "succs (body (MCFIx64IDValidityCheck p b br tr tg mf) c) = succs (body mf c)"
  "succs (body (MCFIx64IDVersionCheck p b br tr mf) c) = succs (body mf c)"
  "succs (body (MCFIx64Report b i tg ret mf) c) = succs (body mf c)"
  by (simp_all add: check_parts Let_def)

lemma MCFIx64MBBs_rest:
  fixes p :: mcfi and br tr tg :: reg and cj :: opcode and ret :: bool
  assumes "mbb < next_mbb mf"
  defines "n \<equiv> next_mbb mf" and "mf' \<equiv> snd (MCFIx64MBBs p mbb br tr tg cj ret mf)"
  shows "next_mbb mf' = n + 6" and "instrs (body mf' mbb) = instrs (body mf mbb)"
    and "c \<noteq> mbb \<Longrightarrow> c < n \<Longrightarrow> body mf' c = body mf c"
    and "succs (body mf' n) = [n + 1, n + 2]" and "succs (body mf' (n + 2)) = [n + 1, n + 3]"
    and "succs (body mf' (n + 3)) = [n + 4, n + 5]" and "succs (body mf' (n + 4)) = [n, n + 5]"
    and "succs (body mf' (n + 5)) = []"
    and "instrs (body mf' (n + 5)) = (if \<not> ret \<and> tg \<noteq> Gpr RSI I64 then [BuildMI MOV64rr [Reg (Gpr RSI I64) [], Reg tg []]] else []) @
        [BuildMI LEA64r [Reg (Gpr RDI I64) [Define], Reg RIP [], Imm 1, Reg NoRegister [], Mbb n, Reg NoRegister []],
         BuildMI TAILJMPd64 [Symbol (report_name ret)]]"
  using assms(1) unfolding mf'_def n_def MCFIx64MBBs_def
  by (simp_all add: Let_def split_beta MCFIx64Report_def MCFIx64ICJ_def MCFIx64IDCmp_def MCFIx64InteropCheck_def
      MCFIx64IDValidityCheck_def MCFIx64IDVersionCheck_def)

section \<open>A check inside of a function\<close>

definition inner_blocks :: "check_blocks \<Rightarrow> nat list" where
  "inner_blocks k = [IDCmpMBB k, InteropCheckMBB k, IDValidityCheckMBB k, VerCheckMBB k, ReportMBB k]"

definition blocks_of :: "check_blocks \<Rightarrow> nat list" where
  "blocks_of k = ICJMBB k # inner_blocks k"

text \<open>Loads and comparisons of identifiers and of versions have half the width if identifiers are small.\<close>

abbreviation id_load :: "pass_env \<Rightarrow> opcode" where
  "id_load E \<equiv> if small_id E then MOV32rm else MOV64rm"

abbreviation id_part :: "pass_env \<Rightarrow> width" where
  "id_part E \<equiv> if small_id E then I32 else I64"

abbreviation id_cmp :: "pass_env \<Rightarrow> opcode" where
  "id_cmp E \<equiv> if small_id E then CMP32rr else CMP64rr"

abbreviation version_cmp :: "pass_env \<Rightarrow> opcode" where
  "version_cmp E \<equiv> if small_id E then CMP16rr else CMP32rr"

abbreviation version_part :: "pass_env \<Rightarrow> width" where
  "version_part E \<equiv> if small_id E then I16 else I32"

text \<open>The instructions of a check with the registers \<open>B\<close>, \<open>T\<close>, \<open>X\<close>, whose branch \<open>cj\<close> has the number \<open>y\<close>; spilled
  registers are popped in front of the branch.\<close>

definition check_text :: "pass_env \<Rightarrow> mfunction \<Rightarrow> check_blocks \<Rightarrow> gpr \<Rightarrow> gpr \<Rightarrow> gpr \<Rightarrow> opcode \<Rightarrow> u64 \<Rightarrow> bool" where
  "check_text E mf k B T X cj y \<longleftrightarrow>
     (\<exists>disp z. instrs (body mf (IDCmpMBB k)) =
       [(BuildMI (id_load E) [Reg (Gpr B (id_part E)) [Define], Reg NoRegister [], Imm 1, Reg NoRegister [], Imm disp, Reg GS []])
          \<lparr> i_bary := Some y, i_ir := z \<rparr>,
        BuildMI (id_load E) [Reg (Gpr T (id_part E)) [Define], Reg (Gpr X I64) [], Imm 1, Reg NoRegister [], Imm 0, Reg GS []],
        BuildMI (id_cmp E) [Reg (Gpr B (id_part E)) [], Reg (Gpr T (id_part E)) []], BuildMI JNE_1 [Mbb (InteropCheckMBB k)]]) \<and>
     (\<exists>gs. instrs (body mf (ICJMBB k)) =
        map (\<lambda>g. BuildMI POP64r [Reg (Gpr g I64) [Define]]) gs @ [(BuildMI cj [Reg (Gpr X I64) []])\<lparr> i_bary := Some y \<rparr>] \<and> RSP \<notin> set gs) \<and>
     instrs (body mf (InteropCheckMBB k)) = [BuildMI CMP8ri [Reg (Gpr T I8) [], Imm 0xfc], BuildMI JE_4 [Mbb (ICJMBB k)]] \<and>
     instrs (body mf (IDValidityCheckMBB k)) = [BuildMI TEST8ri [Reg (Gpr T I8) [], Imm 1], BuildMI JE_4 [Mbb (ReportMBB k)]] \<and>
     instrs (body mf (VerCheckMBB k)) =
       [BuildMI (version_cmp E) [Reg (Gpr B (version_part E)) [], Reg (Gpr T (version_part E)) []], BuildMI JNE_1 [Mbb (IDCmpMBB k)]] \<and>
     list_all (\<lambda>mi. quiet mi \<and> plain mi) (instrs (body mf (ReportMBB k)))"

definition check_in :: "pass_env \<Rightarrow> mfunction \<Rightarrow> check_blocks \<Rightarrow> bool" where
  "check_in E mf k \<longleftrightarrow>
     (\<exists>B T X cj y. B \<noteq> T \<and> (X \<in> {B, T} \<longrightarrow> X = R11 \<and> via_R11 E) \<and> RSP \<notin> {B, T} \<and> cj \<in> reg_ops \<and> check_text E mf k B T X cj y) \<and>
     distinct (blocks_of k) \<and> set (blocks_of k) \<subseteq> set (layout mf) \<and>
     (\<forall>c \<in> set (inner_blocks k). set (succs (body mf c)) \<subseteq> set (blocks_of k)) \<and>
     next_block (IDCmpMBB k) (layout mf) = Some (ICJMBB k) \<and>
     next_block (InteropCheckMBB k) (layout mf) = Some (IDValidityCheckMBB k) \<and>
     next_block (IDValidityCheckMBB k) (layout mf) = Some (VerCheckMBB k) \<and>
     next_block (VerCheckMBB k) (layout mf) = Some (ReportMBB k)"

lemma check_in_keep:
  assumes "check_in E mf k" and "\<forall>c \<in> set (blocks_of k). body mf' c = body mf c" and "set (layout mf) \<subseteq> set (layout mf')"
    and "\<And>c d. c \<in> set (inner_blocks k) \<Longrightarrow> next_block c (layout mf) = Some d \<Longrightarrow> next_block c (layout mf') = Some d"
  shows "check_in E mf' k"
  using assms unfolding check_in_def check_text_def by (auto simp: blocks_of_def inner_blocks_def)

lemma check_inE:
  assumes "check_in E mf k"
  obtains B T X cj y disp z gs where
    "B \<noteq> T" "X \<in> {B, T} \<longrightarrow> X = R11 \<and> via_R11 E" "B \<noteq> RSP" "T \<noteq> RSP" "cj \<in> reg_ops" "check_text E mf k B T X cj y"
    "instrs (body mf (IDCmpMBB k)) =
       [(BuildMI (id_load E) [Reg (Gpr B (id_part E)) [Define], Reg NoRegister [], Imm 1, Reg NoRegister [], Imm disp, Reg GS []])
          \<lparr> i_bary := Some y, i_ir := z \<rparr>,
        BuildMI (id_load E) [Reg (Gpr T (id_part E)) [Define], Reg (Gpr X I64) [], Imm 1, Reg NoRegister [], Imm 0, Reg GS []],
        BuildMI (id_cmp E) [Reg (Gpr B (id_part E)) [], Reg (Gpr T (id_part E)) []], BuildMI JNE_1 [Mbb (InteropCheckMBB k)]]"
    "instrs (body mf (ICJMBB k)) =
        map (\<lambda>g. BuildMI POP64r [Reg (Gpr g I64) [Define]]) gs @ [(BuildMI cj [Reg (Gpr X I64) []])\<lparr> i_bary := Some y \<rparr>]"
    "RSP \<notin> set gs"
    "instrs (body mf (InteropCheckMBB k)) = [BuildMI CMP8ri [Reg (Gpr T I8) [], Imm 0xfc], BuildMI JE_4 [Mbb (ICJMBB k)]]"
    "instrs (body mf (IDValidityCheckMBB k)) = [BuildMI TEST8ri [Reg (Gpr T I8) [], Imm 1], BuildMI JE_4 [Mbb (ReportMBB k)]]"
    "instrs (body mf (VerCheckMBB k)) =
       [BuildMI (version_cmp E) [Reg (Gpr B (version_part E)) [], Reg (Gpr T (version_part E)) []], BuildMI JNE_1 [Mbb (IDCmpMBB k)]]"
    "list_all (\<lambda>mi. quiet mi \<and> plain mi) (instrs (body mf (ReportMBB k)))"
proof -
  obtain B T X cj y where 1: "B \<noteq> T" "X \<in> {B, T} \<longrightarrow> X = R11 \<and> via_R11 E" "RSP \<notin> {B, T}" "cj \<in> reg_ops" "check_text E mf k B T X cj y"
    using assms unfolding check_in_def by blast
  from 1(3) have rsp: "B \<noteq> RSP" "T \<noteq> RSP" by auto
  show ?thesis using 1(5) unfolding check_text_def
    by (elim conjE exE) (rule that [OF 1(1,2) rsp 1(4,5)], assumption+)
qed

lemma quiet_BuildMI:
  "op \<notin> {RETQ, TAILJMPd64} \<Longrightarrow> op \<notin> set indirect_ops \<Longrightarrow> \<not> definesRegister (BuildMI op os) (Gpr RSP I64) \<Longrightarrow> quiet (BuildMI op os)"
  by (simp add: quiet_def trigger_def BuildMI_def)

lemma defines_operands:
  "definesRegister (BuildMI op os) r \<longleftrightarrow> list_ex (\<lambda>x. case x of Reg r' st \<Rightarrow> Define \<in> set st \<and> contains_reg r' r | _ \<Rightarrow> False) os"
  by (simp add: definesRegister_def BuildMI_def)

lemma opcode_BuildMI: "i_opcode (BuildMI op os) = op"
  by (simp add: BuildMI_def)

lemma check_in_quiet:
  assumes "check_in E mf k" and "c \<in> set (blocks_of k)"
  shows "list_all quiet (instrs (body mf c))"
  using assms(1)
proof (cases rule: check_inE)
  case (1 B T X cj y disp z gs)
  have q: "quiet (mi\<lparr> i_bary := Some y, i_ir := z \<rparr>)" if "quiet mi" "i_opcode mi \<in> {MOV64rm, MOV32rm}" "\<not> definesRegister mi (Gpr RSP I64)" for mi
    using that by (auto simp: quiet_def trigger_def indirect_op definesRegister_def)
  have branch: "quiet ((BuildMI cj [Reg (Gpr X I64) []])\<lparr> i_bary := Some y \<rparr>)"
    using 1(5) by (auto simp: quiet_def trigger_def BuildMI_def definesRegister_def)
  have c: "c = IDCmpMBB k \<or> c = ICJMBB k \<or> c = InteropCheckMBB k \<or> c = IDValidityCheckMBB k \<or> c = VerCheckMBB k \<or> c = ReportMBB k"
    using assms(2) by (auto simp: blocks_of_def inner_blocks_def)
  have "list_all quiet (instrs (body mf (IDCmpMBB k)))" unfolding 1(7) using 1(3,4)
    by (simp add: quiet_BuildMI defines_operands indirect_op q opcode_BuildMI)
  moreover have "quiet (BuildMI POP64r [Reg (Gpr g I64) [Define]])" if "g \<in> set gs" for g
    using that 1(9) by (intro quiet_BuildMI) (auto simp: defines_operands indirect_op)
  then have "list_all quiet (instrs (body mf (ICJMBB k)))" unfolding 1(8) using branch by (simp add: list_all_iff)
  moreover have "list_all quiet (instrs (body mf (InteropCheckMBB k)))" "list_all quiet (instrs (body mf (IDValidityCheckMBB k)))"
      "list_all quiet (instrs (body mf (VerCheckMBB k)))"
    unfolding 1(10-12) by (simp_all add: quiet_BuildMI defines_operands indirect_op)
  moreover have "list_all quiet (instrs (body mf (ReportMBB k)))" using 1(13) by (simp add: list_all_iff)
  ultimately show ?thesis using c by blast
qed

lemma check_in_clean:
  assumes "check_in E mf k" and "c \<in> set (inner_blocks k)"
  shows "list_all (clean E) (instrs (body mf c))"
  using assms(1)
proof (cases rule: check_inE)
  case (1 B T X cj y disp z gs)
  have c: "c = IDCmpMBB k \<or> c = InteropCheckMBB k \<or> c = IDValidityCheckMBB k \<or> c = VerCheckMBB k \<or> c = ReportMBB k"
    using assms(2) by (auto simp: inner_blocks_def)
  have "list_all (clean E) (instrs (body mf (ReportMBB k)))" using 1(13) by (simp add: list_all_iff plain_clean)
  then show ?thesis using c 1(7,10-12) by (elim disjE) (simp_all add: clean_def BuildMI_def indirect_op)
qed

text \<open>A branch block loads no register, and its last instruction is the only branch.\<close>

lemma check_in_branch:
  assumes "check_in E mf k" and "mi \<in> set (instrs (body mf (ICJMBB k)))"
  shows "i_opcode mi \<noteq> MOV64rm \<and> (clean E mi \<or> mi = last (instrs (body mf (ICJMBB k))))"
  using assms(1)
proof (cases rule: check_inE)
  case (1 B T X cj y disp z gs)
  show ?thesis using assms(2) 1(5) unfolding 1(8) by (auto simp: BuildMI_def clean_def indirect_op)
qed

lemma check_in_linked:
  assumes "check_text E mf k B T X cj y" and "check_in E mf k" and "B \<noteq> T" "B \<noteq> X" "T \<noteq> X" and "slot < 2 ^ 31" and "\<not> small_id E"
  shows "check_code (link_function (IDCmpMBB k) slot mf) k B T X slot"
proof -
  have d: "distinct [IDCmpMBB k, ICJMBB k, InteropCheckMBB k, IDValidityCheckMBB k, VerCheckMBB k, ReportMBB k]"
    using assms(2) by (auto simp: check_in_def blocks_of_def inner_blocks_def)
  have n: "next_block (IDCmpMBB k) (layout mf) = Some (ICJMBB k)"
     "next_block (InteropCheckMBB k) (layout mf) = Some (IDValidityCheckMBB k)"
     "next_block (IDValidityCheckMBB k) (layout mf) = Some (VerCheckMBB k)"
     "next_block (VerCheckMBB k) (layout mf) = Some (ReportMBB k)" using assms(2) by (simp_all add: check_in_def)
  show ?thesis unfolding check_code_def using assms(1,3-) d n
    by (auto simp: check_text_def link_function_def link_slot_def BuildMI_def)
qed

text \<open>What the pass leaves of a check after both edits of an indirect call.\<close>

lemma MCFIx64MBBs_check_in:
  assumes "mbb \<in> set (layout mf)" and "\<forall>b \<in> set (layout mf). b < next_mbb mf" and "SmallID p = small_id E"
    and regs: "B \<noteq> T" "X \<in> {B, T} \<longrightarrow> X = R11 \<and> via_R11 E" "RSP \<notin> {B, T}" "RSP \<notin> set gs" and cj: "cj \<in> reg_ops"
    and run: "MCFIx64MBBs p mbb (Gpr B I64) (Gpr T I64) (Gpr X I64) cj ret mf = (k, mf1)"
    and mf': "mf' = upd_block (IDCmpMBB k) (\<lambda>m. m\<lparr> instrs := (hd (instrs m))\<lparr> i_ir := z \<rparr> # tl (instrs m) \<rparr>)
        (put_front (ICJMBB k) (map (\<lambda>g. BuildMI POP64r [Reg (Gpr g I64) [Define]]) gs) mf1)"
  shows "check_in E mf' k" and "layout mf' = insert_after (next_mbb mf) (next_mbb mf + 1) (insert_after mbb (next_mbb mf) (layout mf)) @
      [next_mbb mf + 2, next_mbb mf + 3, next_mbb mf + 4, next_mbb mf + 5]"
    and "next_mbb mf' = next_mbb mf + 6" and "instrs (body mf' mbb) = instrs (body mf mbb)"
    and "\<And>c. c \<noteq> mbb \<Longrightarrow> c < next_mbb mf \<Longrightarrow> body mf' c = body mf c"
    and "k = \<lparr> IDCmpMBB = next_mbb mf, ICJMBB = next_mbb mf + 1, InteropCheckMBB = next_mbb mf + 2,
      IDValidityCheckMBB = next_mbb mf + 3, VerCheckMBB = next_mbb mf + 4, ReportMBB = next_mbb mf + 5 \<rparr>"
proof -
  let ?r = "MCFIx64MBBs p mbb (Gpr B I64) (Gpr T I64) (Gpr X I64) cj ret mf"
  define n where "n = next_mbb mf"
  show k: "k = \<lparr> IDCmpMBB = next_mbb mf, ICJMBB = next_mbb mf + 1, InteropCheckMBB = next_mbb mf + 2,
      IDValidityCheckMBB = next_mbb mf + 3, VerCheckMBB = next_mbb mf + 4, ReportMBB = next_mbb mf + 5 \<rparr>"
    using MCFIx64MBBs_blocks [of p mbb "Gpr B I64" "Gpr T I64" "Gpr X I64" cj ret mf] run by simp
  have mf1: "mf1 = snd ?r" using run by simp
  have lt: "mbb < n" using assms(1,2) by (simp add: n_def)
  note bd = MCFIx64MBBs_body [OF lt [unfolded n_def], of p "Gpr B I64" "Gpr T I64" "Gpr X I64" cj ret, folded mf1 n_def]
  note nx = MCFIx64MBBs_next [OF assms(1,2), of p "Gpr B I64" "Gpr T I64" "Gpr X I64" cj ret, folded mf1 n_def]
  note rs = MCFIx64MBBs_rest [OF lt [unfolded n_def], where p = p and br = "Gpr B I64" and tr = "Gpr T I64" and tg = "Gpr X I64" and cj = cj and ret = ret, folded mf1 n_def]
  have lay: "layout mf1 = insert_after n (n + 1) (insert_after mbb n (layout mf)) @ [n + 2, n + 3, n + 4, n + 5]"
  proof -
    have "\<forall>b \<in> set (layout mf). b \<noteq> n + 4" using assms(2) unfolding n_def by force
    then show ?thesis using bd(6) lt by (auto simp: insert_after_append)
  qed
  have kn: "IDCmpMBB k = n" "ICJMBB k = n + 1" "InteropCheckMBB k = n + 2" "IDValidityCheckMBB k = n + 3" "VerCheckMBB k = n + 4"
    "ReportMBB k = n + 5" by (simp_all add: k n_def)
  have body': "instrs (body mf' c) = (if c = n then (hd (instrs (body mf1 n)))\<lparr> i_ir := z \<rparr> # tl (instrs (body mf1 n))
      else if c = n + 1 then map (\<lambda>g. BuildMI POP64r [Reg (Gpr g I64) [Define]]) gs @ instrs (body mf1 (n + 1)) else instrs (body mf1 c))"
    "succs (body mf' c) = succs (body mf1 c)" for c
    unfolding mf' kn by (simp_all add: upd_block_def put_front_def)
  show lay': "layout mf' = insert_after (next_mbb mf) (next_mbb mf + 1) (insert_after mbb (next_mbb mf) (layout mf)) @
      [next_mbb mf + 2, next_mbb mf + 3, next_mbb mf + 4, next_mbb mf + 5]"
    using lay by (simp add: mf' n_def)
  show "next_mbb mf' = next_mbb mf + 6" using rs(1) by (simp add: mf' n_def)
  show "instrs (body mf' mbb) = instrs (body mf mbb)" using body'(1) [of mbb] lt rs(2) by simp
  show "body mf' c = body mf c" if "c \<noteq> mbb" "c < next_mbb mf" for c
    using rs(3) [of c] that by (simp add: mf' kn n_def)
  have report: "list_all (\<lambda>mi. quiet mi \<and> plain mi) (instrs (body mf1 (n + 5)))"
    unfolding rs(9) by (simp add: quiet_def plain_def trigger_def BuildMI_def indirect_op definesRegister_def callee_name_def)
  have "check_text E mf' k B T X cj (ModuleID p + ucast (BarySlot p))"
    unfolding check_text_def kn body'(1) bd(1-5) assms(3) using report regs(4)
    by (auto simp: BuildMI_def simp del: One_nat_def intro!: exI [of _ gs])
  moreover have "set (blocks_of k) \<subseteq> set (layout mf')" using assms(1) unfolding lay' blocks_of_def inner_blocks_def kn
    by (auto simp: n_def)
  moreover have "distinct (blocks_of k)" by (simp add: blocks_of_def inner_blocks_def kn)
  moreover have "\<forall>c \<in> set (inner_blocks k). set (succs (body mf' c)) \<subseteq> set (blocks_of k)"
    unfolding blocks_of_def inner_blocks_def kn body'(2) using rs(4-8) by simp
  moreover have "layout mf' = layout mf1" by (simp add: mf')
  moreover have "next_block n (layout mf1) = Some (n + 1) \<and> next_block (n + 2) (layout mf1) = Some (n + 3) \<and>
      next_block (n + 3) (layout mf1) = Some (n + 4) \<and> next_block (n + 4) (layout mf1) = Some (n + 5)" using nx(2-5) by blast
  ultimately show "check_in E mf' k" unfolding check_in_def using regs(1-3) cj unfolding kn by metis
qed

section \<open>The state between two blocks\<close>

definition in_checks :: "check_blocks list \<Rightarrow> nat set" where
  "in_checks ks = (\<Union>k \<in> set ks. set (blocks_of k))"

text \<open>The blocks in front of the current one are clean, those behind it as they came, and the checks inserted so far are whole.\<close>

definition pass_inv :: "pass_env \<Rightarrow> nat list \<Rightarrow> nat \<Rightarrow> nat list \<Rightarrow> check_blocks list \<Rightarrow> mfunction \<Rightarrow> bool" where
  "pass_inv E before mbb after ks mf \<longleftrightarrow>
     layout mf = before @ mbb # after \<and> distinct (layout mf) \<and> (\<forall>b \<in> set (layout mf). b < next_mbb mf) \<and>
     (\<forall>k \<in> set ks. check_in E mf k) \<and> mbb \<notin> in_checks ks \<and>
     (\<forall>b \<in> set before - in_checks ks. list_all (clean E) (instrs (body mf b))) \<and>
     (\<forall>b \<in> set after - in_checks ks. source_block E (instrs (body mf b)))"

definition weight :: "mfunction \<Rightarrow> nat list \<Rightarrow> nat" where
  "weight mf bs = (\<Sum>b \<leftarrow> bs. 1 + 7 * triggers (instrs (body mf b)))"

lemma weight_simps [simp]:
  "weight mf [] = 0" "weight mf (b # bs) = 1 + 7 * triggers (instrs (body mf b)) + weight mf bs"
  "weight mf (as @ bs) = weight mf as + weight mf bs"
  by (simp_all add: weight_def)

lemma weight_cong: "(\<And>b. b \<in> set bs \<Longrightarrow> triggers (instrs (body mf' b)) = triggers (instrs (body mf b))) \<Longrightarrow> weight mf' bs = weight mf bs"
  by (induction bs) simp_all

lemma quiet_triggers: "list_all quiet is \<Longrightarrow> triggers is = 0"
  by (induction "is") (simp_all add: quiet_def)

text \<open>Only blocks outside of the checks load the target of a branch.\<close>

lemma check_in_load:
  assumes "check_in E mf k" and "mbb \<in> set (succs (body mf d))" and "mbb \<notin> set (blocks_of k)"
    and "i < length (instrs (body mf d))" and "i_opcode (instrs (body mf d) ! i) = MOV64rm"
  shows "d \<notin> set (blocks_of k)"
proof
  assume "d \<in> set (blocks_of k)"
  then consider "d = ICJMBB k" | "d \<in> set (inner_blocks k)" by (auto simp: blocks_of_def)
  then show False
  proof cases
    case 1
    then show ?thesis using check_in_branch [OF assms(1)] assms(4,5) nth_mem by blast
  next
    case 2
    then show ?thesis using assms(1-3) unfolding check_in_def by blast
  qed
qed

lemma pass_inv_narrow:
  assumes inv: "pass_inv E before mbb after ks mf" and d: "d \<noteq> mbb" "d \<in> set (layout mf)" "mbb \<in> set (succs (body mf d))"
    and i: "i < length (instrs (body mf d))" "i_opcode (instrs (body mf d) ! i) = MOV64rm"
    and mf': "mf' = upd_block d (\<lambda>m. m\<lparr> instrs := (instrs m)[i := narrow_load r (instrs m ! i)] \<rparr>) mf"
  shows "pass_inv E before mbb after ks mf'" and "triggers (instrs (body mf' b)) = triggers (instrs (body mf b))"
    and "next_mbb mf' = next_mbb mf"
proof -
  have body: "body mf' b = (if b = d then (body mf d)\<lparr> instrs := (instrs (body mf d))[i := narrow_load r (instrs (body mf d) ! i)] \<rparr>
      else body mf b)" for b by (simp add: mf')
  have lay: "layout mf' = layout mf" "next_mbb mf' = next_mbb mf" by (simp_all add: mf')
  have out: "d \<notin> in_checks ks"
    using inv check_in_load [OF _ d(3) _ i] unfolding pass_inv_def in_checks_def by blast
  note I = inv [unfolded pass_inv_def]
  have "check_in E mf' k" if k: "k \<in> set ks" for k
  proof (rule check_in_keep [of E mf k])
    show "check_in E mf k" using I k by blast
    have "\<forall>c \<in> set (blocks_of k). c \<noteq> d" using out k unfolding in_checks_def by blast
    then show "\<forall>c \<in> set (blocks_of k). body mf' c = body mf c" by (simp add: body)
  qed (simp_all add: lay)
  moreover have "list_all (clean E) (instrs (body mf' b))" if "b \<in> set before - in_checks ks" for b
  proof -
    have "list_all (clean E) (instrs (body mf b))" using I that by blast
    then show ?thesis by (cases "b = d") (simp_all add: body clean_update)
  qed
  moreover have "source_block E (instrs (body mf' b))" if "b \<in> set after - in_checks ks" for b
  proof -
    have "source_block E (instrs (body mf b))" using I that by blast
    then show ?thesis using source_update [OF _ i] by (cases "b = d") (simp_all add: body)
  qed
  ultimately show "pass_inv E before mbb after ks mf'" using I unfolding pass_inv_def lay by blast
  show "triggers (instrs (body mf' b)) = triggers (instrs (body mf b))" using triggers_update [OF i] by (simp add: body)
  show "next_mbb mf' = next_mbb mf" by (rule lay(2))
qed

section \<open>The target of a branch\<close>

text \<open>What \<open>sandbox_target\<close> may do when nothing follows the branch.\<close>

lemma sandbox_target_cases:
  assumes "i_opcode mi \<noteq> MOV64rm"
  obtains (move) "sandbox_target mbb r mi (pre, []) mf = ((pre @ [move_self r], []), mf)"
    | (narrow) i where "i < length pre" "sandbox_target mbb r mi (pre, []) mf = ((pre[i := narrow_load r (pre ! i)], []), mf)"
    | (pred) d i where "d \<noteq> mbb" "d \<in> set (layout mf)" "mbb \<in> set (succs (body mf d))" "i < length (instrs (body mf d))"
        "i_opcode (instrs (body mf d) ! i) = MOV64rm"
        "sandbox_target mbb r mi (pre, []) mf = ((pre, []),
           upd_block d (\<lambda>m. m\<lparr> instrs := (instrs m)[i := narrow_load r (instrs m ! i)] \<rparr>) mf)"
proof -
  have at: "i < length pre" if "last_def r (pre @ [mi]) = Some i" "i_opcode ((pre @ [mi]) ! i) = MOV64rm" for i
    using last_def_less [OF that(1)] that(2) assms by (cases "i = length pre") auto
  show ?thesis
  proof (cases "last_def r pre")
    case (Some i)
    then have "i < length pre" by (rule last_def_less)
    then show ?thesis using that(1,2) Some
      by (cases "i_opcode (pre ! i) = MOV64rm") (auto simp: sandbox_target_def Let_def nth_append list_update_append)
  next
    case None
    show ?thesis
    proof (cases "\<exists>d. preds mbb mf = [d]")
      case False
      then have "sandbox_target mbb r mi (pre, []) mf = ((pre @ [move_self r], []), mf)"
        using None by (auto simp: sandbox_target_def Let_def split: list.split)
      then show ?thesis by (rule that(1))
    next
      case True
      then obtain d where d: "preds mbb mf = [d]" by blast
      then have "d \<in> set (preds mbb mf)" by simp
      then have dl: "d \<in> set (layout mf)" "mbb \<in> set (succs (body mf d))" by (simp_all add: preds_def)
      show ?thesis
      proof (cases "d = mbb")
        case True
        show ?thesis
        proof (cases "\<exists>i. last_def r (pre @ [mi]) = Some i \<and> i_opcode ((pre @ [mi]) ! i) = MOV64rm")
          case False
          then have "sandbox_target mbb r mi (pre, []) mf = ((pre @ [move_self r], []), mf)"
            using None d True by (auto simp: sandbox_target_def Let_def split: option.split)
          then show ?thesis by (rule that(1))
        next
          case ex: True
          then obtain i where i: "last_def r (pre @ [mi]) = Some i" "i_opcode ((pre @ [mi]) ! i) = MOV64rm" by blast
          then show ?thesis using that(2) [OF at [OF i]] at [OF i] None d True
            by (simp add: sandbox_target_def Let_def nth_append list_update_append)
        qed
      next
        case False
        show ?thesis
        proof (cases "\<exists>i. last_def r (instrs (body mf d)) = Some i \<and> i_opcode (instrs (body mf d) ! i) = MOV64rm")
          case no: False
          then have "sandbox_target mbb r mi (pre, []) mf = ((pre @ [move_self r], []), mf)"
            using None d False by (auto simp: sandbox_target_def Let_def split: option.split)
          then show ?thesis by (rule that(1))
        next
          case True
          then obtain i where i: "last_def r (instrs (body mf d)) = Some i" "i_opcode (instrs (body mf d) ! i) = MOV64rm" by blast
          then show ?thesis using that(3) [OF False dl, of i] None d False last_def_less
            by (simp add: sandbox_target_def Let_def)
        qed
      qed
    qed
  qed
qed

lemma sandbox_target_inv:
  assumes inv: "pass_inv E before mbb after ks mf" and pre: "list_all (clean E) pre" and mi: "i_opcode mi \<noteq> MOV64rm"
  shows "\<exists>pre' mf'. sandbox_target mbb r mi (pre, []) mf = ((pre', []), mf') \<and> list_all (clean E) pre' \<and>
    pass_inv E before mbb after ks mf' \<and> weight mf' after = weight mf after \<and> next_mbb mf' = next_mbb mf"
  using mi
proof (cases rule: sandbox_target_cases [of mi mbb r pre mf, case_names move narrow pred])
  case move
  then show ?thesis using inv pre clean_move_self by simp
next
  case (narrow i)
  then show ?thesis using inv clean_update [OF pre] by simp
next
  case (pred d i)
  note n = pass_inv_narrow [OF inv pred(1-5) refl, where r = r]
  show ?thesis unfolding pred(6) using pre n(1,3) weight_cong [OF n(2)] by simp
qed

section \<open>The registers of a check\<close>

lemma set_in_order [simp]: "set (in_order td gs) = set gs" "distinct (in_order td gs) = distinct gs"
  by (simp_all add: in_order_def)

lemma scratch_regs:
  "distinct (scratch_regs td mi)" "RSP \<notin> set (scratch_regs td mi)" "scratch_regs td mi \<noteq> []"
  "g \<in> set (used_gprs mi) \<Longrightarrow> g \<noteq> R11 \<Longrightarrow> g \<notin> set (scratch_regs td mi)"
proof -
  have "R11 \<in> set (scratch_regs td mi)" by (simp add: scratch_regs_def)
  then show "scratch_regs td mi \<noteq> []" by auto
qed (auto simp: scratch_regs_def)

lemma getX64ScratchReg:
  "getX64ScratchReg td x y \<noteq> x" "getX64ScratchReg td x y \<noteq> y" "getX64ScratchReg td x y \<noteq> RSP"
proof -
  let ?f = "filter (\<lambda>g. x \<noteq> g \<and> y \<noteq> g) (in_order td GRegs)"
  have "\<exists>g \<in> set GRegs. x \<noteq> g \<and> y \<noteq> g"
    by (cases "x \<noteq> RAX \<and> y \<noteq> RAX"; cases "x \<noteq> RBX \<and> y \<noteq> RBX"; cases "x \<noteq> RCX \<and> y \<noteq> RCX") (auto simp: GRegs_def)
  then have "?f \<noteq> []" by (auto simp: filter_empty_conv)
  then have "hd ?f \<in> set ?f" by (rule hd_in_set)
  then show "getX64ScratchReg td x y \<noteq> x" "getX64ScratchReg td x y \<noteq> y" "getX64ScratchReg td x y \<noteq> RSP"
    by (auto simp: getX64ScratchReg_def GRegs_def)
qed

text \<open>The three registers of a check are different, unless the target is in \<open>R11\<close>, and none of the identifiers is in the stack pointer.\<close>

lemma id_regs:
  assumes "id_regs td x gs = ((b, bs), (t, ts))" and "distinct gs" and "x \<in> set gs \<longrightarrow> x = R11 \<and> via_R11 E" and "RSP \<notin> set gs"
  shows "b \<noteq> t" "x \<in> {b, t} \<longrightarrow> x = R11 \<and> via_R11 E" "RSP \<notin> {b, t}"
  using assms getX64ScratchReg [of td] by (auto simp: id_regs_def Let_def split: list.splits) metis+

lemma branch_target_inv:
  assumes inv: "pass_inv E before mbb after ks mf" and pre: "list_all (clean E) pre"
    and mi: "source_instr E mi" "i_opcode mi \<in> set indirect_ops" "i_ir mi \<noteq> None"
  shows "\<exists>x gs pre' mf'. branch_target td mbb mi (pre, []) mf = (x, gs, (pre', []), mf') \<and> list_all (clean E) pre' \<and>
    pass_inv E before mbb after ks mf' \<and> weight mf' after = weight mf after \<and> next_mbb mf' = next_mbb mf \<and>
    distinct gs \<and> (x \<in> set gs \<longrightarrow> x = R11 \<and> via_R11 E) \<and> RSP \<notin> set gs"
proof (cases "i_opcode mi \<in> {JMP64r, TAILJMPr64, CALL64r}")
  case True
  then obtain g st os where g: "i_operands mi = Reg (Gpr g I64) st # os" "Define \<notin> set st" "g = R11 \<longrightarrow> via_R11 E"
    using mi True unfolding source_instr_def by blast
  have "g \<in> set (used_gprs mi)" using g by (auto simp: used_gprs_def)
  then have "g \<in> set (scratch_regs td mi) \<longrightarrow> g = R11 \<and> via_R11 E" using scratch_regs(4) g(3) by blast
  moreover have "i_opcode mi \<noteq> MOV64rm" using True by auto
  ultimately show ?thesis
    using sandbox_target_inv [OF inv pre, of mi "Gpr g I64"] scratch_regs(1,2) [of td mi] True g(1)
    by (force simp: branch_target_def Let_def)
next
  case False
  let ?s = "scratch_regs td mi"
  obtain x gs where s: "?s = x # gs" using scratch_regs(3) [of td mi] by (cases ?s) auto
  have "distinct (x # gs)" "RSP \<notin> set gs" using scratch_regs(1,2) [of td mi] s by auto
  moreover have "clean E (BuildMI MOV32rm os)" for os by (simp add: clean_def BuildMI_def indirect_op)
  ultimately show ?thesis using False s inv pre by (simp add: branch_target_def Let_def)
qed

section \<open>Metadata\<close>

lemma find_from_ge: "find_from t w pos = Some i \<Longrightarrow> pos \<le> i"
  unfolding find_from_def find_Some_iff by (metis atLeastLessThan_iff nth_mem set_upt)

lemma sanitize_loop_returns: "w \<noteq> [] \<Longrightarrow> \<exists>r. sanitize_loop t w pos res = Some r"
proof (induction "length t - pos" arbitrary: pos res rule: less_induct)
  case less
  show ?case
  proof (cases "find_from t w pos")
    case None
    then show ?thesis by (subst sanitize_loop.simps) simp
  next
    case (Some i)
    define p where "p = skip_while (\<lambda>c. isalnum c \<or> c = CHR ''_'' \<or> c = CHR '':'') t (i + length w)"
    have p: "pos < p" using find_from_ge [OF Some] less.prems by (cases w) (auto simp: p_def skip_while_def)
    show ?thesis
    proof (cases "p \<ge> length t")
      case True
      then show ?thesis using Some by (subst sanitize_loop.simps) (simp add: p_def [symmetric])
    next
      case False
      let ?q = "if t ! p = CHR ''.'' then skip_while (\<lambda>c. c = CHR ''.'' \<or> isalnum c) t p else p"
      have "p \<le> ?q" by (simp add: skip_while_def)
      then have "length t - ?q < length t - pos" using p False by linarith
      from less.hyps [OF this less.prems] show ?thesis using Some False
        by (subst sanitize_loop.simps) (simp add: p_def [symmetric] Let_def)
    qed
  qed
qed

lemma FuncTypeStr_returns: "\<exists>r. FuncTypeStr ty = Some r"
proof -
  have T: "\<exists>r. TypeStr t = Some r" for t
    using sanitize_loop_returns [of "''%struct.''" t 0 "[]"] sanitize_loop_returns [of "''%'' @ [CHR 0x22] @ ''class.''"]
    by (auto simp: TypeStr_def SanitizeTypeStr_def)
  have F: "\<exists>r. foldM (\<lambda>p s. map_option (\<lambda>q. s @ q @ ''@'') (TypeStr p)) ps s = Some r" for ps s
  proof (induction ps arbitrary: s)
    case (Cons p ps)
    obtain q where "TypeStr p = Some q" using T by blast
    then show ?case using Cons.IH [of "s @ q @ ''@''"] by simp
  qed simp
  obtain r where r: "TypeStr (ret_type ty) = Some r" using T by blast
  obtain q where "foldM (\<lambda>p s. map_option (\<lambda>q. s @ q @ ''@'') (TypeStr p)) (param_types ty) (r @ ''!'') = Some q" using F by blast
  then show ?thesis using r by (simp add: FuncTypeStr_def)
qed

lemma icf_entry_returns: "\<exists>r. icf_entry slot v ty = Some r"
  using FuncTypeStr_returns [of ty] by (auto simp: icf_entry_def split: option.splits)

section \<open>Inserting a check\<close>

lemma insert_after_middle: "a \<notin> set xs \<Longrightarrow> insert_after a b (xs @ a # ys) = xs @ a # b # ys"
  by (induction xs) auto

lemma pass_inv_check:
  assumes inv: "pass_inv E before mbb after ks mf" and small: "SmallID p = small_id E"
    and regs: "B \<noteq> T" "X \<in> {B, T} \<longrightarrow> X = R11 \<and> via_R11 E" "RSP \<notin> {B, T}" "RSP \<notin> set gs" and cj: "cj \<in> reg_ops"
    and run: "MCFIx64MBBs p mbb (Gpr B I64) (Gpr T I64) (Gpr X I64) cj ret mf = (k, mf1)"
    and mf': "mf' = upd_block (IDCmpMBB k) (\<lambda>m. m\<lparr> instrs := (hd (instrs m))\<lparr> i_ir := z \<rparr> # tl (instrs m) \<rparr>)
        (put_front (ICJMBB k) (map (\<lambda>g. BuildMI POP64r [Reg (Gpr g I64) [Define]]) gs) mf1)"
  shows "\<exists>after'. pass_inv E before mbb after' (k # ks) mf' \<and> weight mf' after' = weight mf after + 6"
proof -
  note I = inv [unfolded pass_inv_def]
  define n where "n = next_mbb mf"
  have lay: "layout mf = before @ mbb # after" and dist: "distinct (layout mf)" and bnd: "\<forall>b \<in> set (layout mf). b < n"
    using I unfolding n_def by blast+
  have mbb: "mbb \<in> set (layout mf)" "mbb < n" using lay bnd by auto
  note C = MCFIx64MBBs_check_in [OF mbb(1) bnd [unfolded n_def] small regs cj run mf', folded n_def]
  have new: "n \<notin> set (layout mf)" "n + 1 \<notin> set (layout mf)" "n + 2 \<notin> set (layout mf)" "n + 3 \<notin> set (layout mf)"
      "n + 4 \<notin> set (layout mf)" "n + 5 \<notin> set (layout mf)" using bnd by force+
  have kb: "set (blocks_of k) = {n, n + 1, n + 2, n + 3, n + 4, n + 5}" by (auto simp: C(6) blocks_of_def inner_blocks_def)
  define after' where "after' = [n, n + 1] @ after @ [n + 2, n + 3, n + 4, n + 5]"
  have l1: "insert_after mbb n (layout mf) = before @ mbb # n # after"
    using dist lay by (simp add: insert_after_middle)
  have "insert_after n (n + 1) ((before @ [mbb]) @ n # after) = (before @ [mbb]) @ n # (n + 1) # after"
    using new(1) lay by (intro insert_after_middle) auto
  then have lay': "layout mf' = before @ mbb # after'" using C(2) l1 by (simp add: after'_def)
  have keep: "body mf' b = body mf b" if "b \<noteq> mbb" "b \<in> set (layout mf)" for b using C(5) that bnd by blast
  have old: "check_in E mf' j" if j: "j \<in> set ks" for j
  proof (rule check_in_keep [of E mf j])
    show cj: "check_in E mf j" using I j by blast
    have out: "\<forall>c \<in> set (blocks_of j). c \<noteq> mbb \<and> c \<in> set (layout mf)"
      using I j cj unfolding in_checks_def check_in_def by blast
    then show "\<forall>c \<in> set (blocks_of j). body mf' c = body mf c" using keep by blast
    show "set (layout mf) \<subseteq> set (layout mf')" using lay lay' by (auto simp: after'_def)
    fix c d assume c: "c \<in> set (inner_blocks j)" "next_block c (layout mf) = Some d"
    then have "c \<noteq> mbb" "c < n" using out bnd by (auto simp: blocks_of_def)
    then show "next_block c (layout mf') = Some d"
      unfolding C(2) using c(2) by (intro next_append next_insert_other) auto
  qed
  have "distinct (layout mf')" using dist new unfolding lay lay' by (auto simp: after'_def)
  moreover have "\<forall>b \<in> set (layout mf'). b < next_mbb mf'"
  proof
    fix b assume "b \<in> set (layout mf')"
    then have "b \<in> set (layout mf) \<or> b \<in> {n, n + 1, n + 2, n + 3, n + 4, n + 5}" unfolding lay lay' after'_def by auto
    then show "b < next_mbb mf'" using bnd C(3) by (auto dest: less_imp_le)
  qed
  moreover have "\<forall>j \<in> set (k # ks). check_in E mf' j" using old C(1) by simp
  moreover have "mbb \<notin> in_checks (k # ks)" using I mbb(2) kb by (auto simp: in_checks_def)
  moreover have "list_all (clean E) (instrs (body mf' b))" if "b \<in> set before - in_checks (k # ks)" for b
  proof -
    have "b \<noteq> mbb" "b \<in> set (layout mf)" "b \<in> set before - in_checks ks" using that lay dist by (auto simp: in_checks_def)
    then show ?thesis using keep I by metis
  qed
  moreover have "source_block E (instrs (body mf' b))" if "b \<in> set after' - in_checks (k # ks)" for b
  proof -
    have "b \<in> set after - in_checks ks" using that kb by (auto simp: in_checks_def after'_def)
    moreover from this have "b \<noteq> mbb" "b \<in> set (layout mf)" using lay dist by auto
    ultimately show ?thesis using keep I by metis
  qed
  ultimately have "pass_inv E before mbb after' (k # ks) mf'" unfolding pass_inv_def using lay' by blast
  moreover have "triggers (instrs (body mf' b)) = 0" if "b \<in> set (blocks_of k)" for b
    using check_in_quiet [OF C(1) that] quiet_triggers by blast
  then have "weight mf' after' = 6 + weight mf' after" using kb by (simp add: after'_def)
  moreover have "weight mf' after = weight mf after"
  proof (rule weight_cong)
    fix b assume "b \<in> set after"
    then have "b \<noteq> mbb" "b \<in> set (layout mf)" using lay dist by auto
    then show "triggers (instrs (body mf' b)) = triggers (instrs (body mf b))" using keep by metis
  qed
  ultimately show ?thesis by auto
qed

text \<open>The check of a return is built without further edits.\<close>

lemma no_edits:
  assumes "mbb < next_mbb mf" and run: "MCFIx64MBBs p mbb br tr tg cj ret mf = (k, mf1)"
  shows "mf1 = upd_block (IDCmpMBB k) (\<lambda>m. m\<lparr> instrs := (hd (instrs m))\<lparr> i_ir := None \<rparr> # tl (instrs m) \<rparr>)
        (put_front (ICJMBB k) (map (\<lambda>g. BuildMI POP64r [Reg (Gpr g I64) [Define]]) []) mf1)"
proof -
  have k: "IDCmpMBB k = next_mbb mf" using MCFIx64MBBs_blocks [of p mbb br tr tg cj ret mf] run by simp
  from MCFIx64MBBs_body(1) [OF assms(1), of p br tr tg cj ret] run
  obtain x xs where "instrs (body mf1 (IDCmpMBB k)) = x # xs" "i_ir x = None" by (auto simp: k BuildMI_def)
  then have "(body mf1 (IDCmpMBB k))\<lparr> instrs := (hd (instrs (body mf1 (IDCmpMBB k))))\<lparr> i_ir := None \<rparr> # tl (instrs (body mf1 (IDCmpMBB k))) \<rparr>
      = body mf1 (IDCmpMBB k)" by simp
  moreover have "put_front b [] m = m" for b m by (simp add: put_front_def upd_block_def)
  ultimately show ?thesis by (simp add: upd_block_def)
qed

text \<open>The rest of a block moves behind a call.\<close>

lemma pass_inv_split:
  assumes inv: "pass_inv E before mbb after ks mf" and rest: "source_block E rest"
  shows "\<exists>after'. pass_inv E before mbb after' ks (split_block mbb rest mf) \<and>
    weight (split_block mbb rest mf) after' = weight mf after + 1 + 7 * triggers rest"
proof -
  note I = inv [unfolded pass_inv_def]
  define n and mf' where "n = next_mbb mf" and "mf' = split_block mbb rest mf"
  have lay: "layout mf = before @ mbb # after" and dist: "distinct (layout mf)" and bnd: "\<forall>b \<in> set (layout mf). b < n"
    using I unfolding n_def by blast+
  have mbb: "mbb < n" using lay bnd by auto
  have lay': "layout mf' = before @ mbb # n # after" "next_mbb mf' = n + 1" "instrs (body mf' n) = rest"
    using dist lay mbb by (simp_all add: mf'_def split_block_def Let_def split_beta insert_after_middle n_def)
  have keep: "body mf' b = body mf b" if "b \<noteq> mbb" "b < n" for b
    using that by (simp add: mf'_def split_block_def Let_def split_beta n_def)
  have new: "n \<notin> set (layout mf)" using bnd by blast
  have old: "check_in E mf' j" if j: "j \<in> set ks" for j
  proof (rule check_in_keep [of E mf j])
    show cj: "check_in E mf j" using I j by blast
    have out: "\<forall>c \<in> set (blocks_of j). c \<noteq> mbb \<and> c < n"
    proof
      fix c assume c: "c \<in> set (blocks_of j)"
      have "set (blocks_of j) \<subseteq> set (layout mf)" using cj by (simp add: check_in_def)
      moreover have "c \<noteq> mbb" using I j c unfolding in_checks_def by blast
      ultimately show "c \<noteq> mbb \<and> c < n" using c bnd by blast
    qed
    then show "\<forall>c \<in> set (blocks_of j). body mf' c = body mf c" using keep by blast
    show "set (layout mf) \<subseteq> set (layout mf')" using lay lay' by auto
    fix c d assume c: "c \<in> set (inner_blocks j)" "next_block c (layout mf) = Some d"
    have "layout mf' = insert_after mbb n (layout mf)" using lay lay' dist by (simp add: insert_after_middle)
    moreover have "c \<noteq> mbb" "c \<noteq> n" using out c(1) by (auto simp: blocks_of_def)
    ultimately show "next_block c (layout mf') = Some d" using c(2) by (simp add: next_insert_other)
  qed
  have others: "b \<noteq> mbb \<and> b < n" if "b \<in> set before \<union> set after" for b using that lay dist bnd by auto
  have "distinct (layout mf')" using dist new unfolding lay lay' by auto
  moreover have "\<forall>b \<in> set (layout mf'). b < next_mbb mf'" using bnd mbb unfolding lay lay' by (auto intro: less_SucI)
  moreover have "list_all (clean E) (instrs (body mf' b))" if "b \<in> set before - in_checks ks" for b
    using I that others keep by (metis DiffD1 UnI1)
  moreover have "source_block E (instrs (body mf' b))" if "b \<in> set (n # after) - in_checks ks" for b
  proof (cases "b = n")
    case False
    then have "b \<in> set after - in_checks ks" using that by simp
    then show ?thesis using I others keep by (metis DiffD1 UnI2)
  qed (simp add: rest lay'(3))
  ultimately have "pass_inv E before mbb (n # after) ks mf'" unfolding pass_inv_def using lay'(1) old I by blast
  moreover have "weight mf' after = weight mf after" using others keep by (intro weight_cong) simp
  ultimately show ?thesis using lay'(3) unfolding mf'_def [symmetric] by (intro exI [of _ "n # after"]) simp
qed

section \<open>A block\<close>

lemma visit_return:
  assumes inv: "pass_inv E before mbb after ks mf" and pre: "list_all (clean E) pre" and small: "SmallID p = small_id E" and mi: "i_opcode mi = RETQ"
  shows "\<exists>pre' p' mf' after' ks'. visit_instr td mbb mi (pre, []) (p, mf) = Some ((pre', []), True, p', mf') \<and>
    list_all (clean E) pre' \<and> SmallID p' = small_id E \<and> pass_inv E before mbb after' ks' mf' \<and> weight mf' after' \<le> weight mf after + 6"
proof -
  have b: "clean E (BuildMI op os)" if "op \<in> {POP64r, MOV64ri32, SYSCALL, MOV32rr}" for op os
    using that by (auto simp: clean_def BuildMI_def indirect_op)
  obtain k mf1 where run: "MCFIx64MBBs p mbb (Gpr RDI I64) (Gpr RSI I64) (Gpr RCX I64) JMP64r True mf = (k, mf1)" by fastforce
  have mbb: "mbb < next_mbb mf" using inv by (simp add: pass_inv_def)
  obtain after' where a: "pass_inv E before mbb after' (k # ks) mf1" "weight mf1 after' = weight mf after + 6"
    using pass_inv_check [OF inv small _ _ _ _ _ run no_edits [OF mbb run]] by auto
  show ?thesis
  proof (cases "SignalHandler \<in> set (mf_attrs mf)")
    case True
    then show ?thesis using inv pre small mi b by (simp add: visit_instr_def MCFIx64Ret_def Let_def) (meson le_add1)
  next
    case False
    then show ?thesis using pre small mi b run a
      by (simp add: visit_instr_def MCFIx64Ret_def Let_def) (metis le_refl)
  qed
qed

lemma indirect_call:
  assumes inv: "pass_inv E before mbb after ks mf" and pre: "list_all (clean E) pre" and small: "SmallID p = small_id E"
    and mi: "source_instr E mi" "i_opcode mi \<in> set indirect_ops" "i_ir mi \<noteq> None"
  shows "\<exists>pre' p' mf' after' ks'. MCFIx64IndirectCall td mbb mi ir (pre, []) (p, mf) = Some ((pre', []), p', mf') \<and>
    list_all (clean E) pre' \<and> SmallID p' = small_id E \<and> pass_inv E before mbb after' ks' mf' \<and> weight mf' after' = weight mf after + 6"
proof -
  obtain x gs pre1 mf1 where t: "branch_target td mbb mi (pre, []) mf = (x, gs, (pre1, []), mf1)" "list_all (clean E) pre1"
      "pass_inv E before mbb after ks mf1" "weight mf1 after = weight mf after" "distinct gs" "x \<in> set gs \<longrightarrow> x = R11 \<and> via_R11 E" "RSP \<notin> set gs"
    using branch_target_inv [OF inv pre mi(1-3)] by blast
  obtain b bs u us where r: "id_regs td x gs = ((b, bs), (u, us))" by (metis surj_pair)
  note regs = id_regs [OF r t(5-7)]
  obtain k mf2 where run: "MCFIx64MBBs p mbb (Gpr b I64) (Gpr u I64) (Gpr x I64) (branch_op (i_opcode mi)) False mf1 = (k, mf2)"
    by fastforce
  let ?pops = "(if us then [u] else []) @ (if bs then [b] else [])"
  have pops: "map (\<lambda>g. BuildMI POP64r [Reg (Gpr g I64) [Define]]) ?pops =
      (if us then [BuildMI POP64r [Reg (Gpr u I64) [Define]]] else []) @ (if bs then [BuildMI POP64r [Reg (Gpr b I64) [Define]]] else [])"
    by simp
  let ?mf = "upd_block (IDCmpMBB k) (\<lambda>m. m\<lparr> instrs := (hd (instrs m))\<lparr> i_ir := Some ir \<rparr> # tl (instrs m) \<rparr>)
        (put_front (ICJMBB k) (map (\<lambda>g. BuildMI POP64r [Reg (Gpr g I64) [Define]]) ?pops) mf2)"
  have "RSP \<notin> set ?pops" "branch_op (i_opcode mi) \<in> reg_ops"
    using regs(3) by (auto simp: branch_op_def)
  from pass_inv_check [OF t(3) small regs this run refl, of "Some ir"] obtain after' where
    a: "pass_inv E before mbb after' (k # ks) ?mf" "weight ?mf after' = weight mf after + 6" using t(4) by auto
  obtain e where e: "icf_entry (ModuleID p + ucast (BarySlot p)) (CXXVirtual ir) (ir_type ir) = Some e"
    using icf_entry_returns by blast
  have "clean E (BuildMI PUSH64r os)" for os by (simp add: clean_def BuildMI_def indirect_op)
  then have c: "list_all (clean E) (pre1 @ (if bs then [BuildMI PUSH64r [Reg (Gpr b I64) []]] else []) @
      (if us then [BuildMI PUSH64r [Reg (Gpr u I64) []]] else []))" using t(2) by simp
  have "\<exists>p'. MCFIx64IndirectCall td mbb mi ir (pre, []) (p, mf) = Some ((pre1 @ (if bs then [BuildMI PUSH64r [Reg (Gpr b I64) []]] else []) @
      (if us then [BuildMI PUSH64r [Reg (Gpr u I64) []]] else []), []), p', ?mf) \<and> SmallID p' = small_id E"
    unfolding pops using small by (simp add: MCFIx64IndirectCall_def t(1) r run e Let_def)
  then show ?thesis using a c by blast
qed

lemma visit_branch:
  assumes inv: "pass_inv E before mbb after ks mf" and pre: "list_all (clean E) pre" and small: "SmallID p = small_id E"
    and mi: "source_instr E mi" "i_opcode mi \<in> set indirect_ops" "i_ir mi \<noteq> None" "source_block E rest" "\<not> ends_block mi \<or> rest = []"
  shows "\<exists>pre' p' mf' after' ks'. visit_instr td mbb mi (pre, rest) (p, mf) = Some ((pre', []), True, p', mf') \<and>
    list_all (clean E) pre' \<and> SmallID p' = small_id E \<and> pass_inv E before mbb after' ks' mf' \<and>
    weight mf' after' \<le> weight mf after + 7 + 7 * triggers rest"
proof -
  obtain ir where ir: "i_ir mi = Some ir" using mi(3) by blast
  have op: "i_opcode mi \<noteq> RETQ" "i_opcode mi \<noteq> TAILJMPd64" using mi(2) by (auto simp: indirect_op)
  let ?mf = "if rest \<noteq> [] then split_block mbb rest mf else mf"
  have call: "rest \<noteq> [] \<Longrightarrow> i_opcode mi \<in> {CALL64m, CALL64r}" using mi(2,3,5) by (auto simp: indirect_op ends_block_def)
  obtain after1 where a: "pass_inv E before mbb after1 ks ?mf" "weight ?mf after1 \<le> weight mf after + 1 + 7 * triggers rest"
    using pass_inv_split [OF inv mi(4)] inv by (cases "rest = []") auto
  obtain pre' p' mf' after' ks' where
    c: "MCFIx64IndirectCall td mbb mi ir (pre, []) (p, ?mf) = Some ((pre', []), p', mf')" "list_all (clean E) pre'" "SmallID p' = small_id E"
      "pass_inv E before mbb after' ks' mf'" "weight mf' after' = weight ?mf after1 + 6"
    using indirect_call [OF a(1) pre small mi(1-3)] by blast
  have "visit_instr td mbb mi (pre, rest) (p, mf) = map_option (\<lambda>(cur, s). (cur, True, s)) (MCFIx64IndirectCall td mbb mi ir (pre, []) (p, ?mf))"
    using op ir mi(2) call by (cases "rest = []") (auto simp: visit_instr_def Let_def)
  then have "visit_instr td mbb mi (pre, rest) (p, mf) = Some ((pre', []), True, p', mf')" using c(1) by simp
  moreover have "weight mf' after' \<le> weight mf after + 7 + 7 * triggers rest" using c(5) a(2) by linarith
  ultimately show ?thesis using c(2-4) by blast
qed

text \<open>A block is cleaned; what is new stands behind it, and the work that is left shrinks.\<close>

lemma visit_block:
  assumes inv: "pass_inv E before mbb after ks mf" and small: "SmallID p = small_id E" and "is": "source_block E is"
  shows "\<exists>is' p' mf' after' ks'. visit_instrs td mbb ([], is) (p, mf) = Some (is', p', mf') \<and> list_all (clean E) is' \<and>
    SmallID p' = small_id E \<and> pass_inv E before mbb after' ks' mf' \<and> weight mf' after' \<le> weight mf after + 7 * triggers is"
proof (cases "\<exists>mi \<in> set is. trigger mi")
  case False
  then have "\<forall>mi \<in> set is. \<not> trigger mi \<and> source_instr E mi" using "is" by (auto simp: source_block_def list_all_iff)
  from visit_others [OF this, of td mbb "[]" "[]" p mf] obtain xs p' where
    "visit_instrs td mbb ([], is) (p, mf) = Some (xs, p', mf)" "list_all (clean E) xs" "SmallID p' = SmallID p" by auto
  then show ?thesis using inv small by (metis le_add1)
next
  case True
  then obtain as mi rest where s: "is = as @ mi # rest" "trigger mi" "\<forall>x \<in> set as. \<not> trigger x"
    using split_list_first_prop by metis
  have "\<forall>x \<in> set as. \<not> trigger x \<and> source_instr E x" using s(1,3) "is" by (auto simp: source_block_def list_all_iff)
  from visit_others [OF this, of td mbb "[]" "mi # rest" p mf] obtain xs p1 where
    1: "visit_instrs td mbb ([], is) (p, mf) = visit_instrs td mbb (xs, mi # rest) (p1, mf)" "list_all (clean E) xs" "SmallID p1 = small_id E"
    using s(1) small by auto
  have mi: "source_instr E mi" "source_block E rest" "\<not> ends_block mi \<or> rest = []"
    using "is" source_block_suffix [of E "as @ [mi]" rest] unfolding s(1) by (auto simp: source_block_def butlast_append split: if_splits)
  have t: "triggers is = 1 + triggers rest" using s by (simp add: filter_empty_conv)
  have "\<exists>pre' p' mf' after' ks'. visit_instr td mbb mi (xs, rest) (p1, mf) = Some ((pre', []), True, p', mf') \<and>
    list_all (clean E) pre' \<and> SmallID p' = small_id E \<and> pass_inv E before mbb after' ks' mf' \<and>
    weight mf' after' \<le> weight mf after + 7 + 7 * triggers rest"
  proof (cases "i_opcode mi = RETQ")
    case True
    then have "rest = []" using mi(3) by (simp add: ends_block_def)
    moreover obtain pre' p' mf' after' ks' where "visit_instr td mbb mi (xs, []) (p1, mf) = Some ((pre', []), True, p', mf')"
      "list_all (clean E) pre'" "SmallID p' = small_id E" "pass_inv E before mbb after' ks' mf'" "weight mf' after' \<le> weight mf after + 6"
      using visit_return [OF inv 1(2,3) True] by blast
    ultimately show ?thesis
      by (intro exI [of _ pre'] exI [of _ p'] exI [of _ mf'] exI [of _ after'] exI [of _ ks']) simp
  next
    case False
    then have "i_opcode mi \<in> set indirect_ops" "i_ir mi \<noteq> None" using s(2) by (auto simp: trigger_def)
    then show ?thesis using visit_branch [OF inv 1(2,3) mi(1) _ _ mi(2,3)] by blast
  qed
  then obtain pre' p' mf' after' ks' where v: "visit_instr td mbb mi (xs, rest) (p1, mf) = Some ((pre', []), True, p', mf')"
    "list_all (clean E) pre'" "SmallID p' = small_id E" "pass_inv E before mbb after' ks' mf'"
    "weight mf' after' \<le> weight mf after + 7 + 7 * triggers rest" by blast
  then show ?thesis using 1(1) t by (intro exI [of _ pre'] exI [of _ p'] exI [of _ mf'] exI [of _ after'] exI [of _ ks']) simp
qed

section \<open>What the description of a function depends on\<close>

text \<open>The pass changes neither the name, the attributes and the type of the function nor the list of destructors.\<close>

definition signature :: "mfunction \<Rightarrow> string \<times> fn_attr list \<times> fn_type" where
  "signature mf = (mf_name mf, mf_attrs mf, mf_type mf)"

lemma signature_blocks [simp]:
  "signature (snd (CreateMachineBasicBlock mf)) = signature mf" "signature (mf_insert a b mf) = signature mf"
  "signature (mf_push_back b mf) = signature mf" "signature (upd_block b f mf) = signature mf"
  by (simp_all add: signature_def CreateMachineBasicBlock_def mf_insert_def mf_push_back_def upd_block_def)

lemma signature_parts [simp]:
  "signature (addSuccessor a b mf) = signature mf" "signature (addLiveIn a r mf) = signature mf"
  "signature (transferSuccessors a b mf) = signature mf" "signature (put_front b is mf) = signature mf"
  "signature (addMBB_back a b mf) = signature mf"
  by (simp_all add: addSuccessor_def addLiveIn_def transfer_eq put_front_def addMBB_back_def)

lemma signature_check [simp]: "signature (snd (MCFIx64MBBs p mbb br tr tg cj ret mf)) = signature mf"
  by (simp add: MCFIx64MBBs_def Let_def split_beta check_parts)

lemma signature_split [simp]: "signature (split_block mbb rest mf) = signature mf"
  by (simp add: split_block_def Let_def split_beta)

lemma signature_target:
  "signature (snd (sandbox_target mbb r mi cur mf)) = signature mf"
  by (cases cur) (auto simp: sandbox_target_def Let_def split: option.splits if_splits list.splits)

lemma signature_branch:
  "signature (snd (snd (snd (branch_target td mbb mi cur mf)))) = signature mf"
  by (auto simp: branch_target_def Let_def split_beta signature_target split: if_splits list.splits operand.splits reg.splits)

definition described :: "mcfi \<times> mfunction \<Rightarrow> string list \<times> string \<times> fn_attr list \<times> fn_type" where
  "described s = (GlobalDtors (fst s), signature (snd s))"

lemma described_Ret:
  "GlobalDtors (fst (snd (MCFIx64Ret mbb cur s))) = GlobalDtors (fst s)" "signature (snd (snd (MCFIx64Ret mbb cur s))) = signature (snd s)"
  by (auto simp: MCFIx64Ret_def Let_def split_beta split: prod.splits)

lemma described_call:
  assumes "MCFIx64IndirectCall td mbb mi ir cur s = Some (cur', s')"
  shows "described s' = described s"
proof -
  obtain p mf where s: "s = (p, mf)" by force
  have "signature (snd s') = signature mf \<and> GlobalDtors (fst s') = GlobalDtors p"
    using assms signature_branch [of td mbb mi cur mf]
    by (auto simp: s MCFIx64IndirectCall_def Let_def bind_eq_Some_conv split_beta)
  then show ?thesis by (simp add: described_def s)
qed

lemma described_visit: "visit_instr td mbb mi cur s = Some (cur', n, s') \<Longrightarrow> described s' = described s"
  by (cases cur; cases s) (auto simp: visit_instr_def Let_def split_beta described_Ret described_def
      split: if_splits option.splits dest!: described_call)

lemma described_visits: "visit_instrs td mbb cur s = Some (is, s') \<Longrightarrow> described s' = described s"
proof (induction td mbb cur s rule: visit_instrs.induct)
  case (2 td mbb pre mi rest s)
  then show ?case by (auto split: option.splits if_splits dest!: described_visit)
qed simp

section \<open>The whole function\<close>

definition loop_inv :: "pass_env \<Rightarrow> nat list \<Rightarrow> nat list \<Rightarrow> check_blocks list \<Rightarrow> mfunction \<Rightarrow> bool" where
  "loop_inv E before bs ks mf \<longleftrightarrow>
     layout mf = before @ bs \<and> distinct (layout mf) \<and> (\<forall>b \<in> set (layout mf). b < next_mbb mf) \<and>
     (\<forall>k \<in> set ks. check_in E mf k) \<and>
     (\<forall>b \<in> set before - in_checks ks. list_all (clean E) (instrs (body mf b))) \<and>
     (\<forall>b \<in> set bs - in_checks ks. source_block E (instrs (body mf b)))"

lemma next_block_middle:
  "distinct (before @ mbb # after) \<Longrightarrow> next_block mbb (before @ mbb # after) = (case after of [] \<Rightarrow> None | b # _ \<Rightarrow> Some b)"
  by (subst next_append_right) (auto split: list.split)

text \<open>A block of a check is passed unchanged; any other block is cleaned.\<close>

lemma loop_step:
  assumes inv: "loop_inv E before (mbb # after) ks mf" and small: "SmallID p = small_id E"
  shows "\<exists>is' p' mf' after' ks'. visit_instrs td mbb ([], instrs (body mf mbb)) (p, mf) = Some (is', p', mf') \<and> SmallID p' = small_id E \<and>
    loop_inv E (before @ [mbb]) after' ks' (upd_block mbb (\<lambda>m. m\<lparr> instrs := is' \<rparr>) mf') \<and>
    weight (upd_block mbb (\<lambda>m. m\<lparr> instrs := is' \<rparr>) mf') after' < weight mf (mbb # after)"
proof (cases "mbb \<in> in_checks ks")
  case True
  then obtain k where k: "k \<in> set ks" "mbb \<in> set (blocks_of k)" by (auto simp: in_checks_def)
  then have "list_all quiet (instrs (body mf mbb))" using inv check_in_quiet unfolding loop_inv_def by blast
  from visit_quiets [OF this, of td mbb "[]"]
  have v: "visit_instrs td mbb ([], instrs (body mf mbb)) (p, mf) = Some (instrs (body mf mbb), p, mf)" by simp
  have same: "upd_block mbb (\<lambda>m. m\<lparr> instrs := instrs (body mf mbb) \<rparr>) mf = mf" by (simp add: upd_block_def)
  have "loop_inv E (before @ [mbb]) after ks mf" using inv True unfolding loop_inv_def by auto
  then show ?thesis using v small same
    by (intro exI [of _ "instrs (body mf mbb)"] exI [of _ p] exI [of _ mf] exI [of _ after] exI [of _ ks]) simp
next
  case False
  then have pi: "pass_inv E before mbb after ks mf" and sb: "source_block E (instrs (body mf mbb))"
    using inv unfolding loop_inv_def pass_inv_def by auto
  from visit_block [OF pi small sb, of td] obtain is' p' mf' after' ks' where
    v: "visit_instrs td mbb ([], instrs (body mf mbb)) (p, mf) = Some (is', p', mf')" "list_all (clean E) is'" "SmallID p' = small_id E"
      "pass_inv E before mbb after' ks' mf'" "weight mf' after' \<le> weight mf after + 7 * triggers (instrs (body mf mbb))" by blast
  note I = v(4) [unfolded pass_inv_def]
  let ?mf = "upd_block mbb (\<lambda>m. m\<lparr> instrs := is' \<rparr>) mf'"
  have body: "b \<noteq> mbb \<Longrightarrow> body ?mf b = body mf' b" "instrs (body ?mf mbb) = is'" for b by simp_all
  have notin: "b \<noteq> mbb" if "b \<in> set before \<union> set after'" for b using I that by auto
  have "check_in E ?mf k" if k: "k \<in> set ks'" for k
  proof (rule check_in_keep [of E mf' k])
    show "check_in E mf' k" using I k by blast
    have "\<forall>c \<in> set (blocks_of k). c \<noteq> mbb" using I k unfolding in_checks_def by blast
    then show "\<forall>c \<in> set (blocks_of k). body ?mf c = body mf' c" using body(1) by blast
  qed simp_all
  moreover have "list_all (clean E) (instrs (body ?mf b))" if "b \<in> set (before @ [mbb]) - in_checks ks'" for b
  proof (cases "b = mbb")
    case False
    then have "b \<in> set before - in_checks ks'" using that by simp
    then show ?thesis using I body(1) [OF False] by metis
  qed (use body(2) v(2) in simp)
  moreover have "source_block E (instrs (body ?mf b))" if b: "b \<in> set after' - in_checks ks'" for b
    using I b body(1) notin [of b] by (metis DiffD1 UnI2)
  moreover have "layout ?mf = (before @ [mbb]) @ after'" using I by simp
  moreover have "distinct (layout ?mf)" "\<forall>b \<in> set (layout ?mf). b < next_mbb ?mf"
    unfolding upd_block_fields using I by blast+
  ultimately have "loop_inv E (before @ [mbb]) after' ks' ?mf" unfolding loop_inv_def by blast
  moreover have "weight ?mf after' = weight mf' after'" using notin by (intro weight_cong) simp
  ultimately show ?thesis using v
    by (intro exI [of _ is'] exI [of _ p'] exI [of _ mf'] exI [of _ after'] exI [of _ ks']) simp
qed

lemma visit_blocks_inv:
  assumes "loop_inv E before bs ks mf" and "SmallID p = small_id E"
  shows "\<exists>p' mf' ks'. visit_blocks td (case bs of [] \<Rightarrow> None | b # _ \<Rightarrow> Some b) (p, mf) = Some (p', mf') \<and>
    loop_inv E (layout mf') [] ks' mf' \<and> described (p', mf') = described (p, mf)"
  using assms
proof (induction "weight mf bs" arbitrary: before bs ks mf p rule: less_induct)
  case less
  show ?case
  proof (cases bs)
    case Nil
    then show ?thesis using less.prems by (subst visit_blocks.simps) (auto simp: loop_inv_def)
  next
    case (Cons mbb after)
    from loop_step [of E before mbb after ks mf p td] less.prems Cons obtain is' p' mf' after' ks' where
      s: "visit_instrs td mbb ([], instrs (body mf mbb)) (p, mf) = Some (is', p', mf')" "SmallID p' = small_id E"
        "loop_inv E (before @ [mbb]) after' ks' (upd_block mbb (\<lambda>m. m\<lparr> instrs := is' \<rparr>) mf')"
        "weight (upd_block mbb (\<lambda>m. m\<lparr> instrs := is' \<rparr>) mf') after' < weight mf (mbb # after)" by auto
    let ?mf = "upd_block mbb (\<lambda>m. m\<lparr> instrs := is' \<rparr>) mf'"
    have "next_block mbb (layout ?mf) = (case after' of [] \<Rightarrow> None | b # _ \<Rightarrow> Some b)"
    proof -
      have l: "layout ?mf = before @ mbb # after'" using s(3) unfolding loop_inv_def by simp
      have "distinct (layout ?mf)" using s(3) unfolding loop_inv_def by blast
      then show ?thesis unfolding l by (rule next_block_middle)
    qed
    then have "visit_blocks td (Some mbb) (p, mf) = visit_blocks td (case after' of [] \<Rightarrow> None | b # _ \<Rightarrow> Some b) (p', ?mf)"
      by (subst visit_blocks.simps) (simp add: s(1) del: upd_block_fields)
    moreover have "described (p', ?mf) = described (p, mf)" using described_visits [OF s(1)] by (simp add: described_def)
    ultimately show ?thesis using less.hyps [of ?mf after' "before @ [mbb]" ks' p'] s(2-4) Cons by simp
  qed
qed

text \<open>A function whose only indirect branches are those left alone and those that end the branch blocks of whole checks. The
  identifiers of a check are in different registers, and the target is in a third one unless a branch goes through \<open>R11\<close>. With
  identifiers of 64 bits the check, linked to a slot, is then the code that \<open>Mcfi_Check\<close> is about.\<close>

definition checked_branch :: "pass_env \<Rightarrow> mfunction \<Rightarrow> nat \<Rightarrow> instr \<Rightarrow> bool" where
  "checked_branch E mf b mi \<longleftrightarrow> mi = last (instrs (body mf b)) \<and>
     (\<exists>k B T X y. ICJMBB k = b \<and> distinct (blocks_of k) \<and> set (blocks_of k) \<subseteq> set (layout mf) \<and>
        mi = (BuildMI (i_opcode mi) [Reg (Gpr X I64) []])\<lparr> i_bary := Some y \<rparr> \<and>
        check_text E mf k B T X (i_opcode mi) y \<and> B \<noteq> T \<and> (X \<in> {B, T} \<longrightarrow> X = R11 \<and> via_R11 E) \<and>
        (\<not> small_id E \<and> X \<notin> {B, T} \<longrightarrow> (\<forall>slot < 2 ^ 31. check_code (link_function (IDCmpMBB k) slot mf) k B T X slot)))"

definition mediated :: "pass_env \<Rightarrow> mfunction \<Rightarrow> bool" where
  "mediated E mf \<longleftrightarrow> (\<forall>b \<in> set (layout mf). \<forall>mi \<in> set (instrs (body mf b)).
     i_opcode mi \<noteq> RETQ \<and>
     (i_opcode mi \<in> set indirect_ops \<longrightarrow> i_ir mi = None \<and> mi \<in> left_alone E \<or> checked_branch E mf b mi))"

lemma loop_inv_mediated:
  assumes "loop_inv E (layout mf) [] ks mf"
  shows "mediated E mf"
  unfolding mediated_def
proof (intro ballI)
  fix b mi assume b: "b \<in> set (layout mf)" and mi: "mi \<in> set (instrs (body mf b))"
  show "i_opcode mi \<noteq> RETQ \<and>
     (i_opcode mi \<in> set indirect_ops \<longrightarrow> i_ir mi = None \<and> mi \<in> left_alone E \<or> checked_branch E mf b mi)"
  proof (cases "clean E mi")
    case True
    then show ?thesis by (simp add: clean_def)
  next
    case False
    then have nc: "\<not> list_all (clean E) (instrs (body mf b))" using mi by (auto simp: list_all_iff)
    then have "b \<in> in_checks ks" using assms b unfolding loop_inv_def by blast
    then obtain k where k: "k \<in> set ks" "b \<in> set (blocks_of k)" "check_in E mf k"
      using assms unfolding loop_inv_def in_checks_def by blast
    have "b \<notin> set (inner_blocks k)" using check_in_clean [OF k(3)] nc by blast
    then have bk: "b = ICJMBB k" using k(2) by (simp add: blocks_of_def)
    then have l: "mi = last (instrs (body mf b))" using check_in_branch [OF k(3)] mi False by blast
    have sub: "distinct (blocks_of k)" "set (blocks_of k) \<subseteq> set (layout mf)" using k(3) by (simp_all add: check_in_def)
    from k(3) show ?thesis
    proof (cases rule: check_inE)
      case (1 B T X cj y disp z gs)
      have m: "mi = (BuildMI cj [Reg (Gpr X I64) []])\<lparr> i_bary := Some y \<rparr>" using l unfolding bk 1(8) by simp
      then have op: "i_opcode mi = cj" by (simp add: BuildMI_def)
      have "\<not> small_id E \<and> X \<notin> {B, T} \<longrightarrow> (\<forall>slot < 2 ^ 31. check_code (link_function (IDCmpMBB k) slot mf) k B T X slot)"
        using check_in_linked [OF 1(6) k(3) 1(1)] by auto
      then have "checked_branch E mf b mi" unfolding checked_branch_def op using l bk [symmetric] sub m 1(1,2,6) by blast
      moreover have "cj \<noteq> RETQ" using 1(5) by auto
      ultimately show ?thesis unfolding op by blast
    qed
  qed
qed

text \<open>The environment of a function: its indirect branches without an IR instruction, whether one of the others names
  \<open>R11\<close>, and the width of identifiers.\<close>

definition branches :: "mfunction \<Rightarrow> instr set" where
  "branches mf = {mi. (\<exists>b \<in> set (layout mf). mi \<in> set (instrs (body mf b))) \<and> i_opcode mi \<in> set indirect_ops}"

definition env_of :: "mcfi \<Rightarrow> mfunction \<Rightarrow> pass_env" where
  "env_of p mf = \<lparr> left_alone = {mi \<in> branches mf. i_ir mi = None},
     via_R11 = (\<exists>mi \<in> branches mf. i_opcode mi \<in> reg_ops \<and> i_ir mi \<noteq> None \<and> (\<exists>st os. i_operands mi = Reg (Gpr R11 I64) st # os)),
     small_id = SmallID p \<rparr>"

text \<open>What the pass relies on: a branch through a register that has an IR instruction names a general register, which it does not
  define, and returns and the jumps that are rewritten end their blocks.\<close>

definition machine_block :: "instr list \<Rightarrow> bool" where
  "machine_block is \<longleftrightarrow> (\<forall>mi \<in> set is. i_opcode mi \<in> reg_ops \<and> i_ir mi \<noteq> None \<longrightarrow>
       (\<exists>g st os. i_operands mi = Reg (Gpr g I64) st # os \<and> Define \<notin> set st)) \<and>
     list_all (\<lambda>mi. \<not> ends_block mi) (butlast is)"

lemma machine_source:
  assumes "machine_block (instrs (body mf b))" and "b \<in> set (layout mf)"
  shows "source_block (env_of p mf) (instrs (body mf b))"
proof -
  have "source_instr (env_of p mf) mi" if mi: "mi \<in> set (instrs (body mf b))" for mi
    unfolding source_instr_def
  proof (intro conjI impI)
    assume "i_opcode mi \<in> set indirect_ops \<and> i_ir mi = None"
    then show "mi \<in> left_alone (env_of p mf)" using mi assms(2) by (auto simp: env_of_def branches_def)
  next
    assume r: "i_opcode mi \<in> reg_ops \<and> i_ir mi \<noteq> None"
    then obtain g st os where g: "i_operands mi = Reg (Gpr g I64) st # os" "Define \<notin> set st"
      using assms(1) mi unfolding machine_block_def by blast
    have "mi \<in> branches mf" using r mi assms(2) by (auto simp: branches_def indirect_op)
    then have "g = R11 \<longrightarrow> via_R11 (env_of p mf)" using r g by (auto simp: env_of_def)
    then show "\<exists>g st os. i_operands mi = Reg (Gpr g I64) st # os \<and> Define \<notin> set st \<and> (g = R11 \<longrightarrow> via_R11 (env_of p mf))"
      using g by blast
  qed
  then show ?thesis using assms(1) by (simp add: source_block_def machine_block_def list_all_iff)
qed

text \<open>C3: complete mediation. The pass over a function ends: either the compiler exits, exactly because the name or type
  of the function cannot be described, or it leaves a function without returns whose only indirect branches are those that came
  without an IR instruction (jump tables, which the pass does not instrument) and those that end the branch block of a check. The blocks
  of this check are all there, the compare and the branch carry the same branch number, and the registers of the identifiers and of
  the target are different, unless the function itself branches through \<open>R11\<close>; the check is then, with
  identifiers of 64 bits, the code that the check theorems are about, and with small identifiers the same code at half
  the width. The function has to consist of different blocks, numbered below the next free number, in which returns and instrumented
  jumps end their block and instrumented branches through a register name a general 64-bit register.\<close>

theorem MCFIx64_mediates:
  assumes "distinct (layout mf)" and "\<forall>b \<in> set (layout mf). b < next_mbb mf"
    and "\<forall>b \<in> set (layout mf). machine_block (instrs (body mf b))"
  shows "case MCFIx64 td demangle (p, mf) of
      None \<Rightarrow> kind_lines demangle (GlobalDtors p) (mf_name mf) (mf_attrs mf) (mf_type mf) = None
    | Some (p', mf') \<Rightarrow> kind_lines demangle (GlobalDtors p) (mf_name mf) (mf_attrs mf) (mf_type mf) \<noteq> None
        \<and> mediated (env_of p mf) mf'"
proof -
  have "loop_inv (env_of p mf) [] (layout mf) [] mf" using assms machine_source by (simp add: loop_inv_def)
  moreover have "SmallID p = small_id (env_of p mf)" by (simp add: env_of_def)
  ultimately obtain p' mf' ks' where
    v: "visit_blocks td (case layout mf of [] \<Rightarrow> None | b # _ \<Rightarrow> Some b) (p, mf) = Some (p', mf')"
      "loop_inv (env_of p mf) (layout mf') [] ks' mf'" "described (p', mf') = described (p, mf)"
    using visit_blocks_inv by blast
  have "GlobalDtors p' = GlobalDtors p" "mf_name mf' = mf_name mf" "mf_attrs mf' = mf_attrs mf" "mf_type mf' = mf_type mf"
    using v(3) by (simp_all add: described_def signature_def)
  then show ?thesis using v(1) loop_inv_mediated [OF v(2)]
    by (cases "kind_lines demangle (GlobalDtors p) (mf_name mf) (mf_attrs mf) (mf_type mf)") (simp_all add: MCFIx64_def MCFIFuncInfo_def)
qed

definition ex_td :: target_info where
  "ex_td = \<lparr> reg_num = (\<lambda>g. if g = RAX then 1 else 2), opcode_num = (\<lambda>_. 0), op_is_call = (\<lambda>_. False), op_is_return = (\<lambda>_. False) \<rparr>"

definition ex_call :: instr where
  "ex_call = \<lparr> i_opcode = CALL64r, i_operands = [Reg (Gpr RAX I64) []], i_bary = None,
     i_ir = Some \<lparr> ir_type = \<lparr> ret_type = ''void'', param_types = [], is_vararg = False \<rparr>, CXXVirtual = None \<rparr> \<rparr>"

definition ex_jump :: instr where
  "ex_jump = BuildMI JMP64r [Reg (Gpr RBX I64) []]"

definition ex_caller :: mfunction where
  "ex_caller = ex_function\<lparr> body := (\<lambda>_. \<lparr> instrs = [ex_call, ex_jump, BuildMI RETQ []], succs = [], live_ins = [] \<rparr>) \<rparr>"

text \<open>A function with an instrumented call, a jump without an IR instruction and a return; and the pass returns.\<close>

theorem MCFIx64_mediates_witness:
  "\<exists>p' mf'. MCFIx64 ex_td (\<lambda>_. None) (ex_mcfi, ex_caller) = Some (p', mf') \<and>
     mediated \<lparr> left_alone = {ex_jump}, via_R11 = False, small_id = False \<rparr> mf'"
proof -
  have l: "layout ex_caller = [0]" "next_mbb ex_caller = 1" "instrs (body ex_caller 0) = [ex_call, ex_jump, BuildMI RETQ []]"
    by (simp_all add: ex_caller_def ex_function_def)
  have b: "distinct (layout ex_caller)" "\<forall>b \<in> set (layout ex_caller). b < next_mbb ex_caller"
      "\<forall>b \<in> set (layout ex_caller). machine_block (instrs (body ex_caller b))"
    by (simp_all add: l machine_block_def ex_call_def ex_jump_def BuildMI_def ends_block_def)
  have e: "env_of ex_mcfi ex_caller = \<lparr> left_alone = {ex_jump}, via_R11 = False, small_id = False \<rparr>"
    by (auto simp: env_of_def branches_def l ex_call_def ex_jump_def BuildMI_def indirect_op ex_mcfi_def)
  have k: "kind_lines (\<lambda>_. None) (GlobalDtors ex_mcfi) (mf_name ex_caller) (mf_attrs ex_caller) (mf_type ex_caller) \<noteq> None"
    using FuncTypeStr_returns [of "mf_type ex_function"]
    by (auto simp: kind_lines_def type_line_def ex_caller_def ex_function_def ex_mcfi_def)
  from MCFIx64_mediates [OF b, where td = ex_td and demangle = "\<lambda>_. None" and p = ex_mcfi] k show ?thesis
    unfolding e by (auto split: option.splits)
qed

text \<open>A call through \<open>R11\<close> that uses the argument registers and \<open>AL\<close> gets it as the register of an identifier, so that the check
  overwrites its own target.\<close>

lemma R11_overwritten:
  assumes "used_gprs mi = [R11, RDI, RSI, RDX, RCX, R8, R9, RAX]"
  shows "\<exists>b t. id_regs td R11 (scratch_regs td mi) = ((b, False), (t, False)) \<and> R11 \<in> {b, t}"
proof -
  have s: "set (scratch_regs td mi) = {R10, R11}" "distinct (scratch_regs td mi)"
    using assms by (auto simp: scratch_regs_def)
  then have "length (scratch_regs td mi) = 2" by (simp add: distinct_card [symmetric])
  then obtain b t where "scratch_regs td mi = [b, t]" by (auto simp: length_Suc_conv numeral_2_eq_2)
  then show ?thesis using s by (auto simp: id_regs_def)
qed

end
