(* ===== verification/Fork.thy ===== *)
theory Fork
  imports Memory
begin

unbundle bit_operations_syntax

text \<open>
  \<open>rock_fork\<close> (\<open>src/runtime/src/runtime.c\<close>) and the four functions it is built from. Code and lazy-binding tables are mapped
  twice, and the kernel would share both mappings with a child process: the runtime copies their contents to private
  memory, drops the mappings, forks and builds new ones in both processes.

  Memory is modelled down to the bytes: objects hold bytes, and a view maps an address to an object, an offset and
  a protection. A private object is copied by a fork, a shared one is not. The answers of the kernel are a parameter: where
  it places a new mapping, if at all, whether a fixed mapping and the size of an object are granted, and how each attempt to create the
  shared memory object ends. Addresses and sizes are natural numbers.
\<close>

section \<open>Objects and views\<close>

record world =
  objs :: "nat \<Rightarrow> mem"
  is_private :: "nat \<Rightarrow> bool"
  n_objs :: nat

type_synonym view = "nat \<Rightarrow> (nat \<times> nat \<times> u32) option"

type_synonym process = "world \<times> view"

text \<open>\<open>shm_open\<close> with \<open>O_CREAT | O_EXCL\<close>: a new object, \<open>EEXIST\<close>, or another error.\<close>

datatype shm_result = Opened | Exists | ShmError

record os =
  place :: "view \<Rightarrow> nat \<Rightarrow> nat option"
  place_at :: "view \<Rightarrow> nat \<Rightarrow> nat \<Rightarrow> bool"
  shm_open :: "world \<Rightarrow> nat \<Rightarrow> shm_result"
  ftruncate_ok :: "world \<Rightarrow> nat \<Rightarrow> bool"

definition round_page :: "nat \<Rightarrow> nat" where
  "round_page n = (n + 4095) div 4096 * 4096"

definition aligned :: "nat \<Rightarrow> bool" where
  "aligned a \<longleftrightarrow> a mod 4096 = 0"

text \<open>A byte is read through any protection but none, as on AMD64, and written only through one with \<open>PROT_WRITE\<close>; anything
  else ends the process.\<close>

definition load8 :: "process \<Rightarrow> nat \<Rightarrow> u8 option" where
  "load8 p a = (case snd p a of Some (ob, off, pr) \<Rightarrow> if pr AND 7 \<noteq> 0 then Some (objs (fst p) ob off) else None | None \<Rightarrow> None)"

definition store8 :: "nat \<Rightarrow> u8 \<Rightarrow> process \<Rightarrow> process option" where
  "store8 a b p = (case snd p a of
     Some (ob, off, pr) \<Rightarrow>
       if pr AND PROT_WRITE \<noteq> 0 then Some ((fst p)\<lparr> objs := (objs (fst p))(ob := (objs (fst p) ob)(off := b)) \<rparr>, snd p) else None
   | None \<Rightarrow> None)"

fun memcpy_view :: "nat \<Rightarrow> nat \<Rightarrow> nat \<Rightarrow> process \<Rightarrow> process option" where
  "memcpy_view d s 0 p = Some p"
| "memcpy_view d s (Suc n) p = do {
     b \<leftarrow> load8 p s;
     p \<leftarrow> store8 d b p;
     memcpy_view (Suc d) (Suc s) n p }"

section \<open>Mappings\<close>

definition new_object :: "bool \<Rightarrow> world \<Rightarrow> nat \<times> world" where
  "new_object private w = (n_objs w,
     w\<lparr> objs := (objs w)(n_objs w := (\<lambda>_. 0)), is_private := (is_private w)(n_objs w := private), n_objs := n_objs w + 1 \<rparr>)"

definition map_range :: "nat \<Rightarrow> nat \<Rightarrow> nat \<Rightarrow> u32 \<Rightarrow> view \<Rightarrow> view" where
  "map_range ob a len pr v = (\<lambda>x. if a \<le> x \<and> x < a + round_page len then Some (ob, x - a, pr) else v x)"

text \<open>\<open>mmap(0, len, PROT_WRITE | PROT_READ, MAP_ANONYMOUS | MAP_PRIVATE, -1, 0)\<close>.\<close>

definition mmap_anon :: "os \<Rightarrow> nat \<Rightarrow> process \<Rightarrow> (nat \<times> process) option" where
  "mmap_anon os len p = do {
     a \<leftarrow> place os (snd p) len;
     CHECK (0 < len);
     let (ob, w) = new_object True (fst p);
     Some (a, w, map_range ob a len (PROT_WRITE OR PROT_READ) (snd p)) }"

text \<open>The result of \<open>munmap\<close> is ignored; an address inside of a page is refused.\<close>

definition munmap_range :: "nat \<Rightarrow> nat \<Rightarrow> view \<Rightarrow> view" where
  "munmap_range a len v = (if aligned a then (\<lambda>x. if a \<le> x \<and> x < a + round_page len then None else v x) else v)"

section \<open>Fork\<close>

text \<open>The loop that waits for the name of the object to be free; the second argument of \<open>shm_open\<close> is the number of the
  attempt. \<open>None\<close> is a loop that does not end.\<close>

partial_function (option) shm_loop :: "os \<Rightarrow> world \<Rightarrow> nat \<Rightarrow> bool option" where
  "shm_loop os w n =
     (case shm_open os w n of Opened \<Rightarrow> Some True | Exists \<Rightarrow> shm_loop os w (n + 1) | ShmError \<Rightarrow> Some False)"

text \<open>A fresh shared object of the given size behind both addresses.\<close>

definition restore_parallel_mapping :: "os \<Rightarrow> nat \<Rightarrow> nat \<Rightarrow> nat \<Rightarrow> u32 \<Rightarrow> process \<Rightarrow> process option" where
  "restore_parallel_mapping os base osb_base len pr p = do {
     opened \<leftarrow> shm_loop os (fst p) 0;
     CHECK opened;
     CHECK (ftruncate_ok os (fst p) len);
     CHECK (len mod 4096 = 0);
     let (ob, w) = new_object False (fst p);
     CHECK (aligned base \<and> 0 < len \<and> place_at os (snd p) base len);
     let v = map_range ob base len pr (snd p);
     CHECK (aligned osb_base \<and> place_at os v osb_base len);
     Some (w, map_range ob osb_base len PROT_WRITE v) }"

text \<open>What is saved of a module: its code, and its lazy-binding table if it has one.\<close>

record fork_region =
  fr_addr :: nat
  fr_osb :: nat
  fr_size :: nat
  fr_prot :: u32

definition regions_of :: "codemodule \<Rightarrow> fork_region list" where
  "regions_of m =
     \<lparr> fr_addr = unat (base_addr m), fr_osb = unat (osb_base_addr m), fr_size = unat (m_sz m), fr_prot = PROT_EXEC \<rparr> #
     (if instrumented m \<and> gotpltsz m > 0 then
        [\<lparr> fr_addr = unat (gotplt m), fr_osb = unat (osb_gotplt m), fr_size = unat (gotpltsz m), fr_prot = PROT_READ \<rparr>]
      else [])"

text \<open>\<open>m->code\<close> or \<open>m->gotpltcontent\<close>: the address of the copy.\<close>

definition save_region :: "os \<Rightarrow> fork_region \<Rightarrow> process \<Rightarrow> (nat \<times> process) option" where
  "save_region os r p = do {
     (code, p) \<leftarrow> mmap_anon os (fr_size r) p;
     p \<leftarrow> memcpy_view code (fr_addr r) (fr_size r) p;
     Some (code, p) }"

fun save_regions :: "os \<Rightarrow> fork_region list \<Rightarrow> process \<Rightarrow> (nat list \<times> process) option" where
  "save_regions os [] p = Some ([], p)"
| "save_regions os (r # rs) p = do {
     (c, p) \<leftarrow> save_region os r p;
     (cs, p) \<leftarrow> save_regions os rs p;
     Some (c # cs, p) }"

definition unmap_region :: "fork_region \<Rightarrow> view \<Rightarrow> view" where
  "unmap_region r v = munmap_range (fr_osb r) (fr_size r) (munmap_range (fr_addr r) (fr_size r) v)"

definition save_content :: "os \<Rightarrow> codemodule list \<Rightarrow> process \<Rightarrow> (nat list \<times> process) option" where
  "save_content os ms p = do {
     (cs, w, v) \<leftarrow> save_regions os (concat (map regions_of ms)) p;
     Some (cs, w, fold unmap_region (concat (map regions_of ms)) v) }"

definition restore_region :: "os \<Rightarrow> fork_region \<times> nat \<Rightarrow> process \<Rightarrow> process option" where
  "restore_region os = (\<lambda>(r, code) p. do {
     p \<leftarrow> restore_parallel_mapping os (fr_addr r) (fr_osb r) (fr_size r) (fr_prot r) p;
     (w, v) \<leftarrow> memcpy_view (fr_osb r) code (fr_size r) p;
     Some (w, munmap_range code (fr_size r) v) })"

definition restore_content :: "os \<Rightarrow> codemodule list \<Rightarrow> nat list \<Rightarrow> process \<Rightarrow> process option" where
  "restore_content os ms cs p = foldM (restore_region os) (zip (concat (map regions_of ms)) cs) p"

text \<open>\<open>fork\<close>: the child has copies of the private objects and shares the others.\<close>

definition kernel_fork :: "process \<Rightarrow> world \<times> view" where
  "kernel_fork p =
     (let (w, v) = p; n = n_objs w in
      (w\<lparr> objs := (\<lambda>ob. if n \<le> ob \<and> ob < 2 * n then objs w (ob - n) else objs w ob),
          is_private := (\<lambda>ob. if n \<le> ob \<and> ob < 2 * n then is_private w (ob - n) else is_private w ob), n_objs := 2 * n \<rparr>,
       (\<lambda>x. map_option (\<lambda>(ob, rest). (if is_private w ob then n + ob else ob, rest)) (v x))))"

text \<open>Parent and child restore at the same time. The name of the shared object keeps the two apart while one of them builds a
  mapping, and the rest of a step is inside of its own objects, so the schedule says whose region comes next (\<open>True\<close> is
  the parent).\<close>

fun restore_both ::
  "os \<Rightarrow> bool list \<Rightarrow> (fork_region \<times> nat) list \<Rightarrow> (fork_region \<times> nat) list \<Rightarrow> world \<times> view \<times> view
     \<Rightarrow> (world \<times> view \<times> view) option" where
  "restore_both os sched [] [] s = Some s"
| "restore_both os sched (x # lp) [] (w, vp, vc) = do {
     (w, vp) \<leftarrow> restore_region os x (w, vp);
     restore_both os sched lp [] (w, vp, vc) }"
| "restore_both os sched [] (y # lc) (w, vp, vc) = do {
     (w, vc) \<leftarrow> restore_region os y (w, vc);
     restore_both os sched [] lc (w, vp, vc) }"
| "restore_both os sched (x # lp) (y # lc) (w, vp, vc) =
     (if sched \<noteq> [] \<and> hd sched then do {
        (w, vp) \<leftarrow> restore_region os x (w, vp);
        restore_both os (tl sched) lp (y # lc) (w, vp, vc) }
      else do {
        (w, vc) \<leftarrow> restore_region os y (w, vc);
        restore_both os (tl sched) (x # lp) lc (w, vp, vc) })"

text \<open>The world after the fork with the views of the parent and of the child; with \<open>ok = False\<close> the system call fails
  and there is no child.\<close>

definition rock_fork ::
  "os \<Rightarrow> bool list \<Rightarrow> bool \<Rightarrow> codemodule list \<Rightarrow> process \<Rightarrow> (world \<times> view \<times> view option) option" where
  "rock_fork os sched ok ms p = do {
     (cs, w, v) \<leftarrow> save_content os ms p;
     if ok then do {
       let (w, vc) = kernel_fork (w, v);
       let l = zip (concat (map regions_of ms)) cs;
       (w, v, vc) \<leftarrow> restore_both os sched l l (w, v, vc);
       Some (w, v, Some vc) }
     else do {
       (w, v) \<leftarrow> restore_content os ms cs (w, v);
       Some (w, v, None) } }"

end
