(* ===== verification/Fork_Correct.thy ===== *)
theory Fork_Correct
  imports Fork
begin

unbundle bit_operations_syntax

text \<open>
  \<open>rock_fork\<close> keeps every address readable with the same bytes in the parent and in the child, and separates the code of
  the two processes: what one of them patches through the second mapping shows in its own code and nowhere in the other
  process.

  The proof follows one region at a time: \<open>memcpy\<close> fills an object (section Copies), saving makes private copies and changes
  nothing that was there (Saving), restoring puts a fresh shared object behind both addresses (Restoring). \<open>saved\<close> is what
  a process needs for restoring; the fork hands it to the child, and the parent's restoring keeps it.
\<close>

section \<open>Copies\<close>

lemma load8_mapped: "load8 (w, v) a \<noteq> None \<Longrightarrow> v a \<noteq> None"
  by (auto simp: load8_def split: option.splits)

definition fill_bytes :: "nat \<Rightarrow> nat \<Rightarrow> mem \<Rightarrow> mem \<Rightarrow> mem" where
  "fill_bytes k n b f = (\<lambda>x. if k \<le> x \<and> x < k + n then b (x - k) else f x)"

definition fill_object :: "nat \<Rightarrow> nat \<Rightarrow> nat \<Rightarrow> mem \<Rightarrow> world \<Rightarrow> world" where
  "fill_object ob k n b w = w\<lparr> objs := (objs w)(ob := fill_bytes k n b (objs w ob)) \<rparr>"

lemma fill_bytes_0: "fill_bytes k 0 b f = f"
  unfolding fill_bytes_def by (intro ext) auto

lemma fill_bytes_1: "fill_bytes k (Suc 0) b f = f(k := b 0)"
  by (auto simp: fill_bytes_def fun_eq_iff)

lemma fill_bytes_Suc: "fill_bytes (Suc k) n (\<lambda>i. b (Suc i)) (f(k := b 0)) = fill_bytes k (Suc n) b f"
  by (auto simp: fill_bytes_def fun_eq_iff Suc_diff_Suc)

lemma fill_object_Suc: "fill_object ob (Suc k) n (\<lambda>i. b (Suc i)) (fill_object ob k (Suc 0) b w) = fill_object ob k (Suc n) b w"
  by (simp add: fill_object_def fill_bytes_1 fill_bytes_Suc)

lemma fill_object_simps [simp]:
  "n_objs (fill_object ob k n b w) = n_objs w" "is_private (fill_object ob k n b w) = is_private w"
  "objs (fill_object ob k n b w) o' = (if o' = ob then fill_bytes k n b (objs w ob) else objs w o')"
  by (simp_all add: fill_object_def)

lemma memcpy_copies:
  assumes "\<forall>i < n. load8 (w, v) (s + i) = Some (b i)" and "\<forall>i < n. v (d + i) = Some (od, k + i, pr)" and "pr AND PROT_WRITE \<noteq> 0"
    and "\<forall>i < n. \<forall>q. v (s + i) = Some q \<longrightarrow> fst q \<noteq> od"
  shows "memcpy_view d s n (w, v) = Some (fill_object od k n b w, v)"
  using assms
proof (induction n arbitrary: d s k b w)
  case 0
  then show ?case by (simp add: fill_object_def fill_bytes_0)
next
  case (Suc n)
  let ?w = "fill_object od k (Suc 0) b w"
  have b0: "load8 (w, v) s = Some (b 0)" and d0: "v d = Some (od, k, pr)" using Suc.prems(1,2) by force+
  have st: "store8 d (b 0) (w, v) = Some (?w, v)" using Suc.prems(3) d0 by (simp add: store8_def fill_object_def fill_bytes_1)
  have src: "\<forall>i < n. load8 (?w, v) (Suc s + i) = Some (b (Suc i))"
  proof (intro allI impI)
    fix i assume i: "i < n"
    then have l: "load8 (w, v) (Suc s + i) = Some (b (Suc i))" "\<forall>q. v (Suc s + i) = Some q \<longrightarrow> fst q \<noteq> od"
      using Suc.prems(1,4) by (auto dest: spec [of _ "Suc i"])
    then show "load8 (?w, v) (Suc s + i) = Some (b (Suc i))" by (auto simp: load8_def split: option.splits if_splits)
  qed
  have dst: "\<forall>i < n. v (Suc d + i) = Some (od, Suc k + i, pr)" "\<forall>i < n. \<forall>q. v (Suc s + i) = Some q \<longrightarrow> fst q \<noteq> od"
    using Suc.prems(2,4) by (auto dest: spec [of _ "Suc i" for i])
  have "memcpy_view (Suc d) (Suc s) n (?w, v) = Some (fill_object od (Suc k) n (\<lambda>i. b (Suc i)) ?w, v)"
    by (rule Suc.IH [OF src dst(1) Suc.prems(3) dst(2)])
  moreover have "memcpy_view d s (Suc n) (w, v) = memcpy_view (Suc d) (Suc s) n (?w, v)" by (simp add: b0 st)
  ultimately show ?case by (simp only: fill_object_Suc)
qed

section \<open>Well-formed processes\<close>

text \<open>If the kernel places a new mapping, then at a page where nothing is mapped.\<close>

definition os_honest :: "os \<Rightarrow> bool" where
  "os_honest k \<longleftrightarrow> (\<forall>v len a. finite (dom v) \<and> place k v len = Some a \<longrightarrow> aligned a \<and> (\<forall>i < round_page len. v (a + i) = None))"

text \<open>A kernel that refuses nothing: there is room for every mapping, and the shared object is created after finitely many
  attempts.\<close>

definition os_grants :: "os \<Rightarrow> bool" where
  "os_grants k \<longleftrightarrow> (\<forall>v len. finite (dom v) \<longrightarrow> place k v len \<noteq> None) \<and> (\<forall>v a len. place_at k v a len) \<and>
     (\<forall>w len. ftruncate_ok k w len) \<and> (\<forall>w. \<exists>n. shm_open k w n = Opened \<and> (\<forall>j < n. shm_open k w j = Exists))"

definition os_good :: "os \<Rightarrow> bool" where
  "os_good k \<longleftrightarrow> os_honest k \<and> os_grants k"

lemma os_good_place:
  assumes "os_good k" and "finite (dom v)"
  obtains a where "place k v len = Some a" "aligned a" "\<forall>i < round_page len. v (a + i) = None"
proof -
  obtain a where a: "place k v len = Some a" using assms unfolding os_good_def os_grants_def by blast
  moreover have "aligned a \<and> (\<forall>i < round_page len. v (a + i) = None)"
    using assms a unfolding os_good_def os_honest_def by blast
  ultimately show thesis using that by blast
qed

lemma shm_loop_opens:
  assumes "shm_open k w n = Opened" and "\<forall>j < n. shm_open k w j = Exists"
  shows "shm_loop k w 0 = Some True"
proof -
  have "shm_loop k w i = Some True" if "i \<le> n" for i
    using that
  proof (induction rule: inc_induct)
    case base
    then show ?case using assms(1) by (subst shm_loop.simps) simp
  next
    case (step i)
    then show ?case using assms(2) by (subst shm_loop.simps) simp
  qed
  then show ?thesis by simp
qed

lemma os_good_grants:
  assumes "os_good k"
  shows "shm_loop k w 0 = Some True" "ftruncate_ok k w len" "place_at k v a len"
  using assms shm_loop_opens [of k w] unfolding os_good_def os_grants_def by blast+

text \<open>What is mapped exists.\<close>

definition process_ok :: "process \<Rightarrow> bool" where
  "process_ok p \<longleftrightarrow> finite (dom (snd p)) \<and> (\<forall>x q. snd p x = Some q \<longrightarrow> fst q < n_objs (fst p))"

text \<open>A region can be saved and restored: whole pages that are mapped at both addresses and can be read.\<close>

definition region_ok :: "process \<Rightarrow> fork_region \<Rightarrow> bool" where
  "region_ok p r \<longleftrightarrow> 0 < fr_size r \<and> fr_size r mod 4096 = 0 \<and> aligned (fr_addr r) \<and> aligned (fr_osb r) \<and>
     (\<forall>i < fr_size r. load8 p (fr_addr r + i) \<noteq> None \<and> snd p (fr_osb r + i) \<noteq> None)"

lemma round_page_pages:
  assumes "n mod 4096 = 0"
  shows "round_page n = n"
proof -
  obtain j where "n = 4096 * j" using assms by (auto simp: mod_eq_0_iff_dvd)
  then show ?thesis by (simp add: round_page_def)
qed

lemma process_okD: "process_ok (w, v) \<Longrightarrow> v x = Some q \<Longrightarrow> fst q < n_objs w"
  unfolding process_ok_def by (metis fst_conv snd_conv)

text \<open>Old objects keep their bytes.\<close>

definition objs_kept :: "world \<Rightarrow> world \<Rightarrow> bool" where
  "objs_kept w w' \<longleftrightarrow> n_objs w \<le> n_objs w' \<and>
     (\<forall>ob < n_objs w. objs w' ob = objs w ob \<and> is_private w' ob = is_private w ob)"

lemma objs_kept_refl: "objs_kept w w"
  by (simp add: objs_kept_def)

lemma objs_kept_trans:
  assumes "objs_kept w w'" and "objs_kept w' w''"
  shows "objs_kept w w''"
  unfolding objs_kept_def
proof (intro conjI allI impI)
  show "n_objs w \<le> n_objs w''" using assms unfolding objs_kept_def by linarith
  fix ob assume "ob < n_objs w"
  moreover from this have "ob < n_objs w'" using assms(1) unfolding objs_kept_def by linarith
  ultimately show "objs w'' ob = objs w ob" "is_private w'' ob = is_private w ob"
    using assms unfolding objs_kept_def by simp_all
qed

lemma objs_keptD: "objs_kept w w' \<Longrightarrow> ob < n_objs w \<Longrightarrow> objs w' ob = objs w ob"
  by (simp add: objs_kept_def)

lemma load8_kept:
  assumes "objs_kept w w'" and "process_ok (w, v)" and "v' a = v a"
  shows "load8 (w', v') a = load8 (w, v) a"
proof (cases "v a")
  case None
  then show ?thesis using assms(3) by (simp add: load8_def)
next
  case (Some q)
  then have "objs w' (fst q) = objs w (fst q)" using objs_keptD [OF assms(1)] process_okD [OF assms(2) Some] by simp
  then show ?thesis using assms(3) Some by (cases q) (simp add: load8_def)
qed

lemma process_ok_kept:
  assumes "objs_kept w w'" and "process_ok (w, v)" and "\<forall>x. v' x \<noteq> None \<longrightarrow> v' x = v x"
  shows "process_ok (w', v')"
proof -
  have "dom v' \<subseteq> dom v" using assms(3) by (metis domIff subsetI)
  then have "finite (dom v')" using assms(2) finite_subset unfolding process_ok_def by auto
  moreover have "fst q < n_objs w'" if q: "v' x = Some q" for x q
  proof -
    have "v x = Some q" using assms(3) [rule_format, of x] q by simp
    from process_okD [OF assms(2) this] show ?thesis using assms(1) unfolding objs_kept_def by linarith
  qed
  ultimately show ?thesis unfolding process_ok_def by simp
qed

text \<open>A new object filled with given bytes.\<close>

definition add_object :: "bool \<Rightarrow> nat \<Rightarrow> mem \<Rightarrow> world \<Rightarrow> world" where
  "add_object private n b w = fill_object (n_objs w) 0 n b (snd (new_object private w))"

lemma add_object_simps [simp]:
  "n_objs (add_object private n b w) = Suc (n_objs w)"
  "is_private (add_object private n b w) ob = (if ob = n_objs w then private else is_private w ob)"
  "ob \<noteq> n_objs w \<Longrightarrow> objs (add_object private n b w) ob = objs w ob"
  "i < n \<Longrightarrow> objs (add_object private n b w) (n_objs w) i = b i"
  by (simp_all add: add_object_def new_object_def fill_bytes_def)

lemma objs_kept_new: "objs_kept w (snd (new_object private w))"
  by (simp add: objs_kept_def new_object_def)

lemma objs_kept_add: "objs_kept w (add_object private n b w)"
  by (simp add: objs_kept_def)

lemma map_range_at: "x < round_page len \<Longrightarrow> map_range ob a len pr v (a + x) = Some (ob, x, pr)"
  by (simp add: map_range_def)

lemma process_ok_map_range:
  assumes "process_ok (w, v)" and "n_objs w \<le> n_objs w'" and "ob < n_objs w'"
  shows "process_ok (w', map_range ob a len pr v)"
proof -
  have "dom (map_range ob a len pr v) \<subseteq> dom v \<union> {a..<a + round_page len}" by (auto simp: map_range_def dom_def)
  moreover have "finite (dom v)" using assms(1) by (simp add: process_ok_def)
  ultimately have "finite (dom (map_range ob a len pr v))" by (meson finite_Un finite_atLeastLessThan finite_subset)
  moreover have "fst q < n_objs w'" if "map_range ob a len pr v x = Some q" for x q
    using that process_okD [OF assms(1), of x q] assms(2,3) by (auto simp: map_range_def split: if_splits)
  ultimately show ?thesis by (simp add: process_ok_def)
qed

section \<open>Saving\<close>

text \<open>A copy of a region: a private object at \<open>c\<close> with given bytes.\<close>

definition copy_at :: "process \<Rightarrow> nat \<Rightarrow> nat \<Rightarrow> mem \<Rightarrow> bool" where
  "copy_at p c len b \<longleftrightarrow> (\<exists>ob. is_private (fst p) ob \<and> ob < n_objs (fst p) \<and>
     (\<forall>i < len. snd p (c + i) = Some (ob, i, PROT_WRITE OR PROT_READ) \<and> objs (fst p) ob i = b i))"

lemma copy_at_load: "copy_at p c len b \<Longrightarrow> i < len \<Longrightarrow> load8 p (c + i) = Some (b i)"
  by (auto simp: copy_at_def load8_def PROT_WRITE_def PROT_READ_def)

lemma copy_at_kept:
  assumes "copy_at (w, v) c n b" and "objs_kept w w'" and "\<forall>i < n. v' (c + i) = v (c + i)"
  shows "copy_at (w', v') c n b"
proof -
  obtain ob where "is_private w ob" "ob < n_objs w" "\<forall>i < n. v (c + i) = Some (ob, i, PROT_WRITE OR PROT_READ) \<and> objs w ob i = b i"
    using assms(1) unfolding copy_at_def by auto
  then show ?thesis using assms(2,3) unfolding copy_at_def objs_kept_def by (intro exI [of _ ob]) auto
qed


lemma save_region_copies:
  assumes k: "os_good k" and p: "process_ok (w, v)" and r: "region_ok (w, v) r"
    and b: "\<forall>i < fr_size r. load8 (w, v) (fr_addr r + i) = Some (b i)"
  shows "\<exists>c w' v'. save_region k r (w, v) = Some (c, w', v') \<and> objs_kept w w' \<and> process_ok (w', v') \<and> aligned c \<and>
    copy_at (w', v') c (fr_size r) b \<and> (\<forall>x \<in> {c..<c + fr_size r}. v x = None) \<and> (\<forall>x. x \<notin> {c..<c + fr_size r} \<longrightarrow> v' x = v x)"
proof -
  let ?n = "fr_size r" and ?ob = "n_objs w" and ?pr = "PROT_WRITE OR PROT_READ"
  have sz: "0 < ?n" "round_page ?n = ?n" using r round_page_pages by (simp_all add: region_ok_def)
  have "finite (dom v)" using p by (simp add: process_ok_def)
  then obtain c where c: "place k v ?n = Some c" "aligned c" "\<forall>i < ?n. v (c + i) = None"
    using os_good_place [OF k, of v ?n] sz(2) by metis
  define w1 v1 where "w1 = snd (new_object True w)" and "v1 = map_range ?ob c ?n ?pr v"
  have m: "mmap_anon k ?n (w, v) = Some (c, w1, v1)"
    by (simp add: mmap_anon_def c(1) sz(1) new_object_def w1_def v1_def)
  have kept: "objs_kept w w1" and w1: "n_objs w1 = Suc ?ob" "is_private w1 ?ob"
    unfolding w1_def by (rule objs_kept_new) (simp_all add: new_object_def)
  have ok: "process_ok (w1, v1)" unfolding v1_def by (rule process_ok_map_range [OF p]) (simp_all add: w1)
  have old: "v1 x = v x" if "x \<notin> {c..<c + ?n}" for x using that by (auto simp: v1_def map_range_def sz(2))
  have c_free: "\<forall>x \<in> {c..<c + ?n}. v x = None" using c(3) by (auto simp: le_iff_add)
  have src: "v1 (fr_addr r + i) = v (fr_addr r + i)" "v (fr_addr r + i) \<noteq> None" if "i < ?n" for i
  proof -
    show *: "v (fr_addr r + i) \<noteq> None" using b that by (intro load8_mapped [of w]) simp
    then have "fr_addr r + i \<notin> {c..<c + ?n}" using c_free by metis
    then show "v1 (fr_addr r + i) = v (fr_addr r + i)" by (rule old)
  qed
  have ld: "\<forall>i < ?n. load8 (w1, v1) (fr_addr r + i) = Some (b i)"
    using b load8_kept [OF kept p, of v1] src(1) by simp
  have dst: "\<forall>i < ?n. v1 (c + i) = Some (?ob, 0 + i, ?pr)" by (simp add: v1_def map_range_at sz(2))
  have other: "\<forall>i < ?n. \<forall>q. v1 (fr_addr r + i) = Some q \<longrightarrow> fst q \<noteq> ?ob"
    using src process_okD [OF p] by (metis less_irrefl)
  have pr: "?pr AND PROT_WRITE \<noteq> 0" by (simp add: PROT_WRITE_def PROT_READ_def)
  define w2 where "w2 = fill_object ?ob 0 ?n b w1"
  have s: "save_region k r (w, v) = Some (c, w2, v1)"
    using memcpy_copies [OF ld dst pr other] by (simp add: save_region_def m w2_def)
  have "objs_kept w w2" using kept by (simp add: objs_kept_def w2_def)
  moreover have "process_ok (w2, v1)" using ok by (simp add: process_ok_def w2_def)
  moreover have "copy_at (w2, v1) c ?n b"
    unfolding copy_at_def using dst w1 by (intro exI [of _ ?ob]) (simp add: w2_def fill_bytes_def)
  ultimately show ?thesis using s c(2) c_free old by blast
qed

text \<open>The copies of a list of regions, each with its address.\<close>

definition copies :: "(fork_region \<times> nat) list \<Rightarrow> nat set" where
  "copies l = (\<Union>(r, c) \<in> set l. {c..<c + fr_size r})"

fun copies_apart :: "(fork_region \<times> nat) list \<Rightarrow> bool" where
  "copies_apart [] \<longleftrightarrow> True"
| "copies_apart ((r, c) # l) \<longleftrightarrow> {c..<c + fr_size r} \<inter> copies l = {} \<and> copies_apart l"

lemma copies_simps [simp]: "copies [] = {}" "copies ((r, c) # l) = {c..<c + fr_size r} \<union> copies l"
  by (simp_all add: copies_def)

definition all_copied :: "process \<Rightarrow> (fork_region \<Rightarrow> mem) \<Rightarrow> (fork_region \<times> nat) list \<Rightarrow> bool" where
  "all_copied p b l \<longleftrightarrow> (\<forall>(r, c) \<in> set l. aligned c \<and> copy_at p c (fr_size r) (b r))"

lemma all_copied_simps [simp]:
  "all_copied p b []" "all_copied p b ((r, c) # l) \<longleftrightarrow> aligned c \<and> copy_at p c (fr_size r) (b r) \<and> all_copied p b l"
  by (simp_all add: all_copied_def)

lemma copies_member: "(r, c) \<in> set l \<Longrightarrow> i < fr_size r \<Longrightarrow> c + i \<in> copies l"
  by (auto simp: copies_def intro!: bexI [of _ "(r, c)"])

lemma all_copied_kept:
  assumes "all_copied (w, v) b l" and "objs_kept w w'" and "\<forall>x \<in> copies l. v' x = v x"
  shows "all_copied (w', v') b l"
  unfolding all_copied_def
proof (intro ballI, clarify)
  fix r c assume r: "(r, c) \<in> set l"
  from r have "aligned c \<and> copy_at (w, v) c (fr_size r) (b r)" using assms(1) by (auto simp: all_copied_def)
  then show "aligned c \<and> copy_at (w', v') c (fr_size r) (b r)" using copy_at_kept [OF _ assms(2)] assms(3) copies_member [OF r] by metis
qed

lemma region_ok_kept:
  assumes "region_ok (w, v) r" and "objs_kept w w'" and "process_ok (w, v)" and "\<forall>x. v x \<noteq> None \<longrightarrow> v' x = v x"
  shows "region_ok (w', v') r"
proof -
  have "load8 (w', v') x = load8 (w, v) x" if "load8 (w, v) x \<noteq> None" for x
    using assms(4) load8_kept [OF assms(2,3)] load8_mapped [OF that] by blast
  then show ?thesis using assms(1,4) unfolding region_ok_def by (metis snd_conv)
qed

lemma save_regions_copies:
  assumes k: "os_good k" and "process_ok (w, v)"
    and "\<forall>r \<in> set rs. region_ok (w, v) r \<and> (\<forall>i < fr_size r. load8 (w, v) (fr_addr r + i) = Some (b r i))"
  shows "\<exists>l w' v'. map fst l = rs \<and> save_regions k rs (w, v) = Some (map snd l, w', v') \<and> objs_kept w w' \<and> process_ok (w', v') \<and>
    all_copied (w', v') b l \<and> copies_apart l \<and> (\<forall>x \<in> copies l. v x = None) \<and> (\<forall>x. x \<notin> copies l \<longrightarrow> v' x = v x)"
  using assms(2,3)
proof (induction rs arbitrary: w v)
  case Nil
  then show ?case by (simp add: objs_kept_refl)
next
  case (Cons r rs)
  have r: "region_ok (w, v) r" "\<forall>i < fr_size r. load8 (w, v) (fr_addr r + i) = Some (b r i)" using Cons.prems(2) by simp_all
  obtain c w1 v1 where c: "save_region k r (w, v) = Some (c, w1, v1)" "objs_kept w w1" "process_ok (w1, v1)" "aligned c"
    "copy_at (w1, v1) c (fr_size r) (b r)" "\<forall>x \<in> {c..<c + fr_size r}. v x = None" "\<forall>x. x \<notin> {c..<c + fr_size r} \<longrightarrow> v1 x = v x"
    using save_region_copies [OF k Cons.prems(1) r] by blast
  have v1: "\<forall>x. v x \<noteq> None \<longrightarrow> v1 x = v x" using c(6,7) by metis
  have "\<forall>r \<in> set rs. region_ok (w1, v1) r \<and> (\<forall>i < fr_size r. load8 (w1, v1) (fr_addr r + i) = Some (b r i))"
  proof (intro ballI conjI allI impI)
    fix r' assume r': "r' \<in> set rs"
    then show "region_ok (w1, v1) r'" using Cons.prems(2) region_ok_kept [OF _ c(2) Cons.prems(1) v1] by simp
    fix i assume i: "i < fr_size r'"
    have l: "load8 (w, v) (fr_addr r' + i) = Some (b r' i)" using Cons.prems(2) r' i by simp
    then have "v (fr_addr r' + i) \<noteq> None" by (intro load8_mapped [of w]) simp
    then show "load8 (w1, v1) (fr_addr r' + i) = Some (b r' i)" using l v1 load8_kept [OF c(2) Cons.prems(1)] by simp
  qed
  from Cons.IH [OF c(3) this] obtain l w' v' where l: "map fst l = rs" "save_regions k rs (w1, v1) = Some (map snd l, w', v')"
    "objs_kept w1 w'" "process_ok (w', v')" "all_copied (w', v') b l" "copies_apart l"
    "\<forall>x \<in> copies l. v1 x = None" "\<forall>x. x \<notin> copies l \<longrightarrow> v' x = v1 x" by blast
  have mapped: "v1 (c + i) \<noteq> None" if "i < fr_size r" for i using c(5) that by (auto simp: copy_at_def)
  have apart: "{c..<c + fr_size r} \<inter> copies l = {}"
    using mapped l(7) by (fastforce simp: le_iff_add)
  have "\<forall>i < fr_size r. v' (c + i) = v1 (c + i)" using mapped l(7,8) by metis
  then have "copy_at (w', v') c (fr_size r) (b r)" by (rule copy_at_kept [OF c(5) l(3)])
  moreover have "\<forall>x \<in> {c..<c + fr_size r} \<union> copies l. v x = None" using c(6) l(7) v1 by (metis Un_iff)
  ultimately show ?case using l c apart objs_kept_trans [OF c(2) l(3)]
    by (intro exI [of _ "(r, c) # l"] exI [of _ w'] exI [of _ v']) simp
qed


section \<open>Unmapping\<close>

definition home :: "fork_region \<Rightarrow> nat set" where
  "home r = {fr_addr r..<fr_addr r + fr_size r} \<union> {fr_osb r..<fr_osb r + fr_size r}"

definition pages_ok :: "fork_region \<Rightarrow> bool" where
  "pages_ok r \<longleftrightarrow> 0 < fr_size r \<and> fr_size r mod 4096 = 0 \<and> aligned (fr_addr r) \<and> aligned (fr_osb r)"

lemma munmap_range_at: "aligned a \<Longrightarrow> n mod 4096 = 0 \<Longrightarrow> munmap_range a n v x = (if x \<in> {a..<a + n} then None else v x)"
  by (simp add: munmap_range_def round_page_pages)

lemma unmap_region_at: "pages_ok r \<Longrightarrow> unmap_region r v x = (if x \<in> home r then None else v x)"
  by (auto simp: unmap_region_def pages_ok_def munmap_range_at home_def)

lemma fold_unmap_region: "\<forall>r \<in> set rs. pages_ok r \<Longrightarrow> fold unmap_region rs v x = (if x \<in> (\<Union>r \<in> set rs. home r) then None else v x)"
  by (induction rs arbitrary: v) (auto simp: unmap_region_at)

section \<open>Restoring\<close>

text \<open>A region is back: one shared object behind both addresses, with the saved bytes.\<close>

definition restored :: "process \<Rightarrow> (fork_region \<Rightarrow> mem) \<Rightarrow> fork_region \<Rightarrow> nat \<Rightarrow> bool" where
  "restored p b r ob \<longleftrightarrow> (\<forall>i < fr_size r. snd p (fr_addr r + i) = Some (ob, i, fr_prot r) \<and>
     snd p (fr_osb r + i) = Some (ob, i, PROT_WRITE) \<and> objs (fst p) ob i = b r i)"

lemma restore_region_restores:
  assumes k: "os_good k" and p: "process_ok (w, v)" and r: "pages_ok r" and c: "aligned c" "copy_at (w, v) c (fr_size r) (b r)"
    and apart: "{fr_addr r..<fr_addr r + fr_size r} \<inter> {fr_osb r..<fr_osb r + fr_size r} = {}" "home r \<inter> {c..<c + fr_size r} = {}"
  shows "\<exists>w' v'. restore_region k (r, c) (w, v) = Some (w', v') \<and> objs_kept w w' \<and> n_objs w < n_objs w' \<and> process_ok (w', v') \<and>
    restored (w', v') b r (n_objs w) \<and> (\<forall>x. x \<notin> home r \<longrightarrow> v' x = (if x \<in> {c..<c + fr_size r} then None else v x))"
proof -
  let ?n = "fr_size r" and ?ob = "n_objs w"
  have sz: "0 < ?n" "?n mod 4096 = 0" "round_page ?n = ?n" "aligned (fr_addr r)" "aligned (fr_osb r)"
    using r round_page_pages by (simp_all add: pages_ok_def)
  define w1 v1 where "w1 = snd (new_object False w)"
    and "v1 = map_range ?ob (fr_osb r) ?n PROT_WRITE (map_range ?ob (fr_addr r) ?n (fr_prot r) v)"
  have m: "restore_parallel_mapping k (fr_addr r) (fr_osb r) ?n (fr_prot r) (w, v) = Some (w1, v1)"
    by (simp add: restore_parallel_mapping_def os_good_grants [OF k] sz new_object_def Let_def w1_def v1_def)
  have kept: "objs_kept w w1" and w1: "n_objs w1 = Suc ?ob" unfolding w1_def by (rule objs_kept_new) (simp add: new_object_def)
  have ok: "process_ok (w1, v1)" unfolding v1_def
    by (intro process_ok_map_range [where w = w1] process_ok_map_range [OF p]) (simp_all add: w1)
  have old: "v1 x = v x" if "x \<notin> home r" for x using that by (auto simp: v1_def map_range_def sz(3) home_def)
  have osb: "v1 (fr_osb r + i) = Some (?ob, i, PROT_WRITE)" if "i < ?n" for i using that by (simp add: v1_def map_range_at sz(3))
  have addr: "v1 (fr_addr r + i) = Some (?ob, i, fr_prot r)" if "i < ?n" for i
  proof -
    have "fr_addr r + i \<notin> {fr_osb r..<fr_osb r + ?n}" using apart(1) that by (auto simp: disjoint_iff)
    then show ?thesis using that by (auto simp: v1_def map_range_def sz(3))
  qed
  have c_in: "v1 (c + i) = v (c + i)" if "i < ?n" for i using apart(2) that by (intro old) auto
  have "copy_at (w1, v1) c ?n (b r)" using c_in by (intro copy_at_kept [OF c(2) kept]) simp
  then have ld: "\<forall>i < ?n. load8 (w1, v1) (c + i) = Some (b r i)" by (simp add: copy_at_load)
  have other: "\<forall>i < ?n. \<forall>q. v1 (c + i) = Some q \<longrightarrow> fst q \<noteq> ?ob" using c_in process_okD [OF p] by (metis less_irrefl)
  have dst: "\<forall>i < ?n. v1 (fr_osb r + i) = Some (?ob, 0 + i, PROT_WRITE)" by (simp add: osb)
  have pr: "PROT_WRITE AND PROT_WRITE \<noteq> 0" by (simp add: PROT_WRITE_def)
  define w2 v2 where "w2 = fill_object ?ob 0 ?n (b r) w1" and "v2 = munmap_range c ?n v1"
  have s: "restore_region k (r, c) (w, v) = Some (w2, v2)"
    using memcpy_copies [OF ld dst pr other] by (simp add: restore_region_def m w2_def v2_def)
  have v2: "v2 x = (if x \<in> {c..<c + ?n} then None else v1 x)" for x by (simp add: v2_def munmap_range_at c(1) sz(2))
  have "objs_kept w w2" using kept by (simp add: objs_kept_def w2_def)
  moreover have "process_ok (w2, v2)"
    by (rule process_ok_kept [where w = w2 and v = v1, OF objs_kept_refl]) (use ok in \<open>simp_all add: process_ok_def w2_def v2\<close>)
  moreover have "restored (w2, v2) b r ?ob"
  proof -
    have "v2 (fr_addr r + i) = v1 (fr_addr r + i)" "v2 (fr_osb r + i) = v1 (fr_osb r + i)" if "i < ?n" for i
      using apart(2) that by (auto simp: v2 home_def disjoint_iff)
    then show ?thesis by (simp add: restored_def addr osb w2_def fill_bytes_def)
  qed
  moreover have "n_objs w < n_objs w2" by (simp add: w2_def w1)
  ultimately show ?thesis using s v2 old by (intro exI [of _ w2] exI [of _ v2]) simp
qed


definition homes :: "fork_region list \<Rightarrow> nat set" where
  "homes rs = (\<Union>r \<in> set rs. home r)"

lemma homes_simps [simp]: "homes [] = {}" "homes (r # rs) = home r \<union> homes rs"
  by (simp_all add: homes_def)

text \<open>No two of the mappings overlap.\<close>

definition ranges_apart :: "nat \<Rightarrow> nat \<Rightarrow> nat \<Rightarrow> nat \<Rightarrow> bool" where
  "ranges_apart a m b n \<longleftrightarrow> a + m \<le> b \<or> b + n \<le> a"

lemma apart_disjoint: "ranges_apart a m b n \<Longrightarrow> {a..<a + m} \<inter> {b..<b + n} = {}"
  by (auto simp: ranges_apart_def)

definition homes_apart :: "fork_region \<Rightarrow> fork_region \<Rightarrow> bool" where
  "homes_apart r q \<longleftrightarrow> ranges_apart (fr_addr r) (fr_size r) (fr_addr q) (fr_size q) \<and> ranges_apart (fr_addr r) (fr_size r) (fr_osb q) (fr_size q) \<and>
     ranges_apart (fr_osb r) (fr_size r) (fr_addr q) (fr_size q) \<and> ranges_apart (fr_osb r) (fr_size r) (fr_osb q) (fr_size q)"

lemma homes_apart_disjoint: "homes_apart r q \<Longrightarrow> home r \<inter> home q = {}"
  by (auto simp: homes_apart_def home_def ranges_apart_def)

fun regions_apart :: "fork_region list \<Rightarrow> bool" where
  "regions_apart [] \<longleftrightarrow> True"
| "regions_apart (r # rs) \<longleftrightarrow> ranges_apart (fr_addr r) (fr_size r) (fr_osb r) (fr_size r) \<and> list_all (homes_apart r) rs \<and> regions_apart rs"

lemma restored_kept:
  assumes "restored (w, v) b r ob" and "objs_kept w w'" and "ob < n_objs w" and "\<forall>x \<in> home r. v' x = v x"
  shows "restored (w', v') b r ob"
  using assms objs_keptD [OF assms(2,3)] by (simp add: restored_def home_def)

text \<open>What restoring needs.\<close>

definition saved :: "process \<Rightarrow> (fork_region \<Rightarrow> mem) \<Rightarrow> (fork_region \<times> nat) list \<Rightarrow> bool" where
  "saved p b l \<longleftrightarrow> process_ok p \<and> all_copied p b l \<and> copies_apart l \<and> (\<forall>r \<in> set (map fst l). pages_ok r) \<and>
     regions_apart (map fst l) \<and> homes (map fst l) \<inter> copies l = {}"

lemma saved_kept:
  assumes "saved (w, v) b l" and "objs_kept w w'"
  shows "saved (w', v) b l"
  using assms(1) all_copied_kept [OF _ assms(2), of v b l v] process_ok_kept [OF assms(2), of v v] unfolding saved_def by blast

lemma saved_step:
  assumes k: "os_good k" and sv: "saved (w, v) b ((r, c) # l)"
  obtains w' v' where "restore_region k (r, c) (w, v) = Some (w', v')" "objs_kept w w'" "n_objs w < n_objs w'"
    "restored (w', v') b r (n_objs w)" "saved (w', v') b l" "home r \<inter> homes (map fst l) = {}" "home r \<inter> copies l = {}"
    "\<forall>x. x \<notin> home r \<longrightarrow> v' x = (if x \<in> {c..<c + fr_size r} then None else v x)"
proof -
  let ?C = "{c..<c + fr_size r}"
  have r: "pages_ok r" "aligned c" "copy_at (w, v) c (fr_size r) (b r)"
    "{fr_addr r..<fr_addr r + fr_size r} \<inter> {fr_osb r..<fr_osb r + fr_size r} = {}" "home r \<inter> ?C = {}"
    using sv by (auto simp: saved_def ranges_apart_def)
  have ok: "process_ok (w, v)" using sv by (simp add: saved_def)
  obtain w1 v1 where s: "restore_region k (r, c) (w, v) = Some (w1, v1)" "objs_kept w w1" "n_objs w < n_objs w1" "process_ok (w1, v1)"
    "restored (w1, v1) b r (n_objs w)" "\<forall>x. x \<notin> home r \<longrightarrow> v1 x = (if x \<in> ?C then None else v x)"
    using restore_region_restores [where b = b, OF k ok r] by blast
  have "regions_apart (map fst ((r, c) # l))" using sv by (simp add: saved_def)
  then have hom: "home r \<inter> homes (map fst l) = {}"
    using homes_apart_disjoint by (fastforce simp: homes_def list_all_iff)
  have away: "x \<notin> home r" "x \<notin> ?C" if "x \<in> copies l" for x
    using sv that by (auto simp: saved_def)
  have "all_copied (w, v) b l" using sv by (simp add: saved_def)
  then have "all_copied (w1, v1) b l" using s(6) away by (intro all_copied_kept [OF _ s(2)]) auto
  then have "saved (w1, v1) b l" using sv s(4) by (auto simp: saved_def)
  moreover have "home r \<inter> copies l = {}" using away(1) by blast
  ultimately show thesis using that s(1-3,5,6) hom by blast
qed

lemma restored_later:
  assumes r: "restored (w1, v1) b r ob" "ob < n_objs w1" and w: "objs_kept w1 w'"
    and v: "\<forall>x. x \<notin> homes rs \<longrightarrow> v' x = (if x \<in> copies l then None else v1 x)"
    and d: "home r \<inter> homes rs = {}" "home r \<inter> copies l = {}"
  shows "restored (w', v') b r ob"
proof -
  have "\<forall>x \<in> home r. v' x = v1 x" using v d by (metis disjoint_iff)
  then show ?thesis by (rule restored_kept [OF r(1) w r(2)])
qed

text \<open>One process alone.\<close>

lemma restore_regions_restore:
  assumes k: "os_good k" and "saved (w, v) b l"
  shows "\<exists>w' v'. foldM (restore_region k) l (w, v) = Some (w', v') \<and> objs_kept w w' \<and>
    (\<forall>r \<in> set (map fst l). \<exists>ob. restored (w', v') b r ob) \<and>
    (\<forall>x. x \<notin> homes (map fst l) \<longrightarrow> v' x = (if x \<in> copies l then None else v x))"
  using assms(2)
proof (induction l arbitrary: w v)
  case Nil
  then show ?case by (simp add: objs_kept_refl)
next
  case (Cons rc l)
  obtain r c where rc: "rc = (r, c)" by (cases rc)
  obtain w1 v1 where s: "restore_region k (r, c) (w, v) = Some (w1, v1)" "objs_kept w w1" "n_objs w < n_objs w1"
    "restored (w1, v1) b r (n_objs w)" "saved (w1, v1) b l" "home r \<inter> homes (map fst l) = {}" "home r \<inter> copies l = {}"
    "\<forall>x. x \<notin> home r \<longrightarrow> v1 x = (if x \<in> {c..<c + fr_size r} then None else v x)"
    using saved_step [OF k Cons.prems [unfolded rc]] .
  obtain w' v' where t: "foldM (restore_region k) l (w1, v1) = Some (w', v')" "objs_kept w1 w'"
    "\<forall>r \<in> set (map fst l). \<exists>ob. restored (w', v') b r ob"
    "\<forall>x. x \<notin> homes (map fst l) \<longrightarrow> v' x = (if x \<in> copies l then None else v1 x)"
    using Cons.IH [OF s(5)] by blast
  have "restored (w', v') b r (n_objs w)" by (rule restored_later [OF s(4,3) t(2,4) s(6,7)])
  then show ?case using s(1,8) t objs_kept_trans [OF s(2) t(2)] rc
    by (intro exI [of _ w'] exI [of _ v']) auto
qed

text \<open>Both processes, in any order: the regions of the parent and those of the child are behind different new objects.\<close>

definition new_objects :: "world \<Rightarrow> world \<Rightarrow> nat set" where
  "new_objects w w' = {n_objs w..<n_objs w'}"

definition side_restored :: "world \<Rightarrow> view \<Rightarrow> (fork_region \<Rightarrow> mem) \<Rightarrow> (fork_region \<times> nat) list \<Rightarrow> nat set \<Rightarrow> view \<Rightarrow> bool" where
  "side_restored w v b l P v0 \<longleftrightarrow> (\<forall>r \<in> set (map fst l). \<exists>ob \<in> P. restored (w, v) b r ob) \<and>
     (\<forall>x. x \<notin> homes (map fst l) \<longrightarrow> v x = (if x \<in> copies l then None else v0 x))"

lemma side_restored_Nil: "side_restored w v b [] P v"
  by (simp add: side_restored_def)

lemma side_restored_mono: "side_restored w v b l P v0 \<Longrightarrow> P \<subseteq> Q \<Longrightarrow> side_restored w v b l Q v0"
  unfolding side_restored_def by blast

lemma side_restored_Cons:
  assumes s: "restored (w1, v1) b r ob" "ob < n_objs w1" "home r \<inter> homes (map fst l) = {}" "home r \<inter> copies l = {}"
    "\<forall>x. x \<notin> home r \<longrightarrow> v1 x = (if x \<in> {c..<c + fr_size r} then None else v x)" "objs_kept w1 w'"
    and t: "side_restored w' v' b l P v1"
  shows "side_restored w' v' b ((r, c) # l) (insert ob P) v"
proof -
  have t': "\<forall>x. x \<notin> homes (map fst l) \<longrightarrow> v' x = (if x \<in> copies l then None else v1 x)"
    using t by (simp add: side_restored_def)
  have "restored (w', v') b r ob" by (rule restored_later [OF s(1,2,6) t' s(3,4)])
  then show ?thesis using t s(5) unfolding side_restored_def by auto
qed

definition both_restored ::
  "(fork_region \<Rightarrow> mem) \<Rightarrow> world \<Rightarrow> world \<Rightarrow> (fork_region \<times> nat) list \<Rightarrow> view \<Rightarrow> view \<Rightarrow> (fork_region \<times> nat) list \<Rightarrow> view \<Rightarrow> view \<Rightarrow> bool" where
  "both_restored b w w' lp vp vp' lc vc vc' \<longleftrightarrow> objs_kept w w' \<and>
     (\<exists>P C. P \<subseteq> new_objects w w' \<and> C \<subseteq> new_objects w w' \<and> P \<inter> C = {} \<and> side_restored w' vp' b lp P vp \<and> side_restored w' vc' b lc C vc)"

lemma both_restored_sym: "both_restored b w w' lp vp vp' lc vc vc' \<Longrightarrow> both_restored b w w' lc vc vc' lp vp vp'"
  unfolding both_restored_def by (metis inf_commute)

lemma both_restored_Nil: "both_restored b w w [] vp vp [] vc vc"
  unfolding both_restored_def using side_restored_Nil by (simp add: objs_kept_refl) (meson empty_subsetI inf_bot_left)

text \<open>One step of a process, while the other one waits.\<close>

lemma both_restored_step:
  assumes k: "os_good k" and p: "saved (w, v) b ((r, c) # l)" and o: "saved (w, u) b m"
  obtains w1 v1 where "restore_region k (r, c) (w, v) = Some (w1, v1)" "saved (w1, v1) b l" "saved (w1, u) b m"
    "\<forall>w' v' u'. both_restored b w1 w' l v1 v' m u u' \<longrightarrow> both_restored b w w' ((r, c) # l) v v' m u u'"
proof -
  obtain w1 v1 where s: "restore_region k (r, c) (w, v) = Some (w1, v1)" "objs_kept w w1" "n_objs w < n_objs w1"
    "restored (w1, v1) b r (n_objs w)" "saved (w1, v1) b l" "home r \<inter> homes (map fst l) = {}" "home r \<inter> copies l = {}"
    "\<forall>x. x \<notin> home r \<longrightarrow> v1 x = (if x \<in> {c..<c + fr_size r} then None else v x)"
    using saved_step [OF k p] .
  have "both_restored b w w' ((r, c) # l) v v' m u u'" if t: "both_restored b w1 w' l v1 v' m u u'" for w' v' u'
  proof -
    obtain P C where pc: "P \<subseteq> new_objects w1 w'" "C \<subseteq> new_objects w1 w'" "P \<inter> C = {}" "side_restored w' v' b l P v1"
      "side_restored w' u' b m C u" and kept: "objs_kept w1 w'"
      using t unfolding both_restored_def by blast
    have "n_objs w1 \<le> n_objs w'" using kept by (simp add: objs_kept_def)
    then have n: "new_objects w1 w' \<subseteq> new_objects w w'" "n_objs w \<in> new_objects w w'" "n_objs w \<notin> new_objects w1 w'"
      using s(3) by (auto simp: new_objects_def)
    have "side_restored w' v' b ((r, c) # l) (insert (n_objs w) P) v" by (rule side_restored_Cons [OF s(4,3,6-8) kept pc(4)])
    moreover have "insert (n_objs w) P \<subseteq> new_objects w w'" "C \<subseteq> new_objects w w'" "insert (n_objs w) P \<inter> C = {}" using pc(1-3) n by auto
    ultimately show ?thesis using pc(5) objs_kept_trans [OF s(2) kept] unfolding both_restored_def by blast
  qed
  then show thesis using that s(1,5) saved_kept [OF o s(2)] by blast
qed

lemma restore_both_restores:
  assumes "os_good k" and "saved (w, vp) b lp" and "saved (w, vc) b lc"
  shows "\<exists>w' vp' vc'. restore_both k sched lp lc (w, vp, vc) = Some (w', vp', vc') \<and> both_restored b w w' lp vp vp' lc vc vc'"
  using assms
proof (induction k sched lp lc "(w, vp, vc)" arbitrary: w vp vc rule: restore_both.induct)
  case (1 k sched)
  then show ?case using both_restored_Nil by simp
next
  case (2 k sched x lp w vp vc)
  obtain r c where x: "x = (r, c)" by (cases x)
  obtain w1 v1 where s: "restore_region k (r, c) (w, vp) = Some (w1, v1)" "saved (w1, v1) b lp" "saved (w1, vc) b []"
    "\<forall>w' v' u'. both_restored b w1 w' lp v1 v' [] vc u' \<longrightarrow> both_restored b w w' ((r, c) # lp) vp v' [] vc u'"
    using both_restored_step [OF "2.prems"(1) "2.prems"(2) [unfolded x] "2.prems"(3)] .
  obtain w' vp' vc' where t: "restore_both k sched lp [] (w1, v1, vc) = Some (w', vp', vc')" "both_restored b w1 w' lp v1 vp' [] vc vc'"
    using "2.hyps" [OF s(1) [folded x] refl "2.prems"(1) s(2,3)] by blast
  have "both_restored b w w' ((r, c) # lp) vp vp' [] vc vc'" using s(4) t(2) by blast
  then show ?case using s(1) t(1) x by simp
next
  case (3 k sched x lc w vp vc)
  obtain r c where x: "x = (r, c)" by (cases x)
  obtain w1 v1 where s: "restore_region k (r, c) (w, vc) = Some (w1, v1)" "saved (w1, v1) b lc" "saved (w1, vp) b []"
    "\<forall>w' v' u'. both_restored b w1 w' lc v1 v' [] vp u' \<longrightarrow> both_restored b w w' ((r, c) # lc) vc v' [] vp u'"
    using both_restored_step [OF "3.prems"(1) "3.prems"(3) [unfolded x] "3.prems"(2)] .
  obtain w' vp' vc' where t: "restore_both k sched [] lc (w1, vp, v1) = Some (w', vp', vc')" "both_restored b w1 w' [] vp vp' lc v1 vc'"
    using "3.hyps" [OF s(1) [folded x] refl "3.prems"(1) s(3,2)] by blast
  have "both_restored b w w' ((r, c) # lc) vc vc' [] vp vp'" using s(4) both_restored_sym [OF t(2)] by blast
  from both_restored_sym [OF this] show ?case using s(1) t(1) x by simp
next
  case (4 k sched x lp y lc w vp vc)
  show ?case
  proof (cases "sched \<noteq> [] \<and> hd sched")
    case True
    obtain r c where x: "x = (r, c)" by (cases x)
    obtain w1 v1 where s: "restore_region k (r, c) (w, vp) = Some (w1, v1)" "saved (w1, v1) b lp" "saved (w1, vc) b (y # lc)"
      "\<forall>w' v' u'. both_restored b w1 w' lp v1 v' (y # lc) vc u' \<longrightarrow> both_restored b w w' ((r, c) # lp) vp v' (y # lc) vc u'"
      using both_restored_step [OF "4.prems"(1) "4.prems"(2) [unfolded x] "4.prems"(3)] .
    obtain w' vp' vc' where t: "restore_both k (tl sched) lp (y # lc) (w1, v1, vc) = Some (w', vp', vc')"
        "both_restored b w1 w' lp v1 vp' (y # lc) vc vc'"
      using "4.hyps"(1) [OF True s(1) [folded x] refl "4.prems"(1) s(2,3)] by blast
    have "both_restored b w w' ((r, c) # lp) vp vp' (y # lc) vc vc'" using s(4) t(2) by blast
    then show ?thesis using s(1) t(1) x True by simp
  next
    case False
    obtain r c where y: "y = (r, c)" by (cases y)
    obtain w1 v1 where s: "restore_region k (r, c) (w, vc) = Some (w1, v1)" "saved (w1, v1) b lc" "saved (w1, vp) b (x # lp)"
      "\<forall>w' v' u'. both_restored b w1 w' lc v1 v' (x # lp) vp u' \<longrightarrow> both_restored b w w' ((r, c) # lc) vc v' (x # lp) vp u'"
      using both_restored_step [OF "4.prems"(1) "4.prems"(3) [unfolded y] "4.prems"(2)] .
    obtain w' vp' vc' where t: "restore_both k (tl sched) (x # lp) lc (w1, vp, v1) = Some (w', vp', vc')"
        "both_restored b w1 w' (x # lp) vp vp' lc v1 vc'"
      using "4.hyps"(2) [OF False s(1) [folded y] refl "4.prems"(1) s(3,2)] by blast
    have "both_restored b w w' ((r, c) # lc) vc vc' (x # lp) vp vp'" using s(4) both_restored_sym [OF t(2)] by blast
    moreover have "restore_both k sched (x # lp) (y # lc) (w, vp, vc) = Some (w', vp', vc')"
      unfolding restore_both.simps(4) if_not_P [OF False] using s(1) t(1) y by simp
    ultimately show ?thesis using both_restored_sym y by blast
  qed
qed

section \<open>Forking\<close>

lemma save_content_saves:
  assumes k: "os_good k" and p: "process_ok (w, v)" and rs: "rs = concat (map regions_of ms)" and r: "\<forall>r \<in> set rs. region_ok (w, v) r"
    and a: "regions_apart rs" and b: "b = (\<lambda>r i. the (load8 (w, v) (fr_addr r + i)))"
  shows "\<exists>l w' v'. map fst l = rs \<and> save_content k ms (w, v) = Some (map snd l, w', v') \<and> saved (w', v') b l \<and> objs_kept w w' \<and>
    (\<forall>x \<in> copies l. v x = None) \<and> (\<forall>x. x \<notin> homes rs \<longrightarrow> x \<notin> copies l \<longrightarrow> v' x = v x)"
proof -
  have "\<forall>r \<in> set rs. region_ok (w, v) r \<and> (\<forall>i < fr_size r. load8 (w, v) (fr_addr r + i) = Some (b r i))"
    using r b unfolding region_ok_def by (auto simp del: split_paired_All)
  from save_regions_copies [OF k p this] obtain l w1 v1 where l: "map fst l = rs" "save_regions k rs (w, v) = Some (map snd l, w1, v1)"
    "objs_kept w w1" "process_ok (w1, v1)" "all_copied (w1, v1) b l" "copies_apart l" "\<forall>x \<in> copies l. v x = None"
    "\<forall>x. x \<notin> copies l \<longrightarrow> v1 x = v x" by blast
  have pg: "\<forall>r \<in> set rs. pages_ok r" using r by (simp add: region_ok_def pages_ok_def)
  have "v x \<noteq> None" if "x \<in> homes rs" for x
  proof -
    obtain r where r': "r \<in> set rs" "x \<in> home r" using \<open>x \<in> homes rs\<close> by (auto simp: homes_def)
    then obtain i where "i < fr_size r" "x = fr_addr r + i \<or> x = fr_osb r + i" by (force simp: home_def le_iff_add)
    then show ?thesis using r r'(1) load8_mapped unfolding region_ok_def by (metis snd_conv)
  qed
  then have apart: "homes rs \<inter> copies l = {}" using l(7) by (metis disjoint_iff)
  define v2 where "v2 = fold unmap_region rs v1"
  have v2: "v2 x = (if x \<in> homes rs then None else v1 x)" for x using fold_unmap_region [OF pg] by (simp add: v2_def homes_def)
  have "process_ok (w1, v2)" using process_ok_kept [OF objs_kept_refl l(4)] v2 by simp
  moreover have "all_copied (w1, v2) b l" 
    by (rule all_copied_kept [OF l(5) objs_kept_refl]) (use v2 apart in auto)
  ultimately have "saved (w1, v2) b l" using l(1,6) pg a apart by (simp add: saved_def)
  moreover have "save_content k ms (w, v) = Some (map snd l, w1, v2)" by (simp add: save_content_def rs [symmetric] l(2) v2_def)
  ultimately show ?thesis using l v2 by (intro exI [of _ l] exI [of _ w1] exI [of _ v2]) simp
qed

lemma restore_content_restores:
  assumes "os_good k" and "saved (w, v) b l" and "map fst l = concat (map regions_of ms)"
  shows "\<exists>w' v'. restore_content k ms (map snd l) (w, v) = Some (w', v') \<and> objs_kept w w' \<and>
    (\<forall>r \<in> set (map fst l). \<exists>ob. restored (w', v') b r ob) \<and>
    (\<forall>x. x \<notin> homes (map fst l) \<longrightarrow> v' x = (if x \<in> copies l then None else v x))"
  using restore_regions_restore [OF assms(1,2)] unfolding restore_content_def assms(3) [symmetric] zip_map_fst_snd by blast

lemma kernel_fork_copies:
  assumes "process_ok (w, v)"
  shows "\<exists>w' v'. kernel_fork (w, v) = (w', v') \<and> objs_kept w w' \<and> process_ok (w', v') \<and>
    (\<forall>x. load8 (w', v') x = load8 (w, v) x) \<and> (\<forall>b l. saved (w, v) b l \<longrightarrow> saved (w', v') b l)"
proof -
  obtain w' v' where f: "kernel_fork (w, v) = (w', v')" by (cases "kernel_fork (w, v)")
  let ?n = "n_objs w"
  have w': "n_objs w' = 2 * ?n" "objs w' ob = (if ?n \<le> ob \<and> ob < 2 * ?n then objs w (ob - ?n) else objs w ob)"
    "is_private w' ob = (if ?n \<le> ob \<and> ob < 2 * ?n then is_private w (ob - ?n) else is_private w ob)" for ob
    using f by (auto simp: kernel_fork_def Let_def)
  have v': "v' x = map_option (\<lambda>(ob, rest). (if is_private w ob then ?n + ob else ob, rest)) (v x)" for x
    using f by (auto simp: kernel_fork_def Let_def)
  have kept: "objs_kept w w'" by (simp add: objs_kept_def w')
  have dom: "dom v' = dom v" by (auto simp: v' dom_def)
  have ob: "ob < ?n" if "v x = Some (ob, q)" for x ob q using process_okD [OF assms that] by simp
  have ok: "process_ok (w', v')"
    using assms dom by (auto simp: process_ok_def w'(1) v' dest: ob split: if_splits)
  moreover have "load8 (w', v') x = load8 (w, v) x" for x
  proof (cases "v x")
    case None
    then show ?thesis by (simp add: load8_def v')
  next
    case (Some q)
    obtain a off pr where q: "q = (a, off, pr)" by (cases q)
    then have "a < ?n" using ob Some by simp
    then show ?thesis using Some q by (simp add: load8_def v' w')
  qed
  moreover have "copy_at (w', v') c m b" if "copy_at (w, v) c m b" for c m b
  proof -
    obtain ob where "is_private w ob" "ob < ?n" "\<forall>i < m. v (c + i) = Some (ob, i, PROT_WRITE OR PROT_READ) \<and> objs w ob i = b i"
      using \<open>copy_at (w, v) c m b\<close> by (auto simp: copy_at_def)
    then show ?thesis unfolding copy_at_def by (intro exI [of _ "?n + ob"]) (simp add: w' v')
  qed
  then have "saved (w', v') b l" if "saved (w, v) b l" for b l
    using that ok unfolding saved_def all_copied_def by auto
  ultimately show ?thesis using f kept by blast
qed


text \<open>Seen from the first process, the second address of a region is where its code is patched: the write shows at the first
  address, which is not writable, and nowhere in the second process.\<close>

definition patches_alone :: "world \<Rightarrow> view \<Rightarrow> view \<Rightarrow> fork_region \<Rightarrow> bool" where
  "patches_alone w v v' r \<longleftrightarrow> (\<forall>i < fr_size r. \<forall>b. store8 (fr_addr r + i) b (w, v) = None \<and>
     (\<exists>w'. store8 (fr_osb r + i) b (w, v) = Some (w', v) \<and> load8 (w', v) (fr_addr r + i) = Some b \<and>
       (\<forall>x. load8 (w', v') x = load8 (w, v') x)))"

lemma patches_aloneD: "patches_alone w v v' r \<Longrightarrow> i < fr_size r \<Longrightarrow>
  \<exists>w'. store8 (fr_osb r + i) y (w, v) = Some (w', v) \<and> load8 (w', v) (fr_addr r + i) = Some y \<and> (\<forall>x. load8 (w', v') x = load8 (w, v') x)"
  unfolding patches_alone_def by blast

lemma restored_patches_alone:
  assumes r: "restored (w, v) b r ob" and pr: "fr_prot r AND 7 \<noteq> 0" "fr_prot r AND PROT_WRITE = 0" and v': "\<forall>x q. v' x = Some q \<longrightarrow> fst q \<noteq> ob"
  shows "patches_alone w v v' r"
  unfolding patches_alone_def
proof (intro allI impI conjI)
  fix i y assume i: "i < fr_size r"
  then have m: "v (fr_addr r + i) = Some (ob, i, fr_prot r)" "v (fr_osb r + i) = Some (ob, i, PROT_WRITE)"
    using r by (simp_all add: restored_def)
  show "store8 (fr_addr r + i) y (w, v) = None" using m pr by (simp add: store8_def)
  let ?w = "w\<lparr> objs := (objs w)(ob := (objs w ob)(i := y)) \<rparr>"
  have "store8 (fr_osb r + i) y (w, v) = Some (?w, v)" using m by (simp add: store8_def PROT_WRITE_def)
  moreover have "load8 (?w, v) (fr_addr r + i) = Some y" using m pr by (simp add: load8_def)
  moreover have "load8 (?w, v') x = load8 (w, v') x" for x
  proof (cases "v' x")
    case None
    then show ?thesis by (simp add: load8_def)
  next
    case (Some q)
    then have "fst q \<noteq> ob" using v' by blast
    then show ?thesis using Some by (cases q) (simp add: load8_def)
  qed
  ultimately show "\<exists>w'. store8 (fr_osb r + i) y (w, v) = Some (w', v) \<and> load8 (w', v) (fr_addr r + i) = Some y \<and>
    (\<forall>x. load8 (w', v') x = load8 (w, v') x)" by blast
qed

lemma regions_of_prot:
  assumes "r \<in> set (concat (map regions_of ms))"
  shows "fr_prot r AND 7 \<noteq> 0" "fr_prot r AND PROT_WRITE = 0"
  using assms by (auto simp: regions_of_def PROT_EXEC_def PROT_READ_def PROT_WRITE_def split: if_splits)

text \<open>After restoring, everything reads as before but the second addresses.\<close>

definition osb_areas :: "fork_region list \<Rightarrow> nat set" where
  "osb_areas rs = (\<Union>r \<in> set rs. {fr_osb r..<fr_osb r + fr_size r})"

lemma reads_restored:
  assumes r: "\<forall>r \<in> set rs. \<exists>ob. restored p b r ob" and b: "b = (\<lambda>r i. the (load8 q (fr_addr r + i)))"
    and ok: "\<forall>r \<in> set rs. region_ok q r" and pr: "\<forall>r \<in> set rs. fr_prot r AND 7 \<noteq> 0"
    and rest: "\<forall>x. x \<notin> homes rs \<longrightarrow> load8 p x = load8 q x" and x: "x \<notin> osb_areas rs"
  shows "load8 p x = load8 q x"
proof (cases "x \<in> homes rs")
  case True
  then obtain r where rr: "r \<in> set rs" "x \<in> {fr_addr r..<fr_addr r + fr_size r}"
    using x by (auto simp: homes_def home_def osb_areas_def)
  then obtain i where i: "i < fr_size r" "x = fr_addr r + i" by (force simp: le_iff_add)
  obtain ob where "restored p b r ob" using r rr(1) by blast
  then have "load8 p x = Some (b r i)" using i pr rr(1) by (simp add: restored_def load8_def)
  moreover have "load8 q x = Some (b r i)" using ok rr(1) i b unfolding region_ok_def by simp
  ultimately show ?thesis by simp
qed (use rest in simp)

lemma restored_rest:
  assumes "process_ok (w, v)" and "objs_kept w w'" and "\<forall>x. x \<notin> homes rs \<longrightarrow> v' x = (if x \<in> copies l then None else v x)"
    and "\<forall>x \<in> copies l. load8 q x = None" and "\<forall>x. x \<notin> homes rs \<longrightarrow> x \<notin> copies l \<longrightarrow> load8 (w, v) x = load8 q x" and "x \<notin> homes rs"
  shows "load8 (w', v') x = load8 q x"
proof (cases "x \<in> copies l")
  case True
  then have "load8 q x = None" "v' x = None" using assms(3,4,6) by simp_all
  then show ?thesis by (simp add: load8_def)
next
  case False
  then have "v' x = v x" "load8 (w, v) x = load8 q x" using assms(3,5,6) by simp_all
  then show ?thesis using load8_kept [OF assms(2,1)] by simp
qed

lemma side_entries:
  assumes "side_restored w' v' b l P v" and "process_ok (w, v)" and "v' x = Some q"
  shows "fst q \<in> P \<or> fst q < n_objs w"
proof (cases "x \<in> homes (map fst l)")
  case True
  then obtain r where r: "r \<in> set (map fst l)" "x \<in> home r" by (auto simp: homes_def)
  then obtain i where "i < fr_size r" "x = fr_addr r + i \<or> x = fr_osb r + i" by (force simp: home_def le_iff_add)
  moreover obtain ob where "ob \<in> P" "restored (w', v') b r ob" using assms(1) r(1) unfolding side_restored_def by blast
  ultimately show ?thesis using assms(3) unfolding restored_def by fastforce
next
  case False
  then have "v x = Some q" using assms(1,3) by (simp add: side_restored_def split: if_splits)
  then show ?thesis using process_okD [OF assms(2)] by blast
qed

text \<open>What both sides of a fork share, and where their code lives: the parent's regions are behind objects of \<open>P\<close>, the child's
  behind objects of \<open>C\<close>, and neither maps the objects of the other.\<close>

definition forked :: "process \<Rightarrow> fork_region list \<Rightarrow> (fork_region \<Rightarrow> mem) \<Rightarrow> nat set \<Rightarrow> nat set \<Rightarrow> world \<Rightarrow> view \<Rightarrow> view \<Rightarrow> bool" where
  "forked p rs b P C w vp vc \<longleftrightarrow>
     (\<forall>r \<in> set rs. \<exists>ob \<in> P. restored (w, vp) b r ob) \<and> (\<forall>r \<in> set rs. \<exists>ob \<in> C. restored (w, vc) b r ob) \<and>
     (\<forall>x q. vp x = Some q \<longrightarrow> fst q \<notin> C) \<and> (\<forall>x q. vc x = Some q \<longrightarrow> fst q \<notin> P) \<and>
     (\<forall>x. x \<notin> homes rs \<longrightarrow> load8 (w, vp) x = load8 p x \<and> load8 (w, vc) x = load8 p x)"

lemma both_restored_forked:
  assumes r: "both_restored b w w' l v vp l u vc" and p: "process_ok (w, v)" "process_ok (w, u)"
    and none: "\<forall>x \<in> copies l. load8 q x = None"
    and rest: "\<forall>x. x \<notin> homes (map fst l) \<longrightarrow> x \<notin> copies l \<longrightarrow> load8 (w, v) x = load8 q x \<and> load8 (w, u) x = load8 q x"
  shows "\<exists>P C. forked q (map fst l) b P C w' vp vc"
proof -
  obtain P C where pc: "P \<subseteq> new_objects w w'" "C \<subseteq> new_objects w w'" "P \<inter> C = {}" "side_restored w' vp b l P v"
      "side_restored w' vc b l C u" and kept: "objs_kept w w'"
    using r unfolding both_restored_def by blast
  have old: "ob \<notin> P \<and> ob \<notin> C" if "ob < n_objs w" for ob using pc(1,2) that by (auto simp: new_objects_def)
  have "fst e \<notin> C" if "vp x = Some e" for x e using side_entries [OF pc(4) p(1) that] old pc(3) by blast
  moreover have "fst e \<notin> P" if "vc x = Some e" for x e using side_entries [OF pc(5) p(2) that] old pc(3) by blast
  moreover have "load8 (w', vp) x = load8 q x" if "x \<notin> homes (map fst l)" for x
    by (rule restored_rest [OF p(1) kept _ none _ that]) (use pc(4) rest in \<open>simp_all add: side_restored_def\<close>)
  moreover have "load8 (w', vc) x = load8 q x" if "x \<notin> homes (map fst l)" for x
    by (rule restored_rest [OF p(2) kept _ none _ that]) (use pc(5) rest in \<open>simp_all add: side_restored_def\<close>)
  ultimately have "forked q (map fst l) b P C w' vp vc"
    using pc(4,5) unfolding forked_def side_restored_def by blast
  then show ?thesis by blast
qed

lemma rock_fork_splits:
  assumes k: "os_good k" and p: "process_ok (w, v)" and rs: "rs = concat (map regions_of ms)" and r: "\<forall>r \<in> set rs. region_ok (w, v) r"
    and a: "regions_apart rs" and b: "b = (\<lambda>r i. the (load8 (w, v) (fr_addr r + i)))"
  shows "\<exists>w' vp vc P C. rock_fork k sched True ms (w, v) = Some (w', vp, Some vc) \<and> forked (w, v) rs b P C w' vp vc"
proof -
  obtain l w1 v1 where l: "map fst l = rs" "save_content k ms (w, v) = Some (map snd l, w1, v1)" "saved (w1, v1) b l" "objs_kept w w1"
    "\<forall>x \<in> copies l. v x = None" "\<forall>x. x \<notin> homes rs \<longrightarrow> x \<notin> copies l \<longrightarrow> v1 x = v x"
    using save_content_saves [OF k p rs r a b] by blast
  have ok: "process_ok (w1, v1)" using l(3) by (simp add: saved_def)
  obtain w2 v2 where f: "kernel_fork (w1, v1) = (w2, v2)" "objs_kept w1 w2" "process_ok (w2, v2)"
    "\<forall>x. load8 (w2, v2) x = load8 (w1, v1) x" "\<forall>b l. saved (w1, v1) b l \<longrightarrow> saved (w2, v2) b l"
    using kernel_fork_copies [OF ok] by blast
  have none: "\<forall>x \<in> copies l. load8 (w, v) x = None" using l(5) by (simp add: load8_def)
  have "load8 (w1, v1) x = load8 (w, v) x" if "x \<notin> homes rs" "x \<notin> copies l" for x
    using load8_kept [OF l(4) p] l(6) that by simp
  then have rest: "\<forall>x. x \<notin> homes (map fst l) \<longrightarrow> x \<notin> copies l \<longrightarrow> load8 (w2, v1) x = load8 (w, v) x \<and> load8 (w2, v2) x = load8 (w, v) x"
    using load8_kept [OF f(2) ok] f(4) l(1) by simp
  have s1: "saved (w2, v1) b l" by (rule saved_kept [OF l(3) f(2)])
  then have ok1: "process_ok (w2, v1)" by (simp add: saved_def)
  have s2: "saved (w2, v2) b l" using f(5) l(3) by blast
  obtain w3 vp vc where t: "restore_both k sched l l (w2, v1, v2) = Some (w3, vp, vc)" "both_restored b w2 w3 l v1 vp l v2 vc"
    using restore_both_restores [OF k s1 s2] by blast
  obtain P C where "forked (w, v) (map fst l) b P C w3 vp vc" using both_restored_forked [OF t(2) ok1 f(3) none rest] by blast
  moreover have "zip (concat (map regions_of ms)) (map snd l) = l" unfolding rs [symmetric] l(1) [symmetric] by (rule zip_map_fst_snd)
  ultimately show ?thesis using l(1,2) f(1) t(1) by (auto simp: rock_fork_def)
qed

text \<open>A failed system call: the process has its memory back.\<close>

lemma rock_fork_recovers:
  assumes k: "os_good k" and p: "process_ok (w, v)" and rs: "rs = concat (map regions_of ms)" and r: "\<forall>r \<in> set rs. region_ok (w, v) r"
    and a: "regions_apart rs"
  shows "\<exists>w' v'. rock_fork k sched False ms (w, v) = Some (w', v', None) \<and> (\<forall>x. x \<notin> osb_areas rs \<longrightarrow> load8 (w', v') x = load8 (w, v) x)"
proof -
  define b :: "fork_region \<Rightarrow> mem" where b: "b = (\<lambda>r i. the (load8 (w, v) (fr_addr r + i)))"
  obtain l w1 v1 where l: "map fst l = rs" "save_content k ms (w, v) = Some (map snd l, w1, v1)" "saved (w1, v1) b l" "objs_kept w w1"
    "\<forall>x \<in> copies l. v x = None" "\<forall>x. x \<notin> homes rs \<longrightarrow> x \<notin> copies l \<longrightarrow> v1 x = v x"
    using save_content_saves [OF k p rs r a b] by blast
  have ok: "process_ok (w1, v1)" using l(3) by (simp add: saved_def)
  obtain w2 v2 where t: "restore_content k ms (map snd l) (w1, v1) = Some (w2, v2)" "objs_kept w1 w2"
    "\<forall>r \<in> set rs. \<exists>ob. restored (w2, v2) b r ob" "\<forall>x. x \<notin> homes rs \<longrightarrow> v2 x = (if x \<in> copies l then None else v1 x)"
    using restore_content_restores [OF k l(3), of ms] l(1) rs by auto
  have none: "\<forall>x \<in> copies l. load8 (w, v) x = None" using l(5) by (simp add: load8_def)
  have "load8 (w1, v1) x = load8 (w, v) x" if "x \<notin> homes rs" "x \<notin> copies l" for x
    using load8_kept [OF l(4) p] l(6) that by simp
  then have "\<forall>x. x \<notin> homes rs \<longrightarrow> load8 (w2, v2) x = load8 (w, v) x"
    using restored_rest [OF ok t(2,4) none] by blast
  moreover have "\<forall>r \<in> set rs. fr_prot r AND 7 \<noteq> 0" using regions_of_prot by (simp add: rs)
  ultimately have "\<forall>x. x \<notin> osb_areas rs \<longrightarrow> load8 (w2, v2) x = load8 (w, v) x"
    using reads_restored [OF t(3) b r] by blast
  moreover have "rock_fork k sched False ms (w, v) = Some (w2, v2, None)" using l(2) t(1) by (simp add: rock_fork_def)
  ultimately show ?thesis by blast
qed

text \<open>Both processes read what was there before, and patch for themselves.\<close>

lemma rock_fork_isolated:
  assumes k: "os_good k" and p: "process_ok (w, v)" and rs: "rs = concat (map regions_of ms)" and r: "\<forall>r \<in> set rs. region_ok (w, v) r"
    and a: "regions_apart rs"
  shows "\<exists>w' vp vc. rock_fork k sched True ms (w, v) = Some (w', vp, Some vc) \<and>
    (\<forall>x. x \<notin> osb_areas rs \<longrightarrow> load8 (w', vp) x = load8 (w, v) x \<and> load8 (w', vc) x = load8 (w, v) x) \<and>
    (\<forall>r \<in> set rs. patches_alone w' vp vc r \<and> patches_alone w' vc vp r)"
proof -
  define b :: "fork_region \<Rightarrow> mem" where b: "b = (\<lambda>r i. the (load8 (w, v) (fr_addr r + i)))"
  obtain w' vp vc P C where f: "rock_fork k sched True ms (w, v) = Some (w', vp, Some vc)" and s: "forked (w, v) rs b P C w' vp vc"
    using rock_fork_splits [OF k p rs r a b] by blast
  have prot: "fr_prot r AND 7 \<noteq> 0" "fr_prot r AND PROT_WRITE = 0" if "r \<in> set rs" for r
    using regions_of_prot [of r ms] that by (simp_all add: rs)
  have reads: "load8 (w', vp) x = load8 (w, v) x" "load8 (w', vc) x = load8 (w, v) x" if "x \<notin> osb_areas rs" for x
    by (rule reads_restored [OF _ b r _ _ that]; use s prot(1) in \<open>unfold forked_def, blast\<close>)+
  have "patches_alone w' vp vc r \<and> patches_alone w' vc vp r" if q: "r \<in> set rs" for r
  proof
    obtain ob where ob: "ob \<in> P" "restored (w', vp) b r ob" using s q unfolding forked_def by blast
    have "\<forall>x q. vc x = Some q \<longrightarrow> fst q \<noteq> ob" using s ob(1) unfolding forked_def by metis
    then show "patches_alone w' vp vc r" by (rule restored_patches_alone [OF ob(2) prot [OF q]])
    obtain oc where oc: "oc \<in> C" "restored (w', vc) b r oc" using s q unfolding forked_def by blast
    have "\<forall>x q. vp x = Some q \<longrightarrow> fst q \<noteq> oc" using s oc(1) unfolding forked_def by metis
    then show "patches_alone w' vc vp r" by (rule restored_patches_alone [OF oc(2) prot [OF q]])
  qed
  then show ?thesis using f reads by blast
qed

section \<open>A kernel that refuses\<close>

text \<open>The same kernel without refusals: where it gives no answer, it maps behind everything that is mapped.\<close>

definition top_place :: "view \<Rightarrow> nat" where
  "top_place v = 4096 * Suc (Max (insert 0 (dom v)))"

lemma top_place_free: "finite (dom v) \<Longrightarrow> aligned (top_place v) \<and> v (top_place v + i) = None"
proof
  assume fin: "finite (dom v)"
  show "aligned (top_place v)" by (simp add: top_place_def aligned_def)
  show "v (top_place v + i) = None"
  proof (rule ccontr)
    assume "v (top_place v + i) \<noteq> None"
    then have "top_place v + i \<le> Max (insert 0 (dom v))" using fin by (intro Max_ge) (auto simp: domIff)
    then show False by (simp add: top_place_def)
  qed
qed

definition total_os :: "os \<Rightarrow> os" where
  "total_os k = \<lparr> place = (\<lambda>v len. case place k v len of Some a \<Rightarrow> Some a | None \<Rightarrow> Some (top_place v)),
     place_at = (\<lambda>_ _ _. True), shm_open = (\<lambda>_ _. Opened), ftruncate_ok = (\<lambda>_ _. True) \<rparr>"

lemma os_good_total: "os_honest k \<Longrightarrow> os_good (total_os k)"
  using top_place_free unfolding os_good_def os_honest_def os_grants_def total_os_def
  by (auto split: option.splits)

lemma shm_loop_total [simp]: "shm_loop (total_os k) w n = Some True"
  by (subst shm_loop.simps) (simp add: total_os_def)

lemma total_simps [simp]:
  "place k v len = Some a \<Longrightarrow> place (total_os k) v len = Some a" "place_at (total_os k) v a len" "ftruncate_ok (total_os k) w len"
  by (simp_all add: total_os_def)

text \<open>Whatever a kernel lets the runtime do, it does with this one as well.\<close>

lemma save_region_total: "save_region k r p = Some q \<Longrightarrow> save_region (total_os k) r p = Some q"
  by (auto simp: save_region_def mmap_anon_def bind_eq_Some_conv)

lemma save_regions_total: "save_regions k rs p = Some q \<Longrightarrow> save_regions (total_os k) rs p = Some q"
proof (induction rs arbitrary: p q)
  case (Cons r rs)
  obtain c p1 cs p2 where "save_region k r p = Some (c, p1)" "save_regions k rs p1 = Some (cs, p2)" "q = (c # cs, p2)"
    using Cons.prems by (auto simp: bind_eq_Some_conv)
  then show ?case using save_region_total Cons.IH by simp
qed simp

lemma save_content_total: "save_content k ms p = Some q \<Longrightarrow> save_content (total_os k) ms p = Some q"
proof -
  assume "save_content k ms p = Some q"
  then obtain cs w v where "save_regions k (concat (map regions_of ms)) p = Some (cs, w, v)"
      "q = (cs, w, fold unmap_region (concat (map regions_of ms)) v)" by (auto simp: save_content_def bind_eq_Some_conv)
  then show ?thesis using save_regions_total by (simp add: save_content_def)
qed

lemma restore_region_total: "restore_region k x p = Some q \<Longrightarrow> restore_region (total_os k) x p = Some q"
  by (cases x) (auto simp: restore_region_def restore_parallel_mapping_def new_object_def bind_eq_Some_conv Let_def)

lemma restore_content_total: "restore_content k ms cs p = Some q \<Longrightarrow> restore_content (total_os k) ms cs p = Some q"
proof -
  have "foldM (restore_region k) l p = Some q \<Longrightarrow> foldM (restore_region (total_os k)) l p = Some q" for l p
    by (induction l arbitrary: p) (auto simp: bind_eq_Some_conv dest: restore_region_total)
  then show "restore_content k ms cs p = Some q \<Longrightarrow> restore_content (total_os k) ms cs p = Some q"
    by (simp add: restore_content_def)
qed

lemma restore_both_total: "restore_both k sched lp lc s = Some q \<Longrightarrow> restore_both (total_os k) sched lp lc s = Some q"
proof (induction k sched lp lc s rule: restore_both.induct)
  case (2 k sched x lp w vp vc)
  then show ?case by (fastforce simp: bind_eq_Some_conv dest: restore_region_total)
next
  case (3 k sched y lc w vp vc)
  then show ?case by (fastforce simp: bind_eq_Some_conv dest: restore_region_total)
next
  case (4 k sched x lp y lc w vp vc)
  show ?case
  proof (cases "sched \<noteq> [] \<and> hd sched")
    case True
    obtain w1 v1 where r: "restore_region k x (w, vp) = Some (w1, v1)" "restore_both k (tl sched) lp (y # lc) (w1, v1, vc) = Some q"
      using "4.prems" unfolding restore_both.simps(4) if_P [OF True] by (auto simp: bind_eq_Some_conv)
    then show ?thesis using "4.IH"(1) [OF True r(1) refl r(2)] restore_region_total [OF r(1)]
      unfolding restore_both.simps(4) if_P [OF True] by simp
  next
    case False
    obtain w1 v1 where r: "restore_region k y (w, vc) = Some (w1, v1)" "restore_both k (tl sched) (x # lp) lc (w1, vp, v1) = Some q"
      using "4.prems" unfolding restore_both.simps(4) if_not_P [OF False] by (auto simp: bind_eq_Some_conv)
    then show ?thesis using "4.IH"(2) [OF False r(1) refl r(2)] restore_region_total [OF r(1)]
      unfolding restore_both.simps(4) if_not_P [OF False] by simp
  qed
qed simp

lemma rock_fork_total:
  assumes "rock_fork k sched ok ms p = Some q"
  shows "rock_fork (total_os k) sched ok ms p = Some q"
proof -
  obtain cs w v where c: "save_content k ms p = Some (cs, w, v)" using assms by (auto simp: rock_fork_def bind_eq_Some_conv)
  note c' = save_content_total [OF c]
  show ?thesis
  proof (cases ok)
    case True
    obtain w1 vc where f: "kernel_fork (w, v) = (w1, vc)" by (cases "kernel_fork (w, v)")
    obtain w2 v2 vc2 where r: "restore_both k sched (zip (concat (map regions_of ms)) cs) (zip (concat (map regions_of ms)) cs) (w1, v, vc) = Some (w2, v2, vc2)"
      "q = (w2, v2, Some vc2)" using assms c f True by (auto simp: rock_fork_def bind_eq_Some_conv Let_def)
    then show ?thesis using c' f True restore_both_total [OF r(1)] by (simp add: rock_fork_def Let_def)
  next
    case False
    then show ?thesis using assms c c' restore_content_total by (fastforce simp: rock_fork_def bind_eq_Some_conv)
  qed
qed

section \<open>Pages that cannot be read\<close>

text \<open>A region of a loaded module: whole pages, mapped at both addresses. Saving reads all of them. A page that is mapped with
  \<open>PROT_NONE\<close>, as \<open>create_code_heap\<close> maps all pages of a code heap, ends the process.\<close>

definition region_mapped :: "process \<Rightarrow> fork_region \<Rightarrow> bool" where
  "region_mapped p r \<longleftrightarrow> pages_ok r \<and> (\<forall>i < fr_size r. snd p (fr_addr r + i) \<noteq> None \<and> snd p (fr_osb r + i) \<noteq> None)"

definition readable :: "process \<Rightarrow> fork_region \<Rightarrow> bool" where
  "readable p r \<longleftrightarrow> (\<forall>i < fr_size r. load8 p (fr_addr r + i) \<noteq> None)"

lemma region_ok_iff: "region_mapped p r \<Longrightarrow> readable p r \<Longrightarrow> region_ok p r"
  by (simp add: region_mapped_def readable_def region_ok_def pages_ok_def)

lemma memcpy_reads: "memcpy_view d s n p = Some p' \<Longrightarrow> snd p' = snd p \<and> (\<forall>i < n. \<forall>q. snd p (s + i) = Some q \<longrightarrow> snd (snd q) AND 7 \<noteq> 0)"
proof (induction d s n p rule: memcpy_view.induct)
  case (1 d s p)
  then show ?case by simp
next
  case (2 d s n p)
  then obtain y p1 where l: "load8 p s = Some y" "store8 d y p = Some p1" "memcpy_view (Suc d) (Suc s) n p1 = Some p'"
    by (auto split: Option.bind_splits)
  have v: "snd p1 = snd p" using l(2) by (auto simp: store8_def split: option.splits if_splits)
  have ih: "snd p' = snd p1" "\<forall>i < n. \<forall>q. snd p1 (Suc s + i) = Some q \<longrightarrow> snd (snd q) AND 7 \<noteq> 0" using "2.IH" [OF l] by blast+
  have "snd (snd q) AND 7 \<noteq> 0" if "i < Suc n" "snd p (s + i) = Some q" for i q
  proof (cases i)
    case 0
    then show ?thesis using l(1) that(2) by (cases q) (auto simp: load8_def split: if_splits)
  next
    case (Suc j)
    then have "j < n" "snd p1 (Suc s + j) = Some q" using that v by simp_all
    then show ?thesis using ih(2) by blast
  qed
  then show ?case using ih(1) v by simp
qed

lemma save_region_reads:
  assumes k: "os_honest k" and fin: "finite (dom v)" and s: "save_region k r (w, v) = Some (c, w', v')"
  shows "finite (dom v')" and "\<forall>x q. v x = Some q \<longrightarrow> v' x = Some q"
    and "\<forall>i < fr_size r. \<forall>q. v (fr_addr r + i) = Some q \<longrightarrow> snd (snd q) AND 7 \<noteq> 0"
proof -
  obtain a where a: "place k v (fr_size r) = Some a" using s by (auto simp: save_region_def mmap_anon_def split: Option.bind_splits)
  then have free: "\<forall>i < round_page (fr_size r). v (a + i) = None" using k fin unfolding os_honest_def by blast
  let ?v = "map_range (n_objs w) a (fr_size r) (PROT_WRITE OR PROT_READ) v"
  have m: "memcpy_view a (fr_addr r) (fr_size r) (snd (new_object True w), ?v) = Some (w', v')"
    using s a(1) by (auto simp: save_region_def mmap_anon_def new_object_def split: Option.bind_splits)
  have old: "?v x = Some q" if "v x = Some q" for x q
  proof -
    have "\<not> (a \<le> x \<and> x < a + round_page (fr_size r))" using free that by (metis add_less_cancel_left le_add_diff_inverse option.distinct(1))
    then show ?thesis using that by (auto simp: map_range_def)
  qed
  have v': "v' = ?v" using memcpy_reads [OF m] by simp
  have "dom ?v \<subseteq> dom v \<union> {a..<a + round_page (fr_size r)}" by (auto simp: map_range_def dom_def)
  then show "finite (dom v')" using fin v' by (meson finite_Un finite_atLeastLessThan finite_subset)
  show "\<forall>x q. v x = Some q \<longrightarrow> v' x = Some q" using old v' by blast
  show "\<forall>i < fr_size r. \<forall>q. v (fr_addr r + i) = Some q \<longrightarrow> snd (snd q) AND 7 \<noteq> 0"
    using memcpy_reads [OF m] old by simp
qed

lemma rock_fork_faults:
  assumes k: "os_honest k" and p: "finite (dom v)" and r: "r \<in> set (concat (map regions_of ms))" "i < fr_size r"
    and v: "v (fr_addr r + i) = Some (ob, off, pr)" "pr AND 7 = 0"
  shows "rock_fork k sched ok ms (w, v) = None"
proof -
  have "save_regions k rs (w, v) = None" if "r \<in> set rs" for rs
    using that p v(1)
  proof (induction rs arbitrary: w v)
    case Nil
    then show ?case by simp
  next
    case (Cons q rs)
    show ?case
    proof (cases "save_region k q (w, v)")
      case None
      then show ?thesis by simp
    next
      case (Some res)
      obtain c w' v' where res: "res = (c, w', v')" by (cases res)
      note s = save_region_reads [OF k Cons.prems(2), of q w c w' v', unfolded Some res, simplified]
      have "q \<noteq> r" using s(3) r(2) Cons.prems(3) v(2) by force
      then have "save_regions k rs (w', v') = None" using Cons.IH Cons.prems(1,3) s(1,2) by auto
      then show ?thesis using Some res by simp
    qed
  qed
  then have "save_regions k (concat (map regions_of ms)) (w, v) = None" using r(1) by blast
  then show ?thesis by (simp add: rock_fork_def save_content_def)
qed

lemma rock_fork_reads:
  assumes k: "os_honest k" and p: "process_ok (w, v)" and run: "rock_fork k sched ok ms (w, v) = Some q"
    and r: "r \<in> set (concat (map regions_of ms))" "region_mapped (w, v) r"
  shows "readable (w, v) r"
  unfolding readable_def
proof (intro allI impI notI)
  fix i assume i: "i < fr_size r" "load8 (w, v) (fr_addr r + i) = None"
  then obtain ob off pr where "v (fr_addr r + i) = Some (ob, off, pr)" "pr AND 7 = 0"
    using r(2) by (fastforce simp: region_mapped_def load8_def split: option.splits if_splits)
  then show False using rock_fork_faults [OF k _ r(1) i(1)] p run by (auto simp: process_ok_def)
qed

section \<open>Properties\<close>

text \<open>C39: \<open>rock_fork\<close> isolates the two processes. Take a kernel that places new mappings only where nothing is mapped, and
  modules whose code and lazy-binding tables are whole mapped pages that do not overlap. Whatever the kernel refuses and in whatever order
  parent and child restore their regions: if \<open>rock_fork\<close> returns, every address that is not in a second mapping
  reads as before the call, in the parent and in the child (or in the only process, if the system call failed), and patching
  works in each of the two through the second mapping only and is not seen by the other. And \<open>rock_fork\<close> returns, if the
  kernel refuses nothing, exactly when every page of the modules can be read: a page of a code heap that has not been opened ends the
  process.\<close>

theorem rock_fork_isolates:
  assumes k: "os_honest k" and p: "process_ok (w, v)" and rs: "rs = concat (map regions_of ms)"
    and r: "\<forall>r \<in> set rs. region_mapped (w, v) r" and a: "regions_apart rs"
  shows "(case rock_fork k sched ok ms (w, v) of
      None \<Rightarrow> \<not> (os_grants k \<and> (\<forall>r \<in> set rs. readable (w, v) r))
    | Some (w', vp, None) \<Rightarrow> \<not> ok \<and> (\<forall>x. x \<notin> osb_areas rs \<longrightarrow> load8 (w', vp) x = load8 (w, v) x)
    | Some (w', vp, Some vc) \<Rightarrow> ok \<and>
        (\<forall>x. x \<notin> osb_areas rs \<longrightarrow> load8 (w', vp) x = load8 (w, v) x \<and> load8 (w', vc) x = load8 (w, v) x) \<and>
        (\<forall>r \<in> set rs. patches_alone w' vp vc r \<and> patches_alone w' vc vp r))
    \<and> (rock_fork k sched ok ms (w, v) \<noteq> None \<longrightarrow> (\<forall>r \<in> set rs. readable (w, v) r))"
proof -
  have rd: "\<forall>r \<in> set rs. readable (w, v) r" if "rock_fork k sched ok ms (w, v) = Some q" for q
    using rock_fork_reads [OF k p that] r rs by blast
  have ok: "\<forall>r \<in> set rs. region_ok (w, v) r" if "\<forall>r \<in> set rs. readable (w, v) r" using that r region_ok_iff by blast
  show ?thesis
  proof (cases "rock_fork k sched ok ms (w, v)")
    case None
    have "rock_fork k sched ok ms (w, v) \<noteq> None" if g: "os_grants k" "\<forall>r \<in> set rs. readable (w, v) r"
    proof -
      have "os_good k" using k g(1) by (simp add: os_good_def)
      then show ?thesis using rock_fork_splits [OF _ p rs ok [OF g(2)] a refl, of k sched] rock_fork_recovers [OF _ p rs ok [OF g(2)] a, of k sched]
        by (cases ok) auto
    qed
    then show ?thesis using None by auto
  next
    case (Some q)
    have all: "\<forall>r \<in> set rs. region_ok (w, v) r" using rd [OF Some] ok by blast
    note good = os_good_total [OF k] and run = rock_fork_total [OF Some]
    show ?thesis
    proof (cases ok)
      case True
      show ?thesis using rock_fork_isolated [OF good p rs all a, of sched] run Some rd [OF Some] True by auto
    next
      case False
      show ?thesis using rock_fork_recovers [OF good p rs all a, of sched] run Some rd [OF Some] False by auto
    qed
  qed
qed

text \<open>A kernel that maps behind everything that is mapped and finds the name of the shared object taken once; a module of one page
  with a lazy-binding table of one page; the child goes first.\<close>

definition top_os :: os where
  "top_os = \<lparr> place = (\<lambda>v len. Some (top_place v)), place_at = (\<lambda>_ _ _. True),
     shm_open = (\<lambda>_ n. if n = 0 then Exists else Opened), ftruncate_ok = (\<lambda>_ _. True) \<rparr>"

lemma top_os_good: "os_honest top_os" "os_grants top_os"
proof -
  show "os_honest top_os" using top_place_free by (simp add: os_honest_def top_os_def)
  show "os_grants top_os" by (auto simp: os_grants_def top_os_def intro!: exI [of _ 1])
qed

definition fork_module :: codemodule where
  "fork_module = alloc_code_module\<lparr> base_addr := 0x10000, osb_base_addr := 0x20000, m_sz := 4096, instrumented := True,
     gotplt := 0x11000, osb_gotplt := 0x21000, gotpltsz := 4096 \<rparr>"

definition fork_world :: world where
  "fork_world = \<lparr> objs = (\<lambda>ob off. if ob = 0 then of_nat off else 0xff), is_private = (\<lambda>_. False), n_objs = 2 \<rparr>"

definition fork_view :: view where
  "fork_view = map_range 0 0x10000 4096 PROT_EXEC (map_range 0 0x20000 4096 PROT_WRITE
     (map_range 1 0x11000 4096 PROT_READ (map_range 1 0x21000 4096 PROT_WRITE (\<lambda>_. None))))"

lemma fork_module_regions: "concat (map regions_of [fork_module]) =
  [\<lparr> fr_addr = 0x10000, fr_osb = 0x20000, fr_size = 4096, fr_prot = PROT_EXEC \<rparr>,
   \<lparr> fr_addr = 0x11000, fr_osb = 0x21000, fr_size = 4096, fr_prot = PROT_READ \<rparr>]"
  by (simp add: fork_module_def regions_of_def)

lemma fork_process_ok: "process_ok (fork_world, fork_view)"
proof -
  have "process_ok (fork_world, \<lambda>_. None)" by (simp add: process_ok_def)
  then show ?thesis unfolding fork_view_def by (intro process_ok_map_range [where w = fork_world]) (simp_all add: fork_world_def)
qed

lemma fork_regions_ok:
  "\<forall>r \<in> set (concat (map regions_of [fork_module])). region_mapped (fork_world, fork_view) r \<and> readable (fork_world, fork_view) r"
  unfolding fork_module_regions
  by (simp add: region_mapped_def readable_def pages_ok_def aligned_def load8_def fork_view_def map_range_def round_page_def PROT_EXEC_def PROT_READ_def)

theorem rock_fork_isolates_witness:
  "\<exists>w vp vc w'. rock_fork top_os [False] True [fork_module] (fork_world, fork_view) = Some (w, vp, Some vc) \<and>
     load8 (w, vc) 0x10005 = Some 5 \<and> load8 (w, vc) 0x11007 = Some 0xff \<and>
     store8 0x20005 0xcc (w, vc) = Some (w', vc) \<and> load8 (w', vc) 0x10005 = Some 0xcc \<and> load8 (w', vp) 0x10005 = Some 5"
proof -
  have a: "regions_apart (concat (map regions_of [fork_module]))"
    unfolding fork_module_regions by (simp add: ranges_apart_def homes_apart_def)
  have m: "\<forall>r \<in> set (concat (map regions_of [fork_module])). region_mapped (fork_world, fork_view) r"
    and rd: "\<forall>r \<in> set (concat (map regions_of [fork_module])). readable (fork_world, fork_view) r" using fork_regions_ok by blast+
  note iso = rock_fork_isolates [OF top_os_good(1) fork_process_ok refl m a, where sched = "[False]" and ok = True]
  obtain w vp vc where f: "rock_fork top_os [False] True [fork_module] (fork_world, fork_view) = Some (w, vp, Some vc)"
    and rd: "\<forall>x. x \<notin> osb_areas (concat (map regions_of [fork_module])) \<longrightarrow>
      load8 (w, vp) x = load8 (fork_world, fork_view) x \<and> load8 (w, vc) x = load8 (fork_world, fork_view) x"
    and pt: "\<forall>r \<in> set (concat (map regions_of [fork_module])). patches_alone w vp vc r \<and> patches_alone w vc vp r"
  proof (cases "rock_fork top_os [False] True [fork_module] (fork_world, fork_view)")
    case None
    then show ?thesis using iso top_os_good(2) rd by simp
  next
    case (Some q)
    obtain w vp c where q: "q = (w, vp, c)" by (cases q)
    show ?thesis using iso Some q that by (cases c) auto
  qed
  have "(0x10005 :: nat) \<notin> osb_areas (concat (map regions_of [fork_module]))" "(0x11007 :: nat) \<notin> osb_areas (concat (map regions_of [fork_module]))"
    unfolding fork_module_regions by (simp_all add: osb_areas_def)
  moreover have "load8 (fork_world, fork_view) 0x10005 = Some 5" "load8 (fork_world, fork_view) 0x11007 = Some 0xff"
    by (simp_all add: load8_def fork_view_def map_range_def round_page_def fork_world_def PROT_EXEC_def PROT_READ_def)
  ultimately have r: "load8 (w, vp) 0x10005 = Some 5" "load8 (w, vc) 0x10005 = Some 5" "load8 (w, vc) 0x11007 = Some 0xff" using rd by simp_all
  have "patches_alone w vc vp \<lparr> fr_addr = 0x10000, fr_osb = 0x20000, fr_size = 4096, fr_prot = PROT_EXEC \<rparr>"
    using pt unfolding fork_module_regions by simp
  from patches_aloneD [OF this, where i = 5 and y = "0xcc"] obtain w' where "store8 (0x20000 + 5) 0xcc (w, vc) = Some (w', vc)" "load8 (w', vc) (0x10000 + 5) = Some 0xcc"
    "\<forall>x. load8 (w', vp) x = load8 (w, vp) x" by auto
  then show ?thesis using f r by auto
qed

end
