(* ===== verification/Spec2Isabelle.thy ===== *)
theory Spec2Isabelle
  imports Gencfg Loader_Correct Memory_Correct Startup_Correct Smoothsort_Correct Mcfi_Mediation Fork_Correct
begin

text \<open>
  MCFI, modular control-flow integrity: the trusted runtime in \<open>src/runtime\<close> and the instrumentation pass of the compiler
  (\<open>X86MCFI.cpp\<close> in \<open>src/compiler/llvm-3.5.0.src/lib/Target/X86\<close>).

  The program. A compiler pass puts a check in front of every indirect branch: the identifier in the
  slot of the branch (table Bary) must equal the identifier at its target (table Tary). The
  runtime lives in the same process, outside of a 4GB sandbox that holds the program. It loads modules, joins
  the control-flow metadata of all of them, builds a graph of admitted branches, numbers its connected components and writes the
  numbers into the tables. It changes the tables while other threads run: modules may be loaded, code may be generated,
  and, for the per-input variant, targets are activated only when the program first
  takes their address or first calls them.

  The theories, in the order in which they build on each other.

  \<^item> \<open>Prelude\<close>: results that may abort (\<open>option\<close>, \<open>CHECK\<close> for \<open>assert\<close>, \<open>foldM\<close> for loops that may
    abort), byte memory (\<open>read64\<close>, \<open>write64\<close>, \<open>memset\<close>), the collections of lemmas.
  \<^item> \<open>Kv\<close>, \<open>Graph\<close> (\<open>include/cfggen/kv.h\<close>, \<open>graph.h\<close>): dictionaries as association lists in insertion order, which
    is the order of iteration of uthash; graphs as dictionaries of dictionaries. The lemmas show lookups after
    updates, that breadth-first search visits the vertices reachable from its start and that the components form a partition.
  \<^item> \<open>Ids\<close> (\<open>cfggen.h\<close>: \<open>gen_mcfi_id\<close> and its helpers): identifiers are 64-bit words whose eight bytes avoid the values
    reserved for padding; equal identifiers mean equal class, and half of a word is the version.
  \<^item> \<open>Module\<close>, \<open>Callgraph\<close> (\<open>cfggen.h\<close>: \<open>build_callgraph\<close>, \<open>build_retgraph\<close>, \<open>merge_mcfi_metainfo\<close>): the
    metadata of a module and the two graphs. The lemmas say which functions a branch of each kind reaches.
  \<^item> \<open>Tables\<close> (\<open>cfggen.h\<close>: \<open>gen_tary\<close>, \<open>gen_bary\<close>; the update in \<open>gen_cfg\<close>): the tables, and the update as a
    sequence of writes of single words, which is what a running thread may observe in between.
  \<^item> \<open>Runtime\<close>, \<open>Gencfg\<close> (\<open>runtime.c\<close>): thread control blocks and the test whether every thread has left the old
    generation, activation and patching of code, and \<open>gen_cfg\<close> itself, with the theorem that joins everything above: the
    addresses that a check admits afterwards are exactly those of active targets in the class of the branch.
  \<^item> \<open>Codeheap\<close> (\<open>runtime.c\<close>): code that a just-in-time compiler installs: the bitmap of instruction starts, the
    verifier (a table-driven automaton that is a parameter), installation, replacement, deletion and move.
  \<^item> \<open>Parser\<close> (\<open>include/cfggen/stringpool.h\<close>, the parsers of \<open>cfggen.h\<close>, \<open>string.c\<close>): interned strings and the text of the metadata sections.
  \<^item> \<open>Smoothsort\<close>, \<open>Smoothsort_Correct\<close> (\<open>utils.c\<close>): \<open>qsort\<close> and \<open>bsearch\<close>.
  \<^item> \<open>Pager\<close>, \<open>Pager_Correct\<close> (\<open>pager.c\<close>): the map of the sandbox's pages, refined to a function from
    pages to attributes.
  \<^item> \<open>Memory\<close>, \<open>Memory_Correct\<close> (\<open>runtime.c\<close>, \<open>main.c\<close>): the memory services of the sandbox over an arbitrary kernel. In every
    sequence of them no mapping is executable, no protection is writable and executable, executable protections stay inside of the
    code heaps, and no request gives write access to the code or the \<open>.got.plt\<close> of a loaded module; pages are unmapped and the
    break is placed only inside of the sandbox, and protections are changed only there and in the guard region behind it. The
    requests are not confined to the sandbox altogether, as lemmas there show.
  \<^item> \<open>Elf\<close>, \<open>Dyncode\<close>, \<open>Loader\<close>, \<open>Loader_Correct\<close> (\<open>elf.h\<close>, \<open>main.c\<close>, \<open>runtime.c\<close>): the structures of an ELF file read from its bytes, metadata
    registered at run time, \<open>load_mcfi_metadata\<close> and \<open>load_elf\<close>; loaded modules are well formed and the patches
    of the loader are the ones that \<open>patch_call\<close> takes back.
  \<^item> \<open>Startup\<close>, \<open>Startup_Correct\<close> (\<open>main.c\<close>): the initial stack of the program.
  \<^item> \<open>Fork\<close>, \<open>Fork_Correct\<close> (\<open>runtime.c\<close>: \<open>rock_fork\<close>, \<open>save_content\<close>, \<open>restore_content\<close>): processes as views on memory objects that hold
    bytes. Parent and child restore in any order, region by region, over a kernel that may refuse; if the fork returns,
    both processes read what was there, and patches of one do not reach the other.
  \<^item> \<open>Mcfi_Text\<close>, \<open>Mcfi_Text_Correct\<close> (\<open>X86MCFI.cpp\<close>, \<open>EmitMCFIInfo\<close> in \<open>X86AsmPrinter.cpp\<close>): the metadata that the
    compiler writes, and that \<open>parse_functions\<close> of the runtime reads back what was written.
  \<^item> \<open>Mcfi_Pass\<close> (\<open>X86MCFI.cpp\<close>): machine functions as blocks in layout order, the blocks of a check, and the loop of the
    pass over returns, indirect branches and changes of the stack pointer.
  \<^item> \<open>Mcfi_Check\<close>: the inserted check executed next to a table update; it joins the pass with \<open>Tables\<close>.
  \<^item> \<open>Mcfi_Mediation\<close>: the loop of the pass ends, for both widths of identifiers. It leaves no return, and an indirect branch
    without a whole check only where it came without an IR instruction (jump tables). In a function with a branch through
    \<open>R11\<close> the registers of a check may coincide.

  How the model corresponds to the code. A pointer that is only compared (interned strings, keys of
  dictionaries) is a 64-bit word. A pointer to a module is its position in the list of modules. Machine integers keep
  their width. \<open>quit\<close> and a failed \<open>assert\<close> are \<open>None\<close>. The table region, the bytes of code outside of the sandbox
  and the bytes of a file are byte memories. The kernel is a function of the history of system calls (in \<open>Fork\<close>: of the
  state, refusals included), and \<open>malloc\<close> is
  a supply of addresses (\<open>alloc\<close>). Static variables and globals are fields of the state.

  Bounds and fuel. Loops of the C code are structural recursions or functions with a measure; busy waits are
  partial functions, with theorems that state when they return. \<open>qsort\<close> is proved for arrays of
  fewer than \<open>2 ^ 32\<close> elements, the bound under which its table of Leonardo numbers suffices. The identifiers of one generation
  are limited by the number of half identifiers, \<open>125 ^ 4\<close>, which \<open>half_id_space\<close> computes. The loop of the compiler pass over the blocks,
  a partial function because blocks are added while it runs, is shown to end by a weight of the blocks that
  are left; the inserted check decides in at most thirteen instructions while the tables rest.

  Where a definition is stranger than expected, the code is: \<open>strlen\<close> counts the terminator,
  \<open>which_area\<close> never advances its pointer, a case of \<open>reg_cfg_metadata\<close> falls through. Such places are modelled as they are and
  lemmas next to them state the consequence.

  Not modelled. Formatted output (\<open>vsprintf.c\<close>, from the Linux kernel), the allocator (\<open>malloc.c\<close>, from musl), one-line
  system call wrappers that nothing modelled uses, the assembly entry points, the statistics of \<open>COLLECT_STAT\<close> and the build option \<open>NOCFI\<close>.
  Of the compiler only the instrumentation pass is modelled, for AMD64 (the other variants stop the compiler); the
  numbers of registers and opcodes and the flags of opcodes come from generated files and are parameters, like the
  demangler of the C++ runtime, and implicit operands of instructions are left out. The rest of LLVM, binutils and the
  libraries next to the runtime are patched third-party code.
\<close>

end
